(* ===== verification/Prelude.thy ===== *)
theory Prelude
  imports Main "HOL-Library.Word"
begin

text \<open>
  Shared vocabulary of the development: the machine integer types the C sources use, the
  collections of simplification rules the component theories extend, byte/word helpers in the
  way the C code composes integers from bytes, and generic facts on lists, options and rings that
  several components need.
\<close>

unbundle bit_operations_syntax

section \<open>Integer types\<close>

type_synonym u8 = "8 word"
type_synonym u16 = "16 word"
type_synonym u32 = "32 word"
type_synonym u64 = "64 word"

section \<open>Collections\<close>

named_theorems frame_simps "fields an operation leaves alone"
named_theorems kbd_simps "evaluation of the keyboard services"
named_theorems disk_simps "evaluation of the disk services"

section \<open>Bytes of a word\<close>

definition lo8 :: "u16 \<Rightarrow> u8" where
  "lo8 w = ucast w"

definition hi8 :: "u16 \<Rightarrow> u8" where
  "hi8 w = ucast (drop_bit 8 w)"

definition mk16 :: "u8 \<Rightarrow> u8 \<Rightarrow> u16" where
  \<comment> \<open>\<open>mk16 hi lo\<close> is C's \<open>(hi << 8) | lo\<close>\<close>
  "mk16 h l = push_bit 8 (ucast h) OR ucast l"

lemma lo8_mk16 [simp]: "lo8 (mk16 h l) = l"
  unfolding lo8_def mk16_def by (rule bit_word_eqI) (auto simp: bit_simps)

lemma hi8_mk16 [simp]: "hi8 (mk16 h l) = h"
  unfolding hi8_def mk16_def by (rule bit_word_eqI) (auto simp: bit_simps dest: bit_imp_le_length)

lemma mk16_hi_lo [simp]: "mk16 (hi8 w) (lo8 w) = w"
  unfolding lo8_def hi8_def mk16_def by (rule bit_word_eqI) (auto simp: bit_simps)

lemma mk16_inject [simp]: "mk16 h l = mk16 h' l' \<longleftrightarrow> h = h' \<and> l = l'"
  by (metis hi8_mk16 lo8_mk16)

section \<open>Rings\<close>

text \<open>
  The contents of a ring of \<open>n\<close> slots, read from slot \<open>i\<close> up to (excluding) slot \<open>j\<close>,
  going round.
\<close>

definition ring_len :: "nat \<Rightarrow> nat \<Rightarrow> nat \<Rightarrow> nat" where
  "ring_len n i j = (if i \<le> j then j - i else j + n - i)"

definition ring_list :: "(nat \<Rightarrow> 'a) \<Rightarrow> nat \<Rightarrow> nat \<Rightarrow> nat \<Rightarrow> 'a list" where
  "ring_list f n i j = map (\<lambda>k. f ((i + k) mod n)) [0..<ring_len n i j]"

lemma length_ring_list [simp]: "length (ring_list f n i j) = ring_len n i j"
  by (simp add: ring_list_def)

lemma ring_list_empty: "ring_list f n i i = []"
  by (simp add: ring_list_def ring_len_def)

lemma ring_list_Nil_iff: "i < n \<Longrightarrow> j < n \<Longrightarrow> ring_list f n i j = [] \<longleftrightarrow> i = j"
  by (auto simp: ring_list_def ring_len_def)

lemma ring_len_less: "i < n \<Longrightarrow> j < n \<Longrightarrow> ring_len n i j < n"
  by (auto simp: ring_len_def)

lemma Suc_mod_eq: "j < n \<Longrightarrow> Suc j mod n = (if Suc j = n then 0 else Suc j)"
  by auto

lemma ring_full_iff:
  "i < n \<Longrightarrow> j < n \<Longrightarrow> Suc j mod n = i \<longleftrightarrow> Suc (ring_len n i j) = n"
  by (auto simp: ring_len_def Suc_mod_eq)

lemma ring_len_enq:
  "i < n \<Longrightarrow> j < n \<Longrightarrow> Suc j mod n \<noteq> i \<Longrightarrow> ring_len n i (Suc j mod n) = Suc (ring_len n i j)"
  by (auto simp: ring_len_def Suc_mod_eq split: if_splits)

lemma ring_len_deq:
  "i < n \<Longrightarrow> j < n \<Longrightarrow> i \<noteq> j \<Longrightarrow> ring_len n i j = Suc (ring_len n (Suc i mod n) j)"
  by (auto simp: ring_len_def Suc_mod_eq split: if_splits)

lemma ring_len_last: "i < n \<Longrightarrow> j < n \<Longrightarrow> (i + ring_len n i j) mod n = j"
  by (auto simp: ring_len_def)

lemma ring_pos_other:
  assumes "i < n" "j < n" "k < ring_len n i j"
  shows "(i + k) mod n \<noteq> j"
proof (cases "i \<le> j")
  case True
  with assms show ?thesis by (auto simp: ring_len_def)
next
  case False
  show ?thesis
  proof (cases "i + k < n")
    case True
    with False show ?thesis by simp
  next
    case nw: False
    with assms have "(i + k) mod n = i + k - n"
      by (simp add: le_mod_geq ring_len_def split: if_splits)
    with assms nw False show ?thesis by (auto simp: ring_len_def)
  qed
qed

lemma ring_list_deq:
  assumes "i < n" "j < n" "i \<noteq> j"
  shows "ring_list f n i j = f i # ring_list f n (Suc i mod n) j"
proof -
  have shift: "(Suc i mod n + k) mod n = Suc (i + k) mod n" for k
    by (simp add: mod_simps)
  have "[0..<Suc m] = 0 # map Suc [0..<m]" for m
    by (simp add: upt_conv_Cons map_Suc_upt del: upt_Suc)
  with assms show ?thesis
    by (simp add: ring_list_def ring_len_deq shift comp_def del: upt_Suc)
qed

lemma ring_list_enq:
  assumes "i < n" "j < n" "Suc j mod n \<noteq> i"
  shows "ring_list (f(j := x)) n i (Suc j mod n) = ring_list f n i j @ [x]"
  using assms by (simp add: ring_list_def ring_len_enq ring_len_last ring_pos_other)

lemma ring_list_cong:
  assumes "\<And>k. k < n \<Longrightarrow> f k = g k" and "0 < n"
  shows "ring_list f n i j = ring_list g n i j"
  using assms by (simp add: ring_list_def)

end
