(* ===== verification/Machine.thy ===== *)
theory Machine
  imports Prelude
begin

text \<open>
  The machine the PC BIOS runs on, as its C code sees it (\<open>Devices/PC/BIOS/inlines.h\<close>,
  \<open>biosint.h\<close>, \<open>bios.c\<close>): real-mode memory behind segment:offset accesses, the I/O ports,
  the CPU's interrupt flag, the INT 10h teletype and the host's debug log.

  The devices behind the ports are not BIOS code: they are a parameter \<open>hw\<close> of every
  definition that touches a port, a record of functions on an arbitrary device state. Polling
  loops with a counter are \<open>poll_bounded\<close>; those without are \<open>poll_while\<close>, whose value is
  \<open>None\<close> when the device never lets them end.
\<close>

section \<open>Devices and machine state\<close>

record 'd hw =
  hw_inb :: "u16 \<Rightarrow> 'd \<Rightarrow> u8 \<times> 'd"
  hw_inw :: "u16 \<Rightarrow> 'd \<Rightarrow> u16 \<times> 'd"
  hw_ind :: "u16 \<Rightarrow> 'd \<Rightarrow> u32 \<times> 'd"
  hw_outb :: "u16 \<Rightarrow> u8 \<Rightarrow> 'd \<Rightarrow> 'd"
  hw_outw :: "u16 \<Rightarrow> u16 \<Rightarrow> 'd \<Rightarrow> 'd"
  hw_outd :: "u16 \<Rightarrow> u32 \<Rightarrow> 'd \<Rightarrow> 'd"

record 'd machine =
  ram :: "u32 \<Rightarrow> u8"
  dev :: 'd
  tty :: "u8 list"
  blog :: "(string \<times> u16 list) list"
  iflag :: bool

text \<open>How a service can end without returning to its caller.\<close>

datatype 'm stop =
    Halted 'm      \<comment> \<open>\<open>BX_PANIC\<close>: message printed, then \<open>halt_forever\<close>\<close>
  | Warm_boot 'm   \<comment> \<open>\<open>jmp_post\<close>\<close>
  | Diverges       \<comment> \<open>a loop or recursion of the code that never ends\<close>

section \<open>Memory\<close>

definition lin :: "u16 \<Rightarrow> u16 \<Rightarrow> u32" where
  "lin seg off = push_bit 4 (ucast seg) + ucast off"

definition read_byte :: "u16 \<Rightarrow> u16 \<Rightarrow> 'd machine \<Rightarrow> u8" where
  "read_byte seg off m = ram m (lin seg off)"

definition write_byte :: "u16 \<Rightarrow> u16 \<Rightarrow> u8 \<Rightarrow> 'd machine \<Rightarrow> 'd machine" where
  "write_byte seg off v m = m\<lparr>ram := (ram m)(lin seg off := v)\<rparr>"

definition read_word :: "u16 \<Rightarrow> u16 \<Rightarrow> 'd machine \<Rightarrow> u16" where
  "read_word seg off m = mk16 (read_byte seg (off + 1) m) (read_byte seg off m)"

definition write_word :: "u16 \<Rightarrow> u16 \<Rightarrow> u16 \<Rightarrow> 'd machine \<Rightarrow> 'd machine" where
  "write_word seg off v m = write_byte seg (off + 1) (hi8 v) (write_byte seg off (lo8 v) m)"

definition read_dword :: "u16 \<Rightarrow> u16 \<Rightarrow> 'd machine \<Rightarrow> u32" where
  "read_dword seg off m =
     push_bit 16 (ucast (read_word seg (off + 2) m)) OR ucast (read_word seg off m)"

definition write_dword :: "u16 \<Rightarrow> u16 \<Rightarrow> u32 \<Rightarrow> 'd machine \<Rightarrow> 'd machine" where
  "write_dword seg off v m =
     write_word seg (off + 2) (ucast (drop_bit 16 v)) (write_word seg off (ucast v) m)"

lemma unat_lin: "unat (lin seg off) = 16 * unat seg + unat off"
proof -
  have s: "unat seg < 65536" and o: "unat off < 65536"
    using unsigned_less [of seg] unsigned_less [of off] by simp_all
  have "unat (push_bit 4 (ucast seg :: u32)) = 16 * unat seg"
    using s by (simp add: push_bit_eq_mult unat_mult_lem [THEN iffD1] unsigned_ucast_eq
        take_bit_eq_mod unat_word_ariths)
  moreover have "unat (ucast off :: u32) = unat off"
    using o by (simp add: unsigned_ucast_eq take_bit_eq_mod)
  ultimately show ?thesis
    unfolding lin_def using s o by (simp add: unat_word_ariths)
qed

lemma lin_inject [simp]: "lin seg a = lin seg b \<longleftrightarrow> a = b"
  by (metis add_left_cancel unat_lin word_unat_eq_iff)

lemma unat_add_off:
  fixes p :: u16
  assumes "unat p + n < 65536"
  shows "unat (p + of_nat n) = unat p + n"
  using assms by (simp add: unat_word_ariths unat_of_nat take_bit_nat_eq_self)

lemma lin_add:
  assumes "unat p + n < 65536"
  shows "lin s (p + of_nat n) = lin s p + of_nat n"
proof (rule word_unat_eq_iff [THEN iffD2])
  have u: "unat s < 65536" using unsigned_less [of s, where 'a = nat] by simp
  have "unat (lin s p + of_nat n) = 16 * unat s + unat p + n"
    using assms u by (simp add: unat_word_ariths unat_of_nat unat_lin take_bit_nat_eq_self)
  then show "unat (lin s (p + of_nat n)) = unat (lin s p + of_nat n)"
    using assms by (simp add: unat_lin unat_add_off)
qed

lemma read_write_byte:
  "read_byte s a (write_byte t b v m) = (if lin s a = lin t b then v else read_byte s a m)"
  by (simp add: read_byte_def write_byte_def)

lemma read_write_byte_seg [simp]:
  "read_byte s a (write_byte s b v m) = (if a = b then v else read_byte s a m)"
  by (simp add: read_write_byte)

lemma word_off_neq [simp]: "(a :: u16) + 1 \<noteq> a" "a \<noteq> a + 1"
  by simp_all

lemma read_write_word_seg [simp]: "read_word s a (write_word s a v m) = v"
  by (simp add: read_word_def write_word_def)

lemma read_byte_write_word_seg:
  "read_byte s a (write_word s b v m) =
     (if a = b + 1 then hi8 v else if a = b then lo8 v else read_byte s a m)"
  by (simp add: write_word_def)

lemma read_word_write_byte_other:
  "b \<noteq> a \<Longrightarrow> b \<noteq> a + 1 \<Longrightarrow> read_word s a (write_byte s b v m) = read_word s a m"
  by (simp add: read_word_def)

lemma read_word_write_word_other:
  "a \<noteq> b \<Longrightarrow> a + 1 \<noteq> b \<Longrightarrow> a \<noteq> b + 1 \<Longrightarrow> read_word s a (write_word s b v m) = read_word s a m"
  by (simp add: read_word_def read_byte_write_word_seg)

lemma write_byte_fields [frame_simps, simp]:
  "dev (write_byte s a v m) = dev m" "tty (write_byte s a v m) = tty m"
  "blog (write_byte s a v m) = blog m" "iflag (write_byte s a v m) = iflag m"
  by (simp_all add: write_byte_def)

lemma write_word_fields [frame_simps, simp]:
  "dev (write_word s a v m) = dev m" "tty (write_word s a v m) = tty m"
  "blog (write_word s a v m) = blog m" "iflag (write_word s a v m) = iflag m"
  by (simp_all add: write_word_def)

lemma read_byte_write_dword_seg:
  "read_byte s a (write_dword s b v m) =
     (if a = b + 3 then hi8 (ucast (drop_bit 16 v)) else if a = b + 2 then lo8 (ucast (drop_bit 16 v))
      else if a = b + 1 then hi8 (ucast v) else if a = b then lo8 (ucast v) else read_byte s a m)"
  by (simp add: write_dword_def read_byte_write_word_seg add.assoc)

lemma join_halves: "push_bit 16 (ucast (ucast (drop_bit 16 v) :: u16)) OR ucast (ucast v :: u16) = (v :: u32)"
  by (rule bit_word_eqI) (auto simp: bit_simps)

lemma read_write_dword_seg [simp]: "read_dword s a (write_dword s a v m) = v"
  by (simp add: read_dword_def read_word_def read_byte_write_dword_seg add.assoc join_halves)

lemma write_dword_fields [frame_simps, simp]:
  "dev (write_dword s a v m) = dev m" "tty (write_dword s a v m) = tty m"
  "blog (write_dword s a v m) = blog m" "iflag (write_dword s a v m) = iflag m"
  by (simp_all add: write_dword_def)

section \<open>Ports and CPU\<close>

definition inb :: "'d hw \<Rightarrow> u16 \<Rightarrow> 'd machine \<Rightarrow> u8 \<times> 'd machine" where
  "inb hw p m = (let (v, d) = hw_inb hw p (dev m) in (v, m\<lparr>dev := d\<rparr>))"

definition inw :: "'d hw \<Rightarrow> u16 \<Rightarrow> 'd machine \<Rightarrow> u16 \<times> 'd machine" where
  "inw hw p m = (let (v, d) = hw_inw hw p (dev m) in (v, m\<lparr>dev := d\<rparr>))"

definition ind :: "'d hw \<Rightarrow> u16 \<Rightarrow> 'd machine \<Rightarrow> u32 \<times> 'd machine" where
  "ind hw p m = (let (v, d) = hw_ind hw p (dev m) in (v, m\<lparr>dev := d\<rparr>))"

definition outb :: "'d hw \<Rightarrow> u16 \<Rightarrow> u8 \<Rightarrow> 'd machine \<Rightarrow> 'd machine" where
  "outb hw p v m = m\<lparr>dev := hw_outb hw p v (dev m)\<rparr>"

definition outw :: "'d hw \<Rightarrow> u16 \<Rightarrow> u16 \<Rightarrow> 'd machine \<Rightarrow> 'd machine" where
  "outw hw p v m = m\<lparr>dev := hw_outw hw p v (dev m)\<rparr>"

definition outd :: "'d hw \<Rightarrow> u16 \<Rightarrow> u32 \<Rightarrow> 'd machine \<Rightarrow> 'd machine" where
  "outd hw p v m = m\<lparr>dev := hw_outd hw p v (dev m)\<rparr>"

definition int_enable :: "'d machine \<Rightarrow> 'd machine" where
  "int_enable m = m\<lparr>iflag := True\<rparr>"

definition int_disable :: "'d machine \<Rightarrow> 'd machine" where
  "int_disable m = m\<lparr>iflag := False\<rparr>"

text \<open>INT 10h, AH=0Eh: the teletype output of the VGA BIOS, seen as the characters it gets.\<close>

definition wrch :: "u8 \<Rightarrow> 'd machine \<Rightarrow> 'd machine" where
  "wrch c m = m\<lparr>tty := tty m @ [c]\<rparr>"

text \<open>
  \<open>BX_INFO\<close> and \<open>BX_DEBUG\<close>: a message for the host's debug port, which no BIOS code reads back.
  A log entry is the format string with its arguments; what the debug port gets for it is
  modelled in \<open>BiosPrint\<close>.
\<close>

definition bx_info :: "string \<Rightarrow> u16 list \<Rightarrow> 'd machine \<Rightarrow> 'd machine" where
  "bx_info fmt args m = m\<lparr>blog := blog m @ [(fmt, args)]\<rparr>"

lemma inb_fields [frame_simps]:
  "ram (snd (inb hw p m)) = ram m" "tty (snd (inb hw p m)) = tty m"
  "blog (snd (inb hw p m)) = blog m" "iflag (snd (inb hw p m)) = iflag m"
  by (simp_all add: inb_def split: prod.split)

lemma outb_fields [frame_simps]:
  "ram (outb hw p v m) = ram m" "tty (outb hw p v m) = tty m"
  "blog (outb hw p v m) = blog m" "iflag (outb hw p v m) = iflag m"
  by (simp_all add: outb_def)

lemma read_byte_frame [simp]:
  "read_byte s a (outb hw p v m) = read_byte s a m"
  "read_byte s a (snd (inb hw p m)) = read_byte s a m"
  "read_byte s a (int_enable m) = read_byte s a m"
  "read_byte s a (int_disable m) = read_byte s a m"
  "read_byte s a (bx_info f xs m) = read_byte s a m"
  "read_byte s a (wrch c m) = read_byte s a m"
  by (simp_all add: read_byte_def frame_simps int_enable_def int_disable_def bx_info_def wrch_def)

lemma read_word_frame [simp]:
  "read_word s a (outb hw p v m) = read_word s a m"
  "read_word s a (snd (inb hw p m)) = read_word s a m"
  "read_word s a (int_enable m) = read_word s a m"
  "read_word s a (int_disable m) = read_word s a m"
  "read_word s a (bx_info f xs m) = read_word s a m"
  "read_word s a (wrch c m) = read_word s a m"
  by (simp_all add: read_word_def)

section \<open>Polling loops\<close>

text \<open>
  \<open>while (cond && --max > 0) body;\<close>: the condition is evaluated first (and reads a port); the
  counter is what the code tests afterwards.
\<close>

fun poll_bounded ::
  "('m \<Rightarrow> bool \<times> 'm) \<Rightarrow> ('m \<Rightarrow> 'm) \<Rightarrow> nat \<Rightarrow> 'm \<Rightarrow> nat \<times> 'm" where
  "poll_bounded c b k m =
     (let (t, m') = c m in
      if t then (if 1 < k then poll_bounded c b (k - 1) (b m') else (0, m'))
      else (k, m'))"

declare poll_bounded.simps [simp del]

text \<open>\<open>while (cond) body;\<close> with no counter.\<close>

partial_function (option) poll_while ::
  "('m \<Rightarrow> bool \<times> 'm) \<Rightarrow> ('m \<Rightarrow> 'm) \<Rightarrow> 'm \<Rightarrow> 'm option" where
  "poll_while c b m =
     (if fst (c m) then poll_while c b (b (snd (c m))) else Some (snd (c m)))"

lemma poll_while_returns:
  assumes "\<not> fst (c (((\<lambda>m. b (snd (c m))) ^^ n) m))"
  shows "\<exists>m'. poll_while c b m = Some m'"
  using assms
proof (induction n arbitrary: m)
  case 0
  then show ?case by (simp add: poll_while.simps)
next
  case (Suc n)
  from Suc.prems have "\<not> fst (c (((\<lambda>m. b (snd (c m))) ^^ n) (b (snd (c m)))))"
    by (simp add: funpow_Suc_right del: funpow.simps)
  then have "\<exists>m'. poll_while c b (b (snd (c m))) = Some m'"
    by (rule Suc.IH)
  then show ?case
    by (subst poll_while.simps) auto
qed

lemma poll_while_invariant:
  assumes run: "poll_while c b m = Some m'"
    and start: "P m"
    and step: "\<And>m. P m \<Longrightarrow> fst (c m) \<Longrightarrow> P (b (snd (c m)))"
    and stop: "\<And>m. P m \<Longrightarrow> \<not> fst (c m) \<Longrightarrow> Q (snd (c m))"
  shows "Q m'"
proof -
  have "c = c \<longrightarrow> b = b \<longrightarrow> P m \<longrightarrow> Q m'"
  proof (rule poll_while.raw_induct
      [where P = "\<lambda>c' b' m m'. c' = c \<longrightarrow> b' = b \<longrightarrow> P m \<longrightarrow> Q m'", OF _ run])
    fix f and c' :: "'a \<Rightarrow> bool \<times> 'a" and b' m m'
    assume IH: "\<And>c' b' m m'. f c' b' m = Some m' \<Longrightarrow> c' = c \<longrightarrow> b' = b \<longrightarrow> P m \<longrightarrow> Q m'"
      and eq: "(if fst (c' m) then f c' b' (b' (snd (c' m))) else Some (snd (c' m))) = Some m'"
    show "c' = c \<longrightarrow> b' = b \<longrightarrow> P m \<longrightarrow> Q m'"
      using IH [of c b "b (snd (c m))" m'] eq step stop by (auto split: if_splits)
  qed
  then show ?thesis using start by blast
qed

lemma poll_while_diverges:
  assumes "\<And>n. fst (c (((\<lambda>m. b (snd (c m))) ^^ n) m))"
  shows "poll_while c b m = None"
proof (cases "poll_while c b m")
  case (Some m')
  let ?step = "\<lambda>m. b (snd (c m))"
  have "False"
  proof (rule poll_while_invariant [OF Some, where P = "\<lambda>m. \<forall>n. fst (c ((?step ^^ n) m))" and Q = "\<lambda>_. False"])
    fix m assume all: "\<forall>n. fst (c ((?step ^^ n) m))"
    then have "fst (c ((?step ^^ Suc n) m))" for n by blast
    then show "\<forall>n. fst (c ((?step ^^ n) (?step m)))"
      by (simp add: funpow_Suc_right del: funpow.simps)
  next
    fix m assume "\<forall>n. fst (c ((?step ^^ n) m))" and no: "\<not> fst (c m)"
    then have "fst (c ((?step ^^ 0) m))" by blast
    with no show False by simp
  qed (use assms in blast)
  then show ?thesis ..
qed

section \<open>Sequencing\<close>

text \<open>
  Straight-line code whose steps may end the run: the first step that does not continue decides.
\<close>

fun run_steps :: "('m \<Rightarrow> 'e + 'm) list \<Rightarrow> 'm \<Rightarrow> 'e + 'm" where
  "run_steps [] m = Inr m"
| "run_steps (f # fs) m = (case f m of Inl e \<Rightarrow> Inl e | Inr m \<Rightarrow> run_steps fs m)"

definition bx_panic :: "string \<Rightarrow> u16 list \<Rightarrow> 'd machine \<Rightarrow> 'd machine stop" where
  \<comment> \<open>\<open>bios_printf(BIOS_PRINTF_DEBHALT, ...)\<close>: message, \<open>int_disable\<close>, \<open>halt_forever\<close>\<close>
  "bx_panic fmt args m = Halted (int_disable (bx_info fmt args m))"

section \<open>CMOS and the unexpected-interrupt handler (bios.c)\<close>

definition cmos_port :: "u8 \<Rightarrow> u16" where
  "cmos_port r = (if r \<ge> 0x80 then 0x72 else 0x70)"

definition inb_cmos :: "'d hw \<Rightarrow> u8 \<Rightarrow> 'd machine \<Rightarrow> u8 \<times> 'd machine" where
  "inb_cmos hw r m = inb hw (cmos_port r + 1) (outb hw (cmos_port r) r m)"

definition outb_cmos :: "'d hw \<Rightarrow> u8 \<Rightarrow> u8 \<Rightarrow> 'd machine \<Rightarrow> 'd machine" where
  "outb_cmos hw r v m = outb hw (cmos_port r + 1) v (outb hw (cmos_port r) r m)"

definition dummy_isr_function :: "'d hw \<Rightarrow> 'd machine \<Rightarrow> 'd machine" where
  "dummy_isr_function hw m =
     (let m = outb hw 0x20 0x0B m;
          (isrA, m) = inb hw 0x20 m;
          (last_int, m) =
            (if isrA \<noteq> 0 then
               let m = outb hw 0xA0 0x0B m;
                   (isrB, m) = inb hw 0xA0 m;
                   (isrA, m) =
                     (if isrB \<noteq> 0 then
                        let (imr, m) = inb hw 0xA1 m;
                            m = outb hw 0xA1 (imr OR isrB) m
                        in (isrA, outb hw 0xA0 0x20 m)
                      else
                        let (imr, m) = inb hw 0x21 m;
                            isrA = isrA AND 0xFB
                        in (isrA, outb hw 0x21 (imr OR isrA) m))
               in (isrA, outb hw 0x20 0x20 m)
             else (0xFF, m))
      in write_byte 0x40 0x6B last_int m)"

section \<open>Caller registers\<close>

text \<open>
  The registers an INT service finds on its stack frame (\<open>pusha_regs_t\<close> with segment registers
  and flags; \<open>ifl\<close> is the copy of the flags \<open>kbd_regs_t\<close> carries). \<open>sp\<close> holds ELDX in the
  disk services. The byte macros \<open>SET_AL\<close>, \<open>GET_AH\<close>, ... act on halves of the words.
\<close>

record regs =
  rax :: u16
  rbx :: u16
  rcx :: u16
  rdx :: u16
  rsi :: u16
  rdi :: u16
  rsp :: u16
  rds :: u16
  res :: u16
  flags :: u16
  ifl :: u16

definition set_al :: "u8 \<Rightarrow> regs \<Rightarrow> regs" where
  "set_al v r = r\<lparr>rax := (rax r AND 0xff00) OR ucast v\<rparr>"

definition set_cl :: "u8 \<Rightarrow> regs \<Rightarrow> regs" where
  "set_cl v r = r\<lparr>rcx := (rcx r AND 0xff00) OR ucast v\<rparr>"

definition set_dl :: "u8 \<Rightarrow> regs \<Rightarrow> regs" where
  "set_dl v r = r\<lparr>rdx := (rdx r AND 0xff00) OR ucast v\<rparr>"

definition set_ah :: "u8 \<Rightarrow> regs \<Rightarrow> regs" where
  "set_ah v r = r\<lparr>rax := (rax r AND 0x00ff) OR push_bit 8 (ucast v)\<rparr>"

definition set_ch :: "u8 \<Rightarrow> regs \<Rightarrow> regs" where
  "set_ch v r = r\<lparr>rcx := (rcx r AND 0x00ff) OR push_bit 8 (ucast v)\<rparr>"

definition set_dh :: "u8 \<Rightarrow> regs \<Rightarrow> regs" where
  "set_dh v r = r\<lparr>rdx := (rdx r AND 0x00ff) OR push_bit 8 (ucast v)\<rparr>"

definition set_cf :: "regs \<Rightarrow> regs" where "set_cf r = r\<lparr>flags := flags r OR 0x0001\<rparr>"
definition clear_cf :: "regs \<Rightarrow> regs" where "clear_cf r = r\<lparr>flags := flags r AND 0xfffe\<rparr>"
definition set_zf :: "regs \<Rightarrow> regs" where "set_zf r = r\<lparr>flags := flags r OR 0x0040\<rparr>"
definition clear_zf :: "regs \<Rightarrow> regs" where "clear_zf r = r\<lparr>flags := flags r AND 0xffbf\<rparr>"
definition set_if :: "regs \<Rightarrow> regs" where "set_if r = r\<lparr>flags := flags r OR 0x0200\<rparr>"

definition get_cf :: "regs \<Rightarrow> bool" where "get_cf r = bit (flags r) 0"
definition get_zf :: "regs \<Rightarrow> bool" where "get_zf r = bit (flags r) 6"

lemma set_low_half: "(w AND 0xff00) OR ucast v = mk16 (hi8 w) v" for w :: u16 and v :: u8
proof -
  have m: "(0xff00 :: u16) = push_bit 8 (mask 8)" by (simp add: mask_numeral push_bit_eq_mult)
  show ?thesis
    unfolding mk16_def hi8_def m by (rule bit_word_eqI) (auto simp: bit_simps)
qed

lemma set_high_half: "(w AND 0x00ff) OR push_bit 8 (ucast v) = mk16 v (lo8 w)" for w :: u16 and v :: u8
proof -
  have m: "(0x00ff :: u16) = mask 8" by (simp add: mask_numeral)
  show ?thesis
    unfolding mk16_def lo8_def m by (rule bit_word_eqI) (auto simp: bit_simps)
qed

lemma set_halves [simp]:
  "set_al v r = r\<lparr>rax := mk16 (hi8 (rax r)) v\<rparr>"
  "set_cl v r = r\<lparr>rcx := mk16 (hi8 (rcx r)) v\<rparr>"
  "set_dl v r = r\<lparr>rdx := mk16 (hi8 (rdx r)) v\<rparr>"
  "set_ah v r = r\<lparr>rax := mk16 v (lo8 (rax r))\<rparr>"
  "set_ch v r = r\<lparr>rcx := mk16 v (lo8 (rcx r))\<rparr>"
  "set_dh v r = r\<lparr>rdx := mk16 v (lo8 (rdx r))\<rparr>"
  by (simp_all only: set_al_def set_cl_def set_dl_def set_ah_def set_ch_def set_dh_def
      set_low_half set_high_half)

end
