(* ===== verification/System.thy ===== *)
theory System
  imports Machine
begin

text \<open>
  System services of the PC BIOS (\<open>Devices/PC/BIOS/system.c\<close>): the A20 gate and the
  microsecond wait of INT 15h.
\<close>

definition set_enable_a20 :: "'d hw \<Rightarrow> bool \<Rightarrow> 'd machine \<Rightarrow> bool \<times> 'd machine" where
  "set_enable_a20 hw val m =
     (let (oldval, m) = inb hw 0x92 m;
          m = (if val then outb hw 0x92 (oldval OR 0x02) m else outb hw 0x92 (oldval AND 0xfd) m)
      in (oldval AND 0x02 \<noteq> 0, m))"

text \<open>
  \<open>do cur_val = inp(0x61) & 0x10; while (cur_val != old_val);\<close> for each 15 usec cycle. The inner
  loop is a polling loop: its condition reads the port, its body is empty.
\<close>

definition refresh_differs :: "'d hw \<Rightarrow> u8 \<Rightarrow> 'd machine \<Rightarrow> bool \<times> 'd machine" where
  "refresh_differs hw old m = (let (v, m) = inb hw 0x61 m in (v AND 0x10 \<noteq> old, m))"

fun timer_cycles :: "'d hw \<Rightarrow> nat \<Rightarrow> u8 \<Rightarrow> 'd machine \<Rightarrow> 'd machine option" where
  "timer_cycles hw 0 old m = Some m"
| "timer_cycles hw (Suc n) old m =
     \<comment> \<open>on leaving the inner loop \<open>cur_val = old_val\<close>, so \<open>old_val = cur_val\<close> changes nothing\<close>
     (case poll_while (refresh_differs hw old) id m of
        None \<Rightarrow> None | Some m \<Rightarrow> timer_cycles hw n old m)"

definition timer_wait :: "'d hw \<Rightarrow> u32 \<Rightarrow> 'd machine \<Rightarrow> 'd machine option" where
  "timer_wait hw usec m =
     (let (v, m) = inb hw 0x61 m in timer_cycles hw (unat (usec div 15)) (v AND 0x10) m)"

lemma set_enable_a20_ram [frame_simps]: "ram (snd (set_enable_a20 hw val m)) = ram m"
  by (simp add: set_enable_a20_def inb_def outb_def split: prod.split)

end
