(* ===== verification/Fifo.thy ===== *)
theory Fifo
  imports Prelude
begin

text \<open>
  The contract of a bounded first-in first-out queue, as a client sees it: what one insertion and
  one removal do to the contents. The client lemma is that any sequence of operations behaves like
  the same sequence on a plain list.
\<close>

datatype 'a fifo_op = Put 'a | Get

datatype 'a fifo_out = Put_done bool | Got "'a option"

fun fifo_run ::
  "('a \<Rightarrow> 's \<Rightarrow> bool \<times> 's) \<Rightarrow> ('s \<Rightarrow> 'a option \<times> 's) \<Rightarrow> 'a fifo_op list \<Rightarrow> 's \<Rightarrow>
   'a fifo_out list \<times> 's" where
  "fifo_run put get [] s = ([], s)"
| "fifo_run put get (Put x # ops) s =
     (let (ok, s) = put x s; (outs, s) = fifo_run put get ops s in (Put_done ok # outs, s))"
| "fifo_run put get (Get # ops) s =
     (let (r, s) = get s; (outs, s) = fifo_run put get ops s in (Got r # outs, s))"

text \<open>The specification: a list that takes at most \<open>c\<close> elements.\<close>

fun fifo_spec :: "nat \<Rightarrow> 'a fifo_op list \<Rightarrow> 'a list \<Rightarrow> 'a fifo_out list \<times> 'a list" where
  "fifo_spec c [] q = ([], q)"
| "fifo_spec c (Put x # ops) q =
     (if length q < c
      then let (outs, q) = fifo_spec c ops (q @ [x]) in (Put_done True # outs, q)
      else let (outs, q) = fifo_spec c ops q in (Put_done False # outs, q))"
| "fifo_spec c (Get # ops) q =
     (case q of
        [] \<Rightarrow> let (outs, q) = fifo_spec c ops [] in (Got None # outs, q)
      | x # xs \<Rightarrow> let (outs, q) = fifo_spec c ops xs in (Got (Some x) # outs, q))"

lemma fifo_spec_bounded: "fifo_spec c ops q = (outs, q') \<Longrightarrow> length q \<le> c \<Longrightarrow> length q' \<le> c"
  by (induction c ops q arbitrary: outs q' rule: fifo_spec.induct)
    (force simp: Let_def split: prod.splits if_splits list.splits)+

locale bounded_fifo =
  fixes inv :: "'s \<Rightarrow> bool"
    and cap :: "'s \<Rightarrow> nat"
    and contents :: "'s \<Rightarrow> 'a list"
    and put :: "'a \<Rightarrow> 's \<Rightarrow> bool \<times> 's"
    and get :: "'s \<Rightarrow> 'a option \<times> 's"
  assumes put_space: "inv s \<Longrightarrow> length (contents s) < cap s \<Longrightarrow>
      \<exists>s'. put x s = (True, s') \<and> inv s' \<and> cap s' = cap s \<and> contents s' = contents s @ [x]"
    and put_full: "inv s \<Longrightarrow> \<not> length (contents s) < cap s \<Longrightarrow> put x s = (False, s)"
    and get_first: "inv s \<Longrightarrow> contents s = x # xs \<Longrightarrow>
      \<exists>s'. get s = (Some x, s') \<and> inv s' \<and> cap s' = cap s \<and> contents s' = xs"
    and get_empty: "inv s \<Longrightarrow> contents s = [] \<Longrightarrow> get s = (None, s)"
begin

lemma run_refines:
  assumes "inv s" "fifo_run put get ops s = (outs, s')"
  shows "inv s' \<and> cap s' = cap s \<and> fifo_spec (cap s) ops (contents s) = (outs, contents s')"
  using assms
proof (induction ops arbitrary: s outs s')
  case Nil
  then show ?case by simp
next
  case (Cons oper ops)
  show ?case
  proof (cases oper)
    case (Put x)
    show ?thesis
    proof (cases "length (contents s) < cap s")
      case True
      then obtain t where t: "put x s = (True, t)" "inv t" "cap t = cap s"
          "contents t = contents s @ [x]"
        using put_space [OF Cons.prems(1)] by blast
      obtain outs2 where "fifo_run put get ops t = (outs2, s')" "outs = Put_done True # outs2"
        using Cons.prems(2) Put t(1) by (auto split: prod.splits)
      with Cons.IH [OF t(2)] show ?thesis using Put True t by auto
    next
      case False
      then have f: "put x s = (False, s)" using put_full Cons.prems(1) by blast
      obtain outs2 where "fifo_run put get ops s = (outs2, s')" "outs = Put_done False # outs2"
        using Cons.prems(2) Put f by (auto split: prod.splits)
      with Cons.IH [OF Cons.prems(1)] show ?thesis using Put False by auto
    qed
  next
    case Get
    show ?thesis
    proof (cases "contents s")
      case Nil
      then have f: "get s = (None, s)" using get_empty Cons.prems(1) by blast
      obtain outs2 where "fifo_run put get ops s = (outs2, s')" "outs = Got None # outs2"
        using Cons.prems(2) Get f by (auto split: prod.splits)
      with Cons.IH [OF Cons.prems(1)] show ?thesis using Get Nil by auto
    next
      case (Cons x xs)
      then obtain t where t: "get s = (Some x, t)" "inv t" "cap t = cap s" "contents t = xs"
        using get_first [OF Cons.prems(1)] by blast
      obtain outs2 where "fifo_run put get ops t = (outs2, s')" "outs = Got (Some x) # outs2"
        using Cons.prems(2) Get t(1) by (auto split: prod.splits)
      with Cons.IH [OF t(2)] show ?thesis using Get Cons t by auto
    qed
  qed
qed

end

end
