(* ===== verification/Keyboard.thy ===== *)
theory Keyboard
  imports System Fifo
begin

text \<open>
  The keyboard services of the PC BIOS (\<open>Devices/PC/BIOS/keyboard.c\<close>): initialisation of the
  8042 controller, the INT 09h handler that turns scan codes into shift state and key-strokes,
  the key-stroke ring in the BIOS data area, and the INT 16h services that read it.
\<close>

section \<open>Scan code translation table\<close>

record scan_entry =
  sc_normal :: u16
  sc_shift :: u16
  sc_control :: u16
  sc_alt :: u16
  sc_lock_flags :: u8

definition MAX_SCAN_CODE :: u8 where "MAX_SCAN_CODE = 0x58"

definition scan_to_scanascii :: "scan_entry list" where
  "scan_to_scanascii =
    [scan_entry.make 0 0 0 0 0,
     scan_entry.make 0x011b 0x011b 0x011b 0x0100 0,
     scan_entry.make 0x0231 0x0221 0 0x7800 0,
     scan_entry.make 0x0332 0x0340 0x0300 0x7900 0,
     scan_entry.make 0x0433 0x0423 0 0x7a00 0,
     scan_entry.make 0x0534 0x0524 0 0x7b00 0,
     scan_entry.make 0x0635 0x0625 0 0x7c00 0,
     scan_entry.make 0x0736 0x075e 0x071e 0x7d00 0,
     scan_entry.make 0x0837 0x0826 0 0x7e00 0,
     scan_entry.make 0x0938 0x092a 0 0x7f00 0,
     scan_entry.make 0x0a39 0x0a28 0 0x8000 0,
     scan_entry.make 0x0b30 0x0b29 0 0x8100 0,
     scan_entry.make 0x0c2d 0x0c5f 0x0c1f 0x8200 0,
     scan_entry.make 0x0d3d 0x0d2b 0 0x8300 0,
     scan_entry.make 0x0e08 0x0e08 0x0e7f 0 0,
     scan_entry.make 0x0f09 0x0f00 0 0 0,
     scan_entry.make 0x1071 0x1051 0x1011 0x1000 0x40,
     scan_entry.make 0x1177 0x1157 0x1117 0x1100 0x40,
     scan_entry.make 0x1265 0x1245 0x1205 0x1200 0x40,
     scan_entry.make 0x1372 0x1352 0x1312 0x1300 0x40,
     scan_entry.make 0x1474 0x1454 0x1414 0x1400 0x40,
     scan_entry.make 0x1579 0x1559 0x1519 0x1500 0x40,
     scan_entry.make 0x1675 0x1655 0x1615 0x1600 0x40,
     scan_entry.make 0x1769 0x1749 0x1709 0x1700 0x40,
     scan_entry.make 0x186f 0x184f 0x180f 0x1800 0x40,
     scan_entry.make 0x1970 0x1950 0x1910 0x1900 0x40,
     scan_entry.make 0x1a5b 0x1a7b 0x1a1b 0 0,
     scan_entry.make 0x1b5d 0x1b7d 0x1b1d 0 0,
     scan_entry.make 0x1c0d 0x1c0d 0x1c0a 0 0,
     scan_entry.make 0 0 0 0 0,
     scan_entry.make 0x1e61 0x1e41 0x1e01 0x1e00 0x40,
     scan_entry.make 0x1f73 0x1f53 0x1f13 0x1f00 0x40,
     scan_entry.make 0x2064 0x2044 0x2004 0x2000 0x40,
     scan_entry.make 0x2166 0x2146 0x2106 0x2100 0x40,
     scan_entry.make 0x2267 0x2247 0x2207 0x2200 0x40,
     scan_entry.make 0x2368 0x2348 0x2308 0x2300 0x40,
     scan_entry.make 0x246a 0x244a 0x240a 0x2400 0x40,
     scan_entry.make 0x256b 0x254b 0x250b 0x2500 0x40,
     scan_entry.make 0x266c 0x264c 0x260c 0x2600 0x40,
     scan_entry.make 0x273b 0x273a 0 0 0,
     scan_entry.make 0x2827 0x2822 0 0 0,
     scan_entry.make 0x2960 0x297e 0 0 0,
     scan_entry.make 0 0 0 0 0,
     scan_entry.make 0x2b5c 0x2b7c 0x2b1c 0 0,
     scan_entry.make 0x2c7a 0x2c5a 0x2c1a 0x2c00 0x40,
     scan_entry.make 0x2d78 0x2d58 0x2d18 0x2d00 0x40,
     scan_entry.make 0x2e63 0x2e43 0x2e03 0x2e00 0x40,
     scan_entry.make 0x2f76 0x2f56 0x2f16 0x2f00 0x40,
     scan_entry.make 0x3062 0x3042 0x3002 0x3000 0x40,
     scan_entry.make 0x316e 0x314e 0x310e 0x3100 0x40,
     scan_entry.make 0x326d 0x324d 0x320d 0x3200 0x40,
     scan_entry.make 0x332c 0x333c 0 0 0,
     scan_entry.make 0x342e 0x343e 0 0 0,
     scan_entry.make 0x352f 0x353f 0 0 0,
     scan_entry.make 0 0 0 0 0,
     scan_entry.make 0x372a 0x372a 0 0 0,
     scan_entry.make 0 0 0 0 0,
     scan_entry.make 0x3920 0x3920 0x3920 0x3920 0,
     scan_entry.make 0 0 0 0 0,
     scan_entry.make 0x3b00 0x5400 0x5e00 0x6800 0,
     scan_entry.make 0x3c00 0x5500 0x5f00 0x6900 0,
     scan_entry.make 0x3d00 0x5600 0x6000 0x6a00 0,
     scan_entry.make 0x3e00 0x5700 0x6100 0x6b00 0,
     scan_entry.make 0x3f00 0x5800 0x6200 0x6c00 0,
     scan_entry.make 0x4000 0x5900 0x6300 0x6d00 0,
     scan_entry.make 0x4100 0x5a00 0x6400 0x6e00 0,
     scan_entry.make 0x4200 0x5b00 0x6500 0x6f00 0,
     scan_entry.make 0x4300 0x5c00 0x6600 0x7000 0,
     scan_entry.make 0x4400 0x5d00 0x6700 0x7100 0,
     scan_entry.make 0 0 0 0 0,
     scan_entry.make 0 0 0 0 0,
     scan_entry.make 0x4700 0x4737 0x7700 0 0x20,
     scan_entry.make 0x4800 0x4838 0 0 0x20,
     scan_entry.make 0x4900 0x4939 0x8400 0 0x20,
     scan_entry.make 0x4a2d 0x4a2d 0 0 0,
     scan_entry.make 0x4b00 0x4b34 0x7300 0 0x20,
     scan_entry.make 0x4c00 0x4c35 0 0 0x20,
     scan_entry.make 0x4d00 0x4d36 0x7400 0 0x20,
     scan_entry.make 0x4e2b 0x4e2b 0 0 0,
     scan_entry.make 0x4f00 0x4f31 0x7500 0 0x20,
     scan_entry.make 0x5000 0x5032 0 0 0x20,
     scan_entry.make 0x5100 0x5133 0x7600 0 0x20,
     scan_entry.make 0x5200 0x5230 0 0 0x20,
     scan_entry.make 0x5300 0x532e 0 0 0x20,
     scan_entry.make 0 0 0 0 0,
     scan_entry.make 0 0 0 0 0,
     scan_entry.make 0x565c 0x567c 0 0 0,
     scan_entry.make 0x8500 0x8700 0x8900 0x8b00 0,
     scan_entry.make 0x8600 0x8800 0x8a00 0x8c00 0]"

definition scan_tab :: "u8 \<Rightarrow> scan_entry" where
  "scan_tab sc = scan_to_scanascii ! unat sc"

section \<open>Controller initialisation\<close>

definition keyboard_panic :: "u16 \<Rightarrow> 'd machine \<Rightarrow> 'd machine stop" where
  "keyboard_panic status m = bx_panic ''Keyboard error:%u'' [status] m"

definition kbc_busy :: "'d hw \<Rightarrow> 'd machine \<Rightarrow> bool \<times> 'd machine" where
  "kbc_busy hw m = (let (s, m) = inb hw 0x64 m in (s AND 0x02 \<noteq> 0, m))"

definition kbc_no_data :: "'d hw \<Rightarrow> 'd machine \<Rightarrow> bool \<times> 'd machine" where
  "kbc_no_data hw m = (let (s, m) = inb hw 0x64 m in (s AND 0x01 = 0, m))"

text \<open>\<open>max=0xffff; while (<cond> && (--max>0)) outb(0x80, post); if (max==0x0) keyboard_panic(code);\<close>\<close>

definition kbc_wait ::
  "'d hw \<Rightarrow> ('d machine \<Rightarrow> bool \<times> 'd machine) \<Rightarrow> u8 \<Rightarrow> u16 \<Rightarrow>
   'd machine \<Rightarrow> 'd machine stop + 'd machine" where
  "kbc_wait hw c post code m =
     (let (k, m) = poll_bounded c (outb hw 0x80 post) 0xffff m
      in if k = 0 then Inl (keyboard_panic code m) else Inr m)"

definition kbd_expect :: "'d hw \<Rightarrow> u8 \<Rightarrow> u16 \<Rightarrow> 'd machine \<Rightarrow> 'd machine stop + 'd machine" where
  "kbd_expect hw v code m =
     (let (b, m) = inb hw 0x60 m in if b \<noteq> v then Inl (keyboard_panic code m) else Inr m)"

definition kbd_wait_reset :: "'d hw \<Rightarrow> 'd machine \<Rightarrow> 'd machine stop + 'd machine" where
  "kbd_wait_reset hw m =
     (case poll_while (kbc_no_data hw) (outb hw 0x80 0x31) m of
        None \<Rightarrow> Inl Diverges | Some m \<Rightarrow> Inr m)"

definition kbd_expect_bat :: "'d hw \<Rightarrow> 'd machine \<Rightarrow> 'd machine stop + 'd machine" where
  \<comment> \<open>\<open>if (inb(0x60) != 0xaa && inb(0x60) != 0xaa) keyboard_panic(994);\<close>\<close>
  "kbd_expect_bat hw m =
     (let (b, m) = inb hw 0x60 m
      in if b \<noteq> 0xaa then kbd_expect hw 0xaa 994 m else Inr m)"

definition keyboard_init :: "'d hw \<Rightarrow> 'd machine \<Rightarrow> 'd machine stop + 'd machine" where
  "keyboard_init hw = run_steps
     [ \<comment> \<open>controller side: self test\<close>
       Inr \<circ> outb hw 0x64 0xaa,
       kbc_wait hw (kbc_busy hw) 0x00 0,
       kbc_wait hw (kbc_no_data hw) 0x01 1,
       kbd_expect hw 0x55 991,
       \<comment> \<open>interface test\<close>
       Inr \<circ> outb hw 0x64 0xab,
       kbc_wait hw (kbc_busy hw) 0x10 10,
       kbc_wait hw (kbc_no_data hw) 0x11 11,
       kbd_expect hw 0x00 992,
       \<comment> \<open>keyboard side: reset and self test\<close>
       Inr \<circ> outb hw 0x60 0xff,
       kbc_wait hw (kbc_busy hw) 0x20 20,
       kbc_wait hw (kbc_no_data hw) 0x21 21,
       kbd_expect hw 0xfa 993,
       kbd_wait_reset hw,
       kbd_expect_bat hw,
       \<comment> \<open>disable keyboard\<close>
       Inr \<circ> outb hw 0x60 0xf5,
       kbc_wait hw (kbc_busy hw) 0x40 40,
       kbc_wait hw (kbc_no_data hw) 0x41 41,
       kbd_expect hw 0xfa 995,
       \<comment> \<open>keyboard mode: scan code convert, disable mouse, enable IRQ 1\<close>
       Inr \<circ> outb hw 0x64 0x60,
       kbc_wait hw (kbc_busy hw) 0x50 50,
       Inr \<circ> outb hw 0x60 0x65,
       kbc_wait hw (kbc_busy hw) 0x60 60,
       \<comment> \<open>enable keyboard\<close>
       Inr \<circ> outb hw 0x60 0xf4,
       kbc_wait hw (kbc_busy hw) 0x70 70,
       kbc_wait hw (kbc_no_data hw) 0x71 70,
       kbd_expect hw 0xfa 996,
       \<comment> \<open>enable aux interface, disable the A20 gate\<close>
       Inr \<circ> outb hw 0x64 0xa8,
       Inr \<circ> (\<lambda>m. snd (set_enable_a20 hw False m)) ]"

section \<open>The key-stroke ring\<close>

text \<open>
  Word 40:1A is the head, 40:1C the tail, 40:80 and 40:82 the bounds of the ring; every entry is
  the ASCII code followed by the scan code. The result is the code's return value (0 or 1).
\<close>

definition enqueue_key :: "u8 \<Rightarrow> u8 \<Rightarrow> 'd machine \<Rightarrow> bool \<times> 'd machine" where
  "enqueue_key scan_code ascii_code m =
     (let buffer_start = read_word 0x40 0x80 m;
          buffer_end = read_word 0x40 0x82 m;
          buffer_head = read_word 0x40 0x1A m;
          buffer_tail = read_word 0x40 0x1C m;
          temp_tail = buffer_tail;
          buffer_tail = buffer_tail + 2;
          buffer_tail = (if buffer_tail \<ge> buffer_end then buffer_start else buffer_tail)
      in if buffer_tail = buffer_head then (False, m)
         else let m = write_byte 0x40 temp_tail ascii_code m;
                  m = write_byte 0x40 (temp_tail + 1) scan_code m
              in (True, write_word 0x40 0x1C buffer_tail m))"

definition dequeue_key :: "bool \<Rightarrow> 'd machine \<Rightarrow> (u8 \<times> u8) option \<times> 'd machine" where
  \<comment> \<open>\<open>Some (scan_code, ascii_code)\<close> for return value 1, \<open>None\<close> for 0\<close>
  "dequeue_key incr m =
     (let buffer_start = read_word 0x40 0x80 m;
          buffer_end = read_word 0x40 0x82 m;
          buffer_head = read_word 0x40 0x1A m;
          buffer_tail = read_word 0x40 0x1C m
      in if buffer_head \<noteq> buffer_tail then
           let acode = read_byte 0x40 buffer_head m;
               scode = read_byte 0x40 (buffer_head + 1) m;
               buffer_head' = buffer_head + 2;
               buffer_head' = (if buffer_head' \<ge> buffer_end then buffer_start else buffer_head')
           in (Some (scode, acode), if incr then write_word 0x40 0x1A buffer_head' m else m)
         else (None, m))"

section \<open>INT 09h: scan codes to shift state and key-strokes\<close>

text \<open>
  What the handler meets outside the BIOS: \<open>env_wait\<close> is what interrupt handlers do to the
  machine between two tests of the suspend loop, \<open>env_int1b\<close> the user's Ctrl-Break handler.
\<close>

record 'd env =
  env_wait :: "'d machine \<Rightarrow> 'd machine"
  env_int1b :: "'d machine \<Rightarrow> 'd machine"

definition eoi_master_pic :: "'d hw \<Rightarrow> 'd machine \<Rightarrow> 'd machine" where
  "eoi_master_pic hw m = outb hw 0x20 0x20 m"

text \<open>
  A case of the switch either leaves it with \<open>break\<close> (with the values of the locals \<open>scancode\<close>
  and \<open>mf2_state\<close> the code after the switch reads), returns from the handler, or stops.
\<close>

datatype 'm case09 = Break u8 u8 'm | Return 'm | Stop "'m stop"

definition int09_caps :: "bool \<Rightarrow> u8 \<Rightarrow> u8 \<Rightarrow> u8 \<Rightarrow> u8 \<Rightarrow> 'd machine \<Rightarrow> 'd machine case09" where
  "int09_caps press scancode shift_flags mf2_flags mf2_state m =
     (if press then
        let m = write_byte 0x40 0x17 (shift_flags XOR 0x40) m
        in Break scancode mf2_state (write_byte 0x40 0x18 (mf2_flags OR 0x40) m)
      else Break scancode mf2_state (write_byte 0x40 0x18 (mf2_flags AND NOT 0x40) m))"

definition int09_shift :: "u8 \<Rightarrow> u8 \<Rightarrow> u8 \<Rightarrow> 'd machine \<Rightarrow> 'd machine case09" where
  "int09_shift scancode shift_flags mf2_state m =
     (if mf2_state AND 0x02 = 0 then
        let flag = (if scancode AND 0x7f = 0x2a then 0x02 else 0x01);
            shift_flags = (if scancode AND 0x80 \<noteq> 0 then shift_flags AND NOT flag
                           else shift_flags OR flag)
        in Break scancode mf2_state (write_byte 0x40 0x17 shift_flags m)
      else Break scancode mf2_state m)"

definition int09_ctrl :: "bool \<Rightarrow> u8 \<Rightarrow> u8 \<Rightarrow> u8 \<Rightarrow> u8 \<Rightarrow> 'd machine \<Rightarrow> 'd machine case09" where
  "int09_ctrl press scancode shift_flags mf2_flags mf2_state m =
     (if mf2_state AND 0x01 = 0 then
        let m = write_byte 0x40 0x17
                  (if press then shift_flags OR 0x04 else shift_flags AND NOT 0x04) m
        in if mf2_state AND 0x02 \<noteq> 0 then
             let mf2_state = (if press then mf2_state OR 0x04 else mf2_state AND NOT 0x04)
             in Break scancode mf2_state (write_byte 0x40 0x96 mf2_state m)
           else Break scancode mf2_state
                  (write_byte 0x40 0x18
                     (if press then mf2_flags OR 0x01 else mf2_flags AND NOT 0x01) m)
      else Break scancode mf2_state m)"

definition int09_alt :: "bool \<Rightarrow> u8 \<Rightarrow> u8 \<Rightarrow> u8 \<Rightarrow> u8 \<Rightarrow> 'd machine \<Rightarrow> 'd machine case09" where
  "int09_alt press scancode shift_flags mf2_flags mf2_state m =
     (let m = write_byte 0x40 0x17
                (if press then shift_flags OR 0x08 else shift_flags AND NOT 0x08) m
      in if mf2_state AND 0x02 \<noteq> 0 then
           let mf2_state = (if press then mf2_state OR 0x08 else mf2_state AND NOT 0x08)
           in Break scancode mf2_state (write_byte 0x40 0x96 mf2_state m)
         else Break scancode mf2_state
                (write_byte 0x40 0x18
                   (if press then mf2_flags OR 0x02 else mf2_flags AND NOT 0x02) m))"

definition suspended :: "'d machine \<Rightarrow> bool \<times> 'd machine" where
  "suspended m = (read_byte 0x40 0x18 m AND 0x08 \<noteq> 0, m)"

definition int09_num_press ::
  "'d hw \<Rightarrow> 'd env \<Rightarrow> u8 \<Rightarrow> u8 \<Rightarrow> u8 \<Rightarrow> u8 \<Rightarrow> 'd machine \<Rightarrow> 'd machine case09" where
  "int09_num_press hw env scancode shift_flags mf2_flags mf2_state m =
     (if mf2_state AND 0x03 = 0 then
        let m = write_byte 0x40 0x18 (mf2_flags OR 0x20) m
        in Break scancode mf2_state (write_byte 0x40 0x17 (shift_flags XOR 0x20) m)
      else
        let m = write_byte 0x40 0x18 (mf2_flags OR 0x08) m;
            m = outb hw 0x64 0xae m;
            m = eoi_master_pic hw m
        in case poll_while suspended (env_wait env) m of
             None \<Rightarrow> Stop Diverges
           | Some m \<Rightarrow> Break scancode mf2_state m)"

definition int09_num_release :: "u8 \<Rightarrow> u8 \<Rightarrow> u8 \<Rightarrow> 'd machine \<Rightarrow> 'd machine case09" where
  "int09_num_release scancode mf2_flags mf2_state m =
     (if mf2_state AND 0x03 = 0
      then Break scancode mf2_state (write_byte 0x40 0x18 (mf2_flags AND NOT 0x20) m)
      else Break scancode mf2_state m)"

definition int09_scroll_press ::
  "'d hw \<Rightarrow> 'd env \<Rightarrow> u8 \<Rightarrow> u8 \<Rightarrow> u8 \<Rightarrow> u8 \<Rightarrow> 'd machine \<Rightarrow> 'd machine case09" where
  "int09_scroll_press hw env scancode shift_flags mf2_flags mf2_state m =
     (if mf2_state AND 0x02 \<noteq> 0 then
        let m = write_word 0x40 0x1C (read_word 0x40 0x1A m) m;
            m = write_byte 0x40 0x71 0x80 m;
            m = outb hw 0x64 0xae m;
            m = env_int1b env m;
            (_, m) = enqueue_key 0 0 m
        in Break scancode mf2_state m
      else
        let m = write_byte 0x40 0x18 (mf2_flags OR 0x10) m
        in Break scancode mf2_state (write_byte 0x40 0x17 (shift_flags XOR 0x10) m))"

definition int09_scroll_release :: "u8 \<Rightarrow> u8 \<Rightarrow> u8 \<Rightarrow> 'd machine \<Rightarrow> 'd machine case09" where
  "int09_scroll_release scancode mf2_flags mf2_state m =
     (if mf2_state AND 0x02 = 0
      then Break scancode mf2_state (write_byte 0x40 0x18 (mf2_flags AND NOT 0x10) m)
      else Break scancode mf2_state m)"

definition int09_sysrq :: "bool \<Rightarrow> u8 \<Rightarrow> u8 \<Rightarrow> u8 \<Rightarrow> 'd machine \<Rightarrow> 'd machine case09" where
  "int09_sysrq press scancode mf2_flags mf2_state m =
     (if press then
        if mf2_flags AND 0x04 = 0
        then Break scancode mf2_state (write_byte 0x40 0x18 (mf2_flags OR 0x04) m)
        else Break scancode mf2_state m
      else Break scancode mf2_state (write_byte 0x40 0x18 (mf2_flags AND NOT 0x04) m))"

text \<open>The translation of a make code; the result is the new \<open>(scancode, asciicode)\<close>.\<close>

definition translate_key :: "u8 \<Rightarrow> u8 \<Rightarrow> u8 \<Rightarrow> u8 \<times> u8" where
  "translate_key shift_flags mf2_state scancode =
     (let e = scan_tab scancode in
      if shift_flags AND 0x08 \<noteq> 0 then (hi8 (sc_alt e), lo8 (sc_alt e))
      else if shift_flags AND 0x04 \<noteq> 0 then (hi8 (sc_control e), lo8 (sc_control e))
      else if mf2_state AND 0x02 > 0 \<and> scancode \<ge> 0x47 \<and> scancode \<le> 0x53
        then (hi8 (sc_normal e), 0xe0)
      else if shift_flags AND 0x03 \<noteq> 0 then
        (if shift_flags AND sc_lock_flags e \<noteq> 0 then (hi8 (sc_normal e), lo8 (sc_normal e))
         else (hi8 (sc_shift e), lo8 (sc_shift e)))
      else
        (if shift_flags AND sc_lock_flags e \<noteq> 0 then (hi8 (sc_shift e), lo8 (sc_shift e))
         else (hi8 (sc_normal e), lo8 (sc_normal e))))"

definition int09_default :: "u8 \<Rightarrow> u8 \<Rightarrow> u8 \<Rightarrow> u8 \<Rightarrow> 'd machine \<Rightarrow> 'd machine case09" where
  "int09_default scancode shift_flags mf2_flags mf2_state m =
     (if mf2_flags AND 0x08 \<noteq> 0 then Return (write_byte 0x40 0x18 (mf2_flags AND NOT 0x08) m)
      else if scancode AND 0x80 \<noteq> 0 then
        Break scancode mf2_state
          (if scancode = 0xFA then write_byte 0x40 0x97 (read_byte 0x40 0x97 m OR 0x10) m
           else if scancode = 0xFE then write_byte 0x40 0x97 (read_byte 0x40 0x97 m OR 0x20) m
           else m)
      else if scancode > MAX_SCAN_CODE then
        Return (bx_info ''KBD: int09h_handler(): unknown scancode read: 0x%02x!''
                  [ucast scancode] m)
      else
        let (scancode, asciicode) = translate_key shift_flags mf2_state scancode;
            m = (if scancode = 0 \<and> asciicode = 0
                 then bx_info ''KBD: int09h_handler(): scancode & asciicode are zero?'' [] m
                 else m);
            (_, m) = enqueue_key scancode asciicode m
        in Break scancode mf2_state m)"

definition int09_del :: "u8 \<Rightarrow> u8 \<Rightarrow> u8 \<Rightarrow> u8 \<Rightarrow> 'd machine \<Rightarrow> 'd machine case09" where
  "int09_del scancode shift_flags mf2_flags mf2_state m =
     (if shift_flags AND 0x0c = 0x0c then Stop (Warm_boot (write_word 0x40 0x72 0x1234 m))
      else int09_default scancode shift_flags mf2_flags mf2_state m)"

definition int09_switch ::
  "'d hw \<Rightarrow> 'd env \<Rightarrow> u8 \<Rightarrow> u8 \<Rightarrow> u8 \<Rightarrow> u8 \<Rightarrow> 'd machine \<Rightarrow> 'd machine case09" where
  "int09_switch hw env sc shf mf st m =
     (if sc = 0x3a then int09_caps True sc shf mf st m
      else if sc = 0xba then int09_caps False sc shf mf st m
      else if sc = 0x2a \<or> sc = 0xaa \<or> sc = 0x36 \<or> sc = 0xb6 then int09_shift sc shf st m
      else if sc = 0x1d then int09_ctrl True sc shf mf st m
      else if sc = 0x9d then int09_ctrl False sc shf mf st m
      else if sc = 0x38 then int09_alt True sc shf mf st m
      else if sc = 0xb8 then int09_alt False sc shf mf st m
      else if sc = 0x45 then int09_num_press hw env sc shf mf st m
      else if sc = 0xc5 then int09_num_release sc mf st m
      else if sc = 0x46 then int09_scroll_press hw env sc shf mf st m
      else if sc = 0xc6 then int09_scroll_release sc mf st m
      else if sc = 0x54 then int09_sysrq True sc mf st m
      else if sc = 0xd4 then int09_sysrq False sc mf st m
      else if sc = 0x53 then int09_del sc shf mf st m
      else int09_default sc shf mf st m)"

definition int09_function ::
  "'d hw \<Rightarrow> 'd env \<Rightarrow> u8 \<Rightarrow> 'd machine \<Rightarrow> 'd machine stop + 'd machine" where
  "int09_function hw env scancode m =
     (if scancode = 0 then Inr (bx_info ''KBD: int09 handler: AL=0'' [] m)
      else
        let mf2_flags = read_byte 0x40 0x18 m;
            mf2_state = read_byte 0x40 0x96 m;
            shift_flags = read_byte 0x40 0x17 m
        in case int09_switch hw env scancode shift_flags mf2_flags mf2_state m of
             Stop s \<Rightarrow> Inl s
           | Return m \<Rightarrow> Inr m
           | Break scancode mf2_state m \<Rightarrow>
               let mf2_state = (if scancode AND 0x7f \<noteq> 0x1d then mf2_state AND NOT 0x01
                                else mf2_state);
                   mf2_state = mf2_state AND NOT 0x02
               in Inr (write_byte 0x40 0x96 mf2_state m))"

section \<open>INT 16h: keyboard services\<close>

text \<open>The LED update at the head of the handler.\<close>

definition int16_leds :: "'d hw \<Rightarrow> 'd machine \<Rightarrow> 'd machine stop + 'd machine" where
  "int16_leds hw m =
     (let shift_flags = read_byte 0x40 0x17 m;
          led_flags = read_byte 0x40 0x97 m
      in if (drop_bit 4 shift_flags AND 0x07) XOR (led_flags AND 0x07) \<noteq> 0 then
           let m = outb hw 0x60 0xed (int_disable m)
           in case poll_while (kbc_no_data hw) (outb hw 0x80 0x21) m of
                None \<Rightarrow> Inl Diverges
              | Some m \<Rightarrow>
                  let (b, m) = inb hw 0x60 m
                  in if b = 0xfa then
                       let led_flags = (led_flags AND 0xc8) OR (drop_bit 4 shift_flags AND 0x07);
                           m = outb hw 0x60 (led_flags AND 0x07) m
                       in case poll_while (kbc_no_data hw) (outb hw 0x80 0x21) m of
                            None \<Rightarrow> Inl Diverges
                          | Some m \<Rightarrow>
                              let (_, m) = inb hw 0x60 m
                              in Inr (int_enable (write_byte 0x40 0x97 led_flags m))
                     else Inr (int_enable m)
         else Inr m)"

text \<open>\<open>if (scan_code != 0 && ascii_code == 0xF0) ...\<close>, with the E0 case of the old services.\<close>

definition key_ax :: "bool \<Rightarrow> u8 \<times> u8 \<Rightarrow> u16" where
  "key_ax mf2 k =
     (let (scan_code, ascii_code) = k;
          ascii_code = (if scan_code \<noteq> 0 \<and> ascii_code = 0xF0 then 0
                        else if \<not> mf2 \<and> ascii_code = 0xE0 then 0 else ascii_code)
      in mk16 scan_code ascii_code)"

definition int16_read :: "bool \<Rightarrow> regs \<Rightarrow> 'd machine \<Rightarrow> 'd machine stop + regs \<times> 'd machine" where
  "int16_read mf2 r m =
     (case dequeue_key True m of
        (None, m) \<Rightarrow> Inl (bx_panic ''KBD: int16h: out of keyboard input'' [] m)
      | (Some k, m) \<Rightarrow> Inr (r\<lparr>rax := key_ax mf2 k\<rparr>, m))"

definition int16_check :: "bool \<Rightarrow> regs \<Rightarrow> 'd machine \<Rightarrow> regs \<times> 'd machine" where
  "int16_check mf2 r m =
     (let r = r\<lparr>flags := ifl r\<rparr>
      in case dequeue_key False m of
           (None, m) \<Rightarrow> (set_zf r, m)
         | (Some k, m) \<Rightarrow> (clear_zf (r\<lparr>rax := key_ax mf2 k\<rparr>), m))"

fun kbd_id_loop :: "'d hw \<Rightarrow> nat \<Rightarrow> u16 \<Rightarrow> 'd machine \<Rightarrow> u16 \<times> 'd machine" where
  "kbd_id_loop hw 0 kbd_code m = (kbd_code, m)"
| "kbd_id_loop hw (Suc cnt) kbd_code m =
     (let (k, m) = poll_bounded (kbc_no_data hw) (\<lambda>m. snd (inb hw 0x80 m)) 0xffff m;
          (kbd_code, m) =
            (if k > 0 then
               let (b, m) = inb hw 0x60 m
               in (drop_bit 8 kbd_code OR push_bit 8 (ucast b), m)
             else (kbd_code, m))
      in kbd_id_loop hw cnt kbd_code m)"

definition int16_kbd_id :: "'d hw \<Rightarrow> regs \<Rightarrow> 'd machine \<Rightarrow> regs \<times> 'd machine" where
  "int16_kbd_id hw r m =
     (let m = outb hw 0x60 0xf2 (int_disable m);
          (k, m) = poll_bounded (kbc_no_data hw) (\<lambda>m. snd (inb hw 0x80 m)) 0xffff m;
          (kbd_code, m) =
            (if k > 0 then
               let (b, m) = inb hw 0x60 m
               in if b = 0xfa then kbd_id_loop hw 2 0 m else (0, m)
             else (0, m))
      in (r\<lparr>rbx := kbd_code\<rparr>, m))"

definition int16_dispatch ::
  "'d hw \<Rightarrow> regs \<Rightarrow> 'd machine \<Rightarrow> 'd machine stop + regs \<times> 'd machine" where
  "int16_dispatch hw r m =
     (let ah = hi8 (rax r) in
      if ah = 0x00 then int16_read False r m
      else if ah = 0x01 then Inr (int16_check False r m)
      else if ah = 0x02 then Inr (set_al (read_byte 0x40 0x17 m) r, m)
      else if ah = 0x05 then
        (let (ok, m) = enqueue_key (hi8 (rcx r)) (lo8 (rcx r)) m
         in Inr (set_al (if ok then 0 else 1) r, m))
      else if ah = 0x09 then Inr (set_al 0x30 r, m)
      else if ah = 0x0A then Inr (int16_kbd_id hw r m)
      else if ah = 0x10 then int16_read True r m
      else if ah = 0x11 then Inr (int16_check True r m)
      else if ah = 0x12 then
        (let r = set_al (read_byte 0x40 0x17 m) r;
             shift_flags = (read_byte 0x40 0x18 m AND 0x73) OR (read_byte 0x40 0x96 m AND 0x0c)
         in Inr (set_ah shift_flags r, m))
      else if ah = 0x92 then Inr (set_ah 0x80 r, m)
      else if ah = 0xA2 then Inr (r, m)
      else Inr (r, bx_info ''AX=%04x BX=%04x CX=%04x DX=%04x '' [rax r, rbx r, rcx r, rdx r]
                  (bx_info ''KBD: unsupported int 16h function %02x'' [ucast ah] m)))"

definition int16_function ::
  "'d hw \<Rightarrow> regs \<Rightarrow> 'd machine \<Rightarrow> 'd machine stop + regs \<times> 'd machine" where
  "int16_function hw r m =
     (case int16_leds hw m of Inl s \<Rightarrow> Inl s | Inr m \<Rightarrow> int16_dispatch hw r m)"

section \<open>The ring as a bounded queue\<close>

abbreviation kbd_start :: "'d machine \<Rightarrow> nat" where "kbd_start m \<equiv> unat (read_word 0x40 0x80 m)"
abbreviation kbd_end :: "'d machine \<Rightarrow> nat" where "kbd_end m \<equiv> unat (read_word 0x40 0x82 m)"
abbreviation kbd_head :: "'d machine \<Rightarrow> nat" where "kbd_head m \<equiv> unat (read_word 0x40 0x1A m)"
abbreviation kbd_tail :: "'d machine \<Rightarrow> nat" where "kbd_tail m \<equiv> unat (read_word 0x40 0x1C m)"

text \<open>
  The ring is set up: its bounds enclose whole entries, lie clear of the bytes of the BIOS data
  area the keyboard code uses itself, and head and tail point at entries.
\<close>

definition kbd_area_ok :: "nat \<Rightarrow> nat \<Rightarrow> bool" where
  "kbd_area_ok s e \<longleftrightarrow> s < e \<and> even (e - s) \<and> (0x1E \<le> s \<and> e \<le> 0x71 \<or> 0x98 \<le> s)"

definition kbd_ok :: "'d machine \<Rightarrow> bool" where
  "kbd_ok m \<longleftrightarrow> kbd_area_ok (kbd_start m) (kbd_end m) \<and>
     kbd_start m \<le> kbd_head m \<and> kbd_head m < kbd_end m \<and> even (kbd_head m - kbd_start m) \<and>
     kbd_start m \<le> kbd_tail m \<and> kbd_tail m < kbd_end m \<and> even (kbd_tail m - kbd_start m)"

definition kbd_slots :: "'d machine \<Rightarrow> nat" where
  "kbd_slots m = (kbd_end m - kbd_start m) div 2"

definition kbd_slot :: "'d machine \<Rightarrow> nat \<Rightarrow> u8 \<times> u8" where
  "kbd_slot m k =
     (read_byte 0x40 (of_nat (kbd_start m + 2 * k) + 1) m,
      read_byte 0x40 (of_nat (kbd_start m + 2 * k)) m)"

definition kbd_queue :: "'d machine \<Rightarrow> (u8 \<times> u8) list" where
  "kbd_queue m = ring_list (kbd_slot m) (kbd_slots m)
     ((kbd_head m - kbd_start m) div 2) ((kbd_tail m - kbd_start m) div 2)"

text \<open>What a machine in the invariant looks like, in slots.\<close>

lemma kbd_okE:
  assumes "kbd_ok m"
  obtains s n i j where
    "kbd_start m = s" "kbd_end m = s + 2 * n" "kbd_slots m = n"
    "kbd_head m = s + 2 * i" "kbd_tail m = s + 2 * j" "i < n" "j < n" "s + 2 * n < 65536"
    "0x1E \<le> s \<and> s + 2 * n \<le> 0x71 \<or> 0x98 \<le> s"
    "kbd_queue m = ring_list (kbd_slot m) n i j"
proof -
  let ?s = "kbd_start m" and ?e = "kbd_end m" and ?h = "kbd_head m" and ?t = "kbd_tail m"
  from assms have e: "?s < ?e" "even (?e - ?s)" "0x1E \<le> ?s \<and> ?e \<le> 0x71 \<or> 0x98 \<le> ?s"
    and h: "?s \<le> ?h" "?h < ?e" "even (?h - ?s)" and t: "?s \<le> ?t" "?t < ?e" "even (?t - ?s)"
    by (auto simp: kbd_ok_def kbd_area_ok_def)
  have "?e < 65536" using unsigned_less [of "read_word 0x40 0x82 m"] by simp
  obtain n where n: "?e = ?s + 2 * n" using e by (metis evenE le_add_diff_inverse less_imp_le)
  obtain i where i: "?h = ?s + 2 * i" using h by (metis evenE le_add_diff_inverse)
  obtain j where j: "?t = ?s + 2 * j" using t by (metis evenE le_add_diff_inverse)
  show thesis
  proof
    show "kbd_queue m = ring_list (kbd_slot m) n i j"
      by (simp add: kbd_queue_def kbd_slots_def n i j)
  qed (use e h t n i j \<open>?e < 65536\<close> in \<open>auto simp: kbd_slots_def\<close>)
qed

lemma u16_of_nat [simp]: "k < 65536 \<Longrightarrow> unat (of_nat k :: u16) = k"
  by (simp add: unat_of_nat)

lemma u16_Suc: "k < 65535 \<Longrightarrow> unat (of_nat k + 1 :: u16) = Suc k"
  using u16_of_nat [of "Suc k"] by (simp add: add.commute)

lemma ring_next:
  fixes w st en :: u16
  assumes "unat w = s + 2 * j" "unat st = s" "unat en = s + 2 * n" "j < n" "s + 2 * n < 65536"
  shows "unat (if w + 2 \<ge> en then st else w + 2) = s + 2 * (Suc j mod n)"
proof -
  have "unat (w + 2) = s + 2 * Suc j"
    using assms by (simp add: unat_word_ariths)
  moreover from this have "w + 2 \<ge> en \<longleftrightarrow> Suc j = n"
    using assms by (auto simp: word_le_nat_alt)
  ultimately show ?thesis
    using assms by (auto simp: Suc_mod_eq)
qed

text \<open>The bytes of the ring are none of the bytes the keyboard code keeps for itself.\<close>

lemma ring_addr_neq:
  fixes a :: u16
  assumes "s \<le> unat a" "unat a < e" "0x1E \<le> s \<and> e \<le> 0x71 \<or> 0x98 \<le> s"
  shows "a \<noteq> 0x17" "a \<noteq> 0x18" "a \<noteq> 0x1A" "a \<noteq> 0x1B" "a \<noteq> 0x1C" "a \<noteq> 0x1D" "a \<noteq> 0x71" "a \<noteq> 0x72"
    "a \<noteq> 0x73" "a \<noteq> 0x80" "a \<noteq> 0x81" "a \<noteq> 0x82" "a \<noteq> 0x83" "a \<noteq> 0x96" "a \<noteq> 0x97"
  using assms by auto

lemma kbd_pointers_cong:
  assumes "\<And>a. a \<in> {0x1A, 0x1B, 0x1C, 0x1D, 0x80, 0x81, 0x82, 0x83} \<Longrightarrow>
             read_byte 0x40 a m' = read_byte 0x40 a m"
  shows "kbd_start m' = kbd_start m" "kbd_end m' = kbd_end m"
    "kbd_head m' = kbd_head m" "kbd_tail m' = kbd_tail m"
  using assms by (simp_all add: read_word_def)

text \<open>Whatever leaves the ring and its four pointers alone keeps the queue.\<close>

lemma kbd_queue_cong:
  assumes ok: "kbd_ok m"
    and same: "\<And>a. a \<in> {0x1A, 0x1B, 0x1C, 0x1D, 0x80, 0x81, 0x82, 0x83} \<or>
             kbd_start m \<le> unat a \<and> unat a < kbd_end m \<Longrightarrow>
             read_byte 0x40 a m' = read_byte 0x40 a m"
  shows "kbd_ok m'" "kbd_slots m' = kbd_slots m" "kbd_queue m' = kbd_queue m"
proof -
  have p: "kbd_start m' = kbd_start m" "kbd_end m' = kbd_end m"
    "kbd_head m' = kbd_head m" "kbd_tail m' = kbd_tail m"
    by (rule kbd_pointers_cong, rule same, blast)+
  show "kbd_ok m'" using ok unfolding kbd_ok_def p .
  show "kbd_slots m' = kbd_slots m" by (simp add: kbd_slots_def p)
  from ok obtain s n i j where m: "kbd_start m = s" "kbd_end m = s + 2 * n" "kbd_slots m = n"
      "i < n" "s + 2 * n < 65536"
    by (rule kbd_okE)
  have "kbd_slot m' k = kbd_slot m k" if "k < n" for k
  proof -
    define a where "a = (of_nat (s + 2 * k) :: u16)"
    have "unat a = s + 2 * k" "unat (a + 1) = s + 2 * k + 1"
      using that m u16_of_nat [of "s + 2 * k"] u16_Suc [of "s + 2 * k"] by (simp_all add: a_def)
    then have "read_byte 0x40 a m' = read_byte 0x40 a m"
      "read_byte 0x40 (a + 1) m' = read_byte 0x40 (a + 1) m"
      using that m by (auto intro!: same)
    then show ?thesis by (simp add: kbd_slot_def p m(1) a_def)
  qed
  then have "ring_list (kbd_slot m') n x y = ring_list (kbd_slot m) n x y" for x y
    using m by (intro ring_list_cong) auto
  then show "kbd_queue m' = kbd_queue m"
    by (simp add: kbd_queue_def p kbd_slots_def m)
qed

lemma enqueue_key_full:
  assumes "kbd_ok m" "Suc (length (kbd_queue m)) = kbd_slots m"
  shows "enqueue_key sc ac m = (False, m)"
proof -
  from assms(1) obtain s n i j where m: "kbd_start m = s" "kbd_end m = s + 2 * n" "kbd_slots m = n"
      "kbd_head m = s + 2 * i" "kbd_tail m = s + 2 * j" "i < n" "j < n" "s + 2 * n < 65536"
      "kbd_queue m = ring_list (kbd_slot m) n i j"
    by (rule kbd_okE)
  have "Suc j mod n = i"
    using assms(2) m by (simp add: ring_full_iff)
  then have "(if read_word 0x40 0x1C m + 2 \<ge> read_word 0x40 0x82 m then read_word 0x40 0x80 m
      else read_word 0x40 0x1C m + 2) = read_word 0x40 0x1A m"
    using ring_next [OF m(5) m(1) m(2) m(7) m(8)] m(4) by (simp add: word_unat_eq_iff)
  then show ?thesis by (simp add: enqueue_key_def Let_def)
qed

lemma enqueue_key_space:
  assumes "kbd_ok m" "Suc (length (kbd_queue m)) \<noteq> kbd_slots m"
  obtains m' where "enqueue_key sc ac m = (True, m')" "kbd_ok m'" "kbd_slots m' = kbd_slots m"
    "kbd_queue m' = kbd_queue m @ [(sc, ac)]"
proof -
  from assms(1) obtain s n i j where m: "kbd_start m = s" "kbd_end m = s + 2 * n" "kbd_slots m = n"
      "kbd_head m = s + 2 * i" "kbd_tail m = s + 2 * j" "i < n" "j < n" "s + 2 * n < 65536"
      "0x1E \<le> s \<and> s + 2 * n \<le> 0x71 \<or> 0x98 \<le> s"
      "kbd_queue m = ring_list (kbd_slot m) n i j"
    by (rule kbd_okE)
  define T where "T = read_word 0x40 0x1C m"
  define T' where "T' = (if T + 2 \<ge> read_word 0x40 0x82 m then read_word 0x40 0x80 m else T + 2)"
  define m' where
    "m' = write_word 0x40 0x1C T' (write_byte 0x40 (T + 1) sc (write_byte 0x40 T ac m))"
  have nf: "Suc j mod n \<noteq> i"
    using assms(2) m by (simp add: ring_full_iff)
  have uT: "unat T = s + 2 * j"
    using m(5) by (simp add: T_def)
  have uT': "unat T' = s + 2 * (Suc j mod n)"
    unfolding T'_def T_def by (rule ring_next [OF m(5) m(1) m(2) m(7) m(8)])
  have uT1: "unat (T + 1) = s + 2 * j + 1"
    using uT m(7,8) by (simp add: unat_word_ariths)
  have "T' \<noteq> read_word 0x40 0x1A m"
    using nf uT' m(4) by (auto simp: word_unat_eq_iff)
  then have run: "enqueue_key sc ac m = (True, m')"
    by (simp add: enqueue_key_def Let_def m'_def T'_def [symmetric] T_def [symmetric])
  have neq: "T \<noteq> 0x1A" "T \<noteq> 0x1B" "T \<noteq> 0x80" "T \<noteq> 0x81" "T \<noteq> 0x82" "T \<noteq> 0x83"
      "T + 1 \<noteq> 0x1A" "T + 1 \<noteq> 0x1B" "T + 1 \<noteq> 0x80" "T + 1 \<noteq> 0x81" "T + 1 \<noteq> 0x82" "T + 1 \<noteq> 0x83"
    using uT uT1 m(7,9)
    by (intro ring_addr_neq [where s = s and e = "s + 2 * n"]; simp)+
  have rd: "read_byte 0x40 a m' = (if a = 0x1C then lo8 T' else if a = 0x1D then hi8 T'
      else if a = T + 1 then sc else if a = T then ac else read_byte 0x40 a m)" for a
    by (simp add: m'_def read_byte_write_word_seg)
  have p: "kbd_start m' = s" "kbd_end m' = s + 2 * n" "kbd_head m' = s + 2 * i"
      "kbd_tail m' = s + 2 * (Suc j mod n)"
    using m(1,2,4) neq uT' by (simp_all add: read_word_def rd neq [symmetric])
  have n': "Suc j mod n < n" using m(6) by simp
  have ok: "kbd_ok m'"
    using m(6,9) n' by (auto simp: kbd_ok_def kbd_area_ok_def p)
  have sl: "kbd_slots m' = n" by (simp add: kbd_slots_def p)
  have slot: "kbd_slot m' k = ((kbd_slot m)(j := (sc, ac))) k" if k: "k < n" for k
  proof -
    let ?a = "of_nat (s + 2 * k) :: u16"
    have ua: "unat ?a = s + 2 * k" and ua1: "unat (?a + 1) = s + 2 * k + 1"
      using k m(8) u16_of_nat [of "s + 2 * k"] u16_Suc [of "s + 2 * k"] by simp_all
    have "?a \<noteq> 0x1C" "?a \<noteq> 0x1D" "?a + 1 \<noteq> 0x1C" "?a + 1 \<noteq> 0x1D"
      using ua ua1 k m(9) by (intro ring_addr_neq [where s = s and e = "s + 2 * n"]; simp)+
    moreover have "?a \<noteq> T + 1" "?a + 1 \<noteq> T" "?a = T \<longleftrightarrow> k = j" "?a + 1 = T + 1 \<longleftrightarrow> k = j"
      unfolding word_unat_eq_iff ua ua1 uT uT1 by presburger+
    ultimately show ?thesis
      by (simp add: kbd_slot_def p m(1) rd)
  qed
  have "kbd_queue m' = ring_list ((kbd_slot m)(j := (sc, ac))) n i (Suc j mod n)"
    using m(6) by (simp add: kbd_queue_def sl p) (intro ring_list_cong slot; simp)
  also have "\<dots> = kbd_queue m @ [(sc, ac)]"
    using ring_list_enq [OF m(6,7) nf] m(10) by simp
  finally show thesis
    using that [OF run ok] sl m(3) by simp
qed

lemma dequeue_key_empty:
  assumes "kbd_ok m" "kbd_queue m = []"
  shows "dequeue_key incr m = (None, m)"
proof -
  from assms(1) obtain s n i j where m: "kbd_head m = s + 2 * i" "kbd_tail m = s + 2 * j"
      "i < n" "j < n" "kbd_queue m = ring_list (kbd_slot m) n i j"
    by (rule kbd_okE)
  have "i = j" using ring_list_Nil_iff [OF m(3,4), of "kbd_slot m"] m(5) assms(2) by simp
  then have "read_word 0x40 0x1A m = read_word 0x40 0x1C m"
    using m by (simp add: word_unat_eq_iff)
  then show ?thesis by (simp add: dequeue_key_def Let_def)
qed

lemma dequeue_key_first:
  assumes "kbd_ok m" "kbd_queue m = k # ks"
  obtains m' where "dequeue_key True m = (Some k, m')" "kbd_ok m'" "kbd_slots m' = kbd_slots m"
    "kbd_queue m' = ks"
proof -
  from assms(1) obtain s n i j where m: "kbd_start m = s" "kbd_end m = s + 2 * n" "kbd_slots m = n"
      "kbd_head m = s + 2 * i" "kbd_tail m = s + 2 * j" "i < n" "j < n" "s + 2 * n < 65536"
      "0x1E \<le> s \<and> s + 2 * n \<le> 0x71 \<or> 0x98 \<le> s"
      "kbd_queue m = ring_list (kbd_slot m) n i j"
    by (rule kbd_okE)
  define H where "H = read_word 0x40 0x1A m"
  define H' where "H' = (if H + 2 \<ge> read_word 0x40 0x82 m then read_word 0x40 0x80 m else H + 2)"
  define m' where "m' = write_word 0x40 0x1A H' m"
  have ne: "i \<noteq> j" using assms(2) m by (auto simp: ring_list_empty)
  have q: "kbd_queue m = kbd_slot m i # ring_list (kbd_slot m) n (Suc i mod n) j"
    using ring_list_deq [OF m(6,7) ne] m(10) by simp
  have "read_word 0x40 0x1A m \<noteq> read_word 0x40 0x1C m"
    using m(4,5) ne by (auto simp: word_unat_eq_iff)
  moreover have "of_nat (s + 2 * i) = H"
    using m(4) by (simp add: H_def word_unat_eq_iff [symmetric] flip: m(4))
  ultimately have run: "dequeue_key True m = (Some (kbd_slot m i), m')"
    by (simp add: dequeue_key_def Let_def m'_def H'_def [symmetric] H_def [symmetric] kbd_slot_def m(1)
        del: of_nat_add)
  have uH': "unat H' = s + 2 * (Suc i mod n)"
    unfolding H'_def H_def by (rule ring_next [OF m(4) m(1) m(2) m(6) m(8)])
  have rd: "read_byte 0x40 a m' = (if a = 0x1A then lo8 H' else if a = 0x1B then hi8 H'
      else read_byte 0x40 a m)" for a
    by (simp add: m'_def read_byte_write_word_seg)
  have p: "kbd_start m' = s" "kbd_end m' = s + 2 * n" "kbd_tail m' = s + 2 * j"
      "kbd_head m' = s + 2 * (Suc i mod n)"
    using m(1,2,5) uH' by (simp_all add: read_word_def rd)
  have n': "Suc i mod n < n" using m(6) by simp
  have ok: "kbd_ok m'"
    using m(7,9) n' by (auto simp: kbd_ok_def kbd_area_ok_def p)
  have sl: "kbd_slots m' = n" by (simp add: kbd_slots_def p)
  have slot: "kbd_slot m' k = kbd_slot m k" if k: "k < n" for k
  proof -
    define a where "a = (of_nat (s + 2 * k) :: u16)"
    have ua: "unat a = s + 2 * k" and ua1: "unat (a + 1) = s + 2 * k + 1"
      using k m(8) u16_of_nat [of "s + 2 * k"] u16_Suc [of "s + 2 * k"] by (simp_all add: a_def)
    have "a \<noteq> 0x1A" "a \<noteq> 0x1B" "a + 1 \<noteq> 0x1A" "a + 1 \<noteq> 0x1B"
      using ua ua1 k m(9) by (intro ring_addr_neq [where s = s and e = "s + 2 * n"]; simp)+
    then show ?thesis
      by (simp add: kbd_slot_def p m(1) rd a_def [symmetric] del: of_nat_add)
  qed
  have "kbd_queue m' = ring_list (kbd_slot m) n (Suc i mod n) j"
    using m(6) by (simp add: kbd_queue_def sl p) (intro ring_list_cong slot; simp)
  with q assms(2) have "kbd_queue m' = ks" "k = kbd_slot m i" by simp_all
  with that [OF _ ok] run sl m(3) show thesis by simp
qed

text \<open>The ring satisfies the contract of a bounded queue of one entry less than its slots.\<close>

lemma kbd_queue_bound: "kbd_ok m \<Longrightarrow> length (kbd_queue m) < kbd_slots m"
  by (elim kbd_okE) (simp add: ring_len_less)

interpretation kbd: bounded_fifo kbd_ok "\<lambda>m. kbd_slots m - 1" kbd_queue
  "\<lambda>(sc, ac). enqueue_key sc ac" "dequeue_key True"
proof
  fix m :: "'a machine" and x :: "u8 \<times> u8"
  assume ok: "kbd_ok m" and "length (kbd_queue m) < kbd_slots m - 1"
  then have ne: "Suc (length (kbd_queue m)) \<noteq> kbd_slots m" by simp
  obtain sc ac where x: "x = (sc, ac)" by (cases x)
  show "\<exists>m'. (case x of (sc, ac) \<Rightarrow> enqueue_key sc ac) m = (True, m') \<and> kbd_ok m' \<and>
      kbd_slots m' - 1 = kbd_slots m - 1 \<and> kbd_queue m' = kbd_queue m @ [x]"
    by (rule enqueue_key_space [OF ok ne, of sc ac]) (simp add: x)
next
  fix m :: "'a machine" and x :: "u8 \<times> u8"
  assume ok: "kbd_ok m" and "\<not> length (kbd_queue m) < kbd_slots m - 1"
  then have "Suc (length (kbd_queue m)) = kbd_slots m" using kbd_queue_bound [OF ok] by simp
  then show "(case x of (sc, ac) \<Rightarrow> enqueue_key sc ac) m = (False, m)"
    by (cases x) (simp add: enqueue_key_full [OF ok])
next
  fix m :: "'a machine" and x xs
  assume ok: "kbd_ok m" and "kbd_queue m = x # xs"
  then show "\<exists>m'. dequeue_key True m = (Some x, m') \<and> kbd_ok m' \<and>
      kbd_slots m' - 1 = kbd_slots m - 1 \<and> kbd_queue m' = xs"
    by (auto elim!: dequeue_key_first [OF ok])
next
  fix m :: "'a machine"
  assume "kbd_ok m" "kbd_queue m = []"
  then show "dequeue_key True m = (None, m)" by (rule dequeue_key_empty)
qed

section \<open>The flag bytes and the queue\<close>

text \<open>Shift flags, MF-II flags, break flag, boot word and LED byte: the flag bytes the handlers write.\<close>

definition kbd_flag_addr :: "u16 \<Rightarrow> bool" where
  "kbd_flag_addr a \<longleftrightarrow> a \<in> {0x17, 0x18, 0x71, 0x72, 0x73, 0x96, 0x97}"

lemma write_flag_queue:
  assumes "kbd_ok m" "kbd_flag_addr a"
  shows "kbd_ok (write_byte 0x40 a v m)" "kbd_slots (write_byte 0x40 a v m) = kbd_slots m"
    "kbd_queue (write_byte 0x40 a v m) = kbd_queue m"
proof -
  have area: "kbd_start m \<ge> 0x1E \<and> kbd_end m \<le> 0x71 \<or> kbd_start m \<ge> 0x98"
    using assms(1) by (auto simp: kbd_ok_def kbd_area_ok_def)
  have same: "read_byte 0x40 b (write_byte 0x40 a v m) = read_byte 0x40 b m"
    if "b \<in> {0x1A, 0x1B, 0x1C, 0x1D, 0x80, 0x81, 0x82, 0x83} \<or> kbd_start m \<le> unat b \<and> unat b < kbd_end m"
    for b
  proof -
    have "b \<noteq> a"
      using that assms(2) ring_addr_neq [of "kbd_start m" b "kbd_end m", OF _ _ area]
      by (auto simp: kbd_flag_addr_def)
    then show ?thesis by simp
  qed
  show "kbd_ok (write_byte 0x40 a v m)" "kbd_slots (write_byte 0x40 a v m) = kbd_slots m"
    "kbd_queue (write_byte 0x40 a v m) = kbd_queue m"
    by (rule kbd_queue_cong [OF assms(1) same]; assumption)+
qed

lemma same_ram_queue:
  assumes "kbd_ok m" "ram m' = ram m"
  shows "kbd_ok m'" "kbd_slots m' = kbd_slots m" "kbd_queue m' = kbd_queue m"
  by (rule kbd_queue_cong [OF assms(1)]; simp add: read_byte_def assms(2))+

lemma enqueue_key_ok:
  assumes "kbd_ok m"
  shows "kbd_ok (snd (enqueue_key sc ac m))"
proof (cases "Suc (length (kbd_queue m)) = kbd_slots m")
  case True
  then show ?thesis using assms by (simp add: enqueue_key_full)
next
  case False
  then show ?thesis using enqueue_key_space [OF assms False, of sc ac] by (metis snd_conv)
qed

lemma flush_queue:
  assumes "kbd_ok m"
  defines "m' \<equiv> write_word 0x40 0x1C (read_word 0x40 0x1A m) m"
  shows "kbd_ok m'" "kbd_slots m' = kbd_slots m" "kbd_queue m' = []"
proof -
  from assms(1) obtain s n i where m: "kbd_start m = s" "kbd_end m = s + 2 * n" "kbd_head m = s + 2 * i"
      "i < n" "0x1E \<le> s \<and> s + 2 * n \<le> 0x71 \<or> 0x98 \<le> s"
    by (rule kbd_okE)
  have p: "kbd_start m' = s" "kbd_end m' = s + 2 * n" "kbd_head m' = s + 2 * i" "kbd_tail m' = s + 2 * i"
    using m(1-3) by (simp_all add: m'_def read_word_write_word_other)
  show "kbd_ok m'" using m(4,5) by (auto simp: kbd_ok_def kbd_area_ok_def p)
  show "kbd_slots m' = kbd_slots m" by (simp add: kbd_slots_def p m)
  show "kbd_queue m' = []" by (simp add: kbd_queue_def p ring_list_empty)
qed

lemma write_word_0x72_queue:
  assumes "kbd_ok m"
  shows "kbd_ok (write_word 0x40 0x72 v m)"
  using assms by (simp add: write_word_def write_flag_queue kbd_flag_addr_def)

text \<open>One rule set for the handlers: they keep the ring, case by case.\<close>

lemmas kbd_keep = write_flag_queue(1) enqueue_key_ok flush_queue(1) same_ram_queue(1)

fun case_machine_ok :: "('m \<Rightarrow> bool) \<Rightarrow> 'm case09 \<Rightarrow> bool" where
  "case_machine_ok P (Break _ _ m) = P m"
| "case_machine_ok P (Return m) = P m"
| "case_machine_ok P (Stop _) = True"

lemma int09_simple_cases_ok:
  assumes "kbd_ok m"
  shows "case_machine_ok kbd_ok (int09_caps press sc shf mf st m)"
    "case_machine_ok kbd_ok (int09_shift sc shf st m)"
    "case_machine_ok kbd_ok (int09_ctrl press sc shf mf st m)"
    "case_machine_ok kbd_ok (int09_alt press sc shf mf st m)"
    "case_machine_ok kbd_ok (int09_num_release sc mf st m)"
    "case_machine_ok kbd_ok (int09_scroll_release sc mf st m)"
    "case_machine_ok kbd_ok (int09_sysrq press sc mf st m)"
  using assms
  by (simp_all add: int09_caps_def int09_shift_def int09_ctrl_def int09_alt_def
      int09_num_release_def int09_scroll_release_def int09_sysrq_def Let_def
      write_flag_queue kbd_flag_addr_def)

lemma bx_info_queue [simp]:
  assumes "kbd_ok m"
  shows "kbd_ok (bx_info f xs m)" "kbd_slots (bx_info f xs m) = kbd_slots m"
    "kbd_queue (bx_info f xs m) = kbd_queue m"
  by (rule same_ram_queue [OF assms]; simp add: bx_info_def)+

lemma outb_queue [simp]:
  assumes "kbd_ok m"
  shows "kbd_ok (outb hw p v m)" "kbd_slots (outb hw p v m) = kbd_slots m"
    "kbd_queue (outb hw p v m) = kbd_queue m"
  by (rule same_ram_queue [OF assms]; simp add: frame_simps)+

lemma enqueue_key_okD: "enqueue_key sc ac m = (b, m') \<Longrightarrow> kbd_ok m \<Longrightarrow> kbd_ok m'"
  using enqueue_key_ok [of m sc ac] by simp

lemma int09_default_ok:
  assumes "kbd_ok m"
  shows "case_machine_ok kbd_ok (int09_default sc shf mf st m)"
  using assms
  by (auto simp: int09_default_def Let_def write_flag_queue kbd_flag_addr_def
      split: prod.split dest: enqueue_key_okD)

lemma int09_del_ok:
  "kbd_ok m \<Longrightarrow> case_machine_ok kbd_ok (int09_del sc shf mf st m)"
  by (simp add: int09_del_def int09_default_ok)

text \<open>The environment keeps the ring set up: interrupt handlers and the Ctrl-Break handler.\<close>

definition env_keeps :: "('d machine \<Rightarrow> bool) \<Rightarrow> 'd env \<Rightarrow> bool" where
  "env_keeps P env \<longleftrightarrow> (\<forall>m. P m \<longrightarrow> P (env_wait env m) \<and> P (env_int1b env m))"

lemma int09_num_press_ok:
  assumes "kbd_ok m" "env_keeps kbd_ok env"
  shows "case_machine_ok kbd_ok (int09_num_press hw env sc shf mf st m)"
proof -
  let ?m = "eoi_master_pic hw (outb hw 0x64 0xae (write_byte 0x40 0x18 (mf OR 0x08) m))"
  have start: "kbd_ok ?m"
    using assms(1) by (simp add: eoi_master_pic_def write_flag_queue kbd_flag_addr_def)
  have "kbd_ok m'" if run: "poll_while suspended (env_wait env) ?m = Some m'" for m'
    by (rule poll_while_invariant [where P = kbd_ok and Q = kbd_ok, OF run start])
      (use assms(2) in \<open>simp_all add: suspended_def env_keeps_def\<close>)
  then show ?thesis
    using assms(1)
    by (simp add: int09_num_press_def Let_def write_flag_queue kbd_flag_addr_def split: option.split)
qed

lemma int09_scroll_press_ok:
  assumes ok: "kbd_ok m" and env: "env_keeps kbd_ok env"
  shows "case_machine_ok kbd_ok (int09_scroll_press hw env sc shf mf st m)"
proof (cases "st AND 0x02 = 0")
  case True
  then show ?thesis
    using ok by (simp add: int09_scroll_press_def Let_def write_flag_queue kbd_flag_addr_def)
next
  case False
  let ?m = "outb hw 0x64 0xae (write_byte 0x40 0x71 0x80
    (write_word 0x40 0x1C (read_word 0x40 0x1A m) m))"
  have "kbd_ok ?m"
    using flush_queue [OF ok] by (simp add: write_flag_queue kbd_flag_addr_def)
  then have "kbd_ok (env_int1b env ?m)"
    using env by (simp add: env_keeps_def)
  then have "kbd_ok (snd (enqueue_key 0 0 (env_int1b env ?m)))"
    by (rule enqueue_key_ok)
  with False show ?thesis
    by (simp add: int09_scroll_press_def Let_def case_prod_beta)
qed

lemma int09_switch_ok:
  assumes "kbd_ok m" "env_keeps kbd_ok env"
  shows "case_machine_ok kbd_ok (int09_switch hw env sc shf mf st m)"
  unfolding int09_switch_def
  by (simp add: assms int09_simple_cases_ok int09_default_ok int09_del_ok int09_num_press_ok
      int09_scroll_press_ok)

lemma int09_function_ok:
  assumes "kbd_ok m" "env_keeps kbd_ok env" "int09_function hw env sc m = Inr m'"
  shows "kbd_ok m'"
  using assms(3) int09_switch_ok [OF assms(1,2), of hw sc "read_byte 0x40 0x17 m"
      "read_byte 0x40 0x18 m" "read_byte 0x40 0x96 m"] assms(1)
  by (auto simp: int09_function_def Let_def write_flag_queue kbd_flag_addr_def
      split: if_splits case09.splits)

section \<open>Regular keys\<close>

definition regular_make :: "u8 \<Rightarrow> bool" where
  "regular_make sc \<longleftrightarrow> sc \<noteq> 0 \<and> sc \<le> MAX_SCAN_CODE \<and>
     sc \<notin> {0x3a, 0x2a, 0x36, 0x1d, 0x38, 0x45, 0x46, 0x54}"

lemma and_not_disjoint: "a AND b = 0 \<Longrightarrow> a AND NOT b = a" for a b :: "'a::len word"
  by (auto simp: bit_eq_iff bit_simps)

lemma and_sub_mask: "a AND c = 0 \<Longrightarrow> b AND c = b \<Longrightarrow> a AND b = 0" for a b c :: "'a::len word"
  by (auto simp: bit_eq_iff bit_simps)

lemma state_bits_clear:
  assumes "(st :: u8) AND 0x03 = 0"
  shows "st AND NOT 0x01 = st" "st AND NOT 0x02 = st" "st AND 0x01 = 0" "st AND 0x02 = 0"
  using assms and_sub_mask [of st "0x03" "0x01"] and_sub_mask [of st "0x03" "0x02"]
    and_not_disjoint [of st "0x01"] and_not_disjoint [of st "0x02"]
  by simp_all

lemma high_bit_clear:
  assumes "(sc :: u8) \<le> 0x58"
  shows "sc AND 0x80 = 0"
proof -
  have "unat (sc div 128) = 0"
    using assms by (simp add: unat_div word_le_nat_alt)
  then have "sc div 128 = 0" by (simp only: unat_eq_zero)
  then have "\<not> bit sc 7"
    by (simp add: bit_iff_odd)
  then have "\<not> bit (sc AND 0x80) n" if "n < 8" for n
    using that by (cases "n = 7") (auto simp: bit_simps numeral_eq_Suc less_Suc_eq bit_numeral_rec)
  then show ?thesis by (auto simp: bit_eq_iff dest: bit_imp_le_length)
qed

definition kbd_flags :: "'d machine \<Rightarrow> u8 \<times> u8 \<times> u8 \<times> u8" where
  \<comment> \<open>shift flags, MF-II flags, MF-II state, LED byte\<close>
  "kbd_flags m = (read_byte 0x40 0x17 m, read_byte 0x40 0x18 m, read_byte 0x40 0x96 m,
     read_byte 0x40 0x97 m)"

lemma enqueue_key_flags:
  assumes "kbd_ok m"
  shows "kbd_flags (snd (enqueue_key sc ac m)) = kbd_flags m"
proof -
  from assms obtain s n j where m: "kbd_tail m = s + 2 * j" "j < n" "s + 2 * n < 65536"
      "0x1E \<le> s \<and> s + 2 * n \<le> 0x71 \<or> 0x98 \<le> s"
    by (rule kbd_okE)
  let ?t = "read_word 0x40 0x1C m"
  have "unat (?t + 1) = s + 2 * j + 1"
    using m by (simp add: unat_word_ariths)
  then have "?t \<notin> {0x17, 0x18, 0x96, 0x97}" "?t + 1 \<notin> {0x17, 0x18, 0x96, 0x97}"
    using m ring_addr_neq [of s ?t "s + 2 * n"] ring_addr_neq [of s "?t + 1" "s + 2 * n"] by auto
  then show ?thesis
    by (auto simp: kbd_flags_def enqueue_key_def Let_def read_byte_write_word_seg)
qed

lemma dequeue_key_flags: "kbd_flags (snd (dequeue_key incr m)) = kbd_flags m"
  by (simp add: kbd_flags_def dequeue_key_def Let_def read_byte_write_word_seg)

lemma int09_regular:
  assumes ok: "kbd_ok m" and space: "Suc (length (kbd_queue m)) \<noteq> kbd_slots m"
    and flags: "kbd_flags m = (shf, mf, st, led)"
    and key: "regular_make sc"
    and quiet: "mf AND 0x08 = 0" "st AND 0x03 = 0" "shf AND 0x0c \<noteq> 0x0c"
  obtains m' where "int09_function hw env sc m = Inr m'" "kbd_ok m'" "kbd_slots m' = kbd_slots m"
    "kbd_queue m' = kbd_queue m @ [translate_key shf st sc]" "kbd_flags m' = (shf, mf, st, led)"
proof -
  obtain sc' ac' where tr: "translate_key shf st sc = (sc', ac')" by fastforce
  define m0 where "m0 = (if sc' = 0 \<and> ac' = 0
    then bx_info ''KBD: int09h_handler(): scancode & asciicode are zero?'' [] m else m)"
  have m0: "kbd_ok m0" "kbd_slots m0 = kbd_slots m" "kbd_queue m0 = kbd_queue m"
      "kbd_flags m0 = kbd_flags m"
    using ok by (simp_all add: m0_def kbd_flags_def)
  obtain m1 where m1: "enqueue_key sc' ac' m0 = (True, m1)" "kbd_ok m1" "kbd_slots m1 = kbd_slots m0"
      "kbd_queue m1 = kbd_queue m0 @ [(sc', ac')]"
    using enqueue_key_space [OF m0(1)] space m0 by metis
  have f1: "kbd_flags m1 = (shf, mf, st, led)"
    using enqueue_key_flags [OF m0(1), of sc' ac'] m1(1) m0(4) flags by simp
  have hb: "sc AND 0x80 = 0" "\<not> sc > MAX_SCAN_CODE"
    using key high_bit_clear [of sc] by (auto simp: regular_make_def MAX_SCAN_CODE_def)
  have neq: "sc \<noteq> 0xba" "sc \<noteq> 0xaa" "sc \<noteq> 0xb6" "sc \<noteq> 0x9d" "sc \<noteq> 0xb8" "sc \<noteq> 0xc5" "sc \<noteq> 0xc6" "sc \<noteq> 0xd4"
    using hb(2) by (auto simp: MAX_SCAN_CODE_def)
  have def: "int09_default sc shf mf st m = Break sc' st m1"
    using quiet(1) hb tr m1(1) by (simp add: int09_default_def m0_def Let_def)
  have sw: "int09_switch hw env sc shf mf st m = Break sc' st m1"
    using key quiet(3) neq def
    by (cases "sc = 0x53") (simp_all add: int09_switch_def int09_del_def regular_make_def)
  let ?m' = "write_byte 0x40 0x96 st m1"
  have run: "int09_function hw env sc m = Inr ?m'"
    using key flags sw state_bits_clear [OF quiet(2)]
    by (simp add: int09_function_def kbd_flags_def regular_make_def Let_def)
  show thesis
    by (rule that [OF run])
      (use m1 m0 f1 in \<open>simp_all add: write_flag_queue kbd_flag_addr_def kbd_flags_def tr\<close>)
qed

section \<open>A freshly booted BIOS data area\<close>

text \<open>The ring as POST leaves it: 16 entries at 40:1E, empty; used by the witnesses.\<close>

definition bda_fresh :: "'d \<Rightarrow> 'd machine" where
  "bda_fresh d = write_word 0x40 0x82 0x3E (write_word 0x40 0x80 0x1E
     (write_word 0x40 0x1C 0x1E (write_word 0x40 0x1A 0x1E
       \<lparr>ram = (\<lambda>_. 0), dev = d, tty = [], blog = [], iflag = False\<rparr>)))"

lemma bda_fresh_words [simp]:
  "read_word 0x40 0x80 (bda_fresh d) = 0x1E" "read_word 0x40 0x82 (bda_fresh d) = 0x3E"
  "read_word 0x40 0x1A (bda_fresh d) = 0x1E" "read_word 0x40 0x1C (bda_fresh d) = 0x1E"
  by (simp_all add: bda_fresh_def read_word_write_word_other)

lemma bda_fresh_ok [simp]:
  "kbd_ok (bda_fresh d)" "kbd_slots (bda_fresh d) = 16" "kbd_queue (bda_fresh d) = []"
  by (simp_all add: kbd_ok_def kbd_area_ok_def kbd_slots_def kbd_queue_def ring_list_empty)

lemma bda_fresh_flags [simp]: "kbd_flags (bda_fresh d) = (0, 0, 0, 0)"
  by (simp add: kbd_flags_def bda_fresh_def read_byte_write_word_seg) (simp add: read_byte_def)

text \<open>A device that always has data and answers from a script (bytes for port 60h).\<close>

definition script_hw :: "u8 list hw" where
  "script_hw =
     \<lparr>hw_inb = (\<lambda>p d. if p = 0x60 then (case d of [] \<Rightarrow> (0, []) | b # bs \<Rightarrow> (b, bs)) else (1, d)),
      hw_inw = (\<lambda>p d. (0, d)), hw_ind = (\<lambda>p d. (0, d)),
      hw_outb = (\<lambda>p v d. d), hw_outw = (\<lambda>p v d. d), hw_outd = (\<lambda>p v d. d)\<rparr>"

definition idle_env :: "'d env" where
  "idle_env = \<lparr>env_wait = id, env_int1b = id\<rparr>"

lemma idle_env_keeps [simp]: "env_keeps P idle_env"
  by (simp add: env_keeps_def idle_env_def)

section \<open>Properties\<close>

text \<open>
  C1: The key-stroke ring in the BIOS data area is a first-in first-out queue of one key-stroke
  less than its slots: any sequence of \<open>enqueue_key\<close> and \<open>dequeue_key\<close> calls returns what the same
  sequence on a bounded list returns, refusing (return value 0) exactly the insertions that find
  it full, and leaves the ring holding that list.
\<close>

theorem kbd_ring_refines_queue:
  assumes "kbd_ok m"
    and "fifo_run (\<lambda>(sc, ac). enqueue_key sc ac) (dequeue_key True) ops m = (outs, m')"
  shows "kbd_ok m' \<and> fifo_spec (kbd_slots m - 1) ops (kbd_queue m) = (outs, kbd_queue m')"
  using kbd.run_refines [OF assms] by simp

theorem kbd_ring_refines_queue_witness:
  "fst (fifo_run (\<lambda>(sc, ac). enqueue_key sc ac) (dequeue_key True)
     [Put (0x1e, 0x61), Put (0x30, 0x62), Get, Get, Get] (bda_fresh ())) =
   [Put_done True, Put_done True, Got (Some (0x1e, 0x61)), Got (Some (0x30, 0x62)), Got None]"
proof -
  let ?ops = "[Put (0x1e, 0x61), Put (0x30, 0x62), Get, Get, Get] :: (u8 \<times> u8) fifo_op list"
  let ?run = "fifo_run (\<lambda>(sc, ac). enqueue_key sc ac) (dequeue_key True) ?ops (bda_fresh ())"
  have "fifo_spec 15 ?ops [] = (fst ?run, kbd_queue (snd ?run))"
    using kbd_ring_refines_queue [OF bda_fresh_ok(1), where ops = ?ops and outs = "fst ?run"
        and m' = "snd ?run"] by simp
  then show ?thesis by simp
qed

text \<open>
  C39: Every INT 09h run that returns keeps the ring set up, whatever scan code arrives (modifiers,
  Pause and Ctrl-Break included), as long as the interrupt handlers and the Ctrl-Break handler the
  BIOS calls do.
\<close>

theorem int09_keeps_ring:
  assumes "kbd_ok m" "env_keeps kbd_ok env" "int09_function hw env sc m = Inr m'"
  shows "kbd_ok m'"
  using assms by (rule int09_function_ok)

theorem int09_keeps_ring_witness:
  "kbd_ok (projr (int09_function script_hw idle_env 0x3a (bda_fresh [])))"
proof -
  have "\<exists>m'. int09_function script_hw idle_env 0x3a (bda_fresh []) = Inr m'"
    by (simp add: int09_function_def int09_switch_def int09_caps_def Let_def)
  then obtain m' where m': "int09_function script_hw idle_env 0x3a (bda_fresh []) = Inr m'" by blast
  have "kbd_ok m'" by (rule int09_keeps_ring [OF _ _ m']) simp_all
  with m' show ?thesis by simp
qed

text \<open>Typing a list of keys, and reading key-strokes through INT 16h, AH=0.\<close>

fun type_keys :: "'d hw \<Rightarrow> 'd env \<Rightarrow> u8 list \<Rightarrow> 'd machine \<Rightarrow> 'd machine stop + 'd machine" where
  "type_keys hw env [] m = Inr m"
| "type_keys hw env (k # ks) m =
     (case int09_function hw env k m of Inl s \<Rightarrow> Inl s | Inr m \<Rightarrow> type_keys hw env ks m)"

fun read_keys :: "'d hw \<Rightarrow> regs \<Rightarrow> nat \<Rightarrow> 'd machine \<Rightarrow> 'd machine stop + u16 list \<times> 'd machine" where
  "read_keys hw r 0 m = Inr ([], m)"
| "read_keys hw r (Suc n) m =
     (case int16_function hw r m of
        Inl s \<Rightarrow> Inl s
      | Inr (r', m) \<Rightarrow>
          (case read_keys hw r n m of Inl s \<Rightarrow> Inl s | Inr (axs, m) \<Rightarrow> Inr (rax r' # axs, m)))"

lemma type_keys_queue:
  assumes "kbd_ok m" "kbd_flags m = (shf, mf, st, led)"
    "list_all regular_make ks" "length (kbd_queue m) + length ks < kbd_slots m"
    "mf AND 0x08 = 0" "st AND 0x03 = 0" "shf AND 0x0c \<noteq> 0x0c"
  shows "\<exists>m'. type_keys hw env ks m = Inr m' \<and> kbd_ok m' \<and> kbd_flags m' = (shf, mf, st, led) \<and>
    kbd_queue m' = kbd_queue m @ map (translate_key shf st) ks"
  using assms(1-4)
proof (induction ks arbitrary: m)
  case Nil
  then show ?case by simp
next
  case (Cons k ks)
  then have "Suc (length (kbd_queue m)) \<noteq> kbd_slots m" "regular_make k" by simp_all
  then obtain m1 where m1: "int09_function hw env k m = Inr m1" "kbd_ok m1"
      "kbd_slots m1 = kbd_slots m" "kbd_queue m1 = kbd_queue m @ [translate_key shf st k]"
      "kbd_flags m1 = (shf, mf, st, led)"
    using int09_regular [OF Cons.prems(1) _ Cons.prems(2) _ assms(5-7), of k hw env] by metis
  have "\<exists>m'. type_keys hw env ks m1 = Inr m' \<and> kbd_ok m' \<and> kbd_flags m' = (shf, mf, st, led) \<and>
      kbd_queue m' = kbd_queue m1 @ map (translate_key shf st) ks"
    by (rule Cons.IH [OF m1(2,5)]) (use Cons.prems m1(3,4) in simp_all)
  with m1(1,4) show ?case by simp
qed

lemma int16_leds_sync:
  "kbd_flags m = (shf, mf, st, led) \<Longrightarrow> drop_bit 4 shf AND 0x07 = led AND 0x07 \<Longrightarrow>
   int16_leds hw m = Inr m"
  by (simp add: int16_leds_def kbd_flags_def)

lemma read_keys_queue:
  assumes "kbd_ok m" "kbd_flags m = (shf, mf, st, led)" "kbd_queue m = ks"
    "drop_bit 4 shf AND 0x07 = led AND 0x07" "hi8 (rax r) = 0"
  shows "\<exists>m'. read_keys hw r (length ks) m = Inr (map (key_ax False) ks, m') \<and> kbd_ok m' \<and>
    kbd_queue m' = []"
  using assms(1-3)
proof (induction ks arbitrary: m)
  case Nil
  then show ?case by simp
next
  case (Cons k ks)
  obtain m1 where m1: "dequeue_key True m = (Some k, m1)" "kbd_ok m1" "kbd_queue m1 = ks"
    using dequeue_key_first [OF Cons.prems(1,3)] by metis
  have "kbd_flags m1 = (shf, mf, st, led)"
    using dequeue_key_flags [of True m] m1(1) Cons.prems(2) by simp
  with Cons.IH [OF m1(2) _ m1(3)] m1(1) int16_leds_sync [OF Cons.prems(2) assms(4), of hw] assms(5)
  show ?case by (auto simp: int16_function_def int16_dispatch_def int16_read_def)
qed

text \<open>
  C4: Keys typed through INT 09h come back from INT 16h, AH=0, in order and translated: with an
  empty ring that has room for them, the flags quiet and the LEDs in step with the lock keys,
  pressing any list of regular make codes and then reading as many key-strokes yields exactly
  their translations under the current shift state, and the ring is empty again.
\<close>

theorem typed_keys_read_back:
  assumes "kbd_ok m" "kbd_queue m = []" "kbd_flags m = (shf, mf, st, led)"
    and "list_all regular_make ks" "length ks < kbd_slots m"
    and "mf AND 0x08 = 0" "st AND 0x03 = 0" "shf AND 0x0c \<noteq> 0x0c"
    and "drop_bit 4 shf AND 0x07 = led AND 0x07" "hi8 (rax r) = 0"
  shows "\<exists>m' m''. type_keys hw env ks m = Inr m' \<and>
    read_keys hw r (length ks) m' = Inr (map (key_ax False \<circ> translate_key shf st) ks, m'') \<and>
    kbd_ok m'' \<and> kbd_queue m'' = []"
proof -
  obtain m' where m': "type_keys hw env ks m = Inr m'" "kbd_ok m'" "kbd_flags m' = (shf, mf, st, led)"
      "kbd_queue m' = map (translate_key shf st) ks"
    using type_keys_queue [OF assms(1,3,4) _ assms(6-8), of hw env] assms(2,5) by auto
  from read_keys_queue [OF m'(2-4) assms(9,10), of hw] m'(1) show ?thesis
    by auto
qed

definition regs0 :: regs where
  "regs0 = \<lparr>rax = 0, rbx = 0, rcx = 0, rdx = 0, rsi = 0, rdi = 0, rsp = 0, rds = 0, res = 0,
     flags = 0, ifl = 0x0202\<rparr>"

theorem typed_keys_read_back_witness:
  "\<exists>m' m''. type_keys script_hw idle_env [0x23, 0x17] (bda_fresh []) = Inr m' \<and>
     read_keys script_hw regs0 2 m' = Inr ([0x2368, 0x1769], m'')"
proof -
  have t: "map (key_ax False \<circ> translate_key 0 0) [0x23, 0x17] = [0x2368, 0x1769]"
    by code_simp
  have "\<exists>m' m''. type_keys script_hw idle_env [0x23, 0x17] (bda_fresh []) = Inr m' \<and>
      read_keys script_hw regs0 (length [0x23, 0x17 :: u8]) m' = Inr ([0x2368, 0x1769], m'') \<and>
      kbd_ok m'' \<and> kbd_queue m'' = []"
    by (rule typed_keys_read_back [of "bda_fresh []" 0 0 0 0 "[0x23, 0x17]" regs0 script_hw idle_env,
          unfolded t])
      (simp_all add: regular_make_def MAX_SCAN_CODE_def regs0_def hi8_def)
  moreover have "length [0x23, 0x17 :: u8] = 2" by simp
  ultimately show ?thesis by metis
qed

end
