(* ===== verification/KeyboardServices.thy ===== *)
theory KeyboardServices
  imports Keyboard
begin

text \<open>
  What the keyboard services promise their users, on top of the ring: modifier and lock keys,
  Ctrl-Alt-Del, Pause and Ctrl-Break at INT 09h, the peek and store services of INT 16h, and
  the controller initialisation.
\<close>

section \<open>Modifier and lock keys\<close>

text \<open>A flag byte changed, everything else the keyboard code keeps is as before.\<close>

lemma kbd_flags_iff:
  "kbd_flags m = (shf, mf, st, led) \<longleftrightarrow>
     read_byte 0x40 0x17 m = shf \<and> read_byte 0x40 0x18 m = mf \<and>
     read_byte 0x40 0x96 m = st \<and> read_byte 0x40 0x97 m = led"
  by (simp add: kbd_flags_def)

lemma type_keys_single: "type_keys hw env [k] m = int09_function hw env k m"
  by (simp split: sum.split)

lemma flag_addrs [simp]:
  "kbd_flag_addr 0x17" "kbd_flag_addr 0x18" "kbd_flag_addr 0x71" "kbd_flag_addr 0x72"
  "kbd_flag_addr 0x73" "kbd_flag_addr 0x96" "kbd_flag_addr 0x97"
  by (simp_all add: kbd_flag_addr_def)

lemmas bda_fresh_bytes [simp] = bda_fresh_flags [unfolded kbd_flags_iff]

definition modifier_keys :: "(u8 \<times> u8 \<times> u8) list" where
  \<comment> \<open>make code, shift flag (40:17), MF-II flag (40:18)\<close>
  "modifier_keys = [(0x2a, 0x02, 0), (0x36, 0x01, 0), (0x1d, 0x04, 0x01), (0x38, 0x08, 0x02)]"

definition lock_keys :: "(u8 \<times> u8) list" where
  \<comment> \<open>make code, flag in 40:17 and 40:18\<close>
  "lock_keys = [(0x3a, 0x40), (0x45, 0x20), (0x46, 0x10)]"

lemma modifier_press:
  assumes ok: "kbd_ok m" and flags: "kbd_flags m = (shf, mf, st, led)" and quiet: "st AND 0x03 = 0"
    and key: "(k, b, b2) \<in> set modifier_keys"
  obtains m1 where "int09_function hw env k m = Inr m1" "kbd_ok m1" "kbd_queue m1 = kbd_queue m"
    "kbd_slots m1 = kbd_slots m" "kbd_flags m1 = (shf OR b, mf OR b2, st, led)"
proof -
  define m1 where "m1 = write_byte 0x40 0x96 st
    (if b2 = 0 then write_byte 0x40 0x17 (shf OR b) m
     else write_byte 0x40 0x18 (mf OR b2) (write_byte 0x40 0x17 (shf OR b) m))"
  have "int09_function hw env k m = Inr m1"
    using key flags state_bits_clear [OF quiet]
    by (auto simp: m1_def modifier_keys_def kbd_flags_iff int09_function_def int09_switch_def
        int09_shift_def int09_ctrl_def int09_alt_def Let_def)
  then show thesis
    by (rule that) (use ok flags in \<open>simp_all add: m1_def write_flag_queue kbd_flags_iff\<close>)
qed

lemma modifier_release:
  assumes ok: "kbd_ok m" and flags: "kbd_flags m = (shf, mf, st, led)" and quiet: "st AND 0x03 = 0"
    and key: "(k, b, b2) \<in> set modifier_keys"
  obtains m1 where "int09_function hw env (k OR 0x80) m = Inr m1" "kbd_ok m1"
    "kbd_queue m1 = kbd_queue m" "kbd_slots m1 = kbd_slots m"
    "kbd_flags m1 = (shf AND NOT b, mf AND NOT b2, st, led)"
proof -
  define m1 where "m1 = write_byte 0x40 0x96 st
    (if b2 = 0 then write_byte 0x40 0x17 (shf AND NOT b) m
     else write_byte 0x40 0x18 (mf AND NOT b2) (write_byte 0x40 0x17 (shf AND NOT b) m))"
  have "int09_function hw env (k OR 0x80) m = Inr m1"
    using key flags state_bits_clear [OF quiet]
    by (auto simp: m1_def modifier_keys_def kbd_flags_iff int09_function_def int09_switch_def
        int09_shift_def int09_ctrl_def int09_alt_def Let_def)
  then show thesis
    by (rule that) (use ok flags in \<open>simp_all add: m1_def write_flag_queue kbd_flags_iff\<close>)
qed

lemma lock_press_release:
  assumes ok: "kbd_ok m" and flags: "kbd_flags m = (shf, mf, st, led)" and quiet: "st AND 0x03 = 0"
    and key: "(k, b) \<in> set lock_keys"
  obtains m1 where "type_keys hw env [k, k OR 0x80] m = Inr m1" "kbd_ok m1"
    "kbd_queue m1 = kbd_queue m" "kbd_slots m1 = kbd_slots m"
    "kbd_flags m1 = (shf XOR b, (mf OR b) AND NOT b, st, led)"
proof -
  have press: "\<exists>m1. int09_function hw env k m = Inr m1 \<and> kbd_ok m1 \<and> kbd_queue m1 = kbd_queue m \<and>
      kbd_slots m1 = kbd_slots m \<and> kbd_flags m1 = (shf XOR b, mf OR b, st, led)"
    using key flags state_bits_clear [OF quiet] quiet ok
    by (auto simp: lock_keys_def kbd_flags_iff int09_function_def int09_switch_def
        int09_caps_def int09_num_press_def int09_scroll_press_def Let_def write_flag_queue)
  then obtain m1 where m1: "int09_function hw env k m = Inr m1" "kbd_ok m1"
      "kbd_queue m1 = kbd_queue m" "kbd_slots m1 = kbd_slots m"
      "kbd_flags m1 = (shf XOR b, mf OR b, st, led)" by blast
  have "\<exists>m2. int09_function hw env (k OR 0x80) m1 = Inr m2 \<and> kbd_ok m2 \<and>
      kbd_queue m2 = kbd_queue m1 \<and> kbd_slots m2 = kbd_slots m1 \<and>
      kbd_flags m2 = (shf XOR b, (mf OR b) AND NOT b, st, led)"
    using key m1(2,5) state_bits_clear [OF quiet] quiet
    by (auto simp: lock_keys_def kbd_flags_iff int09_function_def int09_switch_def
        int09_caps_def int09_num_release_def int09_scroll_release_def Let_def write_flag_queue)
  with m1 that show thesis by (metis (mono_tags, lifting) sum.simps(6) type_keys.simps)
qed

text \<open>
  A modifier key counts as held from its make code to its break code: pressing a Shift, Ctrl
  or Alt key sets exactly its bits in the shift flags and the MF-II flags, its break code clears
  exactly those, and neither touches the key-strokes waiting in the ring nor the LED byte.
\<close>

theorem modifier_held_until_release:
  assumes "kbd_ok m" "kbd_flags m = (shf, mf, st, led)" "st AND 0x03 = 0"
    and "(k, b, b2) \<in> set modifier_keys"
  shows "\<exists>m1 m2. int09_function hw env k m = Inr m1 \<and>
    int09_function hw env (k OR 0x80) m1 = Inr m2 \<and>
    kbd_flags m1 = (shf OR b, mf OR b2, st, led) \<and>
    kbd_flags m2 = (shf AND NOT b, mf AND NOT b2, st, led) \<and>
    kbd_queue m1 = kbd_queue m \<and> kbd_queue m2 = kbd_queue m"
proof -
  obtain m1 where m1: "int09_function hw env k m = Inr m1" "kbd_ok m1" "kbd_queue m1 = kbd_queue m"
      "kbd_flags m1 = (shf OR b, mf OR b2, st, led)"
    by (rule modifier_press [OF assms])
  obtain m2 where m2: "int09_function hw env (k OR 0x80) m1 = Inr m2"
      "kbd_queue m2 = kbd_queue m1" "kbd_flags m2 = ((shf OR b) AND NOT b, (mf OR b2) AND NOT b2, st, led)"
    by (rule modifier_release [OF m1(2,4) assms(3,4)])
  have "(x OR y) AND NOT y = x AND NOT y" for x y :: u8
    by (rule bit_eqI) (auto simp: bit_simps)
  with m1 m2 show ?thesis by metis
qed

theorem modifier_held_until_release_witness:
  "\<exists>m1. int09_function script_hw idle_env 0x1d (bda_fresh []) = Inr m1 \<and>
     kbd_flags m1 = (0x04, 0x01, 0, 0)"
  using modifier_held_until_release
    [OF bda_fresh_ok(1) bda_fresh_flags, of "0x1d" "0x04" "0x01" script_hw idle_env "[]"]
  by (auto simp: modifier_keys_def)

text \<open>
  A lock key toggles exactly one shift flag per press: pressing and releasing Caps, Num or
  Scroll Lock flips its bit and clears its pressed bit, and doing so twice restores the shift
  flags, without touching the ring.
\<close>

theorem lock_key_toggles:
  assumes "kbd_ok m" "kbd_flags m = (shf, mf, st, led)" "st AND 0x03 = 0" "(k, b) \<in> set lock_keys"
  shows "\<exists>m1 m2. type_keys hw env [k, k OR 0x80] m = Inr m1 \<and>
    type_keys hw env [k, k OR 0x80] m1 = Inr m2 \<and>
    kbd_flags m1 = (shf XOR b, mf AND NOT b, st, led) \<and>
    kbd_flags m2 = (shf, mf AND NOT b, st, led) \<and>
    kbd_queue m1 = kbd_queue m \<and> kbd_queue m2 = kbd_queue m"
proof -
  have eq: "(x OR y) AND NOT y = x AND NOT y" "(x XOR y) XOR y = x" "(x AND NOT y) AND NOT y = x AND NOT y"
    for x y :: u8
    by (rule bit_eqI; auto simp: bit_simps)+
  obtain m1 where m1: "type_keys hw env [k, k OR 0x80] m = Inr m1" "kbd_ok m1"
      "kbd_queue m1 = kbd_queue m" "kbd_flags m1 = (shf XOR b, mf AND NOT b, st, led)"
    using lock_press_release [OF assms] unfolding eq by metis
  obtain m2 where m2: "type_keys hw env [k, k OR 0x80] m1 = Inr m2"
      "kbd_queue m2 = kbd_queue m1" "kbd_flags m2 = (shf, mf AND NOT b, st, led)"
    using lock_press_release [OF m1(2,4) assms(3,4)] unfolding eq by metis
  from m1 m2 show ?thesis by metis
qed

theorem lock_key_toggles_witness:
  "\<exists>m1. type_keys script_hw idle_env [0x45, 0xc5] (bda_fresh []) = Inr m1 \<and>
     kbd_flags m1 = (0x20, 0, 0, 0)"
  using lock_key_toggles
    [OF bda_fresh_ok(1) bda_fresh_flags, of "0x45" "0x20" script_hw idle_env "[]"]
  by (force simp: lock_keys_def simp del: type_keys.simps)

section \<open>Ctrl-Alt-Del, Pause, Ctrl-Break\<close>

text \<open>
  Ctrl, Alt, Del typed in this order restart the machine as a warm boot from any state of the
  shift, lock and MF-II flags: the handler does not return, and the boot word 40:72 holds 1234h,
  which makes POST skip the memory test.
\<close>

theorem ctrl_alt_del_warm_boots:
  assumes "kbd_ok m" "kbd_flags m = (shf, mf, st, led)" "st AND 0x03 = 0"
  shows "\<exists>m'. type_keys hw env [0x1d, 0x38, 0x53] m = Inl (Warm_boot m') \<and>
    read_word 0x40 0x72 m' = 0x1234 \<and> kbd_queue m' = kbd_queue m"
proof -
  have k: "(0x1d, 0x04, 0x01) \<in> set modifier_keys" "(0x38, 0x08, 0x02) \<in> set modifier_keys"
    by (simp_all add: modifier_keys_def)
  obtain m1 where m1: "int09_function hw env 0x1d m = Inr m1" "kbd_ok m1" "kbd_queue m1 = kbd_queue m"
      "kbd_flags m1 = (shf OR 0x04, mf OR 0x01, st, led)"
    by (rule modifier_press [OF assms k(1)])
  obtain m2 where m2: "int09_function hw env 0x38 m1 = Inr m2" "kbd_ok m2"
      "kbd_queue m2 = kbd_queue m1"
      "kbd_flags m2 = ((shf OR 0x04) OR 0x08, (mf OR 0x01) OR 0x02, st, led)"
    by (rule modifier_press [OF m1(2,4) assms(3) k(2)])
  have "(x OR y) AND y = y" for x y :: u8
    by (rule bit_eqI) (auto simp: bit_simps)
  then have "((shf OR 0x04) OR 0x08) AND 0x0c = (0x0c :: u8)"
    by (simp add: or.assoc)
  then have "int09_function hw env 0x53 m2 = Inl (Warm_boot (write_word 0x40 0x72 0x1234 m2))"
    using m2(4) by (simp add: int09_function_def int09_switch_def int09_del_def kbd_flags_iff Let_def)
  moreover have "kbd_queue (write_word 0x40 0x72 0x1234 m2) = kbd_queue m2"
    using m2(2) by (simp add: write_word_def write_flag_queue)
  ultimately show ?thesis using m1 m2 by simp
qed

theorem ctrl_alt_del_warm_boots_witness:
  "\<exists>m'. type_keys script_hw idle_env [0x1d, 0x38, 0x53] (bda_fresh []) = Inl (Warm_boot m') \<and>
     read_word 0x40 0x72 m' = 0x1234"
  using ctrl_alt_del_warm_boots [OF bda_fresh_ok(1) bda_fresh_flags, of script_hw idle_env "[]"]
  by (simp del: type_keys.simps) blast

text \<open>
  C40: Pause holds the machine exactly until an interrupt handler clears the suspend bit: the INT
  09h run for the Pause key returns if and only if some number of interrupts after the key was
  acknowledged leaves bit 3 of 40:18 clear, and runs for ever otherwise.
\<close>

theorem pause_waits_for_resume:
  fixes hw :: "'d hw" and env :: "'d env"
  assumes "kbd_flags m = (shf, mf, st, led)" "st AND 0x03 \<noteq> 0"
  defines "m0 \<equiv> eoi_master_pic hw (outb hw 0x64 0xae (write_byte 0x40 0x18 (mf OR 0x08) m))"
  shows "if \<exists>n. read_byte 0x40 0x18 ((env_wait env ^^ n) m0) AND 0x08 = 0
    then \<exists>m'. int09_function hw env 0x45 m = Inr m'
    else int09_function hw env 0x45 m = Inl Diverges"
proof -
  have step: "(\<lambda>m. env_wait env (snd (suspended m))) = env_wait env"
    by (simp add: suspended_def)
  have run: "int09_function hw env 0x45 m =
      (case poll_while suspended (env_wait env) m0 of None \<Rightarrow> Inl Diverges
       | Some m' \<Rightarrow> Inr (write_byte 0x40 0x96 ((st AND NOT 0x01) AND NOT 0x02) m'))"
    using assms(1,2)
    by (simp add: int09_function_def int09_switch_def int09_num_press_def kbd_flags_iff m0_def Let_def
        split: option.split)
  have "\<exists>m'. poll_while suspended (env_wait env) m0 = Some m'"
    if "read_byte 0x40 0x18 ((env_wait env ^^ n) m0) AND 0x08 = 0" for n
    by (rule poll_while_returns [where n = n]) (unfold step, use that in \<open>simp add: suspended_def\<close>)
  moreover have "poll_while suspended (env_wait env) m0 = None"
    if "\<forall>n. read_byte 0x40 0x18 ((env_wait env ^^ n) m0) AND 0x08 \<noteq> 0"
    by (rule poll_while_diverges) (unfold step, use that in \<open>simp add: suspended_def\<close>)
  ultimately show ?thesis unfolding run by (metis (mono_tags, lifting) option.simps(4,5))
qed

text \<open>An environment whose first interrupt ends the pause.\<close>

definition resume_env :: "'d env" where
  "resume_env = \<lparr>env_wait = write_byte 0x40 0x18 0, env_int1b = id\<rparr>"

theorem pause_waits_for_resume_witness:
  "(\<exists>m'. int09_function script_hw resume_env 0x45 (write_byte 0x40 0x96 0x01 (bda_fresh [])) = Inr m') \<and>
   int09_function script_hw idle_env 0x45 (write_byte 0x40 0x96 0x01 (bda_fresh [])) = Inl Diverges"
proof
  let ?m = "write_byte 0x40 0x96 0x01 (bda_fresh [])"
  have f: "kbd_flags ?m = (0, 0, 0x01, 0)"
    by (simp add: kbd_flags_iff)
  have "\<exists>n. read_byte 0x40 0x18 ((env_wait resume_env ^^ n)
      (eoi_master_pic script_hw (outb script_hw 0x64 0xae (write_byte 0x40 0x18 (0 OR 0x08) ?m))))
      AND 0x08 = 0"
    by (rule exI [of _ 1]) (simp add: resume_env_def)
  then show "\<exists>m'. int09_function script_hw resume_env 0x45 ?m = Inr m'"
    using pause_waits_for_resume [OF f, of resume_env script_hw] by auto
  have "env_wait (idle_env :: u8 list env) ^^ n = id" for n
    by (induction n) (simp_all add: idle_env_def)
  then show "int09_function script_hw idle_env 0x45 ?m = Inl Diverges"
    using pause_waits_for_resume [OF f, of idle_env script_hw]
    by (simp add: eoi_master_pic_def)
qed

text \<open>
  Ctrl-Break empties the ring and leaves the single key-stroke 0 in it: with E0 pending, a
  Scroll Lock make code discards all waiting key-strokes, raises the break flag 40:71, and after
  the user's Ctrl-Break handler has run inserts (0, 0), provided that handler keeps the ring.
\<close>

theorem ctrl_break_flushes:
  assumes "kbd_ok m" "kbd_flags m = (shf, mf, st, led)" "st AND 0x02 \<noteq> 0" "1 < kbd_slots m"
    and "\<And>m. kbd_ok m \<Longrightarrow> kbd_ok (env_int1b env m) \<and> kbd_queue (env_int1b env m) = kbd_queue m \<and>
           kbd_slots (env_int1b env m) = kbd_slots m"
  shows "\<exists>m'. int09_function hw env 0x46 m = Inr m' \<and> kbd_ok m' \<and> kbd_queue m' = [(0, 0)]"
proof -
  define m1 where "m1 = env_int1b env (outb hw 0x64 0xae (write_byte 0x40 0x71 0x80
    (write_word 0x40 0x1C (read_word 0x40 0x1A m) m)))"
  have m1: "kbd_ok m1" "kbd_queue m1 = []" "kbd_slots m1 = kbd_slots m"
    unfolding m1_def by (simp_all add: assms(1,5) flush_queue write_flag_queue)
  obtain m2 where m2: "enqueue_key 0 0 m1 = (True, m2)" "kbd_ok m2" "kbd_queue m2 = [(0, 0)]"
    using enqueue_key_space [OF m1(1), of 0 0] m1(2,3) assms(4) by auto
  have "int09_function hw env 0x46 m =
      Inr (write_byte 0x40 0x96 ((st AND NOT 0x01) AND NOT 0x02) m2)"
    using assms(2,3) m2(1)
    by (simp add: int09_function_def int09_switch_def int09_scroll_press_def kbd_flags_iff Let_def
        flip: m1_def)
  with m2 show ?thesis by (simp add: write_flag_queue)
qed

theorem ctrl_break_flushes_witness:
  "\<exists>m'. int09_function script_hw idle_env 0x46 (write_byte 0x40 0x96 0x02 (bda_fresh [])) = Inr m' \<and>
     kbd_queue m' = [(0, 0)]"
proof -
  have "kbd_flags (write_byte 0x40 0x96 0x02 (bda_fresh ([] :: u8 list))) = (0, 0, 0x02, 0)"
    by (simp add: kbd_flags_iff)
  from ctrl_break_flushes [OF _ this, of idle_env script_hw] show ?thesis
    by (auto simp: write_flag_queue idle_env_def)
qed

section \<open>INT 16h\<close>

text \<open>
  Peeking is not reading: with the LEDs in step, INT 16h AH=1 changes nothing in the machine,
  sets ZF exactly when no key-stroke waits, and otherwise returns in AX the key-stroke that AH=0
  returns next.
\<close>

theorem int16_peek:
  assumes "kbd_ok m" "kbd_flags m = (shf, mf, st, led)" "drop_bit 4 shf AND 0x07 = led AND 0x07"
    and "hi8 (rax r) = 1" "hi8 (rax r0) = 0"
  shows "\<exists>r'. int16_function hw r m = Inr (r', m) \<and> (get_zf r' \<longleftrightarrow> kbd_queue m = []) \<and>
    (kbd_queue m \<noteq> [] \<longrightarrow> (\<exists>r2 m2. int16_function hw r0 m = Inr (r2, m2) \<and> rax r2 = rax r' \<and>
       kbd_queue m2 = tl (kbd_queue m)))"
proof (cases "kbd_queue m")
  case Nil
  then show ?thesis
    using assms dequeue_key_empty [OF assms(1)]
    by (simp add: int16_function_def int16_leds_sync int16_dispatch_def int16_check_def set_zf_def
        get_zf_def bit_or_iff)
next
  case (Cons k ks)
  obtain m2 where m2: "dequeue_key True m = (Some k, m2)" "kbd_queue m2 = ks"
    using dequeue_key_first [OF assms(1) Cons] by metis
  then have peek: "dequeue_key False m = (Some k, m)"
    by (auto simp: dequeue_key_def Let_def split: if_splits)
  show ?thesis
    using assms Cons m2 peek
    by (simp add: int16_function_def int16_leds_sync int16_dispatch_def int16_check_def int16_read_def
        clear_zf_def get_zf_def bit_and_iff)
qed

theorem int16_peek_witness:
  "\<exists>r'. int16_function script_hw (regs0\<lparr>rax := 0x0100\<rparr>) (snd (enqueue_key 0x1e 0x61 (bda_fresh []))) =
     Inr (r', snd (enqueue_key 0x1e 0x61 (bda_fresh []))) \<and> \<not> get_zf r'"
proof -
  let ?m = "snd (enqueue_key 0x1e 0x61 (bda_fresh ([] :: u8 list)))"
  obtain m' where q: "enqueue_key 0x1e 0x61 (bda_fresh ([] :: u8 list)) = (True, m')"
      "kbd_queue m' = [(0x1e, 0x61)]"
    using enqueue_key_space [OF bda_fresh_ok(1), of "[]" "0x1e" "0x61"] by auto
  have f: "kbd_flags ?m = (0, 0, 0, 0)" "kbd_ok ?m"
    by (simp_all add: enqueue_key_flags enqueue_key_ok)
  show ?thesis
    using int16_peek [OF f(2,1), of "regs0\<lparr>rax := 0x0100\<rparr>" regs0 script_hw] q
    by (auto simp: regs0_def hi8_def)
qed

text \<open>
  INT 16h AH=5 stores the key-stroke in CX at the end of the ring and reports AL=0 when there
  is room; when the ring is full it reports AL=1 and changes nothing.
\<close>

theorem int16_store:
  assumes "kbd_ok m" "kbd_flags m = (shf, mf, st, led)" "drop_bit 4 shf AND 0x07 = led AND 0x07"
    and "hi8 (rax r) = 5"
  shows "\<exists>r' m'. int16_function hw r m = Inr (r', m') \<and> kbd_ok m' \<and>
    (if Suc (length (kbd_queue m)) < kbd_slots m
     then lo8 (rax r') = 0 \<and> kbd_queue m' = kbd_queue m @ [(hi8 (rcx r), lo8 (rcx r))]
     else lo8 (rax r') = 1 \<and> m' = m)"
proof (cases "Suc (length (kbd_queue m)) = kbd_slots m")
  case True
  then show ?thesis
    using assms enqueue_key_full [OF assms(1) True]
    by (simp add: int16_function_def int16_leds_sync int16_dispatch_def)
next
  case False
  then have "Suc (length (kbd_queue m)) < kbd_slots m" using kbd_queue_bound [OF assms(1)] by simp
  moreover obtain m' where "enqueue_key (hi8 (rcx r)) (lo8 (rcx r)) m = (True, m')" "kbd_ok m'"
      "kbd_queue m' = kbd_queue m @ [(hi8 (rcx r), lo8 (rcx r))]"
    using enqueue_key_space [OF assms(1) False] by metis
  ultimately show ?thesis
    using assms by (simp add: int16_function_def int16_leds_sync int16_dispatch_def)
qed

theorem int16_store_witness:
  "\<exists>r' m'. int16_function script_hw (regs0\<lparr>rax := 0x0500, rcx := 0x1e61\<rparr>) (bda_fresh []) = Inr (r', m') \<and>
     kbd_queue m' = [(0x1e, 0x61)]"
  using int16_store [OF bda_fresh_ok(1) bda_fresh_flags, of "regs0\<lparr>rax := 0x0500, rcx := 0x1e61\<rparr>"
      script_hw "[]"]
  by (force simp: regs0_def hi8_def lo8_def)

section \<open>Controller initialisation\<close>

definition same_memory :: "'d machine \<Rightarrow> 'd machine \<Rightarrow> bool" where
  "same_memory m m' \<longleftrightarrow> ram m' = ram m \<and> tty m' = tty m"

definition kbd_error_codes :: "u16 set" where
  "kbd_error_codes = {0, 1, 10, 11, 20, 21, 40, 41, 50, 60, 70, 991, 992, 993, 994, 995, 996}"

fun init_outcome :: "'d machine \<Rightarrow> 'd machine stop + 'd machine \<Rightarrow> bool" where
  "init_outcome m (Inr m') \<longleftrightarrow> same_memory m m' \<and> blog m' = blog m \<and> iflag m' = iflag m"
| "init_outcome m (Inl (Halted m')) \<longleftrightarrow> same_memory m m' \<and> \<not> iflag m' \<and>
     (\<exists>c\<in>kbd_error_codes. blog m' = blog m @ [(''Keyboard error:%u'', [c])])"
| "init_outcome m (Inl (Warm_boot m')) \<longleftrightarrow> False"
| "init_outcome m (Inl Diverges) \<longleftrightarrow> True"

definition init_step :: "('d machine \<Rightarrow> 'd machine stop + 'd machine) \<Rightarrow> bool" where
  "init_step f \<longleftrightarrow> (\<forall>m. init_outcome m (f m))"

lemma init_outcome_trans:
  "init_outcome m (Inr m1) \<Longrightarrow> init_outcome m1 x \<Longrightarrow> init_outcome m x"
  by (cases "(m1, x)" rule: init_outcome.cases) (auto simp: same_memory_def)

lemma init_steps: "list_all init_step fs \<Longrightarrow> init_step (run_steps fs)"
proof (induction fs)
  case Nil
  then show ?case by (simp add: init_step_def same_memory_def)
next
  case (Cons f fs)
  show ?case unfolding init_step_def
  proof
    fix m
    have "init_outcome m (f m)" "\<And>m. init_outcome m (run_steps fs m)"
      using Cons by (simp_all add: init_step_def)
    then show "init_outcome m (run_steps (f # fs) m)"
      using init_outcome_trans [of m _ "run_steps fs _"] by (auto split: sum.split)
  qed
qed

lemma inb_eq_fields:
  "inb hw p m = (v, m') \<Longrightarrow> ram m' = ram m \<and> tty m' = tty m \<and> blog m' = blog m \<and> iflag m' = iflag m"
  using inb_fields [where hw = hw and p = p and m = m] by simp

definition quiet_port :: "'d machine \<Rightarrow> 'd machine \<Rightarrow> bool" where
  "quiet_port m m' \<longleftrightarrow> ram m' = ram m \<and> tty m' = tty m \<and> blog m' = blog m \<and> iflag m' = iflag m"

lemma quiet_port_trans: "quiet_port m m1 \<Longrightarrow> quiet_port m1 m2 \<Longrightarrow> quiet_port m m2"
  by (simp add: quiet_port_def)

lemma poll_bounded_quiet:
  assumes c: "\<And>m. quiet_port m (snd (c m))" and b: "\<And>m. quiet_port m (b m)"
  shows "quiet_port m (snd (poll_bounded c b k m))"
proof (induction k arbitrary: m rule: less_induct)
  case (less k)
  have "quiet_port m (snd (c m))" "quiet_port m (b (snd (c m)))"
    using c b quiet_port_trans by blast+
  moreover from this(2) have "quiet_port m (snd (poll_bounded c b (k - 1) (b (snd (c m)))))" if "1 < k"
    by (rule quiet_port_trans) (rule less, use that in simp)
  ultimately show ?case
    by (subst poll_bounded.simps) (simp add: case_prod_beta Let_def)
qed

lemma quiet_kbc [simp]:
  "quiet_port m (snd (kbc_busy hw m))" "quiet_port m (snd (kbc_no_data hw m))"
  "quiet_port m (outb hw p v m)"
  by (auto simp: quiet_port_def kbc_busy_def kbc_no_data_def frame_simps case_prod_beta)

lemma init_step_ports: "init_step (Inr \<circ> outb hw p v)"
  by (simp add: init_step_def same_memory_def frame_simps)

lemma quiet_outcome: "quiet_port m m' \<Longrightarrow> init_outcome m (Inr m')"
  by (simp add: quiet_port_def same_memory_def)

lemma quiet_panic: "quiet_port m m' \<Longrightarrow> c \<in> kbd_error_codes \<Longrightarrow> init_outcome m (Inl (keyboard_panic c m'))"
  by (simp add: quiet_port_def same_memory_def keyboard_panic_def bx_panic_def bx_info_def int_disable_def)

lemma init_step_wait:
  assumes "c \<in> kbd_error_codes" "\<And>m. quiet_port m (snd (t m))"
  shows "init_step (kbc_wait hw t post c)"
  unfolding init_step_def
proof
  fix m
  show "init_outcome m (kbc_wait hw t post c m)"
    using poll_bounded_quiet [where c = t and b = "outb hw 0x80 post" and m = m and k = "0xffff"] assms
    by (auto simp: kbc_wait_def case_prod_beta quiet_outcome quiet_panic simp del: init_outcome.simps)
qed

lemma init_outcome_expect:
  assumes "c \<in> kbd_error_codes" "quiet_port m m1"
  shows "init_outcome m (kbd_expect hw v c m1)"
proof -
  have "quiet_port m (snd (inb hw 0x60 m1))"
    using assms(2) by (simp add: quiet_port_def frame_simps)
  then show ?thesis
    using assms(1) by (auto simp: kbd_expect_def case_prod_beta quiet_outcome quiet_panic simp del: init_outcome.simps)
qed

lemma init_step_expect: "c \<in> kbd_error_codes \<Longrightarrow> init_step (kbd_expect hw v c)"
  by (simp add: init_step_def init_outcome_expect quiet_port_def)

lemma init_step_bat: "init_step (kbd_expect_bat hw)"
  unfolding init_step_def
proof
  fix m
  have "quiet_port m (snd (inb hw 0x60 m))" by (simp add: quiet_port_def frame_simps)
  then show "init_outcome m (kbd_expect_bat hw m)"
    by (auto simp: kbd_expect_bat_def case_prod_beta quiet_outcome init_outcome_expect
        kbd_error_codes_def simp del: init_outcome.simps)
qed

lemma init_step_reset: "init_step (kbd_wait_reset hw)"
  unfolding init_step_def
proof
  fix m
  have "quiet_port m m'" if run: "poll_while (kbc_no_data hw) (outb hw 0x80 0x31) m = Some m'" for m'
  proof (rule poll_while_invariant [where P = "quiet_port m" and Q = "quiet_port m", OF run])
    show "quiet_port m m" by (simp add: quiet_port_def)
  next
    fix m1 assume q: "quiet_port m m1"
    have s: "quiet_port m (snd (kbc_no_data hw m1))"
      by (rule quiet_port_trans [OF q]) simp
    then show "quiet_port m (snd (kbc_no_data hw m1))" .
    show "quiet_port m (outb hw 0x80 0x31 (snd (kbc_no_data hw m1)))"
      by (rule quiet_port_trans [OF s]) simp
  qed
  then show "init_outcome m (kbd_wait_reset hw m)"
    by (auto simp: kbd_wait_reset_def quiet_outcome simp del: init_outcome.simps(1-3) split: option.split)
qed

lemma init_step_a20: "init_step (Inr \<circ> (\<lambda>m. snd (set_enable_a20 hw b m)))"
  by (simp add: init_step_def set_enable_a20_def case_prod_beta same_memory_def frame_simps)

text \<open>
  Whatever the keyboard controller answers, \<open>keyboard_init\<close> either succeeds, or halts after
  exactly one ``Keyboard error'' message with one of the documented codes and interrupts disabled,
  or waits for ever for the reset to complete; in no case does it touch memory or the screen, and on
  success it leaves the log and the interrupt flag alone as well.
\<close>

theorem keyboard_init_outcomes:
  "init_outcome m (keyboard_init hw m)"
proof -
  have "init_step (keyboard_init hw)"
    unfolding keyboard_init_def
    by (rule init_steps)
      (simp add: init_step_ports init_step_a20 init_step_reset init_step_bat init_step_wait
        init_step_expect kbd_error_codes_def del: comp_apply)
  then show ?thesis by (simp add: init_step_def)
qed

end
