(* ===== verification/SystemServices.thy ===== *)
theory SystemServices
  imports System
begin

text \<open>
  The dispatcher of the system services (\<open>int15_function\<close> in \<open>Devices/PC/BIOS/system.c\<close>), one
  definition per function that does more than set the result, in the 80386 configuration.
\<close>

text \<open>
  How INT 15h ends: back to its caller, by entering protected mode at the caller's descriptors, or
  not at all. The result of the last is \<open>None\<close>.
\<close>

datatype 'd int15_end =
    Int15_returns regs "'d machine"
  | Pm_switch u16 u16 "'d machine"  \<comment> \<open>\<open>pm_switch(SI)\<close>, with the descriptor tables at ES:SI\<close>

definition UNSUPPORTED_FUNCTION :: u8 where "UNSUPPORTED_FUNCTION = 0x86"
definition BIOS_CONFIG_TABLE :: u16 where "BIOS_CONFIG_TABLE = 0xe6f5"

definition PIC_MASTER :: u16 where "PIC_MASTER = 0x20"
definition PIC_MASTER_MASK :: u16 where "PIC_MASTER_MASK = 0x21"
definition PIC_SLAVE :: u16 where "PIC_SLAVE = 0xA0"
definition PIC_SLAVE_MASK :: u16 where "PIC_SLAVE_MASK = 0xA1"
definition PIC_CMD_INIT :: u8 where "PIC_CMD_INIT = 0x11"

definition int15_ok :: "regs \<Rightarrow> regs" where "int15_ok r = set_ah 0 (clear_cf r)"
definition int15_unsupported :: "regs \<Rightarrow> regs" where
  "int15_unsupported r = set_ah UNSUPPORTED_FUNCTION (set_cf r)"

definition int15_undecoded :: "regs \<Rightarrow> 'd machine \<Rightarrow> regs \<times> 'd machine" where
  "int15_undecoded r m =
     (int15_unsupported r,
      bx_info ''*** int 15h function AX=%04x, BX=%04x not yet supported!\<newline>'' [rax r, rbx r] m)"

text \<open>AH = 24h: the A20 gate.\<close>

definition int15_a20 :: "'d hw \<Rightarrow> regs \<Rightarrow> 'd machine \<Rightarrow> regs \<times> 'd machine" where
  "int15_a20 hw r m =
     (let al = lo8 (rax r) in
      if al = 0x00 then (int15_ok r, snd (set_enable_a20 hw False m))
      else if al = 0x01 then (int15_ok r, snd (set_enable_a20 hw True m))
      else if al = 0x02 then
        let (v, m) = inb hw 0x92 m in (int15_ok (set_al (drop_bit 1 v AND 0x01) r), m)
      else if al = 0x03 then ((int15_ok r)\<lparr>rbx := 3\<rparr>, m)
      else (int15_unsupported r,
            bx_info ''int15: Func 24h, subfunc %02xh, A20 gate control not supported\<newline>'' [ucast al] m))"

text \<open>
  AH = 83h: the wait interval. The RTC interrupt handler counts down the delay at 0040:009C and
  then sets the byte the far pointer at 0040:0098 points to.
\<close>

definition int15_set_interval :: "'d hw \<Rightarrow> regs \<Rightarrow> 'd machine \<Rightarrow> regs \<times> 'd machine" where
  "int15_set_interval hw r m =
     (if read_byte 0x40 0xA0 m AND 1 = 0 then
        let m = write_byte 0x40 0xA0 1 m;
            m = write_word 0x40 0x98 (res r) m;
            m = write_word 0x40 0x9A (rbx r) m;
            m = write_word 0x40 0x9C (rdx r) m;
            m = write_word 0x40 0x9E (rcx r) m;
            r = clear_cf r;
            (irq_disable, m) = inb hw 0xA1 m;
            m = outb hw 0xA1 (irq_disable AND 0xFE) m;
            (reg, m) = inb_cmos hw 0xB m
        in (r, outb_cmos hw 0xB (reg OR 0x40) m)
      else (int15_unsupported r, m))"

definition int15_interval :: "'d hw \<Rightarrow> regs \<Rightarrow> 'd machine \<Rightarrow> regs \<times> 'd machine" where
  "int15_interval hw r m =
     (let al = lo8 (rax r) in
      if al = 0 then int15_set_interval hw r m
      else if al = 1 then
        let m = write_byte 0x40 0xA0 0 m; r = clear_cf r; (reg, m) = inb_cmos hw 0xB m
        in (r, outb_cmos hw 0xB (reg AND 0xBF) m)
      else (set_al (al - 1) (int15_unsupported r), m))"

text \<open>AH = 88h: the memory above 1 MB in units of 1 KB, from CMOS.\<close>

definition cmos_word :: "'d hw \<Rightarrow> u8 \<Rightarrow> u8 \<Rightarrow> 'd machine \<Rightarrow> u16 \<times> 'd machine" where
  \<comment> \<open>\<open>(inb_cmos(h) << 8) | inb_cmos(l)\<close>\<close>
  "cmos_word hw h l m =
     (let (vh, m) = inb_cmos hw h m; (vl, m) = inb_cmos hw l m in (mk16 vh vl, m))"

definition int15_extmem :: "'d hw \<Rightarrow> regs \<Rightarrow> 'd machine \<Rightarrow> regs \<times> 'd machine" where
  "int15_extmem hw r m =
     (let (ax, m) = cmos_word hw 0x31 0x30 m
      in (clear_cf (r\<lparr>rax := (if ax > 0xffc0 then 0xffc0 else ax)\<rparr>), m))"

text \<open>AH = 89h: switch to protected mode.\<close>

definition int15_pm_switch :: "'d hw \<Rightarrow> regs \<Rightarrow> 'd machine \<Rightarrow> 'd int15_end" where
  "int15_pm_switch hw r m =
     (let m = int_disable m;
          (_, m) = set_enable_a20 hw True m;
          es = res r; si = rsi r;
          m = write_word es (si + 0x38) 0xffff m;
          m = write_word es (si + 0x38 + 2) 0x0000 m;
          m = write_byte es (si + 0x38 + 4) 0x0f m;
          m = write_byte es (si + 0x38 + 5) 0x9b m;
          m = write_word es (si + 0x38 + 6) 0x0000 m;
          m = outb hw PIC_MASTER PIC_CMD_INIT m;
          m = outb hw PIC_SLAVE PIC_CMD_INIT m;
          m = outb hw (PIC_MASTER + 1) (hi8 (rbx r)) m;
          m = outb hw (PIC_SLAVE + 1) (lo8 (rbx r)) m;
          m = outb hw (PIC_MASTER + 1) 4 m;
          m = outb hw (PIC_SLAVE + 1) 2 m;
          m = outb hw (PIC_MASTER + 1) 1 m;
          m = outb hw (PIC_SLAVE + 1) 1 m;
          m = outb hw PIC_MASTER_MASK 0xff m;
          m = outb hw PIC_SLAVE_MASK 0xff m
      in Pm_switch es si m)"

text \<open>The functions that return at once.\<close>

definition int15_small :: "'d hw \<Rightarrow> regs \<Rightarrow> 'd machine \<Rightarrow> regs \<times> 'd machine" where
  "int15_small hw r m =
     (let ah = hi8 (rax r); al = lo8 (rax r); bl = lo8 (rbx r) in
      if ah = 0x00 then (if al \<noteq> 0xc0 then int15_undecoded r m else (int15_unsupported r, m))
      else if ah = 0x24 then int15_a20 hw r m
      else if ah = 0x22 \<or> ah = 0x41 \<or> ah = 0xC7 then (int15_unsupported r, m)
      else if ah = 0x4f then (set_cf r, m)
      else if ah = 0x52 then (int15_ok r, m)
      else if ah = 0x83 then int15_interval hw r m
      else if ah = 0x88 then int15_extmem hw r m
      else if ah = 0x90 \<or> ah = 0x91 then (r, m)
      else if ah = 0xbf then
        (int15_unsupported r, bx_info ''*** int 15h function AH=bf not yet supported!\<newline>'' [] m)
      else if ah = 0xC0 then ((int15_ok r)\<lparr>rbx := BIOS_CONFIG_TABLE, res := 0xF000\<rparr>, m)
      else if ah = 0xc1 then (clear_cf (r\<lparr>res := read_word 0x0040 0x000E m\<rparr>), m)
      else if ah = 0xd8 then (int15_unsupported r, bx_info ''EISA BIOS not present\<newline>'' [] m)
      else if ah = 0xe9 then (int15_unsupported r, m)
      else if ah = 0xec then
        (if al \<noteq> 0 then int15_undecoded r m
         else let r = set_ah 0 r in (if bl \<ge> 1 \<and> bl \<le> 3 then clear_cf r else set_cf r, m))
      else int15_undecoded r m)"

definition int15_function :: "'d hw \<Rightarrow> regs \<Rightarrow> 'd machine \<Rightarrow> 'd int15_end option" where
  "int15_function hw r m =
     (let ah = hi8 (rax r) in
      if ah = 0x86 then
        map_option (Int15_returns r)
          (timer_wait hw (push_bit 16 (ucast (rcx r)) OR ucast (rdx r)) (int_enable m))
      else if ah = 0x89 then Some (int15_pm_switch hw r m)
      else case int15_small hw r m of (r, m) \<Rightarrow> Some (Int15_returns r m))"

section \<open>The wait of AH = 86h\<close>

definition refresh_read :: "'d hw \<Rightarrow> 'd \<Rightarrow> 'd" where
  "refresh_read hw d = snd (hw_inb hw 0x61 d)"

lemma timer_cycles_constant:
  assumes "\<And>d. fst (hw_inb hw 0x61 d) AND 0x10 = v"
  shows "timer_cycles hw n v m = Some (m\<lparr>dev := (refresh_read hw ^^ n) (dev m)\<rparr>)"
proof (induction n arbitrary: m)
  case (Suc n)
  have "poll_while (refresh_differs hw v) id m = Some (m\<lparr>dev := refresh_read hw (dev m)\<rparr>)"
    using assms by (simp add: poll_while.simps refresh_differs_def inb_def split_beta refresh_read_def)
  then show ?case using Suc by (simp add: funpow_Suc_right del: funpow.simps)
qed simp

text \<open>
  The microsecond wait of INT 15h, AH=86h does not wait for the refresh bit to toggle. Its inner loop
  runs while the bit differs from what it was, not until it differs; so on hardware whose bit never
  changes, with which a wait should never end, the service returns after exactly CX:DX div 15 + 1
  reads of port 61h, one per cycle.
\<close>

theorem int15_wait_ignores_toggle:
  assumes "\<And>d. fst (hw_inb hw 0x61 d) AND 0x10 = v" and "hi8 (rax r) = 0x86"
  defines "usec \<equiv> push_bit 16 (ucast (rcx r)) OR ucast (rdx r) :: u32"
  shows "int15_function hw r m =
    Some (Int15_returns r ((int_enable m)\<lparr>dev := (refresh_read hw ^^ (unat (usec div 15) + 1)) (dev m)\<rparr>))"
  using assms(1,2)
  by (simp add: int15_function_def timer_wait_def inb_def split_beta timer_cycles_constant
      refresh_read_def [symmetric] usec_def int_enable_def funpow_swap1)

definition still_hw :: "nat hw" where
  "still_hw = \<lparr>hw_inb = (\<lambda>p n. (0, Suc n)), hw_inw = (\<lambda>p n. (0, n)), hw_ind = (\<lambda>p n. (0, n)),
     hw_outb = (\<lambda>p v n. n), hw_outw = (\<lambda>p v n. n), hw_outd = (\<lambda>p v n. n)\<rparr>"

lemma int15_wait_ignores_toggle_witness:
  "\<exists>m'. int15_function still_hw
      \<lparr>rax = 0x8600, rbx = 0, rcx = 0, rdx = 45, rsi = 0, rdi = 0, rsp = 0, rds = 0, res = 0, flags = 0, ifl = 0\<rparr>
      \<lparr>ram = (\<lambda>_. 0), dev = 0, tty = [], blog = [], iflag = False\<rparr> =
    Some (Int15_returns
      \<lparr>rax = 0x8600, rbx = 0, rcx = 0, rdx = 45, rsi = 0, rdi = 0, rsp = 0, rds = 0, res = 0, flags = 0, ifl = 0\<rparr> m') \<and>
    dev m' = 4"
proof -
  have "(refresh_read still_hw ^^ 4) 0 = 4"
    by (simp add: refresh_read_def still_hw_def numeral_eq_Suc)
  then show ?thesis
    using int15_wait_ignores_toggle [of still_hw 0
      "\<lparr>rax = 0x8600, rbx = 0, rcx = 0, rdx = 45, rsi = 0, rdi = 0, rsp = 0, rds = 0, res = 0, flags = 0, ifl = 0\<rparr>"
      "\<lparr>ram = (\<lambda>_. 0), dev = 0, tty = [], blog = [], iflag = False\<rparr>"]
    by (simp add: still_hw_def hi8_def)
qed

end
