(* ===== verification/Rtc.thy ===== *)
theory Rtc
  imports SystemServices
begin

text \<open>
  The time services of the PC BIOS (\<open>Devices/PC/BIOS/timepci.c\<close>): the RTC interrupt INT 70h and the
  clock services INT 1Ah, in the order of the file. A real-time clock is described by the registers
  it answers with (\<open>rtc_device\<close>); nothing else of it is assumed.
\<close>

section \<open>The RTC\<close>

definition init_rtc :: "'d hw \<Rightarrow> 'd machine \<Rightarrow> 'd machine" where
  "init_rtc hw m =
     (let m = outb_cmos hw 0x0a 0x26 m; m = outb_cmos hw 0x0b 0x02 m;
          (_, m) = inb_cmos hw 0x0c m; (_, m) = inb_cmos hw 0x0d m
      in m)"

fun rtc_poll :: "'d hw \<Rightarrow> nat \<Rightarrow> 'd machine \<Rightarrow> bool \<times> 'd machine" where
  \<comment> \<open>\<open>while (--iter != 0)\<close>, with the number of rounds left\<close>
  "rtc_poll hw 0 m = (True, m)"
| "rtc_poll hw (Suc n) m =
     (let (v, m) = inb_cmos hw 0x0a m in if v AND 0x80 = 0 then (False, m) else rtc_poll hw n m)"

definition rtc_updating :: "'d hw \<Rightarrow> 'd machine \<Rightarrow> bool \<times> 'd machine" where
  "rtc_updating hw m = rtc_poll hw (25000 - 1) m"

section \<open>INT 70h\<close>

definition eoi_both_pics :: "'d hw \<Rightarrow> 'd machine \<Rightarrow> 'd machine" where
  \<comment> \<open>the assembly routine of \<open>orgs.asm\<close>\<close>
  "eoi_both_pics hw m = outb hw 0x20 0x20 (outb hw 0xA0 0x20 m)"

definition int70_periodic :: "'d hw \<Rightarrow> u8 \<Rightarrow> 'd machine \<Rightarrow> 'd machine" where
  "int70_periodic hw registerB m =
     (if read_byte 0x40 0xA0 m \<noteq> 0 then
        let time = read_dword 0x40 0x9C m in
        if time < 0x3D1 then
          let segment = read_word 0x40 0x98 m; offset = read_word 0x40 0x9A m;
              m = write_byte 0x40 0xA0 0 m;
              m = outb_cmos hw 0xB (registerB AND 0x37) m
          in write_byte segment offset (read_byte segment offset m OR 0x80) m
        else write_dword 0x40 0x9C (time - 0x3D1) m
      else m)"

definition int70_function ::
  "'d hw \<Rightarrow> ('d machine \<Rightarrow> 'd machine) \<Rightarrow> 'd machine \<Rightarrow> 'd machine" where
  \<comment> \<open>\<open>int4a\<close>: what the user's alarm handler behind INT 4Ah does\<close>
  "int70_function hw int4a m =
     (let (registerB, m) = inb_cmos hw 0xB m; (registerC, m) = inb_cmos hw 0xC m;
          m = (if registerB AND 0x60 \<noteq> 0 then
                 let m = (if registerC AND 0x20 \<noteq> 0 then int_disable (int4a (int_enable m)) else m)
                 in if registerC AND 0x40 \<noteq> 0 then int70_periodic hw registerB m else m
               else m)
      in eoi_both_pics hw m)"

section \<open>INT 1Ah\<close>

definition TICKS_LOW :: u16 where "TICKS_LOW = 0x46c"
definition TICKS_HIGH :: u16 where "TICKS_HIGH = 0x46e"
definition MIDNIGHT_FLAG :: u16 where "MIDNIGHT_FLAG = 0x470"

definition int1a_get_ticks :: "regs \<Rightarrow> 'd machine \<Rightarrow> regs \<times> 'd machine" where
  "int1a_get_ticks r m =
     (let m = int_disable m;
          r = r\<lparr>rcx := read_word 0 TICKS_HIGH m, rdx := read_word 0 TICKS_LOW m\<rparr>;
          r = set_al (read_byte 0 MIDNIGHT_FLAG m) r;
          m = write_byte 0 MIDNIGHT_FLAG 0 m
      in (clear_cf r, int_enable m))"

definition int1a_set_ticks :: "regs \<Rightarrow> 'd machine \<Rightarrow> regs \<times> 'd machine" where
  "int1a_set_ticks r m =
     (let m = int_disable m;
          m = write_word 0 TICKS_HIGH (rcx r) m;
          m = write_word 0 TICKS_LOW (rdx r) m;
          m = write_byte 0 MIDNIGHT_FLAG 0 m
      in (clear_cf (set_ah 0 r), int_enable m))"

definition int1a_get_time :: "'d hw \<Rightarrow> regs \<Rightarrow> 'd machine \<Rightarrow> regs \<times> 'd machine" where
  "int1a_get_time hw r m =
     (let (busy, m) = rtc_updating hw m in
      if busy then (set_cf r, m)
      else
        let (v, m) = inb_cmos hw 0x00 m; r = set_dh v r;
            (v, m) = inb_cmos hw 0x02 m; r = set_cl v r;
            (v, m) = inb_cmos hw 0x04 m; r = set_ch v r;
            (v, m) = inb_cmos hw 0x0b m; r = set_dl (v AND 0x01) r;
            r = set_ah 0 r; r = set_al (hi8 (rcx r)) r
        in (clear_cf r, m))"

definition int1a_set_time :: "'d hw \<Rightarrow> regs \<Rightarrow> 'd machine \<Rightarrow> regs \<times> 'd machine" where
  "int1a_set_time hw r m =
     (let (busy, m) = rtc_updating hw m;
          m = (if busy then init_rtc hw m else m);
          m = outb_cmos hw 0x00 (hi8 (rdx r)) m;
          m = outb_cmos hw 0x02 (lo8 (rcx r)) m;
          m = outb_cmos hw 0x04 (hi8 (rcx r)) m;
          (v, m) = inb_cmos hw 0x0b m;
          val8 = (v AND 0x60) OR 0x02 OR (lo8 (rdx r) AND 0x01);
          m = outb_cmos hw 0x0b val8 m
      in (clear_cf (set_al val8 (set_ah 0 r)), m))"

definition int1a_get_date :: "'d hw \<Rightarrow> regs \<Rightarrow> 'd machine \<Rightarrow> regs \<times> 'd machine" where
  "int1a_get_date hw r m =
     (let r = set_ah 0 r; (busy, m) = rtc_updating hw m in
      if busy then (set_cf r, m)
      else
        let (v, m) = inb_cmos hw 0x09 m; r = set_cl v r;
            (v, m) = inb_cmos hw 0x08 m; r = set_dh v r;
            (v, m) = inb_cmos hw 0x07 m; r = set_dl v r;
            (v, m) = inb_cmos hw 0x32 m; r = set_ch v r;
            r = set_al (hi8 (rcx r)) r
        in (clear_cf r, m))"

definition int1a_set_date :: "'d hw \<Rightarrow> regs \<Rightarrow> 'd machine \<Rightarrow> regs \<times> 'd machine" where
  "int1a_set_date hw r m =
     (let (busy, m) = rtc_updating hw m in
      if busy then (set_cf r, init_rtc hw m)
      else
        let m = outb_cmos hw 0x09 (lo8 (rcx r)) m;
            m = outb_cmos hw 0x08 (hi8 (rdx r)) m;
            m = outb_cmos hw 0x07 (lo8 (rdx r)) m;
            m = outb_cmos hw 0x32 (hi8 (rcx r)) m;
            (v, m) = inb_cmos hw 0x0b m;
            val8 = v AND 0x7f;
            m = outb_cmos hw 0x0b val8 m
        in (clear_cf (set_al val8 (set_ah 0 r)), m))"

definition int1a_set_alarm :: "'d hw \<Rightarrow> regs \<Rightarrow> 'd machine \<Rightarrow> regs \<times> 'd machine" where
  "int1a_set_alarm hw r m =
     (let (val8, m) = inb_cmos hw 0x0b m; r = r\<lparr>rax := 0\<rparr> in
      if val8 AND 0x20 \<noteq> 0 then (set_cf r, m)
      else
        let (busy, m) = rtc_updating hw m;
            m = (if busy then init_rtc hw m else m);
            m = outb_cmos hw 0x01 (hi8 (rdx r)) m;
            m = outb_cmos hw 0x03 (lo8 (rcx r)) m;
            m = outb_cmos hw 0x05 (hi8 (rcx r)) m;
            (mask, m) = inb hw 0xa1 m;
            m = outb hw 0xa1 (mask AND 0xfe) m;
            m = outb_cmos hw 0x0b ((val8 AND 0x7f) OR 0x20) m
        in (clear_cf r, m))"

definition int1a_alarm_off :: "'d hw \<Rightarrow> regs \<Rightarrow> 'd machine \<Rightarrow> regs \<times> 'd machine" where
  "int1a_alarm_off hw r m =
     (let (val8, m) = inb_cmos hw 0x0b m;
          m = outb_cmos hw 0x0b (val8 AND 0x57) m
      in (clear_cf (set_al val8 (set_ah 0 r)), m))"

definition int1a_function :: "'d hw \<Rightarrow> regs \<Rightarrow> 'd machine \<Rightarrow> regs \<times> 'd machine" where
  "int1a_function hw r m =
     (let m = int_enable m; ah = hi8 (rax r) in
      if ah = 0 then int1a_get_ticks r m
      else if ah = 1 then int1a_set_ticks r m
      else if ah = 2 then int1a_get_time hw r m
      else if ah = 3 then int1a_set_time hw r m
      else if ah = 4 then int1a_get_date hw r m
      else if ah = 5 then int1a_set_date hw r m
      else if ah = 6 then int1a_set_alarm hw r m
      else if ah = 7 then int1a_alarm_off hw r m
      else (set_cf r, m))"

section \<open>A real-time clock as the code sees it\<close>

text \<open>
  \<open>reg d r\<close> is what CMOS register \<open>r\<close> holds. \<open>R\<close> is a set of registers the clock does not change by
  itself meanwhile: selecting and reading one of them returns it, reading changes none, but for
  register C, which it clears, and writing changes the one selected. The ports of the interrupt
  controllers and the system control port are not the clock's.
\<close>

definition rtc_device :: "'d hw \<Rightarrow> ('d \<Rightarrow> u8 \<Rightarrow> u8) \<Rightarrow> u8 set \<Rightarrow> bool" where
  "rtc_device hw reg R \<longleftrightarrow>
     (\<forall>d. \<forall>r \<in> R. fst (hw_inb hw (cmos_port r + 1) (hw_outb hw (cmos_port r) r d)) = reg d r) \<and>
     (\<forall>d r. \<forall>s \<in> R. reg (snd (hw_inb hw (cmos_port r + 1) (hw_outb hw (cmos_port r) r d))) s =
        (if r = 0xC \<and> s = 0xC then 0 else reg d s)) \<and>
     (\<forall>d v. \<forall>r \<in> - {0xA, 0xC, 0xD}. \<forall>s \<in> R.
        reg (hw_outb hw (cmos_port r + 1) v (hw_outb hw (cmos_port r) r d)) s =
        (if s = r then v else reg d s)) \<and>
     (\<forall>d v. \<forall>p \<in> {0x20, 0x21, 0xA0, 0xA1, 0x92}. \<forall>s \<in> R.
        reg (hw_outb hw p v d) s = reg d s \<and> reg (snd (hw_inb hw p d)) s = reg d s)"

lemma rtc_read:
  assumes "rtc_device hw reg R"
  shows "r \<in> R \<Longrightarrow> fst (inb_cmos hw r m) = reg (dev m) r"
    "s \<in> R \<Longrightarrow> reg (dev (snd (inb_cmos hw r m))) s = (if r = 0xC \<and> s = 0xC then 0 else reg (dev m) s)"
  using assms by (auto simp: rtc_device_def inb_cmos_def inb_def outb_def split_beta)

lemma rtc_write:
  assumes "rtc_device hw reg R" "r \<notin> {0xA, 0xC, 0xD}" "s \<in> R"
  shows "reg (dev (outb_cmos hw r v m)) s = (if s = r then v else reg (dev m) s)"
  using assms by (auto simp: rtc_device_def outb_cmos_def outb_def)

lemma rtc_other:
  assumes "rtc_device hw reg R" "p \<in> {0x20, 0x21, 0xA0, 0xA1, 0x92}" "s \<in> R"
  shows "reg (dev (outb hw p v m)) s = reg (dev m) s" "reg (dev (snd (inb hw p m))) s = reg (dev m) s"
  using assms by (auto simp: rtc_device_def outb_def inb_def split_beta)

lemma cmos_ram [simp]:
  "ram (snd (inb_cmos hw r m)) = ram m" "ram (outb_cmos hw r v m) = ram m"
  by (simp_all add: inb_cmos_def outb_cmos_def frame_simps)

lemma cmos_memory [simp]:
  "read_byte s a (snd (inb_cmos hw r m)) = read_byte s a m"
  "read_byte s a (outb_cmos hw r v m) = read_byte s a m"
  "read_word s a (snd (inb_cmos hw r m)) = read_word s a m"
  "read_word s a (outb_cmos hw r v m) = read_word s a m"
  by (simp_all add: read_byte_def read_word_def)

text \<open>A clock with a register file: the selected register and the contents.\<close>

definition rtc_hw :: "(u8 \<times> (u8 \<Rightarrow> u8)) hw" where
  "rtc_hw =
     \<lparr>hw_inb = (\<lambda>p (i, f). if p \<in> {0x71, 0x73} then (f i, i, if i = 0xC then f(i := 0) else f) else (0, i, f)),
      hw_inw = (\<lambda>p d. (0, d)), hw_ind = (\<lambda>p d. (0, d)),
      hw_outb = (\<lambda>p v (i, f). if p \<in> {0x70, 0x72} then (v, f)
        else if p \<in> {0x71, 0x73} \<and> i \<notin> {0xA, 0xC, 0xD} then (i, f(i := v)) else (i, f)),
      hw_outw = (\<lambda>p v d. d), hw_outd = (\<lambda>p v d. d)\<rparr>"

lemma rtc_hw_device: "rtc_device rtc_hw snd R"
  by (auto simp: rtc_device_def rtc_hw_def cmos_port_def split: prod.splits)

end
