(* ===== verification/RtcServices.thy ===== *)
theory RtcServices
  imports Rtc
begin

text \<open>
  Properties of the time services: the wait interval that INT 15h, AH=83h starts and INT 70h counts
  down, and the round trips of the clock services.
\<close>

section \<open>Clock services\<close>

lemma rtc_not_updating:
  assumes "rtc_device hw reg R" "0xA \<in> R" "reg (dev m) 0xA AND 0x80 = 0"
  shows "rtc_updating hw m = (False, snd (inb_cmos hw 0xA m))"
proof -
  have "rtc_poll hw (Suc n) m = (False, snd (inb_cmos hw 0xA m))" for n
    using assms rtc_read(1) [OF assms(1,2), of m] by (simp add: split_beta)
  from this [of 24998] show ?thesis by (simp add: rtc_updating_def)
qed

lemma set_time_regs:
  assumes dev: "rtc_device hw reg R" and R: "{0xA, 0xB} \<subseteq> R" and idle: "reg (dev m) 0xA AND 0x80 = 0"
    and s: "s \<in> R"
  shows "reg (dev (snd (int1a_set_time hw r m))) s =
    ((reg (dev m))(0 := hi8 (rdx r), 2 := lo8 (rcx r), 4 := hi8 (rcx r),
       0xB := (reg (dev m) 0xB AND 0x60) OR 0x02 OR (lo8 (rdx r) AND 0x01))) s"
proof -
  have "0xA \<in> R" "0xB \<in> R" using R by auto
  then show ?thesis
    using s unfolding int1a_set_time_def rtc_not_updating [OF dev \<open>0xA \<in> R\<close> idle]
    by (auto simp: split_beta Let_def rtc_read [OF dev] rtc_write [OF dev])
qed

lemma get_time_regs:
  assumes dev: "rtc_device hw reg R" and R: "{0, 2, 4, 0xA, 0xB} \<subseteq> R"
    and idle: "reg (dev m) 0xA AND 0x80 = 0"
  shows "fst (int1a_get_time hw r m) =
    clear_cf (r\<lparr>rcx := mk16 (reg (dev m) 4) (reg (dev m) 2),
      rdx := mk16 (reg (dev m) 0) (reg (dev m) 0xB AND 0x01), rax := mk16 0 (reg (dev m) 4)\<rparr>)"
proof -
  have "0 \<in> R" "2 \<in> R" "4 \<in> R" "0xA \<in> R" "0xB \<in> R" using R by auto
  then show ?thesis
    unfolding int1a_get_time_def rtc_not_updating [OF dev \<open>0xA \<in> R\<close> idle]
    by (simp add: split_beta Let_def rtc_read [OF dev])
qed

lemma set_date_regs:
  assumes dev: "rtc_device hw reg R" and R: "{0xA, 0xB} \<subseteq> R" and idle: "reg (dev m) 0xA AND 0x80 = 0"
    and s: "s \<in> R"
  shows "reg (dev (snd (int1a_set_date hw r m))) s =
    ((reg (dev m))(9 := lo8 (rcx r), 8 := hi8 (rdx r), 7 := lo8 (rdx r), 0x32 := hi8 (rcx r),
       0xB := reg (dev m) 0xB AND 0x7f)) s"
proof -
  have "0xA \<in> R" "0xB \<in> R" using R by auto
  then show ?thesis
    using s unfolding int1a_set_date_def rtc_not_updating [OF dev \<open>0xA \<in> R\<close> idle]
    by (auto simp: split_beta Let_def rtc_read [OF dev] rtc_write [OF dev])
qed

lemma get_date_regs:
  assumes dev: "rtc_device hw reg R" and R: "{7, 8, 9, 0x32, 0xA} \<subseteq> R"
    and idle: "reg (dev m) 0xA AND 0x80 = 0"
  shows "fst (int1a_get_date hw r m) =
    clear_cf (r\<lparr>rdx := mk16 (reg (dev m) 8) (reg (dev m) 7),
      rcx := mk16 (reg (dev m) 0x32) (reg (dev m) 9), rax := mk16 0 (reg (dev m) 0x32)\<rparr>)"
proof -
  have "7 \<in> R" "8 \<in> R" "9 \<in> R" "0x32 \<in> R" "0xA \<in> R" using R by auto
  then show ?thesis
    unfolding int1a_get_date_def rtc_not_updating [OF dev \<open>0xA \<in> R\<close> idle]
    by (simp add: split_beta Let_def rtc_read [OF dev])
qed

lemma byte_masks:
  "(x AND 0x60 OR 0x02 OR (v AND 0x01)) AND 0x01 = v AND 0x01" for x v :: u8
  by (simp add: bit.conj_disj_distrib2 and.assoc)

lemma clear_cf_get [simp]: "\<not> get_cf (clear_cf r)"
  by (simp add: get_cf_def clear_cf_def bit_simps)

lemma clear_cf_fields:
  "rax (clear_cf r) = rax r" "rcx (clear_cf r) = rcx r" "rdx (clear_cf r) = rdx r"
  by (simp_all add: clear_cf_def)

lemma int_flag_dev [simp]:
  "dev (int_enable m) = dev m" "dev (int_disable m) = dev m"
  "ram (int_enable m) = ram m" "ram (int_disable m) = ram m"
  by (simp_all add: int_enable_def int_disable_def)

text \<open>A service, then another one with other registers.\<close>

definition int1a_then :: "u8 \<Rightarrow> u8 \<Rightarrow> 'd hw \<Rightarrow> regs \<Rightarrow> regs \<Rightarrow> 'd machine \<Rightarrow> regs" where
  "int1a_then ah ah' hw r q m =
     fst (int1a_function hw (set_ah ah' q) (snd (int1a_function hw (set_ah ah r) m)))"

text \<open>
  C35: The clock services read back what they set. On a clock that is not in an update and does not
  tick meanwhile, INT 1Ah returns after setting the time (AH=03h, then 02h) the same hours, minutes,
  seconds and the daylight saving bit, and after setting the date (05h, then 04h) the same century,
  year, month and day; after setting the tick count (01h, then 00h) it returns the same count and no
  midnight. None of the reads reports an error.
\<close>

theorem clock_round_trips:
  assumes "rtc_device hw reg R" "{0, 2, 4, 7, 8, 9, 0x32, 0xA, 0xB} \<subseteq> R" "reg (dev m) 0xA AND 0x80 = 0"
  shows "(let q' = int1a_then 3 2 hw r q m
      in rcx q' = rcx r \<and> rdx q' = mk16 (hi8 (rdx r)) (lo8 (rdx r) AND 1) \<and> \<not> get_cf q') \<and>
    (let q' = int1a_then 5 4 hw r q m in rcx q' = rcx r \<and> rdx q' = rdx r \<and> \<not> get_cf q') \<and>
    (let q' = int1a_then 1 0 hw r q m
      in rcx q' = rcx r \<and> rdx q' = rdx r \<and> lo8 (rax q') = 0 \<and> \<not> get_cf q')"
proof -
  note dev = assms(1)
  have R: "{0, 2, 4, 0xA, 0xB} \<subseteq> R" "{7, 8, 9, 0x32, 0xA} \<subseteq> R" "{0xA, 0xB} \<subseteq> R" using assms(2) by auto
  have S: "0 \<in> R" "2 \<in> R" "4 \<in> R" "7 \<in> R" "8 \<in> R" "9 \<in> R" "0x32 \<in> R" "0xA \<in> R" "0xB \<in> R"
    using assms(2) by auto
  have idle: "reg (dev (snd (int1a_set_time hw r' (int_enable m)))) 0xA AND 0x80 = 0"
    "reg (dev (snd (int1a_set_date hw r' (int_enable m)))) 0xA AND 0x80 = 0" for r'
    using assms(3) S by (simp_all add: set_time_regs [OF dev R(3)] set_date_regs [OF dev R(3)])
  have m: "reg (dev (int_enable m)) 0xA AND 0x80 = 0" using assms(3) by simp
  have t: "fst (int1a_get_time hw q' (int_enable (snd (int1a_set_time hw r' (int_enable m))))) =
      clear_cf (q'\<lparr>rcx := rcx r', rdx := mk16 (hi8 (rdx r')) (lo8 (rdx r') AND 1),
        rax := mk16 0 (hi8 (rcx r'))\<rparr>)" for q' r'
    using S idle by (simp add: get_time_regs [OF dev R(1)] set_time_regs [OF dev R(3) m] byte_masks)
  have d: "fst (int1a_get_date hw q' (int_enable (snd (int1a_set_date hw r' (int_enable m))))) =
      clear_cf (q'\<lparr>rdx := rdx r', rcx := rcx r', rax := mk16 0 (hi8 (rcx r'))\<rparr>)" for q' r'
    using S idle by (simp add: get_date_regs [OF dev R(2)] set_date_regs [OF dev R(3) m])
  have k: "fst (int1a_get_ticks q' (int_enable (snd (int1a_set_ticks r' (int_enable m))))) =
      clear_cf (q'\<lparr>rcx := rcx r', rdx := rdx r', rax := mk16 (hi8 (rax q')) 0\<rparr>)" for q' r'
    by (simp add: int1a_get_ticks_def int1a_set_ticks_def Let_def TICKS_HIGH_def TICKS_LOW_def
        MIDNIGHT_FLAG_def read_word_write_word_other read_word_write_byte_other)
  show ?thesis
    by (simp add: int1a_then_def int1a_function_def t d k clear_cf_fields)
qed

definition rtc_machine :: "(u8 \<Rightarrow> u8) \<Rightarrow> (u8 \<times> (u8 \<Rightarrow> u8)) machine" where
  "rtc_machine f = \<lparr>ram = (\<lambda>_. 0), dev = (0, f), tty = [], blog = [], iflag = False\<rparr>"

definition rtc_regs :: "u16 \<Rightarrow> u16 \<Rightarrow> u16 \<Rightarrow> regs" where
  "rtc_regs ax cx dx = \<lparr>rax = ax, rbx = 0x10, rcx = cx, rdx = dx, rsi = 0, rdi = 0, rsp = 0, rds = 0,
     res = 0x2000, flags = 0, ifl = 0\<rparr>"

lemma clock_round_trips_witness:
  "rcx (int1a_then 3 2 rtc_hw (rtc_regs 0 0x2359 0x3001) (rtc_regs 0 0 0) (rtc_machine (\<lambda>_. 0))) = 0x2359 \<and>
   rdx (int1a_then 5 4 rtc_hw (rtc_regs 0 0x2020 0x1231) (rtc_regs 0 0 0) (rtc_machine (\<lambda>_. 0))) = 0x1231"
  using clock_round_trips [OF rtc_hw_device subset_UNIV, of "rtc_machine (\<lambda>_. 0)"]
  by (simp add: Let_def rtc_regs_def rtc_machine_def)

section \<open>The wait interval\<close>

text \<open>The interval as the data area has it: the flag byte's address, whether it runs, the time left.\<close>

definition interval_left :: "'d machine \<Rightarrow> u32" where
  "interval_left m = read_dword 0x40 0x9C m"

definition interval_byte :: "'d machine \<Rightarrow> u16 \<times> u16" where
  "interval_byte m = (read_word 0x40 0x98 m, read_word 0x40 0x9A m)"

definition interval_runs :: "u16 \<Rightarrow> u16 \<Rightarrow> nat \<Rightarrow> 'd machine \<Rightarrow> bool" where
  "interval_runs seg off t m \<longleftrightarrow>
     read_byte 0x40 0xA0 m = 1 \<and> interval_byte m = (seg, off) \<and> unat (interval_left m) = t"

text \<open>One periodic interrupt of the clock, and the handler.\<close>

definition rtc_irq :: "'d hw \<Rightarrow> ('d machine \<Rightarrow> 'd machine) \<Rightarrow> ('d \<Rightarrow> 'd) \<Rightarrow> 'd machine \<Rightarrow> 'd machine" where
  "rtc_irq hw int4a tick m = int70_function hw int4a (m\<lparr>dev := tick (dev m)\<rparr>)"

lemma eoi_memory [simp]: "ram (eoi_both_pics hw m) = ram m"
  by (simp add: eoi_both_pics_def frame_simps)

lemma eoi_rtc:
  "rtc_device hw reg R \<Longrightarrow> s \<in> R \<Longrightarrow> reg (dev (eoi_both_pics hw m)) s = reg (dev m) s"
  by (simp add: eoi_both_pics_def rtc_other)

text \<open>A machine's data area and flag byte depend on its memory only.\<close>

lemma memory_cong: "ram m = ram m' \<Longrightarrow> read_byte s a m = read_byte s a m'"
  "ram m = ram m' \<Longrightarrow> read_word s a m = read_word s a m'"
  "ram m = ram m' \<Longrightarrow> read_dword s a m = read_dword s a m'"
  by (simp_all add: read_byte_def read_word_def read_dword_def)

lemma periodic_ram:
  "ram m = ram m' \<Longrightarrow> ram (int70_periodic hw b m) = ram (int70_periodic hw' b m')"
  using memory_cong [of m m']
  by (simp add: int70_periodic_def Let_def write_byte_def write_dword_def write_word_def read_byte_def)

lemma periodic_rtc:
  assumes "rtc_device hw reg R" "0xB \<in> R"
  shows "reg (dev (int70_periodic hw b m)) 0xB =
    (if read_byte 0x40 0xA0 m \<noteq> 0 \<and> interval_left m < 0x3D1 then b AND 0x37 else reg (dev m) 0xB)"
  using assms by (simp add: int70_periodic_def Let_def rtc_write interval_left_def)

lemma pie_bits:
  "c AND 0x60 = 0x40 \<Longrightarrow> c AND 0x20 = 0 \<and> c AND 0x40 = 0x40"
  "c AND 0x40 = 0x40 \<Longrightarrow> c AND 0x60 \<noteq> 0" for c :: u8
proof -
  assume c: "c AND 0x60 = 0x40"
  have "c AND 0x20 = (c AND 0x60) AND 0x20" "c AND 0x40 = (c AND 0x60) AND 0x40" by (simp_all add: and.assoc)
  with c show "c AND 0x20 = 0 \<and> c AND 0x40 = 0x40" by simp
next
  assume c: "c AND 0x40 = 0x40"
  have "c AND 0x40 = (c AND 0x60) AND 0x40" by (simp add: and.assoc)
  with c show "c AND 0x60 \<noteq> 0" by auto
qed

lemma irq_effect:
  assumes dev: "rtc_device hw reg {0xB, 0xC}"
    and irq: "\<And>d. reg (tick d) 0xC AND 0x60 = 0x40" "\<And>d. reg (tick d) 0xB = reg d 0xB"
    and B: "reg (dev m) 0xB AND 0x40 = 0x40"
  shows "ram (rtc_irq hw int4a tick m) = ram (int70_periodic hw (reg (dev m) 0xB) m)"
    "reg (dev (rtc_irq hw int4a tick m)) 0xB =
       (if read_byte 0x40 0xA0 m \<noteq> 0 \<and> interval_left m < 0x3D1 then reg (dev m) 0xB AND 0x37
        else reg (dev m) 0xB)"
proof -
  define m1 where "m1 = snd (inb_cmos hw 0xB (m\<lparr>dev := tick (dev m)\<rparr>))"
  define m2 where "m2 = snd (inb_cmos hw 0xC m1)"
  have b: "fst (inb_cmos hw 0xB (m\<lparr>dev := tick (dev m)\<rparr>)) = reg (dev m) 0xB"
    by (simp add: rtc_read [OF dev] irq)
  have c: "fst (inb_cmos hw 0xC m1) = reg (tick (dev m)) 0xC"
    by (simp add: m1_def rtc_read [OF dev])
  have ram2: "ram m2 = ram m" by (simp add: m1_def m2_def)
  have B2: "reg (dev m2) 0xB = reg (dev m) 0xB" by (simp add: m1_def m2_def rtc_read [OF dev] irq)
  have run: "rtc_irq hw int4a tick m = eoi_both_pics hw (int70_periodic hw (reg (dev m) 0xB) m2)"
    using pie_bits(1) [OF irq(1) [of "dev m"]] pie_bits(2) [OF B]
    by (simp add: rtc_irq_def int70_function_def split_beta b m1_def [symmetric] c m2_def [symmetric])
  show "ram (rtc_irq hw int4a tick m) = ram (int70_periodic hw (reg (dev m) 0xB) m)"
    by (simp add: run periodic_ram [OF ram2])
  show "reg (dev (rtc_irq hw int4a tick m)) 0xB =
       (if read_byte 0x40 0xA0 m \<noteq> 0 \<and> interval_left m < 0x3D1 then reg (dev m) 0xB AND 0x37
        else reg (dev m) 0xB)"
    using memory_cong [OF ram2] by (simp add: run eoi_rtc [OF dev] periodic_rtc [OF dev] B2 interval_left_def)
qed

definition interval_area :: "u32 set" where
  "interval_area = lin 0x40 ` {0x98..0xA0}"

lemma ram_writes:
  "ram (write_byte s a v m) x = (if x = lin s a then v else ram m x)"
  "x \<notin> lin s ` {b. b = a \<or> b = a + 1} \<Longrightarrow> ram (write_word s a w m) x = ram m x"
  "x \<notin> lin s ` {b. b = a \<or> b = a + 1 \<or> b = a + 2 \<or> b = a + 3} \<Longrightarrow> ram (write_dword s a d m) x = ram m x"
  by (auto simp: write_byte_def write_word_def write_dword_def add.assoc)

lemma area_dword: "x \<notin> interval_area \<Longrightarrow> ram (write_dword 0x40 0x9C d m) x = ram m x"
  by (rule ram_writes) (auto simp: interval_area_def)

lemma periodic_waits:
  assumes "interval_runs seg off t m" "977 \<le> t"
  shows "interval_runs seg off (t - 977) (int70_periodic hw b m)"
    "x \<notin> interval_area \<Longrightarrow> ram (int70_periodic hw b m) x = ram m x"
proof -
  have t: "unat (interval_left m) = t" "\<not> interval_left m < 0x3D1"
    using assms by (auto simp: interval_runs_def word_less_nat_alt)
  have run: "int70_periodic hw b m = write_dword 0x40 0x9C (interval_left m - 0x3D1) m"
    using assms(1) t by (simp add: int70_periodic_def interval_runs_def interval_left_def Let_def)
  show "interval_runs seg off (t - 977) (int70_periodic hw b m)"
    using assms t unfolding run
    by (simp add: interval_runs_def interval_left_def interval_byte_def read_byte_write_dword_seg
        read_word_def unat_sub word_le_nat_alt)
  show "ram (int70_periodic hw b m) x = ram m x" if "x \<notin> interval_area"
    using that by (simp add: run area_dword)
qed

lemma periodic_ends:
  assumes "interval_runs seg off t m" "t < 977" "lin seg off \<notin> interval_area"
  shows "read_byte 0x40 0xA0 (int70_periodic hw b m) = 0"
    "read_byte seg off (int70_periodic hw b m) = read_byte seg off m OR 0x80"
proof -
  have t: "interval_left m < 0x3D1" using assms by (simp add: interval_runs_def word_less_nat_alt)
  have far: "lin seg off \<noteq> lin 0x40 0xA0" using assms(3) by (auto simp: interval_area_def)
  have seg: "read_word 0x40 0x98 m = seg" "read_word 0x40 0x9A m = off" "read_byte 0x40 0xA0 m = 1"
    using assms(1) by (simp_all add: interval_runs_def interval_byte_def)
  show "read_byte 0x40 0xA0 (int70_periodic hw b m) = 0"
    "read_byte seg off (int70_periodic hw b m) = read_byte seg off m OR 0x80"
    using t far by (simp_all add: int70_periodic_def Let_def seg interval_left_def read_write_byte)
qed

lemma periodic_idle: "read_byte 0x40 0xA0 m = 0 \<Longrightarrow> int70_periodic hw b m = m"
  by (simp add: int70_periodic_def)

lemma runs_cong: "ram m = ram m' \<Longrightarrow> interval_runs seg off t m = interval_runs seg off t m'"
  using memory_cong [of m m'] by (simp add: interval_runs_def interval_byte_def interval_left_def)

definition rtc_irqs ::
  "'d hw \<Rightarrow> ('d machine \<Rightarrow> 'd machine) \<Rightarrow> ('d \<Rightarrow> 'd) \<Rightarrow> nat \<Rightarrow> 'd machine \<Rightarrow> 'd machine" where
  "rtc_irqs hw int4a tick k m = (rtc_irq hw int4a tick ^^ k) m"

lemma rtc_irqs_simps [simp]:
  "rtc_irqs hw int4a tick 0 m = m"
  "rtc_irqs hw int4a tick (Suc k) m = rtc_irq hw int4a tick (rtc_irqs hw int4a tick k m)"
  by (simp_all add: rtc_irqs_def)

lemma interval_countdown:
  fixes int4a :: "'d machine \<Rightarrow> 'd machine" and m :: "'d machine" and tick :: "'d \<Rightarrow> 'd"
  assumes dev: "rtc_device hw reg {0xB, 0xC}"
    and irq: "\<And>d. reg (tick d) 0xC AND 0x60 = 0x40" "\<And>d. reg (tick d) 0xB = reg d 0xB"
    and runs: "interval_runs seg off t m" and B: "reg (dev m) 0xB AND 0x40 = 0x40"
    and k: "k \<le> t div 977"
  defines "after \<equiv> \<lambda>k. rtc_irqs hw int4a tick k m"
  shows "interval_runs seg off (t - 977 * k) (after k) \<and> reg (dev (after k)) 0xB = reg (dev m) 0xB \<and>
    (\<forall>x. x \<notin> interval_area \<longrightarrow> ram (after k) x = ram m x)"
  using k
proof (induction k)
  case 0
  then show ?case using runs B by (simp add: after_def)
next
  case (Suc k)
  then have IH: "interval_runs seg off (t - 977 * k) (after k)" "reg (dev (after k)) 0xB = reg (dev m) 0xB"
    "x \<notin> interval_area \<Longrightarrow> ram (after k) x = ram m x" for x by auto
  have pie: "reg (dev (after k)) 0xB AND 0x40 = 0x40" using IH(2) B by simp
  have more: "977 \<le> t - 977 * k" using Suc.prems by linarith
  have next_k: "after (Suc k) = rtc_irq hw int4a tick (after k)" by (simp add: after_def)
  note eff = irq_effect [where reg = reg and tick = tick and int4a = int4a, OF dev irq pie, folded next_k]
  have "\<not> interval_left (after k) < 0x3D1" using IH(1) more by (simp add: interval_runs_def word_less_nat_alt)
  moreover have "t - 977 * Suc k = t - 977 * k - 977" by simp
  ultimately show ?case
    using IH(2,3) eff periodic_waits [OF IH(1) more] runs_cong [OF eff(1)] by simp
qed

lemma start_interval:
  assumes dev: "rtc_device hw reg R" "0xB \<in> R" and free: "read_byte 0x40 0xA0 m AND 1 = 0"
    and call: "hi8 (rax r) = 0x83" "lo8 (rax r) = 0"
  obtains m' where "int15_function hw r m = Some (Int15_returns (clear_cf r) m')"
    "interval_runs (res r) (rbx r) (unat (push_bit 16 (ucast (rcx r)) OR ucast (rdx r) :: u32)) m'"
    "reg (dev m') 0xB AND 0x40 = 0x40" "\<And>x. x \<notin> interval_area \<Longrightarrow> ram m' x = ram m x"
proof -
  define m1 where "m1 = write_word 0x40 0x9E (rcx r) (write_word 0x40 0x9C (rdx r)
    (write_word 0x40 0x9A (rbx r) (write_word 0x40 0x98 (res r) (write_byte 0x40 0xA0 1 m))))"
  define m2 where "m2 = (let (i, m2) = inb hw 0xA1 m1 in outb hw 0xA1 (i AND 0xFE) m2)"
  define m' where "m' = (let (v, m3) = inb_cmos hw 0xB m2 in outb_cmos hw 0xB (v OR 0x40) m3)"
  have "int15_function hw r m = Some (Int15_returns (clear_cf r) m')"
    using call free
    by (simp add: int15_function_def int15_small_def int15_interval_def int15_set_interval_def m1_def
        m2_def m'_def Let_def split_beta)
  moreover have ram': "ram m' = ram m1" by (simp add: m'_def m2_def split_beta frame_simps)
  moreover have "interval_runs (res r) (rbx r) (unat (push_bit 16 (ucast (rcx r)) OR ucast (rdx r) :: u32)) m1"
    by (simp add: m1_def interval_runs_def interval_byte_def interval_left_def read_dword_def
        read_word_write_word_other read_word_write_byte_other read_byte_write_word_seg)
  moreover have "reg (dev m') 0xB AND 0x40 = 0x40"
    using dev by (simp add: m'_def split_beta rtc_write bit.conj_disj_distrib2)
  moreover have "ram m' x = ram m x" if "x \<notin> interval_area" for x
  proof -
    have "x \<noteq> lin 0x40 o'" if "o' \<in> {0x98..0xA0}" for o'
      using \<open>x \<notin> interval_area\<close> that by (auto simp: interval_area_def)
    then show ?thesis
      unfolding ram' by (simp add: m1_def write_word_def write_byte_def)
  qed
  ultimately show thesis using that runs_cong [OF ram'] by metis
qed

text \<open>
  C31: An interval started with INT 15h, AX=8300h ends when it should. The clock interrupts 1024 times
  a second, every 977 microseconds; with \<open>d\<close> the delay in CX:DX the interval keeps running, with \<open>977\<close>
  less to go, through the first \<open>d div 977\<close> interrupts, in which nothing outside the interval's part of
  the data area changes. The next interrupt ends it: it sets bit 7 of the byte at ES:BX and no other bit, clears
  the status byte, and turns the periodic interrupt off, leaving an alarm that is enabled enabled.
\<close>

theorem wait_interval_fires:
  fixes int4a :: "'d machine \<Rightarrow> 'd machine" and m :: "'d machine" and tick :: "'d \<Rightarrow> 'd"
  assumes "rtc_device hw reg {0xB, 0xC}"
    and "\<And>d. reg (tick d) 0xC AND 0x60 = 0x40" "\<And>d. reg (tick d) 0xB = reg d 0xB"
    and "read_byte 0x40 0xA0 m AND 1 = 0" "hi8 (rax r) = 0x83" "lo8 (rax r) = 0"
    and "lin (res r) (rbx r) \<notin> interval_area"
  shows "\<exists>m'. int15_function hw r m = Some (Int15_returns (clear_cf r) m') \<and>
    (let d = unat (push_bit 16 (ucast (rcx r)) OR ucast (rdx r) :: u32);
         after = (\<lambda>k. rtc_irqs hw int4a tick k m'); last = after (d div 977 + 1)
     in (\<forall>k \<le> d div 977. interval_runs (res r) (rbx r) (d - 977 * k) (after k) \<and>
           (\<forall>x. x \<notin> interval_area \<longrightarrow> ram (after k) x = ram m x)) \<and>
        read_byte (res r) (rbx r) last = read_byte (res r) (rbx r) m OR 0x80 \<and>
        read_byte 0x40 0xA0 last = 0 \<and> reg (dev last) 0xB AND 0x40 = 0 \<and>
        reg (dev last) 0xB AND 0x20 = reg (dev m') 0xB AND 0x20)"
proof -
  define d where "d = unat (push_bit 16 (ucast (rcx r)) OR ucast (rdx r) :: u32)"
  obtain m' where call: "int15_function hw r m = Some (Int15_returns (clear_cf r) m')"
    and runs: "interval_runs (res r) (rbx r) d m'" and B: "reg (dev m') 0xB AND 0x40 = 0x40"
    and same: "\<And>x. x \<notin> interval_area \<Longrightarrow> ram m' x = ram m x"
    by (rule start_interval [OF assms(1) _ assms(4-6), folded d_def]) simp_all
  define n where "n = d div 977"
  note count = interval_countdown [where int4a = int4a and tick = tick and reg = reg, OF assms(1-3) runs B]
  define l where "l = rtc_irqs hw int4a tick n m'"
  have last: "interval_runs (res r) (rbx r) (d - 977 * n) l" "reg (dev l) 0xB = reg (dev m') 0xB"
    "ram l (lin (res r) (rbx r)) = ram m (lin (res r) (rbx r))"
    using count [of n] same assms(7) by (simp_all add: n_def l_def)
  have short: "d - 977 * n < 977" by (simp add: n_def minus_mult_div_eq_mod)
  have pie: "reg (dev l) 0xB AND 0x40 = 0x40" using last(2) B by simp
  note eff = irq_effect [where int4a = int4a and tick = tick and reg = reg, OF assms(1-3) pie]
  note ends = periodic_ends [OF last(1) short assms(7)]
  have "read_byte 0x40 0xA0 l \<noteq> 0 \<and> interval_left l < 0x3D1"
    using last(1) short by (simp add: interval_runs_def word_less_nat_alt)
  then have regB: "reg (dev (rtc_irq hw int4a tick l)) 0xB = reg (dev m') 0xB AND 0x37"
    using eff(2) last(2) by simp
  have byte: "read_byte (res r) (rbx r) l = read_byte (res r) (rbx r) m"
    using last(3) by (simp add: read_byte_def)
  have going: "\<forall>k \<le> d div 977. interval_runs (res r) (rbx r) (d - 977 * k) (rtc_irqs hw int4a tick k m') \<and>
      (\<forall>x. x \<notin> interval_area \<longrightarrow> ram (rtc_irqs hw int4a tick k m') x = ram m x)"
    using count same by simp
  have "rtc_irqs hw int4a tick (d div 977 + 1) m' = rtc_irq hw int4a tick l" by (simp add: l_def n_def)
  then show ?thesis
    using call going memory_cong [OF eff(1)] ends byte regB
    by (simp add: d_def [symmetric] Let_def and.assoc)
qed

lemma wait_interval_fires_witness:
  "\<exists>m'. int15_function rtc_hw (rtc_regs 0x8300 0 2000) (rtc_machine (\<lambda>_. 0)) =
      Some (Int15_returns (rtc_regs 0x8300 0 2000) m') \<and>
    read_byte 0x2000 0x10 (rtc_irqs rtc_hw id (\<lambda>(i, f). (i, f(0xC := 0xC0))) 3 m') = 0x80"
proof -
  have "hi8 0x8300 = 0x83" "lo8 0x8300 = 0" by (simp_all add: hi8_def lo8_def)
  moreover have "lin 0x2000 0x10 \<notin> interval_area" by (auto simp: interval_area_def word_unat_eq_iff unat_lin word_le_nat_alt)
  moreover have "unat (push_bit 16 (ucast (0 :: u16)) OR ucast (2000 :: u16) :: u32) = 2000" by simp
  ultimately show ?thesis
    using wait_interval_fires [OF rtc_hw_device, of "\<lambda>(i, f). (i, f(0xC := 0xC0))" "rtc_machine (\<lambda>_. 0)"
      "rtc_regs 0x8300 0 2000" id]
    by (simp add: rtc_regs_def rtc_machine_def read_byte_def clear_cf_def Let_def split_beta
        del: rtc_irqs_simps) blast
qed

end
