(* ===== verification/MemoryMap.thy ===== *)
theory MemoryMap
  imports Rtc
begin

text \<open>
  The system services with 32-bit registers (\<open>int15_function32\<close> in \<open>Devices/PC/BIOS/system.c\<close>): the
  memory map an operating system asks for with INT 15h, AX=E820h, the memory size of AX=E801h, and
  what the map says.
\<close>

section \<open>The services\<close>

record regs32 =
  reax :: u32
  rebx :: u32
  recx :: u32
  redx :: u32
  resi :: u32
  redi :: u32
  xes :: u16
  xflags :: u16

definition lo16 :: "u32 \<Rightarrow> u16" where "lo16 w = ucast w"

definition set_lo16 :: "u16 \<Rightarrow> u32 \<Rightarrow> u32" where
  \<comment> \<open>an assignment to the 16-bit half of a 32-bit register\<close>
  "set_lo16 v w = (w AND 0xffff0000) OR ucast v"

lemma lo16_set [simp]: "lo16 (set_lo16 v w) = v"
proof -
  have m: "(0xffff0000 :: u32) = push_bit 16 (mask 16)" by (simp add: mask_numeral push_bit_eq_mult)
  show ?thesis
    unfolding lo16_def set_lo16_def m by (rule bit_word_eqI) (auto simp: bit_simps)
qed

definition set_cf32 :: "regs32 \<Rightarrow> regs32" where "set_cf32 r = r\<lparr>xflags := xflags r OR 0x0001\<rparr>"
definition clear_cf32 :: "regs32 \<Rightarrow> regs32" where "clear_cf32 r = r\<lparr>xflags := xflags r AND 0xfffe\<rparr>"

definition ACPI_DATA_SIZE :: u32 where "ACPI_DATA_SIZE = 0x00010000"

definition set_e820_range ::
  "u16 \<Rightarrow> u16 \<Rightarrow> u32 \<Rightarrow> u32 \<Rightarrow> u8 \<Rightarrow> u8 \<Rightarrow> u16 \<Rightarrow> 'd machine \<Rightarrow> 'd machine" where
  "set_e820_range es di start end' extra_start extra_end type m =
     (let m = write_dword es di start m;
          m = write_dword es (di + 4) (ucast extra_start) m;
          end' = end' - start;
          extra_end = extra_end - extra_start;
          m = write_dword es (di + 8) end' m;
          m = write_dword es (di + 12) (ucast extra_end) m
      in write_dword es (di + 16) (ucast type) m)"

definition int15_unimplemented :: "regs32 \<Rightarrow> 'd machine \<Rightarrow> regs32 \<times> 'd machine" where
  "int15_unimplemented r m =
     (let m = bx_info ''*** int 15h function AX=%04x, BX=%04x not yet supported!\<newline>''
                [lo16 (reax r), lo16 (rebx r)] m;
          r = set_cf32 r
      in (r\<lparr>reax := set_lo16 ((lo16 (reax r) AND 0xff00) OR ucast UNSUPPORTED_FUNCTION) (reax r)\<rparr>, m))"

definition e820_extended :: "'d hw \<Rightarrow> 'd machine \<Rightarrow> u32 \<times> 'd machine" where
  \<comment> \<open>\<open>extended_memory_size\<close>: the end of the memory below 4 GB\<close>
  "e820_extended hw m =
     (let (w, m) = cmos_word hw 0x35 0x34 m; size = ucast w * 64 * 1024 + 0x1000000
      in if size \<le> 0x1000000 then
           let (w, m) = cmos_word hw 0x31 0x30 m in (ucast w * 1024 + 0x100000, m)
         else (size, m))"

definition e820_extra :: "'d hw \<Rightarrow> 'd machine \<Rightarrow> u32 \<times> u8 \<times> 'd machine" where
  \<comment> \<open>the memory above 4 GB: \<open>extra_lowbits_memory_size\<close> and \<open>extra_highbits_memory_size\<close>\<close>
  "e820_extra hw m =
     (let (w, m) = cmos_word hw 0x62 0x61 m; (h, m) = inb_cmos hw 0x63 m
      in (push_bit 16 (ucast w), h, m))"

definition e820_entry ::
  "regs32 \<Rightarrow> u32 \<Rightarrow> u32 \<Rightarrow> u8 \<Rightarrow> 'd machine \<Rightarrow> (u32 \<times> 'd machine) option" where
  \<comment> \<open>the switch on BX: the next EBX; \<open>None\<close> is \<open>goto int15_unimplemented\<close>. \<open>mcfgStart\<close> is 0.\<close>
  "e820_entry r ext low high m =
     (let range = set_e820_range (xes r) (lo16 (redi r)); bx = lo16 (rebx r);
          more = high \<noteq> 0 \<or> low \<noteq> 0; mcfgStart = 0; mcfgSize = 0
      in if bx = 0 then Some (1, range 0 0x0009fc00 0 0 1 m)
         else if bx = 1 then Some (2, range 0x0009fc00 0x000a0000 0 0 2 m)
         else if bx = 2 then Some (3, range 0x000f0000 0x00100000 0 0 2 m)
         else if bx = 3 then Some (4, range 0x00100000 (ext - ACPI_DATA_SIZE) 0 0 1 m)
         else if bx = 4 then Some (5, range (ext - ACPI_DATA_SIZE) ext 0 0 3 m)
         else if bx = 5 then Some (6, range 0xfec00000 (0xfec00000 + 0x1000) 0 0 2 m)
         else if bx = 6 then Some (7, range 0xfee00000 (0xfee00000 + 0x1000) 0 0 2 m)
         else if bx = 7 then
           Some (if mcfgStart \<noteq> (0 :: u32) then 8 else if more then 9 else 0,
                 range 0xfffc0000 0 0 0 2 m)
         else if bx = 8 then
           Some (if more then 9 else 0, range mcfgStart (mcfgStart + mcfgSize) 0 0 2 m)
         else if bx = 9 \<and> more then Some (0, range 0 low 1 (high + 1) 1 m)
         else None)"

definition int15_e820 :: "'d hw \<Rightarrow> regs32 \<Rightarrow> 'd machine \<Rightarrow> regs32 \<times> 'd machine" where
  "int15_e820 hw r m =
     (if redx r = 0x534D4150 then
        let (ext, m) = e820_extended hw m; (low, high, m) = e820_extra hw m
        in case e820_entry r ext low high m of
             None \<Rightarrow> int15_unimplemented r m
           | Some (ebx, m) \<Rightarrow> (clear_cf32 (r\<lparr>rebx := ebx, reax := 0x534D4150, recx := 0x14\<rparr>), m)
      else int15_unimplemented r m)"

definition int15_e801 :: "'d hw \<Rightarrow> regs32 \<Rightarrow> 'd machine \<Rightarrow> regs32 \<times> 'd machine" where
  "int15_e801 hw r m =
     (let r = clear_cf32 r;
          (cx, m) = cmos_word hw 0x31 0x30 m;
          cx = (if cx > 0x3c00 then 0x3c00 else cx);
          (dx, m) = cmos_word hw 0x35 0x34 m
      in (r\<lparr>recx := set_lo16 cx (recx r), redx := set_lo16 dx (redx r),
            reax := set_lo16 cx (reax r), rebx := set_lo16 dx (rebx r)\<rparr>, m))"

definition int15_function32 :: "'d hw \<Rightarrow> regs32 \<Rightarrow> 'd machine \<Rightarrow> regs32 \<times> 'd machine" where
  "int15_function32 hw r m =
     (let ah = hi8 (lo16 (reax r)); al = lo8 (lo16 (reax r)) in
      if ah = 0xd0 then
        (if al = 0x4f \<and> rebx r = 0x50524f43 \<and> recx r = 0x4d4f4445 \<and> resi r = 0 \<and> redi r = 0 then
           ((clear_cf32 r)\<lparr>resi := rebx r, redi := recx r, reax := 0x49413332\<rparr>, m)
         else int15_unimplemented r m)
      else if ah = 0xe8 then
        (if al = 0x20 then int15_e820 hw r m
         else if al = 0x01 then int15_e801 hw r m
         else int15_unimplemented r m)
      else int15_unimplemented r m)"

section \<open>The memory map as its caller sees it\<close>

text \<open>
  A caller starts with EBX = 0 and passes on the EBX it gets, until that is 0 or the carry flag is
  set; it reads a range from its buffer at ES:DI after every call.
\<close>

type_synonym mem_range = "nat \<times> nat \<times> nat"

definition e820_read :: "u16 \<Rightarrow> u16 \<Rightarrow> 'd machine \<Rightarrow> mem_range" where
  "e820_read es di m =
     (unat (read_dword es di m) + 2 ^ 32 * unat (read_dword es (di + 4) m),
      unat (read_dword es (di + 8) m) + 2 ^ 32 * unat (read_dword es (di + 12) m),
      unat (read_dword es (di + 16) m))"

definition e820_regs :: "u16 \<Rightarrow> u16 \<Rightarrow> u32 \<Rightarrow> regs32" where
  "e820_regs es di ebx = \<lparr>reax = 0xe820, rebx = ebx, recx = 20, redx = 0x534D4150, resi = 0,
     redi = ucast di, xes = es, xflags = 0\<rparr>"

fun e820_walk ::
  "nat \<Rightarrow> 'd hw \<Rightarrow> u16 \<Rightarrow> u16 \<Rightarrow> u32 \<Rightarrow> 'd machine \<Rightarrow> (mem_range list \<times> 'd machine) option" where
  "e820_walk 0 hw es di ebx m = None"
| "e820_walk (Suc n) hw es di ebx m =
     (let (r, m) = int15_function32 hw (e820_regs es di ebx) m in
      if bit (xflags r) 0 then None
      else if rebx r = 0 then Some ([e820_read es di m], m)
      else map_option (\<lambda>(xs, m'). (e820_read es di m # xs, m')) (e820_walk n hw es di (rebx r) m))"

text \<open>The map: memory below 4 GB ends at \<open>ext\<close>, and there are \<open>extra\<close> bytes above.\<close>

definition e820_low :: "nat \<Rightarrow> mem_range list" where
  "e820_low ext =
     [(0, 0x9fc00, 1), (0x9fc00, 0x400, 2), (0xf0000, 0x10000, 2), (0x100000, ext - 0x110000, 1),
      (ext - 0x10000, 0x10000, 3), (0xfec00000, 0x1000, 2), (0xfee00000, 0x1000, 2), (0xfffc0000, 0x40000, 2)]"

definition e820_map :: "nat \<Rightarrow> nat \<Rightarrow> mem_range list" where
  "e820_map ext extra = e820_low ext @ (if extra = 0 then [] else [(0x100000000, extra, 1)])"

definition range_set :: "mem_range \<Rightarrow> nat set" where
  "range_set x = (case x of (s, l, _) \<Rightarrow> {s..<s + l})"

text \<open>What the host put into CMOS.\<close>

definition CMOS_MEM :: "u8 set" where
  "CMOS_MEM = {0x30, 0x31, 0x34, 0x35, 0x61, 0x62, 0x63}"

definition cmos_ext :: "(u8 \<Rightarrow> u8) \<Rightarrow> nat" where
  "cmos_ext f =
     (let w = unat (mk16 (f 0x35) (f 0x34))
      in if w = 0 then 0x100000 + 0x400 * unat (mk16 (f 0x31) (f 0x30)) else 0x1000000 + 0x10000 * w)"

definition cmos_extra :: "(u8 \<Rightarrow> u8) \<Rightarrow> nat" where
  "cmos_extra f = 0x10000 * unat (mk16 (f 0x62) (f 0x61)) + 2 ^ 32 * unat (f 0x63)"

definition cmos_holds :: "('d \<Rightarrow> u8 \<Rightarrow> u8) \<Rightarrow> (u8 \<Rightarrow> u8) \<Rightarrow> 'd machine \<Rightarrow> bool" where
  "cmos_holds reg f m \<longleftrightarrow> (\<forall>s \<in> CMOS_MEM. reg (dev m) s = f s)"

lemma cmos_holds_read:
  assumes "rtc_device hw reg CMOS_MEM" "cmos_holds reg f m"
  shows "r \<in> CMOS_MEM \<Longrightarrow> fst (inb_cmos hw r m) = f r" "cmos_holds reg f (snd (inb_cmos hw r m))"
  using assms rtc_read [OF assms(1)] by (auto simp: cmos_holds_def CMOS_MEM_def)

lemma cmos_word_holds:
  assumes "rtc_device hw reg CMOS_MEM" "cmos_holds reg f m" "h \<in> CMOS_MEM" "l \<in> CMOS_MEM"
  obtains m' where "cmos_word hw h l m = (mk16 (f h) (f l), m')" "cmos_holds reg f m'" "ram m' = ram m"
  using assms by (auto simp: cmos_word_def split_beta cmos_holds_read)

lemma unat_small: "n < 4294967296 \<Longrightarrow> unat (of_nat n :: u32) = n"
  by (simp add: unsigned_of_nat take_bit_nat_eq_self)

lemma e820_extended_value:
  assumes "rtc_device hw reg CMOS_MEM" "cmos_holds reg f m" "cmos_ext f \<le> 0xfec00000"
  obtains m' where "e820_extended hw m = (of_nat (cmos_ext f), m')" "cmos_holds reg f m'" "ram m' = ram m"
proof -
  obtain m1 where m1: "cmos_word hw 0x35 0x34 m = (mk16 (f 0x35) (f 0x34), m1)" "cmos_holds reg f m1"
      "ram m1 = ram m"
    using cmos_word_holds [OF assms(1,2), of "0x35" "0x34"] by (auto simp: CMOS_MEM_def)
  obtain m2 where m2: "cmos_word hw 0x31 0x30 m1 = (mk16 (f 0x31) (f 0x30), m2)" "cmos_holds reg f m2"
      "ram m2 = ram m"
    using cmos_word_holds [OF assms(1) m1(2), of "0x31" "0x30"] m1(3) by (auto simp: CMOS_MEM_def)
  define w where "w = mk16 (f 0x35) (f 0x34)"
  define v where "v = mk16 (f 0x31) (f 0x30)"
  have w_nat: "ucast w = (of_nat (unat w) :: u32)" and v_nat: "ucast v = (of_nat (unat v) :: u32)"
    by simp_all
  have size: "ucast w * 64 * 1024 + 0x1000000 = (of_nat (0x1000000 + 0x10000 * unat w) :: u32)"
    unfolding w_nat of_nat_add of_nat_mult by simp
  have small: "ucast v * 1024 + 0x100000 = (of_nat (0x100000 + 0x400 * unat v) :: u32)"
    unfolding v_nat of_nat_add of_nat_mult by simp
  show thesis
  proof (cases "unat w = 0")
    case True
    then have "w = 0" by (simp add: unat_eq_0)
    then have "e820_extended hw m = (of_nat (cmos_ext f), m2)"
      using small by (simp add: e820_extended_def m1 m2 w_def [symmetric] v_def [symmetric] cmos_ext_def)
    then show thesis using that m2 by blast
  next
    case False
    then have ext: "cmos_ext f = 0x1000000 + 0x10000 * unat w" by (simp add: cmos_ext_def w_def)
    have "unat (of_nat (cmos_ext f) :: u32) = cmos_ext f"
      using unat_small [of "cmos_ext f"] assms(3) by (simp del: of_nat_add of_nat_mult)
    then have "\<not> (of_nat (cmos_ext f) :: u32) \<le> 0x1000000" using False ext by (simp add: word_le_nat_alt)
    then have "e820_extended hw m = (of_nat (cmos_ext f), m1)"
      by (simp only: e820_extended_def m1(1) w_def [symmetric] split_beta fst_conv snd_conv Let_def size
          ext [symmetric] if_False)
    then show thesis using that m1 by blast
  qed
qed

definition cmos_low :: "(u8 \<Rightarrow> u8) \<Rightarrow> u32" where
  "cmos_low f = push_bit 16 (ucast (mk16 (f 0x62) (f 0x61)))"

lemma cmos_low_value:
  "unat (cmos_low f) + 2 ^ 32 * unat (f 0x63) = cmos_extra f"
  "f 0x63 \<noteq> 0 \<or> cmos_low f \<noteq> 0 \<longleftrightarrow> cmos_extra f \<noteq> 0"
proof -
  define w where "w = mk16 (f 0x62) (f 0x61)"
  have low: "unat (cmos_low f) = 0x10000 * unat w"
    using unsigned_less [of w, where 'a = nat]
    by (simp add: cmos_low_def w_def [symmetric] push_bit_eq_mult unat_word_ariths unsigned_ucast_eq
        take_bit_nat_eq_self)
  then show sum: "unat (cmos_low f) + 2 ^ 32 * unat (f 0x63) = cmos_extra f"
    by (simp only: cmos_extra_def w_def)
  show "f 0x63 \<noteq> 0 \<or> cmos_low f \<noteq> 0 \<longleftrightarrow> cmos_extra f \<noteq> 0"
    unfolding sum [symmetric] by (auto simp: unat_eq_0)
qed

lemma e820_extra_value:
  assumes "rtc_device hw reg CMOS_MEM" "cmos_holds reg f m"
  obtains m' where "e820_extra hw m = (cmos_low f, f 0x63, m')" "cmos_holds reg f m'" "ram m' = ram m"
proof -
  obtain m1 where m1: "cmos_word hw 0x62 0x61 m = (mk16 (f 0x62) (f 0x61), m1)" "cmos_holds reg f m1"
      "ram m1 = ram m"
    using cmos_word_holds [OF assms(1,2), of "0x62" "0x61"] by (auto simp: CMOS_MEM_def)
  have "e820_extra hw m = (cmos_low f, f 0x63, snd (inb_cmos hw 0x63 m1))"
    using cmos_holds_read(1) [OF assms(1) m1(2), of "0x63"]
    by (simp add: e820_extra_def m1 cmos_low_def split_beta CMOS_MEM_def prod_eq_iff)
  then show thesis using that cmos_holds_read(2) [OF assms(1) m1(2)] m1(3) by simp
qed

lemma ucast_small [simp]:
  "unat (ucast (x :: u8) :: u32) = unat x" "unat (ucast (y :: u16) :: u32) = unat y"
  using unsigned_less [of x, where 'a = nat] unsigned_less [of y, where 'a = nat]
  by (simp_all add: unsigned_ucast_eq take_bit_nat_eq_self)

lemma read_dword_write_dword_other:
  assumes "4 \<le> a - b" "4 \<le> b - a"
  shows "read_dword s a (write_dword s b v m) = read_dword s a m"
proof -
  have "\<forall>i \<in> {0, 1, 2, 3}. \<forall>j \<in> {0, 1, 2, 3}. a + i \<noteq> b + j"
  proof (intro ballI notI)
    fix i j :: u16 assume that: "i \<in> {0, 1, 2, 3}" "j \<in> {0, 1, 2, 3}" "a + i = b + j"
    then have "a - b = j - i" "b - a = i - j" by (simp_all add: algebra_simps)
    then show False using assms that by (auto simp: word_le_nat_alt)
  qed
  then show ?thesis
    by (simp add: read_dword_def read_word_def read_byte_write_dword_seg add.assoc)
qed

lemma range_read:
  "e820_read es di (set_e820_range es di s e xs xe t m) =
     (unat s + 2 ^ 32 * unat xs, unat (e - s) + 2 ^ 32 * unat (xe - xs), unat t)"
  by (simp add: e820_read_def set_e820_range_def Let_def read_dword_write_dword_other)

definition e820_buffer :: "u16 \<Rightarrow> u16 \<Rightarrow> u32 set" where
  "e820_buffer es di = {x. \<exists>i < 20. x = lin es (di + of_nat i)}"

lemma range_ram:
  assumes "x \<notin> e820_buffer es di"
  shows "ram (set_e820_range es di s e xs xe t m) x = ram m x"
proof -
  have out: "x \<noteq> lin es (di + of_nat i)" if "i < 20" for i
    using assms that by (auto simp: e820_buffer_def)
  show ?thesis
    using out [of 0] out [of 1] out [of 2] out [of 3] out [of 4] out [of 5] out [of 6] out [of 7]
      out [of 8] out [of 9] out [of 10] out [of 11] out [of 12] out [of 13] out [of 14] out [of 15]
      out [of 16] out [of 17] out [of 18] out [of 19]
    by (simp add: set_e820_range_def Let_def write_dword_def write_word_def write_byte_def add.assoc)
qed

lemma range_dev [simp]: "dev (set_e820_range es di s e xs xe t m) = dev m"
  by (simp add: set_e820_range_def Let_def)

text \<open>From EBX = \<open>ebx\<close> on, the caller collects \<open>xs\<close> in at most \<open>n\<close> calls.\<close>

definition e820_gives ::
  "'d hw \<Rightarrow> ('d \<Rightarrow> u8 \<Rightarrow> u8) \<Rightarrow> (u8 \<Rightarrow> u8) \<Rightarrow> u16 \<Rightarrow> u16 \<Rightarrow> nat \<Rightarrow> u32 \<Rightarrow> mem_range list \<Rightarrow> bool" where
  "e820_gives hw reg f es di n ebx xs \<longleftrightarrow>
     (\<forall>m. cmos_holds reg f m \<longrightarrow>
        (\<exists>m'. e820_walk n hw es di ebx m = Some (xs, m') \<and>
           (\<forall>x. x \<notin> e820_buffer es di \<longrightarrow> ram m' x = ram m x)))"

lemma e820_call:
  fixes hw :: "'d hw"
  assumes dev: "rtc_device hw reg CMOS_MEM" and ext: "cmos_ext f \<le> 0xfec00000"
    and entry: "\<And>m :: 'd machine. e820_entry (e820_regs es di ebx) (of_nat (cmos_ext f)) (cmos_low f) (f 0x63) m =
      Some (ebx', set_e820_range es di s e xs xe t m)"
    and m: "cmos_holds reg f m"
  obtains r' m' where "int15_function32 hw (e820_regs es di ebx) m = (r', m')" "\<not> bit (xflags r') 0"
    "rebx r' = ebx'" "cmos_holds reg f m'" "\<forall>x. x \<notin> e820_buffer es di \<longrightarrow> ram m' x = ram m x"
    "e820_read es di m' = (unat s + 2 ^ 32 * unat xs, unat (e - s) + 2 ^ 32 * unat (xe - xs), unat t)"
proof -
  obtain m1 where m1: "e820_extended hw m = (of_nat (cmos_ext f), m1)" "cmos_holds reg f m1" "ram m1 = ram m"
    using e820_extended_value [OF dev m ext] by blast
  obtain m2 where m2: "e820_extra hw m1 = (cmos_low f, f 0x63, m2)" "cmos_holds reg f m2" "ram m2 = ram m1"
    using e820_extra_value [OF dev m1(2)] by blast
  define r' where "r' = clear_cf32 ((e820_regs es di ebx)\<lparr>rebx := ebx', reax := 0x534D4150, recx := 0x14\<rparr>)"
  define m' where "m' = set_e820_range es di s e xs xe t m2"
  have ax: "hi8 (lo16 0xe820) = 0xe8" "lo8 (lo16 0xe820) = 0x20"
    by (simp_all add: hi8_def lo8_def lo16_def)
  have dx: "redx (e820_regs es di ebx) = 0x534D4150" by (simp add: e820_regs_def)
  have "int15_function32 hw (e820_regs es di ebx) m = int15_e820 hw (e820_regs es di ebx) m"
    using ax by (simp add: int15_function32_def e820_regs_def)
  also have "\<dots> = (r', m')"
    using dx by (simp add: int15_e820_def m1 m2 entry r'_def m'_def)
  finally have "int15_function32 hw (e820_regs es di ebx) m = (r', m')" .
  then show thesis
    by (rule that) (use m1(3) m2(2,3) in
      \<open>simp_all add: r'_def m'_def clear_cf32_def cmos_holds_def range_ram range_read bit_simps\<close>)
qed

lemma e820_gives_last:
  fixes hw :: "'d hw"
  assumes "rtc_device hw reg CMOS_MEM" "cmos_ext f \<le> 0xfec00000"
    and "\<And>m :: 'd machine. e820_entry (e820_regs es di ebx) (of_nat (cmos_ext f)) (cmos_low f) (f 0x63) m =
      Some (0, set_e820_range es di s e xs xe t m)"
  shows "e820_gives hw reg f es di (Suc n) ebx
    [(unat s + 2 ^ 32 * unat xs, unat (e - s) + 2 ^ 32 * unat (xe - xs), unat t)]"
  unfolding e820_gives_def
proof (intro allI impI)
  fix m assume "cmos_holds reg f m"
  from e820_call [OF assms this] obtain r' m' where
    "int15_function32 hw (e820_regs es di ebx) m = (r', m')" "\<not> bit (xflags r') 0" "rebx r' = 0"
    "\<forall>x. x \<notin> e820_buffer es di \<longrightarrow> ram m' x = ram m x"
    "e820_read es di m' = (unat s + 2 ^ 32 * unat xs, unat (e - s) + 2 ^ 32 * unat (xe - xs), unat t)" .
  then show "\<exists>m'. e820_walk (Suc n) hw es di ebx m =
      Some ([(unat s + 2 ^ 32 * unat xs, unat (e - s) + 2 ^ 32 * unat (xe - xs), unat t)], m') \<and>
      (\<forall>x. x \<notin> e820_buffer es di \<longrightarrow> ram m' x = ram m x)"
    by simp
qed

lemma e820_gives_more:
  fixes hw :: "'d hw"
  assumes "rtc_device hw reg CMOS_MEM" "cmos_ext f \<le> 0xfec00000"
    and "\<And>m :: 'd machine. e820_entry (e820_regs es di ebx) (of_nat (cmos_ext f)) (cmos_low f) (f 0x63) m =
      Some (ebx', set_e820_range es di s e xs xe t m)"
    and "ebx' \<noteq> 0" and rest: "e820_gives hw reg f es di n ebx' ys"
  shows "e820_gives hw reg f es di (Suc n) ebx
    ((unat s + 2 ^ 32 * unat xs, unat (e - s) + 2 ^ 32 * unat (xe - xs), unat t) # ys)"
  unfolding e820_gives_def
proof (intro allI impI)
  fix m assume "cmos_holds reg f m"
  from e820_call [OF assms(1-3) this] obtain r' m' where call:
    "int15_function32 hw (e820_regs es di ebx) m = (r', m')" "\<not> bit (xflags r') 0" "rebx r' = ebx'"
    "cmos_holds reg f m'" "\<forall>x. x \<notin> e820_buffer es di \<longrightarrow> ram m' x = ram m x"
    "e820_read es di m' = (unat s + 2 ^ 32 * unat xs, unat (e - s) + 2 ^ 32 * unat (xe - xs), unat t)" .
  obtain m'' where "e820_walk n hw es di ebx' m' = Some (ys, m'')"
    "\<forall>x. x \<notin> e820_buffer es di \<longrightarrow> ram m'' x = ram m' x"
    using rest call(4) by (auto simp: e820_gives_def)
  then show "\<exists>m'. e820_walk (Suc n) hw es di ebx m =
      Some ((unat s + 2 ^ 32 * unat xs, unat (e - s) + 2 ^ 32 * unat (xe - xs), unat t) # ys, m') \<and>
      (\<forall>x. x \<notin> e820_buffer es di \<longrightarrow> ram m' x = ram m x)"
    using call \<open>ebx' \<noteq> 0\<close> by simp
qed

lemma lo16_fields: "lo16 (rebx (e820_regs es di ebx)) = ucast ebx" "xes (e820_regs es di ebx) = es"
  "lo16 (redi (e820_regs es di ebx)) = di"
proof -
  have "ucast (ucast di :: u32) = di" by (rule bit_word_eqI) (simp add: bit_simps)
  then show "lo16 (redi (e820_regs es di ebx)) = di" by (simp add: lo16_def e820_regs_def)
qed (simp_all add: lo16_def e820_regs_def)

lemma entries:
  fixes m :: "'d machine" and es di :: u16 and ext low :: u32 and high :: u8
  defines "R \<equiv> set_e820_range es di :: u32 \<Rightarrow> u32 \<Rightarrow> u8 \<Rightarrow> u8 \<Rightarrow> u16 \<Rightarrow> 'd machine \<Rightarrow> 'd machine"
    and "E \<equiv> \<lambda>ebx. e820_entry (e820_regs es di ebx) ext low high m"
  shows "E 0 = Some (1, R 0 0x0009fc00 0 0 1 m)" "E 1 = Some (2, R 0x0009fc00 0x000a0000 0 0 2 m)"
    "E 2 = Some (3, R 0x000f0000 0x00100000 0 0 2 m)"
    "E 3 = Some (4, R 0x00100000 (ext - 0x10000) 0 0 1 m)"
    "E 4 = Some (5, R (ext - 0x10000) ext 0 0 3 m)"
    "E 5 = Some (6, R 0xfec00000 0xfec01000 0 0 2 m)" "E 6 = Some (7, R 0xfee00000 0xfee01000 0 0 2 m)"
    "E 7 = Some (if high \<noteq> 0 \<or> low \<noteq> 0 then 9 else 0, R 0xfffc0000 0 0 0 2 m)"
    "high \<noteq> 0 \<or> low \<noteq> 0 \<Longrightarrow> E 9 = Some (0, R 0 low 1 (high + 1) 1 m)"
  by (simp_all add: E_def R_def e820_entry_def lo16_fields ACPI_DATA_SIZE_def Let_def)

lemma ext_words:
  assumes "cmos_ext f \<le> 0xfec00000" "0x110000 \<le> cmos_ext f"
  shows "unat (of_nat (cmos_ext f) - 0x10000 :: u32) = cmos_ext f - 0x10000"
    "unat (of_nat (cmos_ext f) - 0x110000 :: u32) = cmos_ext f - 0x110000"
    "of_nat (cmos_ext f) - (of_nat (cmos_ext f) - 0x10000 :: u32) = 0x10000"
proof -
  have u: "of_nat (cmos_ext f) - 0x10000 = (of_nat (cmos_ext f - 0x10000) :: u32)"
    "of_nat (cmos_ext f) - 0x110000 = (of_nat (cmos_ext f - 0x110000) :: u32)"
    using assms by (simp_all add: of_nat_diff)
  show "unat (of_nat (cmos_ext f) - 0x10000 :: u32) = cmos_ext f - 0x10000"
    unfolding u(1) by (rule unat_small) (use assms in linarith)
  show "unat (of_nat (cmos_ext f) - 0x110000 :: u32) = cmos_ext f - 0x110000"
    unfolding u(2) by (rule unat_small) (use assms in linarith)
qed simp

lemma e820_gives_map:
  fixes hw :: "'d hw"
  assumes dev: "rtc_device hw reg CMOS_MEM" and ext: "cmos_ext f \<le> 0xfec00000" "0x110000 \<le> cmos_ext f"
  shows "e820_gives hw reg f es di 9 0 (e820_map (cmos_ext f) (cmos_extra f))"
proof -
  note more = e820_gives_more [where es = es and di = di, OF dev ext(1)]
  note last = e820_gives_last [where es = es and di = di, OF dev ext(1)]
  note entry = entries [where es = es and di = di and low = "cmos_low f" and high = "f 0x63" and
      ext = "of_nat (cmos_ext f)" and 'd = 'd]
  have low7: "e820_gives hw reg f es di (Suc (Suc 0)) 7 ((0xfffc0000, 0x40000, 2) #
      (if cmos_extra f = 0 then [] else [(0x100000000, cmos_extra f, 1)]))"
  proof (cases "cmos_extra f = 0")
    case True
    then have "e820_entry (e820_regs es di 7) (of_nat (cmos_ext f)) (cmos_low f) (f 0x63) m =
        Some (0, set_e820_range es di 0xfffc0000 0 0 0 2 m)" for m :: "'d machine"
      using entry(8) cmos_low_value(2) [of f] by simp
    from last [where n = "Suc 0", OF this] True show ?thesis by simp
  next
    case False
    then have x: "f 0x63 \<noteq> 0 \<or> cmos_low f \<noteq> 0" using cmos_low_value(2) [of f] by simp
    then have "e820_entry (e820_regs es di 7) (of_nat (cmos_ext f)) (cmos_low f) (f 0x63) m =
        Some (9, set_e820_range es di 0xfffc0000 0 0 0 2 m)" for m :: "'d machine"
      using entry(8) by simp
    note e7 = more [OF this]
    have "e820_gives hw reg f es di (Suc 0) 9 [(0x100000000, cmos_extra f, 1)]"
      using last [where n = 0, OF entry(9) [OF x]] cmos_low_value(1) [of f] by simp
    from e7 [OF _ this] False show ?thesis by simp
  qed
  have nine: "9 = Suc (Suc (Suc (Suc (Suc (Suc (Suc (Suc (Suc 0))))))))" by simp
  show ?thesis
    unfolding nine
    using more [OF entry(1) _ more [OF entry(2) _ more [OF entry(3) _ more [OF entry(4) _
      more [OF entry(5) _ more [OF entry(6) _ more [OF entry(7) _ low7]]]]]]]
    by (simp add: e820_map_def e820_low_def ext_words [OF ext] unat_small ext(1) order.strict_trans1)
qed

text \<open>
  C11: The memory map is right. With memory below 4 GB ending at \<open>ext\<close>, which the host's firmware
  setup keeps between 1 MB + 64 KB and the I/O APIC, and \<open>extra\<close> bytes above 4 GB, a caller that starts
  with EBX = 0 and continues as long as it is told to gets, after at most nine calls, exactly the ranges of
  \<open>e820_map\<close>; they ascend without overlapping; usable memory (type 1) is what the host provides less
  the BIOS data and video area and the 64 KB of ACPI tables at the end; and nothing but the caller's
  20-byte buffer is written.
\<close>

theorem e820_memory_map:
  assumes "rtc_device hw reg CMOS_MEM" "cmos_holds reg f m"
    and "0x110000 \<le> cmos_ext f" "cmos_ext f \<le> 0xfec00000"
  shows "\<exists>m'. e820_walk 9 hw es di 0 m = Some (e820_map (cmos_ext f) (cmos_extra f), m') \<and>
      (\<forall>x. x \<notin> e820_buffer es di \<longrightarrow> ram m' x = ram m x) \<and>
      sorted_wrt (\<lambda>x y. fst x + fst (snd x) \<le> fst y) (e820_map (cmos_ext f) (cmos_extra f)) \<and>
      (\<Union>x \<in> set (e820_map (cmos_ext f) (cmos_extra f)). if snd (snd x) = 1 then range_set x else {}) =
        {0..<0x9fc00} \<union> {0x100000..<cmos_ext f - 0x10000} \<union> {0x100000000..<0x100000000 + cmos_extra f}"
proof -
  have "e820_gives hw reg f es di 9 0 (e820_map (cmos_ext f) (cmos_extra f))"
    by (rule e820_gives_map) (use assms in simp_all)
  moreover have "sorted_wrt (\<lambda>x y. fst x + fst (snd x) \<le> fst y) (e820_map (cmos_ext f) (cmos_extra f))"
    using assms(3,4) by (auto simp: e820_map_def e820_low_def)
  moreover have "(\<Union>x \<in> set (e820_map (cmos_ext f) (cmos_extra f)). if snd (snd x) = 1 then range_set x else {}) =
      {0..<0x9fc00} \<union> {0x100000..<cmos_ext f - 0x10000} \<union> {0x100000000..<0x100000000 + cmos_extra f}"
    using assms(3,4) by (auto simp: e820_map_def e820_low_def range_set_def)
  ultimately show ?thesis using assms(2) unfolding e820_gives_def by blast
qed

lemma e820_memory_map_witness:
  "\<exists>m'. e820_walk 9 rtc_hw 0x9000 0x100 0
      \<lparr>ram = (\<lambda>_. 0), dev = (0, (\<lambda>_. 0)(0x35 := 0x10)), tty = [], blog = [], iflag = False\<rparr> =
    Some (e820_low 0x11000000, m')"
proof -
  let ?f = "(\<lambda>_. 0)(0x35 := 0x10) :: u8 \<Rightarrow> u8"
  let ?m = "\<lparr>ram = (\<lambda>_. 0), dev = (0 :: u8, ?f), tty = [], blog = [], iflag = False\<rparr>"
  have ext: "cmos_ext ?f = 0x11000000" by (simp add: cmos_ext_def mk16_def)
  have "cmos_extra ?f = 0" by (simp add: cmos_extra_def mk16_def)
  moreover have "cmos_holds snd ?f ?m" by (simp add: cmos_holds_def)
  ultimately show ?thesis
    using e820_memory_map [OF rtc_hw_device, of ?f ?m "0x9000" "0x100"] ext
    by (auto simp: e820_map_def)
qed

end
