(* ===== verification/BlockMove.thy ===== *)
theory BlockMove
  imports SystemServices
begin

text \<open>
  Moving a block of extended memory: INT 15h, AH=87h (\<open>int15_blkmove\<close> in
  \<open>Devices/PC/BIOS/system.c\<close>), with the inline assembly it is built from, in the 80386
  configuration. The assembly switches to protected mode with the caller's descriptor table, copies
  with \<open>rep movsw\<close>, and switches back. Of the processor the model has what this needs: the fields
  of a segment descriptor, the limit check of a word access and the linear address. A segment that is
  not a present, expand-up data segment, and an access beyond its limit, are exceptions for the
  table at \<open>pmode_IDT\<close>; the result is then \<open>None\<close>.
\<close>

section \<open>Segments\<close>

record segment =
  sg_base :: u32
  sg_limit :: nat
  sg_access :: u8

definition descriptor :: "u32 \<Rightarrow> (u32 \<Rightarrow> u8) \<Rightarrow> segment" where
  \<comment> \<open>the 8 bytes at \<open>a\<close>, as the 80386 reads them\<close>
  "descriptor a f =
     (let limit = unat (f a) + 256 * unat (f (a + 1)) + 65536 * unat (f (a + 6) AND 0x0f)
      in \<lparr>sg_base = ucast (f (a + 2)) OR push_bit 8 (ucast (f (a + 3))) OR push_bit 16 (ucast (f (a + 4)))
                   OR push_bit 24 (ucast (f (a + 7))),
          sg_limit = (if bit (f (a + 6)) 7 then 4096 * limit + 4095 else limit),
          sg_access = f (a + 5)\<rparr>)"

definition data_segment :: "segment \<Rightarrow> bool" where
  "data_segment s \<longleftrightarrow> sg_access s AND 0x9c = 0x90"

definition writable :: "segment \<Rightarrow> bool" where
  "writable s \<longleftrightarrow> bit (sg_access s) 1"

definition word_fits :: "segment \<Rightarrow> u16 \<Rightarrow> bool" where
  "word_fits s off \<longleftrightarrow> unat off + 1 \<le> sg_limit s"

section \<open>The inline assembly\<close>

definition pm_stack_save :: "u16 \<Rightarrow> u16 \<Rightarrow> 'd machine \<Rightarrow> 'd machine" where
  \<comment> \<open>the stack pointer after two pushes, and the stack segment; what is pushed is popped again\<close>
  "pm_stack_save ss sp m = write_word 0 0x469 ss (write_word 0 0x467 sp m)"

definition gdt_base :: "u16 \<Rightarrow> u16 \<Rightarrow> 'd machine \<Rightarrow> u32" where
  \<comment> \<open>\<open>lgdt es:[si+8]\<close>, 16-bit operand size: a 24-bit base\<close>
  "gdt_base es si m =
     ucast (read_word es (si + 8 + 2) m) OR push_bit 16 (ucast (read_byte es (si + 8 + 4) m))"

text \<open>\<open>rep movsw\<close>, from DS:SI to ES:DI.\<close>

fun pm_copy :: "segment \<Rightarrow> segment \<Rightarrow> nat \<Rightarrow> u16 \<Rightarrow> u16 \<Rightarrow> (u32 \<Rightarrow> u8) \<Rightarrow> (u32 \<Rightarrow> u8) option" where
  "pm_copy ds es 0 si di f = Some f"
| "pm_copy ds es (Suc cx) si di f =
     (if word_fits ds si \<and> word_fits es di then
        let s = sg_base ds + ucast si; d = sg_base es + ucast di
        in pm_copy ds es cx (si + 2) (di + 2) (f(d := f s, d + 1 := f (s + 1)))
      else None)"

definition pm_block :: "u16 \<Rightarrow> u16 \<Rightarrow> u16 \<Rightarrow> 'd machine \<Rightarrow> 'd machine option" where
  \<comment> \<open>\<open>pm_enter(); pm_copy(); pm_exit();\<close> with DS = 10h and ES = 18h\<close>
  "pm_block cx es si m =
     (let gdt = gdt_base es si m;
          src = descriptor (gdt + 0x10) (ram m); dst = descriptor (gdt + 0x18) (ram m)
      in if data_segment src \<and> data_segment dst \<and> writable dst
         then map_option (\<lambda>f. m\<lparr>ram := f\<rparr>) (pm_copy src dst (unat cx) 0 0 (ram m))
         else None)"

section \<open>The service\<close>

definition write_descriptor :: "u16 \<Rightarrow> u16 \<Rightarrow> u16 \<Rightarrow> u16 \<Rightarrow> u8 \<Rightarrow> u8 \<Rightarrow> 'd machine \<Rightarrow> 'd machine" where
  \<comment> \<open>the five stores the code makes for each of its descriptors\<close>
  "write_descriptor es off limit base15_00 base23_16 access m =
     (let m = write_word es (off + 0) limit m;
          m = write_word es (off + 2) base15_00 m;
          m = write_byte es (off + 4) base23_16 m;
          m = write_byte es (off + 5) access m
      in write_word es (off + 6) 0x0000 m)"

definition blkmove_tables :: "u16 \<Rightarrow> u16 \<Rightarrow> u16 \<Rightarrow> 'd machine \<Rightarrow> 'd machine" where
  "blkmove_tables ss es si m =
     (let base15_00 = push_bit 4 es + si;
          base23_16 = ucast (drop_bit 12 es) :: u8;
          base23_16 = (if base15_00 < push_bit 4 es then base23_16 + 1 else base23_16);
          m = write_descriptor es (si + 0x08) 47 base15_00 base23_16 0x93 m;
          m = write_descriptor es (si + 0x20) 0xffff 0x0000 0x0f 0x9b m
      in write_descriptor es (si + 0x28) 0xffff (push_bit 4 ss) (ucast (drop_bit 12 ss)) 0x93 m)"

definition int15_blkmove ::
  "'d hw \<Rightarrow> u16 \<Rightarrow> u16 \<Rightarrow> regs \<Rightarrow> 'd machine \<Rightarrow> (regs \<times> 'd machine) option" where
  \<comment> \<open>\<open>ss\<close>, \<open>sp\<close>: the stack registers\<close>
  "int15_blkmove hw ss sp r m =
     (let m = int_disable m;
          (_, m) = set_enable_a20 hw True m;
          m = blkmove_tables ss (res r) (rsi r) m;
          m = pm_stack_save ss sp m
      in case pm_block (rcx r) (res r) (rsi r) m of
           None \<Rightarrow> None
         | Some m \<Rightarrow>
             let (_, m) = set_enable_a20 hw False m
             in Some (clear_cf (set_ah 0 r), int_enable m))"

section \<open>The copy\<close>

text \<open>The table lies where the processor looks for it.\<close>

lemma write_descriptor_byte:
  "read_byte es a (write_descriptor es off limit lo hi acc m) =
     (if a = off + 7 then 0 else if a = off + 6 then 0 else if a = off + 5 then acc
      else if a = off + 4 then hi else if a = off + 3 then hi8 lo else if a = off + 2 then lo8 lo
      else if a = off + 1 then hi8 limit else if a = off then lo8 limit else read_byte es a m)"
  by (simp add: write_descriptor_def Let_def read_byte_write_word_seg add.assoc lo8_def hi8_def)

definition copied :: "u32 \<Rightarrow> u32 \<Rightarrow> nat \<Rightarrow> (u32 \<Rightarrow> u8) \<Rightarrow> u32 \<Rightarrow> u8" where
  "copied d s n f x = (if unat (x - d) < n then f (s + (x - d)) else f x)"

definition apart :: "u32 \<Rightarrow> nat \<Rightarrow> u32 \<Rightarrow> nat \<Rightarrow> bool" where
  "apart a n b k \<longleftrightarrow> (\<forall>x. unat (x - a) < n \<longrightarrow> \<not> unat (x - b) < k)"

lemma copied_step:
  assumes n: "n \<le> 65536" and apart: "apart s (n + 2) d (n + 2)"
  shows "copied (d + 2) (s + 2) n (f(d := f s, d + 1 := f (s + 1))) = copied d s (n + 2) f"
proof
  fix x
  have src: "s + (x - d) \<noteq> d \<and> s + (x - d) \<noteq> d + 1" if "unat (x - d) < n + 2"
  proof -
    have "unat (s + (x - d) - s) < n + 2" using that by simp
    then have "\<not> unat (s + (x - d) - d) < n + 2" using apart unfolding apart_def by blast
    then show ?thesis by auto
  qed
  consider "x = d" | "x = d + 1" | "2 \<le> unat (x - d)"
  proof -
    have "unat (x - d) = 0 \<or> unat (x - d) = 1 \<or> 2 \<le> unat (x - d)" by linarith
    moreover have "unat (x - d) = 1 \<Longrightarrow> x - d = 1" using word_unat_eq_iff [of "x - d" 1] by simp
    ultimately show thesis using that by (metis add.commute diff_add_cancel diff_eq_eq eq_iff_diff_eq_0 unat_eq_0)
  qed
  then show "copied (d + 2) (s + 2) n (f(d := f s, d + 1 := f (s + 1))) x = copied d s (n + 2) f x"
  proof cases
    case 1
    then show ?thesis using n by (simp add: copied_def)
  next
    case 2
    have "unat (- 1 :: u32) = 4294967295" by (simp add: unsigned_minus_1_eq_mask mask_eq_exp_minus_1)
    then show ?thesis using n 2 by (simp add: copied_def add.commute)
  next
    case 3
    have "unat (x - (d + 2)) = unat (x - d) - 2"
      using 3 unat_sub [of 2 "x - d"] by (simp add: word_le_nat_alt diff_diff_eq)
    moreover have "x \<noteq> d" "x \<noteq> d + 1" using 3 by auto
    moreover have "s + 2 + (x - (d + 2)) = s + (x - d)" by simp
    ultimately show ?thesis using 3 src by (auto simp: copied_def)
  qed
qed

lemma apart_step: "apart s (n + 2) d (n + 2) \<Longrightarrow> apart (s + 2) n (d + 2) n"
proof -
  have up: "unat (x - a) < n + 2" if "unat (x - (a + 2)) < n" for x a :: u32
  proof -
    have "x - a = (x - (a + 2)) + 2" by simp
    then have "unat (x - a) = unat ((x - (a + 2)) + 2)" by (rule arg_cong)
    also have "\<dots> = (unat (x - (a + 2)) + 2) mod 4294967296" by (simp only: unat_word_ariths) simp
    also have "\<dots> \<le> unat (x - (a + 2)) + 2" by (rule mod_less_eq_dividend)
    finally show ?thesis using that by simp
  qed
  assume "apart s (n + 2) d (n + 2)"
  then show ?thesis using up unfolding apart_def by blast
qed

lemma pm_copy_copies:
  assumes "unat si + 2 * n \<le> 65536" "unat di + 2 * n \<le> 65536"
    and "unat si + 2 * n \<le> sg_limit ds + 1" "unat di + 2 * n \<le> sg_limit es + 1"
    and "apart (sg_base ds + ucast si) (2 * n) (sg_base es + ucast di) (2 * n)"
  shows "pm_copy ds es n si di f = Some (copied (sg_base es + ucast di) (sg_base ds + ucast si) (2 * n) f)"
  using assms
proof (induction n arbitrary: si di f)
  case 0
  then show ?case by (simp add: copied_def fun_eq_iff)
next
  case (Suc n)
  define d s where "d = sg_base es + ucast di" and "s = sg_base ds + ucast si"
  have fits: "word_fits ds si" "word_fits es di" using Suc.prems by (simp_all add: word_fits_def)
  have step: "copied (d + 2) (s + 2) (2 * n) (f(d := f s, d + 1 := f (s + 1))) = copied d s (2 * Suc n) f"
    using copied_step [of "2 * n" s d f] Suc.prems by (simp add: d_def s_def)
  show ?case
  proof (cases n)
    case 0
    then show ?thesis
      using fits step by (simp add: Let_def d_def [symmetric] s_def [symmetric] copied_def [of "d + 2"] fun_eq_iff)
  next
    case (Suc k)
    have next_off: "unat (o' + 2) = unat o' + 2" "ucast (o' + 2) = (ucast o' + 2 :: u32)"
      if "unat o' + 2 * Suc n \<le> 65536" for o' :: u16
    proof -
      show u: "unat (o' + 2) = unat o' + 2" using that Suc by (simp add: unat_word_ariths)
      show "ucast (o' + 2) = (ucast o' + 2 :: u32)"
        using u that Suc by (simp add: word_unat_eq_iff unat_word_ariths unsigned_ucast_eq take_bit_nat_eq_self)
    qed
    define f' where "f' = f(d := f s, d + 1 := f (s + 1))"
    have "apart (s + 2) (2 * n) (d + 2) (2 * n)"
      using apart_step [of s "2 * n" d] Suc.prems(5) by (simp add: d_def s_def)
    then have "pm_copy ds es n (si + 2) (di + 2) f' = Some (copied (d + 2) (s + 2) (2 * n) f')"
      using Suc.prems Suc.IH [of "si + 2" "di + 2" f']
      by (simp add: next_off add.assoc [symmetric] d_def [symmetric] s_def [symmetric])
    then show ?thesis
      using fits step by (simp add: Let_def d_def [symmetric] s_def [symmetric] f'_def)
  qed
qed

section \<open>The tables\<close>

definition blkmove_area :: "u16 \<Rightarrow> u16 \<Rightarrow> u32 set" where
  "blkmove_area es si =
     (\<lambda>k. lin es si + of_nat k) ` ({8..<16} \<union> {32..<48}) \<union> {0x467, 0x468, 0x469, 0x46a}"

lemma unat_gdt_base:
  fixes es si :: u16
  defines "b \<equiv> push_bit 4 es + si"
  shows "ucast b OR push_bit 16 (ucast (if b < push_bit 4 es then ucast (drop_bit 12 es) + 1
    else ucast (drop_bit 12 es) :: u8)) = lin es si"
proof -
  define h where "h = (if b < push_bit 4 es then ucast (drop_bit 12 es) + 1 else ucast (drop_bit 12 es) :: u8)"
  have bounds: "unat es < 65536" "unat si < 65536"
    using unsigned_less [of es, where 'a = nat] unsigned_less [of si, where 'a = nat] by simp_all
  have hi: "unat (ucast (drop_bit 12 es) :: u8) = unat es div 4096"
  proof -
    have "unat es div 4096 < 256" using bounds by auto
    then show ?thesis
      by (simp add: unsigned_ucast_eq unat_drop_bit_eq drop_bit_eq_div take_bit_nat_eq_self unat_div)
  qed
  have low: "unat (push_bit 4 es) = 16 * unat es mod 65536"
    by (simp add: push_bit_eq_mult unat_word_ariths mult.commute)
  have sum: "unat b = (16 * unat es mod 65536 + unat si) mod 65536"
    by (simp only: b_def unat_word_ariths low) simp
  define p where "p = 16 * unat es mod 65536"
  have split: "16 * unat es = 65536 * (unat es div 4096) + p"
  proof -
    have "16 * unat es div 65536 = unat es div 4096" using div_mult_mult1 [of 16 "unat es" 4096] by simp
    then show ?thesis using mult_div_mod_eq [of 65536 "16 * unat es"] by (simp add: p_def)
  qed
  have p: "p < 65536" by (simp add: p_def)
  have carry: "b < push_bit 4 es \<longleftrightarrow> 65536 \<le> p + unat si"
  proof -
    have "b < push_bit 4 es \<longleftrightarrow> (p + unat si) mod 65536 < p" by (simp add: word_less_nat_alt sum low p_def)
    also have "\<dots> \<longleftrightarrow> 65536 \<le> p + unat si" using p bounds(2) by (cases "p + unat si < 65536") (auto simp: le_mod_geq)
    finally show ?thesis .
  qed
  have "unat es div 4096 < 16" using bounds by auto
  then have h: "unat h = unat es div 4096 + of_bool (65536 \<le> p + unat si)"
    by (simp add: h_def carry unat_word_ariths hi)
  have "unat b + 65536 * unat h = 65536 * (unat es div 4096) + p + unat si"
    using p bounds(2) by (cases "p + unat si < 65536") (auto simp: sum h p_def [symmetric] le_mod_geq)
  then have "unat b + 65536 * unat h = unat (lin es si)" using split by (simp add: unat_lin)
  moreover have "unat (ucast b OR push_bit 16 (ucast h) :: u32) = unat b + 65536 * unat h"
  proof -
    have "ucast b AND push_bit 16 (ucast h) = (0 :: u32)"
      by (rule bit_word_eqI) (auto simp: bit_simps dest: bit_imp_le_length)
    then have "ucast b OR push_bit 16 (ucast h) = (ucast b + push_bit 16 (ucast h) :: u32)"
      by (simp add: disjunctive_add_eq_or)
    moreover have "unat (ucast b :: u32) = unat b" "unat (ucast h :: u32) = unat h"
      using unsigned_less [of b, where 'a = nat] unsigned_less [of h, where 'a = nat]
      by (simp_all add: unsigned_ucast_eq take_bit_nat_eq_self)
    ultimately show ?thesis
      using unsigned_less [of b, where 'a = nat] unsigned_less [of h, where 'a = nat]
      by (simp add: unat_word_ariths push_bit_eq_mult mult.commute)
  qed
  ultimately show ?thesis by (simp add: word_unat_eq_iff h_def [symmetric])
qed

lemma write_descriptor_ram:
  assumes "\<And>i. i < 8 \<Longrightarrow> x \<noteq> lin es (off + of_nat i)"
  shows "ram (write_descriptor es off limit lo hi acc m) x = ram m x"
  using assms [of 0] assms [of 1] assms [of 2] assms [of 3] assms [of 4] assms [of 5] assms [of 6] assms [of 7]
  by (simp add: write_descriptor_def Let_def write_word_def write_byte_def add.assoc)

lemma stack_save_ram:
  "x \<notin> {0x467, 0x468, 0x469, 0x46a} \<Longrightarrow> ram (pm_stack_save ss sp m) x = ram m x"
proof -
  assume "x \<notin> {0x467, 0x468, 0x469, 0x46a}"
  then have "x \<noteq> lin 0 0x467" "x \<noteq> lin 0 0x468" "x \<noteq> lin 0 0x469" "x \<noteq> lin 0 0x46a"
    by (simp_all add: lin_def)
  then show ?thesis by (simp add: pm_stack_save_def write_word_def write_byte_def)
qed

lemma setup_ram:
  assumes x: "x \<notin> blkmove_area es si" and si: "unat si + 48 \<le> 65536"
  shows "ram (pm_stack_save ss sp (blkmove_tables ss' es si m)) x = ram m x"
proof -
  have out: "x \<noteq> lin es (si + of_nat k)" if "k \<in> {8..<16} \<union> {32..<48}" for k
  proof -
    have "unat si + k < 65536" using that si by auto
    then have "lin es (si + of_nat k) = lin es si + of_nat k" by (rule lin_add)
    then show ?thesis using x that by (auto simp: blkmove_area_def)
  qed
  have "x \<noteq> lin es (si + 8 + of_nat i)" "x \<noteq> lin es (si + 0x20 + of_nat i)"
    "x \<noteq> lin es (si + 0x28 + of_nat i)" if "i < 8" for i
    using out [of "8 + i"] out [of "0x20 + i"] out [of "0x28 + i"] that by (simp_all add: add.assoc)
  then have "ram (blkmove_tables ss' es si m) x = ram m x"
    by (simp add: blkmove_tables_def Let_def write_descriptor_ram)
  moreover have "x \<notin> {0x467, 0x468, 0x469, 0x46a}" using x by (simp add: blkmove_area_def)
  ultimately show ?thesis by (simp add: stack_save_ram)
qed

lemma tables_gdt: "gdt_base es si (blkmove_tables ss es si m) = lin es si"
  using unat_gdt_base [of es si]
  by (simp add: gdt_base_def read_word_def blkmove_tables_def Let_def write_descriptor_byte add.assoc)

lemma table_apart:
  assumes "k < 48" "apart (lin es si) 48 0x467 4"
  shows "lin es si + of_nat k \<notin> {0x467, 0x468, 0x469, 0x46a}"
proof -
  have "unat (of_nat k :: u32) = k" using assms(1) by (simp add: unsigned_of_nat take_bit_nat_eq_self)
  then have "unat (lin es si + of_nat k - lin es si) < 48" using assms(1) by simp
  then have "\<not> unat (lin es si + of_nat k - 0x467) < 4" using assms(2) unfolding apart_def by blast
  then show ?thesis by auto
qed

lemma table_outside:
  assumes "k < 8 \<or> 16 \<le> k \<and> k < 32" "apart (lin es si) 48 0x467 4"
  shows "lin es si + of_nat k \<notin> blkmove_area es si"
proof -
  have k: "unat (of_nat j :: u32) = j" if "j < 48" for j
    using that by (simp add: unsigned_of_nat take_bit_nat_eq_self)
  have "lin es si + of_nat k \<notin> {0x467, 0x468, 0x469, 0x46a}"
    by (rule table_apart) (use assms in auto)
  moreover have "lin es si + of_nat k \<notin> (\<lambda>k. lin es si + of_nat k) ` ({8..<16} \<union> {32..<48})"
  proof
    assume "lin es si + of_nat k \<in> (\<lambda>k. lin es si + of_nat k) ` ({8..<16} \<union> {32..<48})"
    then obtain j where "of_nat k = (of_nat j :: u32)" "j \<in> {8..<16} \<union> {32..<48}" by auto
    then show False using k [of k] k [of j] assms(1) by auto
  qed
  ultimately show ?thesis by (simp only: blkmove_area_def Un_iff) simp
qed

lemma setup_gdt:
  assumes "unat si + 48 \<le> 65536" "apart (lin es si) 48 0x467 4"
  shows "gdt_base es si (pm_stack_save ss sp (blkmove_tables ss' es si m)) = lin es si"
proof -
  have "lin es (si + of_nat k) \<notin> {0x467, 0x468, 0x469, 0x46a}" if "k < 48" for k
    using table_apart [OF that assms(2)] lin_add [of si k es] that assms(1) by auto
  from this [of 10] this [of 11] this [of 12]
  have "gdt_base es si (pm_stack_save ss sp m') = gdt_base es si m'" for m' :: "'a machine"
    by (simp add: gdt_base_def read_word_def read_byte_def stack_save_ram add.assoc)
  then show ?thesis by (simp add: tables_gdt)
qed

lemma descriptor_cong:
  assumes "\<And>k. k < 8 \<Longrightarrow> f (a + of_nat k) = g (a + of_nat k)"
  shows "descriptor a f = descriptor a g"
  using assms [of 0] assms [of 1] assms [of 2] assms [of 3] assms [of 4] assms [of 5] assms [of 6] assms [of 7]
  by (simp add: descriptor_def)

lemma setup_descriptor:
  assumes "unat si + 48 \<le> 65536" "apart (lin es si) 48 0x467 4" "j = 16 \<or> j = 24"
  shows "descriptor (lin es si + of_nat j) (ram (pm_stack_save ss sp (blkmove_tables ss' es si m))) =
    descriptor (lin es si + of_nat j) (ram m)"
proof (rule descriptor_cong)
  fix k :: nat assume "k < 8"
  then have "lin es si + of_nat (j + k) \<notin> blkmove_area es si"
    by (intro table_outside) (use assms in auto)
  then have "lin es si + of_nat j + of_nat k \<notin> blkmove_area es si" by (simp add: add.assoc)
  then show "ram (pm_stack_save ss sp (blkmove_tables ss' es si m)) (lin es si + of_nat j + of_nat k) =
      ram m (lin es si + of_nat j + of_nat k)"
    using assms(1) by (rule setup_ram)
qed


text \<open>A table at 2000:0000 that moves from 1 MB to 2 MB, and a byte to move.\<close>

definition move_ram :: "u32 \<Rightarrow> u8" where
  "move_ram = (\<lambda>_. 0)(0x20010 := 0xff, 0x20011 := 0xff, 0x20014 := 0x10, 0x20015 := 0x93,
     0x20018 := 0xff, 0x20019 := 0xff, 0x2001c := 0x20, 0x2001d := 0x93, 0x100003 := 0xab)"

definition move_regs :: regs where
  "move_regs = \<lparr>rax = 0x8700, rbx = 0, rcx = 2, rdx = 0, rsi = 0, rdi = 0, rsp = 0, rds = 0,
     res = 0x2000, flags = 1, ifl = 0\<rparr>"

lemma move_segments:
  "descriptor 0x20010 move_ram = \<lparr>sg_base = 0x100000, sg_limit = 0xffff, sg_access = 0x93\<rparr>"
  "descriptor 0x20018 move_ram = \<lparr>sg_base = 0x200000, sg_limit = 0xffff, sg_access = 0x93\<rparr>"
  by (simp_all add: descriptor_def move_ram_def push_bit_eq_mult)

lemma apartI:
  assumes "unat a + n \<le> unat b" "unat b + k \<le> 4294967296"
  shows "apart a n b k"
  unfolding apart_def
proof (intro allI impI notI)
  fix x assume x: "unat (x - a) < n" "unat (x - b) < k"
  have "unat x = unat ((x - a) + a)" "unat x = unat ((x - b) + b)" by simp_all
  then have "unat x = unat (x - a) + unat a" "unat x = unat (x - b) + unat b"
    using x assms by (simp_all only: unat_word_ariths) (auto simp: mod_less)
  then show False using x assms by linarith
qed

lemma apart_sym: "apart a n b k \<Longrightarrow> apart b k a n"
  by (auto simp: apart_def)

lemma below_region: "unat x < unat a \<Longrightarrow> unat a + n \<le> 4294967296 \<Longrightarrow> \<not> unat (x - a) < n" for x a :: u32
proof
  assume x: "unat x < unat a" "unat a + n \<le> 4294967296" "unat (x - a) < n"
  have "unat x = unat ((x - a) + a)" by simp
  also have "\<dots> = unat (x - a) + unat a" using x(2,3) by (simp only: unat_word_ariths) (simp add: mod_less)
  finally show False using x(1) by simp
qed


end
