(* ===== verification/BiosPrint.thy ===== *)
theory BiosPrint
  imports Machine "HOL-Library.Signed_Division" "HOL-Library.Monad_Syntax"
begin

text \<open>
  Formatted output of the PC BIOS (\<open>Devices/PC/BIOS/print.c\<close>): the character sink \<open>send\<close> with its
  three channels (debug port, info port, screen), the recursive decimal printers \<open>put_int\<close>,
  \<open>put_uint\<close> and \<open>put_luint\<close>, \<open>put_str\<close>, and the interpreter \<open>bios_printf\<close> for format strings,
  with the variable arguments as the stream of words on the stack.
  A format string is the list of its characters before the terminating NUL. The lemmas relate the
  decimal printers to a reference rendering of numbers; the properties state when the output is
  right, and two inputs on which it is not.
\<close>

section \<open>Channels\<close>

definition BIOS_PRINTF_HALT :: u16 where "BIOS_PRINTF_HALT = 1"
definition BIOS_PRINTF_SCREEN :: u16 where "BIOS_PRINTF_SCREEN = 2"
definition BIOS_PRINTF_INFO :: u16 where "BIOS_PRINTF_INFO = 4"
definition BIOS_PRINTF_DEBUG :: u16 where "BIOS_PRINTF_DEBUG = 8"
definition BIOS_PRINTF_DEBHALT :: u16 where
  "BIOS_PRINTF_DEBHALT = BIOS_PRINTF_SCREEN OR BIOS_PRINTF_INFO OR BIOS_PRINTF_HALT"

lemmas printf_actions =
  BIOS_PRINTF_HALT_def BIOS_PRINTF_SCREEN_def BIOS_PRINTF_INFO_def BIOS_PRINTF_DEBUG_def
  BIOS_PRINTF_DEBHALT_def

definition send :: "'d hw \<Rightarrow> u16 \<Rightarrow> u8 \<Rightarrow> 'd machine \<Rightarrow> 'd machine" where
  "send hw action c m =
     (let m = (if action AND BIOS_PRINTF_DEBUG \<noteq> 0 then outb hw 0x403 c m else m);
          m = (if action AND BIOS_PRINTF_INFO \<noteq> 0 then outb hw 0x504 c m else m)
      in if action AND BIOS_PRINTF_SCREEN \<noteq> 0
         then wrch c (if c = 10 then wrch 13 m else m) else m)"

definition sends :: "'d hw \<Rightarrow> u16 \<Rightarrow> u8 list \<Rightarrow> 'd machine \<Rightarrow> 'd machine" where
  "sends hw action cs m = foldl (\<lambda>m c. send hw action c m) m cs"

definition bytes :: "string \<Rightarrow> u8 list" where
  "bytes s = map of_char s"

section \<open>Decimal printers\<close>

text \<open>\<open>while (--width > 0) send(action, ' ');\<close> on a \<open>short\<close>.\<close>

function put_pad :: "'d hw \<Rightarrow> u16 \<Rightarrow> u16 \<Rightarrow> 'd machine \<Rightarrow> 'd machine" where
  "put_pad hw action width m =
     (if 0 < sint (width - 1) then put_pad hw action (width - 1) (send hw action 32 m) else m)"
  by pat_completeness auto

definition put_end :: "'d hw \<Rightarrow> u16 \<Rightarrow> u16 \<Rightarrow> bool \<Rightarrow> 'd machine \<Rightarrow> 'd machine" where
  \<comment> \<open>the common \<open>else\<close> branch of the printers: padding, then the sign\<close>
  "put_end hw action width neg m =
     (let m = put_pad hw action width m in if neg then send hw action 45 m else m)"

definition short_div10 :: "u16 \<Rightarrow> u16" where
  \<comment> \<open>C division of a \<open>short\<close>: truncation towards 0\<close>
  "short_div10 v = word_of_int (sint v sdiv 10)"

function put_int :: "'d hw \<Rightarrow> u16 \<Rightarrow> u16 \<Rightarrow> u16 \<Rightarrow> bool \<Rightarrow> 'd machine \<Rightarrow> 'd machine" where
  "put_int hw action val width neg m =
     (let nval = short_div10 val;
          m = (if nval \<noteq> 0 then put_int hw action nval (width - 1) neg m
               else put_end hw action width neg m)
      in send hw action (ucast (val - nval * 10 + 48)) m)"
  by pat_completeness auto

function put_uint :: "'d hw \<Rightarrow> u16 \<Rightarrow> u16 \<Rightarrow> u16 \<Rightarrow> bool \<Rightarrow> 'd machine \<Rightarrow> 'd machine" where
  "put_uint hw action val width neg m =
     (let nval = val div 10;
          m = (if nval \<noteq> 0 then put_uint hw action nval (width - 1) neg m
               else put_end hw action width neg m)
      in send hw action (ucast (val - nval * 10 + 48)) m)"
  by pat_completeness auto

function put_luint :: "'d hw \<Rightarrow> u16 \<Rightarrow> u32 \<Rightarrow> u16 \<Rightarrow> bool \<Rightarrow> 'd machine \<Rightarrow> 'd machine" where
  "put_luint hw action val width neg m =
     (let nval = val div 10;
          m = (if nval \<noteq> 0 then put_luint hw action nval (width - 1) neg m
               else put_end hw action width neg m)
      in send hw action (ucast (val - nval * 10 + 48)) m)"
  by pat_completeness auto

subsection \<open>Termination\<close>

lemma unat_pred_less: "w \<noteq> 0 \<Longrightarrow> unat (w - 1) < unat w" for w :: "'a :: len word"
  by (simp add: unat_minus_one unat_gt_0)

lemma short_pred_decreases:
  fixes w :: u16
  assumes "0 < sint (w - 1)"
  shows "unat (w - 2) < unat (w - 1)"
proof -
  have "w - 1 \<noteq> 0" using assms by auto
  then have "unat (w - 1 - 1) < unat (w - 1)" by (rule unat_pred_less)
  then show ?thesis by (simp add: diff_diff_eq)
qed

termination put_pad
  by (relation "measure (\<lambda>(_, _, w, _). unat (w - 1))") (auto simp: short_pred_decreases)

lemma sdiv10_abs: "\<bar>x sdiv 10\<bar> = \<bar>x\<bar> div 10" for x :: int
  by (auto simp: signed_divide_int_def sgn_if abs_mult)

lemma sint_short_div10: "sint (short_div10 v) = sint v sdiv 10"
proof -
  have "- (2 ^ 15) \<le> sint v" "sint v < 2 ^ 15"
    using sint_ge [of v] sint_lt [of v] by simp_all
  then have "- (2 ^ 15) \<le> sint v sdiv 10 \<and> sint v sdiv 10 < 2 ^ 15"
    using sdiv10_abs [of "sint v"] by linarith
  then show ?thesis
    by (simp add: short_div10_def sint_sbintrunc' signed_take_bit_int_eq_self)
qed

lemma short_div10_decreases:
  assumes "short_div10 v \<noteq> 0"
  shows "\<bar>sint (short_div10 v)\<bar> < \<bar>sint v\<bar>" and "sint v \<noteq> 0"
proof -
  have "sint (short_div10 v) \<noteq> sint (0 :: u16)"
    using assms signed_word_eqI by blast
  then have nz: "sint v sdiv 10 \<noteq> 0" by (simp add: sint_short_div10)
  show "\<bar>sint (short_div10 v)\<bar> < \<bar>sint v\<bar>"
    using sdiv10_abs [of "sint v"] nz unfolding sint_short_div10 by linarith
  show "sint v \<noteq> 0" using nz by auto
qed

termination put_int
  by (relation "measure (\<lambda>(_, _, v, _). nat \<bar>sint v\<bar>)") (auto simp: short_div10_decreases)

lemma div10_less: "0 < unat v \<Longrightarrow> unat v div 10 < unat v" for v :: "'a :: len word"
  by simp

termination put_uint
  by (relation "measure (\<lambda>(_, _, v, _). unat v)") (auto simp: unat_div unat_gt_0 intro!: div10_less)

termination put_luint
  by (relation "measure (\<lambda>(_, _, v, _). unat v)") (auto simp: unat_div unat_gt_0 intro!: div10_less)

declare put_pad.simps [simp del] put_int.simps [simp del] put_uint.simps [simp del]
  put_luint.simps [simp del]

subsection \<open>Reference rendering\<close>

fun dec :: "nat \<Rightarrow> u8 list" where
  "dec n = (if n < 10 then [] else dec (n div 10)) @ [of_nat (n mod 10 + 48)]"

declare dec.simps [simp del]

definition undec :: "u8 list \<Rightarrow> nat" where
  "undec cs = foldl (\<lambda>n c. 10 * n + (unat c - 48)) 0 cs"

definition dec_field :: "int \<Rightarrow> bool \<Rightarrow> nat \<Rightarrow> u8 list" where
  "dec_field w neg n =
     replicate (nat (w - int (length (dec n)))) 32 @ (if neg then [45] else []) @ dec n"

lemma unat_digit: "n < 10 \<Longrightarrow> unat (of_nat (n + 48) :: u8) = n + 48"
  by (simp add: unat_of_nat take_bit_eq_mod del: of_nat_add)

lemma undec_dec: "undec (dec n) = n"
proof (induction n rule: dec.induct)
  case (1 n)
  have "unat (of_nat (n mod 10 + 48) :: u8) = n mod 10 + 48"
    by (rule unat_digit) simp
  then show ?case
    using 1 by (subst dec.simps) (auto simp: undec_def split: if_splits)
qed

lemma dec_digits: "c \<in> set (dec n) \<Longrightarrow> 48 \<le> unat c \<and> unat c \<le> 57"
proof (induction n rule: dec.induct)
  case (1 n)
  have "unat (of_nat (n mod 10 + 48) :: u8) = n mod 10 + 48"
    by (rule unat_digit) simp
  then show ?case
    using 1 by (subst (asm) (2) dec.simps) (auto split: if_splits)
qed

lemma length_dec_pos: "0 < length (dec n)"
  by (subst dec.simps) simp

lemma dec_field_step:
  "10 \<le> n \<Longrightarrow> dec_field w neg n = dec_field (w - 1) neg (n div 10) @ [of_nat (n mod 10 + 48)]"
  by (simp add: dec_field_def dec.simps [of n])

lemma dec_field_digit:
  "n < 10 \<Longrightarrow>
   dec_field w neg n = replicate (nat (w - 1)) 32 @ (if neg then [45] else []) @ [of_nat (n + 48)]"
  by (simp add: dec_field_def dec.simps [of n])

lemma sends_append [simp]: "sends hw a (cs @ ds) m = sends hw a ds (sends hw a cs m)"
  by (simp add: sends_def)

lemma sends_simps [simp]:
  "sends hw a [] m = m" "sends hw a (c # cs) m = sends hw a cs (send hw a c m)"
  by (simp_all add: sends_def)

lemma sint_pred:
  fixes w :: u16
  assumes "- (2 ^ 15) < sint w"
  shows "sint (w - 1) = sint w - 1"
  using assms sint_lt [of w]
  by (simp add: sint_word_ariths signed_take_bit_int_eq_self)

lemma put_pad_eq:
  "- (2 ^ 15) < sint w \<Longrightarrow> put_pad hw a w m = sends hw a (replicate (nat (sint w - 1)) 32) m"
proof (induction hw a w m rule: put_pad.induct)
  case (1 hw a w m)
  have p: "sint (w - 1) = sint w - 1" using 1(2) by (rule sint_pred)
  show ?case
  proof (cases "0 < sint (w - 1)")
    case True
    have "nat (sint w - 1) = Suc (nat (sint w - 2))" using True p by simp
    then show ?thesis
      using 1(1) [OF True] True p by (subst put_pad.simps) simp
  next
    case False
    then show ?thesis using p by (subst put_pad.simps) simp
  qed
qed

lemma put_end_eq:
  "- (2 ^ 15) < sint w \<Longrightarrow>
   put_end hw a w neg m = sends hw a (replicate (nat (sint w - 1)) 32 @ (if neg then [45] else [])) m"
  by (simp add: put_end_def put_pad_eq)

text \<open>A field is printed for any width that leaves room for the digits' decrements.\<close>

lemma word_digit:
  fixes v :: "'a :: len word"
  assumes "unat (v mod 10 + 48) = unat v mod 10 + 48"
  shows "ucast (v - v div 10 * 10 + 48) = (of_nat (unat v mod 10 + 48) :: u8)"
proof -
  have "ucast (v mod 10 + 48) = (of_nat (unat (v mod 10 + 48)) :: u8)"
    by (simp only: of_nat_unat)
  then show ?thesis by (simp add: assms minus_div_mult_eq_mod)
qed

lemma short_digit: "ucast (v - v div 10 * 10 + 48) = (of_nat (unat v mod 10 + 48) :: u8)" for v :: u16
  by (rule word_digit, subst unat_add_lem [THEN iffD1]) (simp_all add: unat_mod)

lemma long_digit: "ucast (v - v div 10 * 10 + 48) = (of_nat (unat v mod 10 + 48) :: u8)" for v :: u32
  by (rule word_digit, subst unat_add_lem [THEN iffD1]) (simp_all add: unat_mod)

lemma short_div10_zero: "v div 10 = 0 \<longleftrightarrow> unat v < 10" for v :: u16
  by (simp add: unat_eq_zero [symmetric] unat_div div_eq_0_iff del: unat_eq_0)

lemma long_div10_zero: "v div 10 = 0 \<longleftrightarrow> unat v < 10" for v :: u32
  by (simp add: unat_eq_zero [symmetric] unat_div div_eq_0_iff del: unat_eq_0)

definition width_ok :: "u16 \<Rightarrow> nat \<Rightarrow> bool" where
  "width_ok w n \<longleftrightarrow> - 32000 + int (length (dec n)) \<le> sint w"

lemma width_ok_sint: "width_ok w n \<Longrightarrow> - (2 ^ 15) < sint w \<and> sint (w - 1) = sint w - 1"
  by (auto simp: width_ok_def intro!: sint_pred)

lemma width_ok_step: "width_ok w n \<Longrightarrow> 10 \<le> n \<Longrightarrow> width_ok (w - 1) (n div 10)"
  using width_ok_sint [of w n] by (simp add: width_ok_def dec.simps [of n])

lemma put_end_digit:
  "width_ok w n \<Longrightarrow> n < 10 \<Longrightarrow>
   send hw a (of_nat (n + 48)) (put_end hw a w neg m) = sends hw a (dec_field (sint w) neg n) m"
  using width_ok_sint [of w n] by (simp add: put_end_eq dec_field_digit del: of_nat_add)

lemma put_uint_eq:
  "width_ok w (unat v) \<Longrightarrow>
   put_uint hw a v w neg m = sends hw a (dec_field (sint w) neg (unat v)) m"
proof (induction hw a v w neg m rule: put_uint.induct)
  case (1 hw a v w neg m)
  show ?case
  proof (cases "v div 10 = 0")
    case True
    then show ?thesis
      using put_end_digit [OF 1(2)]
      by (subst put_uint.simps) (simp add: short_div10_zero short_digit del: of_nat_add)
  next
    case False
    then have n: "10 \<le> unat v" by (simp add: short_div10_zero)
    have "put_uint hw a (v div 10) (w - 1) neg m =
        sends hw a (dec_field (sint w - 1) neg (unat v div 10)) m"
      using 1(1) [OF refl False] width_ok_step [OF 1(2) n] width_ok_sint [OF 1(2)]
      by (simp add: unat_div)
    then show ?thesis
      using False by (subst put_uint.simps) (simp add: short_digit dec_field_step [OF n] del: of_nat_add)
  qed
qed

lemma put_luint_eq:
  "width_ok w (unat v) \<Longrightarrow>
   put_luint hw a v w neg m = sends hw a (dec_field (sint w) neg (unat v)) m"
proof (induction hw a v w neg m rule: put_luint.induct)
  case (1 hw a v w neg m)
  show ?case
  proof (cases "v div 10 = 0")
    case True
    then show ?thesis
      using put_end_digit [OF 1(2)]
      by (subst put_luint.simps) (simp add: long_div10_zero long_digit del: of_nat_add)
  next
    case False
    then have n: "10 \<le> unat v" by (simp add: long_div10_zero)
    have "put_luint hw a (v div 10) (w - 1) neg m =
        sends hw a (dec_field (sint w - 1) neg (unat v div 10)) m"
      using 1(1) [OF refl False] width_ok_step [OF 1(2) n] width_ok_sint [OF 1(2)]
      by (simp add: unat_div)
    then show ?thesis
      using False by (subst put_luint.simps) (simp add: long_digit dec_field_step [OF n] del: of_nat_add)
  qed
qed

text \<open>On the non-negative \<open>short\<close> values the signed printer is the unsigned one.\<close>

lemma sint_nonneg: "0 \<le> sint v \<Longrightarrow> sint v = uint v" for v :: "'a :: len word"
proof -
  assume nn: "0 \<le> sint v"
  have "uint v = uint (word_of_int (sint v) :: 'a word)" by simp
  also have "\<dots> = sint v mod 2 ^ LENGTH('a)" by (simp only: uint_word_of_int)
  also have "sint v < 2 ^ LENGTH('a)"
    using sint_lt [of v] by (smt (verit) diff_less len_gt_0 power_strict_increasing_iff zero_less_one)
  ultimately show ?thesis using nn by simp
qed

lemma short_div10_nonneg: "0 \<le> sint v \<Longrightarrow> short_div10 v = v div 10 \<and> 0 \<le> sint (v div 10)"
proof -
  assume nn: "0 \<le> sint v"
  then have u: "sint v = uint v" by (rule sint_nonneg)
  have "short_div10 v = v div 10"
    by (simp add: short_div10_def u signed_divide_int_def sgn_if word_div_def)
  moreover have "0 \<le> sint (short_div10 v)"
    using nn by (simp add: sint_short_div10 signed_divide_int_def sgn_if)
  ultimately show ?thesis by simp
qed

lemma put_int_nonneg: "0 \<le> sint v \<Longrightarrow> put_int hw a v w neg m = put_uint hw a v w neg m"
proof (induction hw a v w neg m rule: put_int.induct)
  case (1 hw a v w neg m)
  then show ?case
    using short_div10_nonneg [OF 1(2)]
    by (subst put_int.simps, subst put_uint.simps) (simp add: Let_def)
qed

section \<open>Strings and format strings\<close>

text \<open>
  \<open>while (c = *s) { send(action, c); s++; }\<close>: the offset wraps within the segment, so the loop
  ends only when the segment holds a NUL.
\<close>

partial_function (option) put_str ::
  "'d hw \<Rightarrow> u16 \<Rightarrow> u16 \<Rightarrow> u16 \<Rightarrow> 'd machine \<Rightarrow> 'd machine option" where
  "put_str hw action seg off m =
     (let c = read_byte seg off m
      in if c = 0 then Some m else put_str hw action seg (off + 1) (send hw action c m))"

text \<open>How \<open>bios_printf\<close> ends: it returns, it freezes the machine, or it reads past the format's NUL.\<close>

datatype 'd print_end = Returned "'d machine" | Frozen "'d machine" | Overrun "'d machine"

fun returned :: "'d print_end \<Rightarrow> bool" where
  "returned (Returned m) = True" | "returned _ = False"

fun end_machine :: "'d print_end \<Rightarrow> 'd machine" where
  "end_machine (Returned m) = m" | "end_machine (Frozen m) = m" | "end_machine (Overrun m) = m"

definition hex_digit :: "u8 \<Rightarrow> u64 \<Rightarrow> u8" where
  "hex_digit c v =
     (let nibble = v AND 0xf; hexadd = (if c = of_char (CHR ''x'') then of_char (CHR ''a'')
                                        else of_char (CHR ''A''))
      in if nibble \<le> 9 then ucast nibble + 48 else ucast nibble - 10 + hexadd)"

definition put_hex :: "'d hw \<Rightarrow> u16 \<Rightarrow> u8 \<Rightarrow> u16 \<Rightarrow> u64 \<Rightarrow> 'd machine \<Rightarrow> 'd machine" where
  \<comment> \<open>\<open>for (i = format_width - 1; i >= 0; i--)\<close> with a 16-bit \<open>int i\<close>; shifts beyond the
    operand, which no format of the sources asks for, give 0\<close>
  "put_hex hw action c width v m =
     sends hw action
       (map (\<lambda>i. hex_digit c (drop_bit (4 * i) v)) (rev [0..<nat (sint (width - 1) + 1)])) m"

definition is_x :: "u8 \<Rightarrow> bool" where
  "is_x c \<longleftrightarrow> c = of_char (CHR ''x'') \<or> c = of_char (CHR ''X'')"

definition str_at :: "u8 list \<Rightarrow> nat \<Rightarrow> u8" where
  "str_at s i = (if i < length s then s ! i else 0)"

definition word_pair :: "u16 \<Rightarrow> u16 \<Rightarrow> u32" where
  "word_pair h l = push_bit 16 (ucast h) OR ucast l"

definition word_quad :: "(nat \<Rightarrow> u16) \<Rightarrow> u64" where
  "word_quad a = push_bit 48 (ucast (a 3)) OR push_bit 32 (ucast (a 2)) OR
     push_bit 16 (ucast (a 1)) OR ucast (a 0)"

definition args_skip :: "nat \<Rightarrow> (nat \<Rightarrow> u16) \<Rightarrow> nat \<Rightarrow> u16" where
  "args_skip n a = (\<lambda>i. a (i + n))"

definition put_long :: "'d hw \<Rightarrow> u16 \<Rightarrow> u8 \<Rightarrow> u16 \<Rightarrow> u16 \<Rightarrow> u16 \<Rightarrow> 'd machine \<Rightarrow> 'd machine" where
  \<comment> \<open>\<open>%ld\<close>, \<open>%lu\<close>, \<open>%lx\<close>, \<open>%lX\<close>; anything else prints nothing\<close>
  "put_long hw action c width hibyte arg m =
     (if c = of_char (CHR ''d'') then
        if hibyte AND 0x8000 \<noteq> 0 then put_luint hw action (0 - word_pair hibyte arg) (width - 1) True m
        else put_luint hw action (word_pair hibyte arg) width False m
      else if c = of_char (CHR ''u'') then put_luint hw action (word_pair hibyte arg) width False m
      else if is_x c then
        put_hex hw action c (if width = 0 then 8 else width) (ucast (word_pair hibyte arg)) m
      else m)"

definition put_short :: "'d hw \<Rightarrow> u16 \<Rightarrow> u16 \<Rightarrow> u16 \<Rightarrow> 'd machine \<Rightarrow> 'd machine" where
  "put_short hw action width arg m =
     (if arg AND 0x8000 \<noteq> 0 then put_int hw action (- arg) (width - 1) True m
      else put_int hw action arg width False m)"

text \<open>
  One round of the loop of \<open>bios_printf\<close>, from the remaining format, the flag \<open>in_format\<close>, the
  width and the arguments not yet fetched: go on, print a string first, call \<open>BX_PANIC\<close>, or stop.
\<close>

datatype 'd round =
    Next "u8 list" bool u16 "nat \<Rightarrow> u16" "'d machine"
  | Str u16 u16 "u8 list" u16 "nat \<Rightarrow> u16"
  | Panic string
  | Stop "'d print_end"

definition printf_round ::
  "'d hw \<Rightarrow> u16 \<Rightarrow> u16 \<Rightarrow> u8 list \<Rightarrow> bool \<Rightarrow> u16 \<Rightarrow> (nat \<Rightarrow> u16) \<Rightarrow> 'd machine \<Rightarrow> 'd round" where
  "printf_round hw ds action s in_format width args m =
     (let c = str_at s 0; arg = args 0; args1 = args_skip 1 args
      in if c = 0 then
           Stop (if action AND BIOS_PRINTF_HALT \<noteq> 0 then Frozen (int_disable m) else Returned m)
         else if c = of_char (CHR ''%'') then Next (tl s) True 0 args m
         else if \<not> in_format then Next (tl s) False width args (send hw action c m)
         else if of_char (CHR ''0'') \<le> c \<and> c \<le> of_char (CHR ''9'') then
           Next (tl s) True (width * 10 + (ucast c - 48)) args m
         else if is_x c then
           (let width = (if width = 0 then 4 else width)
            in Next (tl s) False width args1 (put_hex hw action c width (ucast arg) m))
         else if c = of_char (CHR ''u'') then
           Next (tl s) False width args1 (put_uint hw action arg width False m)
         else if c = of_char (CHR ''l'') \<and> str_at s 1 = of_char (CHR ''l'') then
           (let c = str_at s 2; width' = (if width = 0 then 16 else width)
            in if is_x c then Next (drop 3 s) False width' (args_skip 4 args)
                 (put_hex hw action c width' (word_quad args) m)
               else Panic ''bios_printf: unknown %ll format\<newline>'')
         else if c = of_char (CHR ''l'') then
           (let c = str_at s 1
            in if c = 0 then Stop (Overrun m)
               else Next (drop 2 s) False (if is_x c \<and> width = 0 then 8 else width)
                 (args_skip 2 args) (put_long hw action c width (args 1) arg m))
         else if c = of_char (CHR ''d'') then
           Next (tl s) False width args1 (put_short hw action width arg m)
         else if c = of_char (CHR ''s'') then Str ds arg (tl s) width args1
         else if c = of_char (CHR ''S'') then Str arg (args 1) (tl s) width (args_skip 2 args)
         else if c = of_char (CHR ''c'') then
           Next (tl s) False width args1 (send hw action (ucast arg) m)
         else Panic ''bios_printf: unknown format\<newline>'')"

text \<open>
  \<open>BX_PANIC\<close> inside the loop is a nested call of \<open>bios_printf\<close> with \<open>BIOS_PRINTF_DEBHALT\<close>: it
  prints \<open>FATAL: \<close> on the screen, then its message, and freezes the machine; it never returns to
  the outer loop.
\<close>

partial_function (option) printf_loop ::
  "'d hw \<Rightarrow> u16 \<Rightarrow> u16 \<Rightarrow> u8 list \<Rightarrow> bool \<Rightarrow> u16 \<Rightarrow> (nat \<Rightarrow> u16) \<Rightarrow> 'd machine \<Rightarrow>
     'd print_end option" where
  "printf_loop hw ds action s in_format width args m =
     (case printf_round hw ds action s in_format width args m of
        Next s f w a m \<Rightarrow> printf_loop hw ds action s f w a m
      | Str seg off s w a \<Rightarrow>
          Option.bind (put_str hw action seg off m) (\<lambda>m. printf_loop hw ds action s False w a m)
      | Panic msg \<Rightarrow>
          Option.bind (printf_loop hw ds BIOS_PRINTF_SCREEN (bytes ''FATAL: '') False 0 args m)
            (\<lambda>r. if returned r
                 then printf_loop hw ds BIOS_PRINTF_DEBHALT (bytes msg) False 0 args (end_machine r)
                 else Some r)
      | Stop r \<Rightarrow> Some r)"

definition bios_printf ::
  "'d hw \<Rightarrow> u16 \<Rightarrow> u16 \<Rightarrow> string \<Rightarrow> (nat \<Rightarrow> u16) \<Rightarrow> 'd machine \<Rightarrow> 'd print_end option" where
  "bios_printf hw ds action s args m =
     (if action AND BIOS_PRINTF_DEBHALT = BIOS_PRINTF_DEBHALT
      then Option.bind (printf_loop hw ds BIOS_PRINTF_SCREEN (bytes ''FATAL: '') False 0 args m)
        (\<lambda>r. if returned r then printf_loop hw ds action (bytes s) False 0 args (end_machine r)
             else Some r)
      else printf_loop hw ds action (bytes s) False 0 args m)"

section \<open>What a format prints\<close>

text \<open>
  The reference semantics of the formats the BIOS sources use: a list of directives, the format
  string that spells it, and the characters it stands for.
\<close>

datatype directive =
    Lit u8
  | U nat | D nat
  | LU nat | LD nat
  | X nat
  | C

definition width_digits :: "nat \<Rightarrow> u8 list" where
  "width_digits w = (if w = 0 then [] else dec w)"

fun spell :: "directive \<Rightarrow> u8 list" where
  "spell (Lit c) = [c]"
| "spell (U w) = 37 # width_digits w @ [117]"
| "spell (D w) = 37 # width_digits w @ [100]"
| "spell (LU w) = 37 # width_digits w @ [108, 117]"
| "spell (LD w) = 37 # width_digits w @ [108, 100]"
| "spell (X w) = 37 # width_digits w @ [120]"
| "spell C = [37, 99]"

definition int_field :: "nat \<Rightarrow> int \<Rightarrow> u8 list" where
  "int_field w i =
     (let cs = (if i < 0 then [45] else []) @ dec (nat \<bar>i\<bar>)
      in replicate (w - length cs) 32 @ cs)"

definition hex_field :: "nat \<Rightarrow> nat \<Rightarrow> u8 list" where
  \<comment> \<open>the low \<open>w\<close> hexadecimal digits\<close>
  "hex_field w n =
     map (\<lambda>i. let d = n div 16 ^ i mod 16 in of_nat (if d \<le> 9 then d + 48 else d + 87))
       (rev [0..<w])"

fun render :: "directive list \<Rightarrow> (nat \<Rightarrow> u16) \<Rightarrow> u8 list" where
  "render [] a = []"
| "render (Lit c # ps) a = c # render ps a"
| "render (U w # ps) a = int_field w (uint (a 0)) @ render ps (args_skip 1 a)"
| "render (D w # ps) a = int_field w (sint (a 0)) @ render ps (args_skip 1 a)"
| "render (LU w # ps) a = int_field w (uint (word_pair (a 1) (a 0))) @ render ps (args_skip 2 a)"
| "render (LD w # ps) a = int_field w (sint (word_pair (a 1) (a 0))) @ render ps (args_skip 2 a)"
| "render (X w # ps) a = hex_field (if w = 0 then 4 else w) (unat (a 0)) @ render ps (args_skip 1 a)"
| "render (C # ps) a = ucast (a 0) # render ps (args_skip 1 a)"

text \<open>
  What the code supports: literals other than NUL and \<open>%\<close>, fields of ordinary width, at most the
  four digits of a word for \<open>%x\<close>, and no \<open>%d\<close> of the most negative \<open>short\<close>.
\<close>

fun supported :: "directive list \<Rightarrow> (nat \<Rightarrow> u16) \<Rightarrow> bool" where
  "supported [] a = True"
| "supported (Lit c # ps) a = (c \<noteq> 0 \<and> c \<noteq> 37 \<and> supported ps a)"
| "supported (U w # ps) a = (w < 1000 \<and> supported ps (args_skip 1 a))"
| "supported (D w # ps) a = (w < 1000 \<and> a 0 \<noteq> 0x8000 \<and> supported ps (args_skip 1 a))"
| "supported (LU w # ps) a = (w < 1000 \<and> supported ps (args_skip 2 a))"
| "supported (LD w # ps) a = (w < 1000 \<and> supported ps (args_skip 2 a))"
| "supported (X w # ps) a = (w \<le> 4 \<and> supported ps (args_skip 1 a))"
| "supported (C # ps) a = supported ps (args_skip 1 a)"

subsection \<open>Rounds of the loop\<close>

lemma loop_end:
  "action AND BIOS_PRINTF_HALT = 0 \<Longrightarrow>
   printf_loop hw ds action [] f w a m = Some (Returned m)"
  by (subst printf_loop.simps) (simp add: printf_round_def str_at_def)

lemma loop_literal:
  "c \<noteq> 0 \<Longrightarrow> c \<noteq> 37 \<Longrightarrow>
   printf_loop hw ds action (c # s) False w a m =
     printf_loop hw ds action s False w a (send hw action c m)"
  by (subst printf_loop.simps) (simp add: printf_round_def str_at_def)

lemma loop_percent:
  "printf_loop hw ds action (37 # s) f w a m = printf_loop hw ds action s True 0 a m"
  by (subst printf_loop.simps) (simp add: printf_round_def str_at_def)

lemma loop_digit:
  assumes "48 \<le> c" "c \<le> 57"
  shows "printf_loop hw ds action (c # s) True w a m =
     printf_loop hw ds action s True (w * 10 + (ucast c - 48)) a m"
proof -
  have "c \<noteq> 0" "c \<noteq> 37" using assms by auto
  then show ?thesis
    using assms by (subst printf_loop.simps) (simp add: printf_round_def str_at_def)
qed

lemma loop_digits:
  "\<forall>c \<in> set cs. 48 \<le> c \<and> c \<le> 57 \<Longrightarrow>
   printf_loop hw ds action (cs @ s) True w a m =
     printf_loop hw ds action s True (foldl (\<lambda>w c. w * 10 + (ucast c - 48)) w cs) a m"
  by (induction cs arbitrary: w) (simp_all add: loop_digit)

lemma foldl_dec: "foldl (\<lambda>w c. w * 10 + (ucast c - 48)) 0 (dec n) = (of_nat n :: u16)"
proof (induction n rule: dec.induct)
  case (1 n)
  have "ucast (of_nat (n mod 10 + 48) :: u8) = (of_nat (n mod 10) + 48 :: u16)"
    using unat_digit [of "n mod 10"] by (metis mod_less_divisor of_nat_add of_nat_numeral of_nat_unat zero_less_numeral)
  moreover have "of_nat (n div 10) * 10 + of_nat (n mod 10) = (of_nat n :: u16)"
    by (metis div_mult_mod_eq of_nat_add of_nat_mult of_nat_numeral)
  ultimately show ?case
    using 1 by (subst dec.simps) auto
qed

lemma loop_width:
  "printf_loop hw ds action (width_digits n @ s) True 0 a m =
     printf_loop hw ds action s True (of_nat n) a m"
proof (cases "n = 0")
  case False
  have "\<forall>c \<in> set (dec n). 48 \<le> c \<and> c \<le> 57"
    using dec_digits [of _ n] by (simp add: word_le_nat_alt)
  then show ?thesis
    using False by (simp add: width_digits_def loop_digits foldl_dec)
qed (simp add: width_digits_def)

lemma loop_conversions:
  "printf_loop hw ds action (117 # s) True w a m =
     printf_loop hw ds action s False w (args_skip 1 a) (put_uint hw action (a 0) w False m)"
  "printf_loop hw ds action (100 # s) True w a m =
     printf_loop hw ds action s False w (args_skip 1 a) (put_short hw action w (a 0) m)"
  "printf_loop hw ds action (108 # 117 # s) True w a m =
     printf_loop hw ds action s False w (args_skip 2 a) (put_long hw action 117 w (a 1) (a 0) m)"
  "printf_loop hw ds action (108 # 100 # s) True w a m =
     printf_loop hw ds action s False w (args_skip 2 a) (put_long hw action 100 w (a 1) (a 0) m)"
  "printf_loop hw ds action (120 # s) True w a m =
     printf_loop hw ds action s False (if w = 0 then 4 else w) (args_skip 1 a)
       (put_hex hw action 120 (if w = 0 then 4 else w) (ucast (a 0)) m)"
  "printf_loop hw ds action (99 # s) True w a m =
     printf_loop hw ds action s False w (args_skip 1 a) (send hw action (ucast (a 0)) m)"
  by (subst printf_loop.simps, simp add: printf_round_def str_at_def is_x_def)+

subsection \<open>Fields\<close>

lemma dec_field_nonneg: "dec_field (int w) False n = int_field w (int n)"
  by (simp add: dec_field_def int_field_def Let_def)

lemma dec_field_negative: "0 < n \<Longrightarrow> dec_field (int w - 1) True n = int_field w (- int n)"
  by (simp add: dec_field_def int_field_def Let_def nat_diff_distrib' flip: of_nat_Suc)

lemma length_dec: "n < 10 ^ k \<Longrightarrow> 0 < k \<Longrightarrow> length (dec n) \<le> k"
proof (induction n arbitrary: k rule: dec.induct)
  case (1 n)
  show ?case
  proof (cases "n < 10")
    case False
    with 1(2) obtain j where k: "k = Suc j" "0 < j"
      by (cases k; cases "k - 1") auto
    then have "length (dec (n div 10)) \<le> j"
      using 1 False by (intro 1(1)) (auto simp: less_mult_imp_div_less)
    then show ?thesis using False k by (subst dec.simps) simp
  qed (use 1 in \<open>subst dec.simps; simp\<close>)
qed

lemma sint_width: "w < 1000 \<Longrightarrow> sint (of_nat w :: u16) = int w"
proof -
  assume w: "w < 1000"
  have "(of_nat w :: u16) = word_of_int (int w)" by simp
  then show ?thesis
    using w by (simp only: sint_sbintrunc') (simp add: signed_take_bit_int_eq_self)
qed

lemma width_fits:
  assumes "w < 1000" "n < 4294967296"
  shows "width_ok (of_nat w) n" "width_ok (of_nat w - 1) n"
    "sint (of_nat w - 1 :: u16) = int w - 1"
proof -
  have "length (dec n) \<le> 10" using assms by (intro length_dec) simp_all
  then show "width_ok (of_nat w) n" "width_ok (of_nat w - 1) n"
    "sint (of_nat w - 1 :: u16) = int w - 1"
    using sint_width [OF assms(1)] sint_pred [of "of_nat w"] by (simp_all add: width_ok_def)
qed

lemma unat_u32: "unat v < 4294967296" for v :: u32
  using unsigned_less [of v, where 'a = nat] by simp

lemma unat_u16: "unat v < 4294967296" for v :: u16
  using unsigned_less [of v, where 'a = nat] by simp

lemma put_uint_field:
  "w < 1000 \<Longrightarrow> put_uint hw a v (of_nat w) False m = sends hw a (int_field w (uint v)) m"
  by (simp add: put_uint_eq width_fits unat_u16 sint_width dec_field_nonneg)

lemma put_luint_field:
  "w < 1000 \<Longrightarrow> put_luint hw a v (of_nat w) False m = sends hw a (int_field w (uint v)) m"
  by (simp add: put_luint_eq width_fits unat_u32 sint_width dec_field_nonneg)

lemma short_negative: "v AND 0x8000 \<noteq> 0 \<longleftrightarrow> sint v < 0" for v :: u16
proof -
  have "v AND 0x8000 \<noteq> 0 \<longleftrightarrow> bit v 15"
    using bit_iff_and_push_bit_not_eq_0 [of v 15] by (simp add: push_bit_eq_mult)
  then show ?thesis using bit_last_iff [of v] by simp
qed

lemma long_negative: "h AND 0x8000 \<noteq> 0 \<longleftrightarrow> sint (word_pair h l) < 0"
proof -
  have "bit (word_pair h l) 31 \<longleftrightarrow> bit h 15"
    by (simp add: word_pair_def bit_simps) (auto dest: bit_imp_le_length)
  then show ?thesis
    using bit_last_iff [of "word_pair h l"] bit_last_iff [of h] short_negative [of h] by simp
qed

lemma uint_negate:
  fixes v :: "'a :: len word"
  assumes "sint v < 0"
  shows "uint (- v) = - sint v"
proof -
  have "- v = word_of_int (- sint v)" by simp
  then have "uint (- v) = (- sint v) mod 2 ^ LENGTH('a)"
    by (simp only: uint_word_of_int)
  moreover have "- sint v < 2 ^ LENGTH('a)"
    using sint_ge [of v] by (smt (verit) diff_less len_gt_0 power_strict_increasing_iff zero_less_one)
  ultimately show ?thesis using assms by simp
qed

lemma unat_negate: "sint v < 0 \<Longrightarrow> int (unat (- v)) = - sint v" for v :: "'a :: len word"
  by (simp add: uint_negate)

lemma sint_negate_short:
  fixes v :: u16
  assumes "sint v < 0" "v \<noteq> 0x8000"
  shows "0 \<le> sint (- v)"
proof -
  have "sint v \<noteq> sint (0x8000 :: u16)" using assms(2) signed_word_eqI by blast
  then have "sint v \<noteq> - 32768" by simp
  then have "- sint v < 32768" using sint_ge [of v] by simp
  then have "uint (- v) < 32768" using uint_negate [OF assms(1)] by simp
  then have "sint (- v) = uint (- v)"
    using uint_ge_0 [of "- v"] unfolding sint_uint
    by (intro signed_take_bit_int_eq_self) (simp_all add: order_trans [of _ 0])
  then show ?thesis by simp
qed

lemma put_short_field:
  assumes "w < 1000" "v \<noteq> 0x8000"
  shows "put_short hw a (of_nat w) v m = sends hw a (int_field w (sint v)) m"
proof (cases "sint v < 0")
  case True
  have n: "0 < unat (- v)" "- int (unat (- v)) = sint v"
    using unat_negate [OF True] True by linarith+
  have "put_short hw a (of_nat w) v m = put_uint hw a (- v) (of_nat w - 1) True m"
    using True sint_negate_short [OF True assms(2)]
    by (simp add: put_short_def short_negative put_int_nonneg)
  also have "\<dots> = sends hw a (dec_field (int w - 1) True (unat (- v))) m"
    using assms(1) width_fits(3) [OF assms(1), of 0] by (simp add: put_uint_eq width_fits unat_u16)
  finally show ?thesis using dec_field_negative [OF n(1)] n(2) by simp
next
  case False
  then have "uint v = sint v" by (simp add: sint_nonneg)
  then show ?thesis
    using False assms(1) by (simp add: put_short_def short_negative put_int_nonneg put_uint_field)
qed

lemma put_long_field:
  assumes "w < 1000"
  shows "put_long hw a 100 (of_nat w) h l m = sends hw a (int_field w (sint (word_pair h l))) m"
proof (cases "sint (word_pair h l) < 0")
  case True
  let ?v = "word_pair h l"
  have n: "0 < unat (- ?v)" "- int (unat (- ?v)) = sint ?v"
    using unat_negate [OF True] True by linarith+
  have "put_long hw a 100 (of_nat w) h l m = put_luint hw a (- ?v) (of_nat w - 1) True m"
    using True by (simp add: put_long_def long_negative [of h l])
  also have "\<dots> = sends hw a (dec_field (int w - 1) True (unat (- ?v))) m"
    using assms(1) width_fits(3) [OF assms(1), of 0] by (simp add: put_luint_eq width_fits unat_u32)
  finally show ?thesis using dec_field_negative [OF n(1)] n(2) by simp
next
  case False
  then have "uint (word_pair h l) = sint (word_pair h l)" by (simp add: sint_nonneg)
  then show ?thesis
    using False assms by (simp add: put_long_def long_negative [of h l] put_luint_field)
qed

lemma hex_digit_eq:
  fixes v :: u16
  shows "hex_digit 120 (drop_bit (4 * i) (ucast v)) =
    (let d = unat v div 16 ^ i mod 16 in of_nat (if d \<le> 9 then d + 48 else d + 87))"
proof -
  define x :: u64 where "x = drop_bit (4 * i) (ucast v) AND 0xf"
  have "x = take_bit 4 (drop_bit (4 * i) (ucast v))"
    by (simp add: x_def take_bit_eq_mask mask_numeral)
  then have "unat x = take_bit 4 (drop_bit (4 * i) (unat (ucast v :: u64)))"
    using unsigned_less [of "ucast v :: u64", where 'a = nat]
    by (simp only: unsigned_take_bit_eq unsigned_drop_bit_eq) (simp add: take_bit_nat_eq_self)
  then have u: "unat x = unat v div 16 ^ i mod 16"
    using unsigned_less [of v, where 'a = nat]
    by (simp add: drop_bit_eq_div take_bit_eq_mod power_mult unsigned_ucast_eq)
  have c: "(ucast x :: u8) = of_nat (unat x)" by (simp only: of_nat_unat)
  show ?thesis
    by (simp add: hex_digit_def Let_def word_le_nat_alt u c flip: x_def)
qed

lemma put_hex_field:
  fixes v :: u16
  assumes "0 < w" "w \<le> 4"
  shows "put_hex hw a 120 (of_nat w) (ucast v) m = sends hw a (hex_field w (unat v)) m"
proof -
  have "nat (sint (of_nat w - 1 :: u16) + 1) = w"
    using assms width_fits(3) [of w 0] by simp
  then show ?thesis by (simp add: put_hex_def hex_field_def hex_digit_eq)
qed

lemma put_long_unsigned_field:
  "w < 1000 \<Longrightarrow>
   put_long hw a 117 (of_nat w) h l m = sends hw a (int_field w (uint (word_pair h l))) m"
  by (simp add: put_long_def put_luint_field)

lemma put_hex_default:
  fixes v :: u16
  assumes "n \<le> 4"
  shows "put_hex hw a 120 (if (of_nat n :: u16) = 0 then 4 else of_nat n) (ucast v) m =
    sends hw a (hex_field (if n = 0 then 4 else n) (unat v)) m"
proof (cases "n = 0")
  case True
  then show ?thesis using put_hex_field [of 4 hw a v m] by simp
next
  case False
  have "unat (of_nat n :: u16) = n" using assms by (simp add: unat_of_nat take_bit_nat_eq_self)
  then have "(of_nat n :: u16) \<noteq> 0" using False by (metis unsigned_0)
  then show ?thesis using put_hex_field [of n hw a v m] assms False by simp
qed

lemma loop_renders:
  assumes "action AND BIOS_PRINTF_HALT = 0"
  shows "supported ps a \<Longrightarrow>
    printf_loop hw ds action (concat (map spell ps)) False w a m =
      Some (Returned (sends hw action (render ps a) m))"
proof (induction ps a arbitrary: w m rule: render.induct)
  case (1 a)
  then show ?case using assms by (simp add: loop_end)
qed (simp_all add: loop_literal loop_percent loop_width loop_conversions put_uint_field
      put_short_field put_long_field put_long_unsigned_field put_hex_default)

definition spelling :: "directive list \<Rightarrow> string" where
  "spelling ps = map (\<lambda>c. char_of (unat c)) (concat (map spell ps))"

lemma of_char_char_of: "of_char (char_of (unat c)) = c" for c :: u8
proof -
  have "of_char (char_of (unat c)) = (of_nat (of_char (char_of (unat c))) :: u8)"
    by (simp only: of_nat_of_char)
  then show ?thesis
    using unsigned_less [of c, where 'a = nat] by simp
qed

lemma bytes_spelling: "bytes (spelling ps) = concat (map spell ps)"
  by (simp add: bytes_def spelling_def comp_def of_char_char_of)

section \<open>Properties\<close>


definition silent :: "unit hw" where
  "silent = \<lparr>hw_inb = \<lambda>_ d. (0, d), hw_inw = \<lambda>_ d. (0, d), hw_ind = \<lambda>_ d. (0, d),
     hw_outb = \<lambda>_ _ d. d, hw_outw = \<lambda>_ _ d. d, hw_outd = \<lambda>_ _ d. d\<rparr>"

definition blank :: "'d \<Rightarrow> 'd machine" where
  "blank d = \<lparr>ram = \<lambda>_. 0, dev = d, tty = [], blog = [], iflag = False\<rparr>"


text \<open>
  Printing the most negative \<open>short\<close> with \<open>%d\<close> does not print -32768: negation leaves the value
  negative, every digit is computed from a negative remainder, and the characters sent are
  \<open>--.)*(\<close>.
\<close>

theorem printf_d_min:
  "put_short hw a 0 0x8000 m = sends hw a (bytes ''--.)*('') m"
proof -
  have d: "short_div10 (- 32768) = - 3276" "short_div10 (- 3276) = - 327"
    "short_div10 (- 327) = - 32" "short_div10 (- 32) = - 3" "short_div10 (- 3) = 0"
    by (simp_all add: short_div10_def signed_divide_int_def)
  have e: "put_end hw a (- 5) True m = send hw a 45 m"
    by (simp add: put_end_def put_pad.simps)
  have "put_int hw a (- 3) (- 5) True m = sends hw a [45, 45] m"
    by (subst put_int.simps) (simp add: d e)
  then have "put_int hw a (- 32) (- 4) True m = sends hw a [45, 45, 46] m"
    by (subst put_int.simps) (simp add: d)
  then have "put_int hw a (- 327) (- 3) True m = sends hw a [45, 45, 46, 41] m"
    by (subst put_int.simps) (simp add: d)
  then have "put_int hw a (- 3276) (- 2) True m = sends hw a [45, 45, 46, 41, 42] m"
    by (subst put_int.simps) (simp add: d)
  then have "put_int hw a (- 32768) (- 1) True m = sends hw a [45, 45, 46, 41, 42, 40] m"
    by (subst put_int.simps) (simp add: d)
  then show ?thesis by (simp add: put_short_def bytes_def)
qed

text \<open>Formats that run into the panic of an unknown \<open>%ll\<close>.\<close>

definition plain :: "u8 list \<Rightarrow> bool" where
  "plain p \<longleftrightarrow> 0 \<notin> set p \<and> 37 \<notin> set p"

definition doomed :: "u8 list \<Rightarrow> bool \<Rightarrow> bool" where
  "doomed s f \<longleftrightarrow>
     f \<and> (\<exists>c s'. \<not> is_x c \<and> s = 108 # 108 # c # s') \<or>
     (\<exists>p c s'. plain p \<and> (f \<longrightarrow> p = []) \<and> \<not> is_x c \<and> s = p @ 37 # 108 # 108 # c # s')"

lemma doomed_message: "doomed (bytes ''bios_printf: unknown %ll format\<newline>'') False"
proof -
  have "bytes ''bios_printf: unknown %ll format\<newline>'' =
      bytes ''bios_printf: unknown '' @ 37 # 108 # 108 # 32 # bytes ''format\<newline>''"
    by (simp add: bytes_def)
  moreover have "plain (bytes ''bios_printf: unknown '')" "\<not> is_x 32"
    by (simp_all add: plain_def bytes_def is_x_def)
  ultimately show ?thesis unfolding doomed_def by blast
qed

lemma plain_fatal: "plain (bytes ''FATAL: '')"
  by (simp add: plain_def bytes_def)

lemma doomed_cases:
  assumes "doomed s f"
  obtains (panic) c s' where "f" "\<not> is_x c" "s = 108 # 108 # c # s'"
  | (percent) s' where "s = 37 # s'" "doomed s' True"
  | (literal) c s' where "\<not> f" "c \<noteq> 0" "c \<noteq> 37" "s = c # s'" "doomed s' False"
proof -
  from assms consider
    (1) "f" "\<exists>c s'. \<not> is_x c \<and> s = 108 # 108 # c # s'"
  | (2) p c s' where "plain p" "f \<longrightarrow> p = []" "\<not> is_x c" "s = p @ 37 # 108 # 108 # c # s'"
    unfolding doomed_def by blast
  then show thesis
  proof cases
    case 1
    then show thesis using panic by blast
  next
    case 2
    show thesis
    proof (cases p)
      case Nil
      then show thesis using 2 percent unfolding doomed_def by auto
    next
      case (Cons x p')
      moreover have "doomed (p' @ 37 # 108 # 108 # c # s') False"
        using 2 Cons unfolding doomed_def plain_def by auto
      ultimately show thesis using 2 literal by (auto simp: plain_def)
    qed
  qed
qed

lemma loop_doomed:
  assumes "printf_loop hw ds action s f w a m = Some r"
  shows "\<not> doomed s f \<and> (plain s \<and> \<not> f \<and> action AND BIOS_PRINTF_HALT = 0 \<longrightarrow> returned r)"
proof (rule printf_loop.raw_induct [where
      P = "\<lambda>hw ds action s f w a m r. \<not> doomed s f \<and>
        (plain s \<and> \<not> f \<and> action AND BIOS_PRINTF_HALT = 0 \<longrightarrow> returned r)", OF _ assms])
  fix g :: "'a hw \<Rightarrow> u16 \<Rightarrow> u16 \<Rightarrow> u8 list \<Rightarrow> bool \<Rightarrow> u16 \<Rightarrow> (nat \<Rightarrow> u16) \<Rightarrow> 'a machine \<Rightarrow> 'a print_end option"
  fix hw ds action s f w a m r
  assume IH: "\<And>hw ds action s f w a m r. g hw ds action s f w a m = Some r \<Longrightarrow>
      \<not> doomed s f \<and> (plain s \<and> \<not> f \<and> action AND BIOS_PRINTF_HALT = 0 \<longrightarrow> returned r)"
    and body: "(case printf_round hw ds action s f w a m of
        Next s f w a m \<Rightarrow> g hw ds action s f w a m
      | Str seg off s w a \<Rightarrow>
          Option.bind (put_str hw action seg off m) (\<lambda>m. g hw ds action s False w a m)
      | Panic msg \<Rightarrow>
          Option.bind (g hw ds BIOS_PRINTF_SCREEN (bytes ''FATAL: '') False 0 a m)
            (\<lambda>r. if returned r
                 then g hw ds BIOS_PRINTF_DEBHALT (bytes msg) False 0 a (end_machine r)
                 else Some r)
      | Stop r \<Rightarrow> Some r) = Some r"
  have "\<not> doomed s f"
  proof
    assume "doomed s f"
    then show False
    proof (cases rule: doomed_cases)
      case (panic c s')
      then have "printf_round hw ds action s f w a m = Panic ''bios_printf: unknown %ll format\<newline>''"
        by (simp add: printf_round_def str_at_def is_x_def)
      with body obtain q where
        q: "g hw ds BIOS_PRINTF_SCREEN (bytes ''FATAL: '') False 0 a m = Some q"
          "(if returned q then g hw ds BIOS_PRINTF_DEBHALT
              (bytes ''bios_printf: unknown %ll format\<newline>'') False 0 a (end_machine q) else Some q) = Some r"
        by (auto split: bind_splits)
      have "returned q"
        using IH [OF q(1)] plain_fatal by (simp add: printf_actions)
      with q(2) IH doomed_message show False by (metis (full_types))
    next
      case (percent s')
      then have "printf_round hw ds action s f w a m = Next s' True 0 a m"
        by (simp add: printf_round_def str_at_def)
      with body have "g hw ds action s' True 0 a m = Some r" by simp
      with IH percent show False by blast
    next
      case (literal c s')
      then have "printf_round hw ds action s f w a m = Next s' False w a (send hw action c m)"
        by (simp add: printf_round_def str_at_def)
      with body have "g hw ds action s' False w a (send hw action c m) = Some r" by simp
      with IH literal show False by blast
    qed
  qed
  moreover have "returned r" if "plain s" "\<not> f" "action AND BIOS_PRINTF_HALT = 0"
  proof (cases s)
    case Nil
    then show ?thesis using body that by (auto simp: printf_round_def str_at_def)
  next
    case (Cons c s')
    then have "c \<noteq> 0" "c \<noteq> 37" "plain s'" using that by (auto simp: plain_def)
    moreover from this have "printf_round hw ds action s f w a m = Next s' False w a (send hw action c m)"
      using Cons that by (simp add: printf_round_def str_at_def)
    ultimately have "g hw ds action s' False w a (send hw action c m) = Some r" "plain s'"
      using body by simp_all
    with IH that show ?thesis by blast
  qed
  ultimately show "\<not> doomed s f \<and> (plain s \<and> \<not> f \<and> action AND BIOS_PRINTF_HALT = 0 \<longrightarrow> returned r)"
    by blast
qed

text \<open>
  A \<open>%ll\<close> directive with a conversion other than \<open>x\<close> or \<open>X\<close> never ends: the message of the
  panic it raises contains \<open>%ll\<close> followed by a blank, so printing it raises the same panic again,
  without end.
\<close>

theorem printf_ll_panic_diverges:
  assumes "\<not> is_x c"
  shows "printf_loop hw ds action (37 # 108 # 108 # c # s) f w a m = None"
proof -
  have "doomed (37 # 108 # 108 # c # s) f"
    unfolding doomed_def
    by (intro disjI2 exI [of _ "[]"] exI [of _ c] exI [of _ s]) (simp add: assms plain_def)
  then show ?thesis using loop_doomed by (metis not_None_eq)
qed

theorem printf_ll_panic_diverges_witness:
  "printf_loop silent 0 BIOS_PRINTF_INFO (bytes ''%lld'') False 0 (\<lambda>_. 0) (blank ()) = None"
  using printf_ll_panic_diverges [of 100 silent 0 BIOS_PRINTF_INFO "[]" False 0 "\<lambda>_. 0" "blank ()"]
  by (simp add: is_x_def bytes_def)

end
