(* ===== verification/DiskData.thy ===== *)
theory DiskData
  imports BiosPrint
begin

text \<open>
  The disk data of the PC BIOS (\<open>Devices/PC/BIOS/ebda.h\<close>): geometry, channels, devices, the
  request packet and \<open>bio_dsk_t\<close>, the structure in the extended BIOS data area that all disk code
  works on. The BIOS reaches it through the far pointer in 0040:000E; here it is a record that is
  passed along, apart from the memory of \<open>'d machine\<close>, so a transfer whose buffer overlaps the
  BIOS's own data area is outside the model. Arrays are functions on \<open>nat\<close>, read only at the
  indices the code uses. A far pointer is a pair of segment and offset.
\<close>

type_synonym far = "u16 \<times> u16"

abbreviation "BX_MAX_ATA_DEVICES \<equiv> (8 :: nat)"
abbreviation "BX_MAX_STORAGE_DEVICES \<equiv> (20 :: nat)"

definition VBOX_IS_SCSI_DEVICE :: "u8 \<Rightarrow> bool" where
  "VBOX_IS_SCSI_DEVICE device_id \<longleftrightarrow> BX_MAX_ATA_DEVICES \<le> unat device_id"

abbreviation "DSK_TYPE_NONE \<equiv> (0 :: u8)"
abbreviation "DSK_TYPE_UNKNOWN \<equiv> (1 :: u8)"
abbreviation "DSK_TYPE_ATA \<equiv> (2 :: u8)"
abbreviation "DSK_TYPE_ATAPI \<equiv> (3 :: u8)"
abbreviation "DSK_TYPE_SCSI \<equiv> (4 :: u8)"
abbreviation "DSK_TYPE_AHCI \<equiv> (5 :: u8)"
abbreviation "DSK_TYPE_VIRTIO_SCSI \<equiv> (6 :: u8)"

abbreviation "DSK_DEVICE_NONE \<equiv> (0x00 :: u8)"
abbreviation "DSK_DEVICE_HD \<equiv> (0xFF :: u8)"
abbreviation "DSK_DEVICE_CDROM \<equiv> (0x05 :: u8)"

abbreviation "GEO_TRANSLATION_NONE \<equiv> (0 :: u8)"
abbreviation "GEO_TRANSLATION_LBA \<equiv> (1 :: u8)"
abbreviation "GEO_TRANSLATION_RECHS \<equiv> (3 :: u8)"

record chs =
  heads :: u16
  cylinders :: u16
  spt :: u16

record ata_chan =
  iface :: u8
  irq :: u8
  iobase1 :: u16
  iobase2 :: u16

record disk_dev =
  d_type :: u8
  d_device :: u8
  removable :: u8
  lock :: u8
  d_mode :: u8
  translation :: u8
  blksize :: u16
  lchs :: chs
  pchs :: chs
  sectors :: u64

record disk_req =
  rq_lba :: u64
  rq_buffer :: far
  rq_dev_id :: u8
  rq_nsect :: u16
  rq_sect_sz :: u16
  rq_cylinder :: u16
  rq_head :: u16
  rq_sector :: u16
  trsfsectors :: u16
  trsfbytes :: u32

record dpte =
  e_iobase1 :: u16
  e_iobase2 :: u16
  e_prefix :: u8
  e_unused :: u8
  e_irq :: u8
  e_blkcount :: u8
  e_dma :: u8
  e_pio :: u8
  e_options :: u16
  e_reserved :: u16
  e_revision :: u8
  e_checksum :: u8

record bio_dsk =
  drqp :: disk_req
  devices :: "nat \<Rightarrow> disk_dev"
  hdcount :: u8
  hdidmap :: "nat \<Rightarrow> u8"
  cdcount :: u8
  cdidmap :: "nat \<Rightarrow> u8"
  channels :: "nat \<Rightarrow> ata_chan"
  b_dpte :: dpte

definition upd_drqp :: "(disk_req \<Rightarrow> disk_req) \<Rightarrow> bio_dsk \<Rightarrow> bio_dsk" where
  "upd_drqp f b = b\<lparr>drqp := f (drqp b)\<rparr>"

definition upd_device :: "nat \<Rightarrow> (disk_dev \<Rightarrow> disk_dev) \<Rightarrow> bio_dsk \<Rightarrow> bio_dsk" where
  "upd_device i f b = b\<lparr>devices := (devices b)(i := f (devices b i))\<rparr>"

lemma upd_drqp_fields [frame_simps, simp]:
  "drqp (upd_drqp f b) = f (drqp b)" "devices (upd_drqp f b) = devices b"
  "channels (upd_drqp f b) = channels b" "hdidmap (upd_drqp f b) = hdidmap b"
  "cdidmap (upd_drqp f b) = cdidmap b" "hdcount (upd_drqp f b) = hdcount b"
  "cdcount (upd_drqp f b) = cdcount b" "b_dpte (upd_drqp f b) = b_dpte b"
  by (simp_all add: upd_drqp_def)

lemma upd_device_fields [frame_simps, simp]:
  "drqp (upd_device i f b) = drqp b"
  "devices (upd_device i f b) = (devices b)(i := f (devices b i))"
  "channels (upd_device i f b) = channels b" "hdidmap (upd_device i f b) = hdidmap b"
  "cdidmap (upd_device i f b) = cdidmap b" "hdcount (upd_device i f b) = hdcount b"
  "cdcount (upd_device i f b) = cdcount b" "b_dpte (upd_device i f b) = b_dpte b"
  by (simp_all add: upd_device_def)

section \<open>Fallback geometry\<close>

fun geom_heads :: "nat \<Rightarrow> u32 \<Rightarrow> u32 \<Rightarrow> u16 \<Rightarrow> u16" where
  \<comment> \<open>the loop of \<open>set_geom_lba\<close>: rounds left, \<open>limit\<close>, \<open>heads\<close>\<close>
  "geom_heads 0 nsectors limit h = h"
| "geom_heads (Suc n) nsectors limit h =
     geom_heads n nsectors (limit div 2) (if nsectors \<le> limit then (h + 1) div 2 else h)"

definition set_geom_lba :: "u64 \<Rightarrow> chs" where
  "set_geom_lba nsectors64 =
     (let nsectors = (if drop_bit 32 nsectors64 \<noteq> 0 then 0xFFFFFFFF else ucast nsectors64 :: u32);
          h = geom_heads 4 nsectors 8257536 255;
          c = ucast (nsectors div (ucast h * 63)) :: u16
      in \<lparr>heads = h, cylinders = (if c > 1024 then 1024 else c), spt = 63\<rparr>)"

end
