(* ===== verification/Ata.thy ===== *)
theory Ata
  imports DiskData
begin

text \<open>
  The ATA/ATAPI driver of the PC BIOS (\<open>Devices/PC/BIOS/ata.c\<close>), in the 80386 configuration: the
  task file, PIO transfers in both widths, the data-in, data-out and packet commands, sector reads
  and writes, resets, and the detection of the drives at power-on. The drive behind the ports is the
  parameter \<open>hw\<close>; waiting for it to drop BSY is a loop with no bound, so every operation that waits
  has an optional result.
\<close>

section \<open>Registers and commands\<close>

abbreviation "ATA_CB_DATA \<equiv> (0 :: u16)"
abbreviation "ATA_CB_FR \<equiv> (1 :: u16)"
abbreviation "ATA_CB_SC \<equiv> (2 :: u16)"
abbreviation "ATA_CB_SN \<equiv> (3 :: u16)"
abbreviation "ATA_CB_CL \<equiv> (4 :: u16)"
abbreviation "ATA_CB_CH \<equiv> (5 :: u16)"
abbreviation "ATA_CB_DH \<equiv> (6 :: u16)"
abbreviation "ATA_CB_STAT \<equiv> (7 :: u16)"
abbreviation "ATA_CB_CMD \<equiv> (7 :: u16)"
abbreviation "ATA_CB_DC \<equiv> (6 :: u16)"

abbreviation "ATA_CB_DH_DEV0 \<equiv> (0xa0 :: u8)"
abbreviation "ATA_CB_DH_DEV1 \<equiv> (0xb0 :: u8)"
abbreviation "ATA_CB_DC_HD15 \<equiv> (0x08 :: u8)"
abbreviation "ATA_CB_DC_SRST \<equiv> (0x04 :: u8)"
abbreviation "ATA_CB_DC_NIEN \<equiv> (0x02 :: u8)"

abbreviation "ATA_CB_STAT_BSY \<equiv> (0x80 :: u8)"
abbreviation "ATA_CB_STAT_RDY \<equiv> (0x40 :: u8)"
abbreviation "ATA_CB_STAT_DF \<equiv> (0x20 :: u8)"
abbreviation "ATA_CB_STAT_DRQ \<equiv> (0x08 :: u8)"
abbreviation "ATA_CB_STAT_ERR \<equiv> (0x01 :: u8)"

abbreviation "ATA_MODE_PIO16 \<equiv> (0x00 :: u8)"
abbreviation "ATA_MODE_PIO32 \<equiv> (0x01 :: u8)"

abbreviation "ATA_CMD_DEVICE_RESET \<equiv> (0x08 :: u16)"
abbreviation "ATA_CMD_IDENTIFY_DEVICE \<equiv> (0xEC :: u16)"
abbreviation "ATA_CMD_IDENTIFY_PACKET \<equiv> (0xA1 :: u16)"
abbreviation "ATA_CMD_PACKET \<equiv> (0xA0 :: u16)"
abbreviation "ATA_CMD_READ_MULTIPLE \<equiv> (0xC4 :: u16)"
abbreviation "ATA_CMD_READ_SECTORS_EXT \<equiv> (0x24 :: u16)"
abbreviation "ATA_CMD_READ_MULTIPLE_EXT \<equiv> (0x29 :: u16)"
abbreviation "ATA_CMD_WRITE_SECTORS \<equiv> (0x30 :: u16)"
abbreviation "ATA_CMD_WRITE_SECTORS_EXT \<equiv> (0x34 :: u16)"

section \<open>Waiting and moving data\<close>

text \<open>\<open>while (1) { status = inb(port); if (!(status & ATA_CB_STAT_BSY)) break; }\<close>\<close>

partial_function (option) wait_not_busy ::
  "'d hw \<Rightarrow> u16 \<Rightarrow> 'd machine \<Rightarrow> (u8 \<times> 'd machine) option" where
  "wait_not_busy hw port m =
     (let (status, m') = inb hw port m
      in if status AND ATA_CB_STAT_BSY = 0 then Some (status, m') else wait_not_busy hw port m')"

text \<open>\<open>while (--max > 0) { status = inb(port); if (stop(status)) break; }\<close> with \<open>max - 1\<close> rounds left.\<close>

fun poll_max :: "'d hw \<Rightarrow> u16 \<Rightarrow> (u8 \<Rightarrow> bool) \<Rightarrow> nat \<Rightarrow> 'd machine \<Rightarrow> 'd machine" where
  "poll_max hw port stop 0 m = m"
| "poll_max hw port stop (Suc n) m =
     (let (status, m) = inb hw port m in if stop status then m else poll_max hw port stop n m)"

text \<open>\<open>rep insw\<close>, \<open>rep insd\<close>, \<open>rep outsw\<close>, \<open>rep outsd\<close>: the offset wraps, the segment stays.\<close>

fun rep_insw :: "'d hw \<Rightarrow> u16 \<Rightarrow> nat \<Rightarrow> far \<Rightarrow> 'd machine \<Rightarrow> far \<times> 'd machine" where
  "rep_insw hw port 0 p m = (p, m)"
| "rep_insw hw port (Suc n) p m =
     (let (v, m) = inw hw port m
      in rep_insw hw port n (fst p, snd p + 2) (write_word (fst p) (snd p) v m))"

fun rep_insd :: "'d hw \<Rightarrow> u16 \<Rightarrow> nat \<Rightarrow> far \<Rightarrow> 'd machine \<Rightarrow> far \<times> 'd machine" where
  "rep_insd hw port 0 p m = (p, m)"
| "rep_insd hw port (Suc n) p m =
     (let (v, m) = ind hw port m
      in rep_insd hw port n (fst p, snd p + 4) (write_dword (fst p) (snd p) v m))"

fun rep_outsw :: "'d hw \<Rightarrow> u16 \<Rightarrow> nat \<Rightarrow> far \<Rightarrow> 'd machine \<Rightarrow> far \<times> 'd machine" where
  "rep_outsw hw port 0 p m = (p, m)"
| "rep_outsw hw port (Suc n) p m =
     rep_outsw hw port n (fst p, snd p + 2) (outw hw port (read_word (fst p) (snd p) m) m)"

fun rep_outsd :: "'d hw \<Rightarrow> u16 \<Rightarrow> nat \<Rightarrow> far \<Rightarrow> 'd machine \<Rightarrow> far \<times> 'd machine" where
  "rep_outsd hw port 0 p m = (p, m)"
| "rep_outsd hw port (Suc n) p m =
     rep_outsd hw port n (fst p, snd p + 4) (outd hw port (read_dword (fst p) (snd p) m) m)"

text \<open>\<open>insw_discard\<close> and \<open>insd_discard\<close>, called with a count that is not 0.\<close>

fun insw_discard :: "'d hw \<Rightarrow> u16 \<Rightarrow> nat \<Rightarrow> 'd machine \<Rightarrow> 'd machine" where
  "insw_discard hw port 0 m = m"
| "insw_discard hw port (Suc n) m = insw_discard hw port n (snd (inw hw port m))"

fun insd_discard :: "'d hw \<Rightarrow> u16 \<Rightarrow> nat \<Rightarrow> 'd machine \<Rightarrow> 'd machine" where
  "insd_discard hw port 0 m = m"
| "insd_discard hw port (Suc n) m = insd_discard hw port n (snd (ind hw port m))"

definition outb_seq :: "'d hw \<Rightarrow> (u16 \<times> u8) list \<Rightarrow> 'd machine \<Rightarrow> 'd machine" where
  "outb_seq hw ws m = foldl (\<lambda>m (p, v). outb hw p v m) m ws"

definition ints_on :: "'d hw \<Rightarrow> ata_chan \<Rightarrow> 'd machine \<Rightarrow> 'd machine" where
  "ints_on hw ch m = outb hw (iobase2 ch + ATA_CB_DC) ATA_CB_DC_HD15 m"

definition adjust_overrun :: "far \<Rightarrow> far" where
  "adjust_overrun p = (if snd p \<ge> 0xF800 then (fst p + 0x80, snd p - 0x800) else p)"

section \<open>Initialisation and reset\<close>

definition no_chan :: ata_chan where
  "no_chan = \<lparr>iface = 0, irq = 0, iobase1 = 0, iobase2 = 0\<rparr>"

definition no_device :: disk_dev where
  "no_device = \<lparr>d_type = DSK_TYPE_NONE, d_device = DSK_DEVICE_NONE, removable = 0, lock = 0,
     d_mode = 0, translation = GEO_TRANSLATION_NONE, blksize = 0x200,
     lchs = \<lparr>heads = 0, cylinders = 0, spt = 0\<rparr>, pchs = \<lparr>heads = 0, cylinders = 0, spt = 0\<rparr>,
     sectors = 0\<rparr>"

definition ata_init :: "bio_dsk \<Rightarrow> bio_dsk" where
  "ata_init b = b\<lparr>
     channels := (\<lambda>i. if i < 4 then no_chan else channels b i),
     devices := (\<lambda>i. if i < BX_MAX_ATA_DEVICES then no_device else devices b i),
     hdidmap := (\<lambda>i. if i < BX_MAX_STORAGE_DEVICES then 20 else hdidmap b i),
     cdidmap := (\<lambda>i. if i < BX_MAX_STORAGE_DEVICES then 20 else cdidmap b i),
     hdcount := 0, cdcount := 0\<rparr>"

definition dh_select :: "u8 \<Rightarrow> u8" where
  "dh_select device = (if device mod 2 \<noteq> 0 then ATA_CB_DH_DEV1 else ATA_CB_DH_DEV0)"

definition ata_reset :: "'d hw \<Rightarrow> bio_dsk \<Rightarrow> u8 \<Rightarrow> 'd machine \<Rightarrow> 'd machine" where
  "ata_reset hw b device m =
     (let ch = channels b (unat device div 2);
          m = outb hw (iobase2 ch + ATA_CB_DC) (ATA_CB_DC_HD15 OR ATA_CB_DC_NIEN OR ATA_CB_DC_SRST) m;
          m = poll_max hw (iobase1 ch + ATA_CB_STAT) (\<lambda>st. st AND ATA_CB_STAT_BSY \<noteq> 0) 0xfe m;
          m = outb hw (iobase2 ch + ATA_CB_DC) (ATA_CB_DC_HD15 OR ATA_CB_DC_NIEN) m;
          \<comment> \<open>the delay loop on \<open>pdelay\<close> has no effect\<close>
          m = poll_max hw (iobase1 ch + ATA_CB_STAT) (\<lambda>st. st AND ATA_CB_STAT_BSY = 0) 0xfffe m;
          m = (if d_type (devices b (unat device)) \<noteq> DSK_TYPE_NONE then
                 let m = outb hw (iobase1 ch + ATA_CB_DH) (dh_select device) m;
                     (sc, m) = inb hw (iobase1 ch + ATA_CB_SC) m;
                     (sn, m) = inb hw (iobase1 ch + ATA_CB_SN) m
                 in if sc = 0x01 \<and> sn = 0x01
                    then poll_max hw (iobase1 ch + ATA_CB_STAT)
                           (\<lambda>st. st AND ATA_CB_STAT_RDY \<noteq> 0) 0xf m
                    else m
               else m)
      in ints_on hw ch m)"

section \<open>Data-in commands\<close>

definition pio_words :: "u8 \<Rightarrow> u16 \<Rightarrow> u16" where
  \<comment> \<open>transfer units (words or double words) for one block; a size of 0 stands for 64K\<close>
  "pio_words mode sz =
     (if sz = 0 then (if mode = ATA_MODE_PIO32 then 0x4000 else 0x8000)
      else if mode = ATA_MODE_PIO32 then drop_bit 2 sz else drop_bit 1 sz)"

definition needs_ext :: "u64 \<Rightarrow> u16 \<Rightarrow> bool" where
  "needs_ext lba count \<longleftrightarrow> lba + ucast count \<ge> 268435456"

text \<open>
  The register writes of \<open>ata_cmd_data_in\<close>, in order. Its locals \<open>sector\<close> and \<open>head\<close> are bytes,
  \<open>cylinder\<close> is a word.
\<close>

definition hob_writes :: "u16 \<Rightarrow> u64 \<Rightarrow> u16 \<Rightarrow> (u16 \<times> u8) list" where
  "hob_writes b1 lba count =
     (let cylinder = ucast (drop_bit 32 lba) :: u16
      in [(b1 + ATA_CB_SC, hi8 count), (b1 + ATA_CB_SN, ucast (drop_bit 24 lba)),
          (b1 + ATA_CB_CL, lo8 cylinder), (b1 + ATA_CB_CH, hi8 cylinder)])"

definition task_writes ::
  "ata_chan \<Rightarrow> u8 \<Rightarrow> u16 \<Rightarrow> u16 \<Rightarrow> u8 \<Rightarrow> u16 \<Rightarrow> u8 \<Rightarrow> (u16 \<times> u8) list" where
  "task_writes ch device command count sector cylinder head =
     [(iobase2 ch + ATA_CB_DC, ATA_CB_DC_HD15 OR ATA_CB_DC_NIEN),
      (iobase1 ch + ATA_CB_FR, 0x00),
      (iobase1 ch + ATA_CB_SC, ucast count),
      (iobase1 ch + ATA_CB_SN, sector),
      (iobase1 ch + ATA_CB_CL, lo8 cylinder),
      (iobase1 ch + ATA_CB_CH, hi8 cylinder),
      (iobase1 ch + ATA_CB_DH, dh_select device OR head),
      (iobase1 ch + ATA_CB_CMD, ucast command)]"

definition setup_in :: "ata_chan \<Rightarrow> disk_req \<Rightarrow> u16 \<Rightarrow> u16 \<Rightarrow> (u16 \<times> u8) list" where
  "setup_in ch r command count =
     (let lba = rq_lba r; sector = ucast (rq_sector r) :: u8
      in if sector = 0 then
           (if needs_ext lba count then hob_writes (iobase1 ch) lba count else []) @
           task_writes ch (rq_dev_id r) command count
             (ucast lba) (ucast (drop_bit 8 lba)) (ucast (drop_bit 24 lba AND 0xf) OR 0x40)
         else task_writes ch (rq_dev_id r) command count sector (rq_cylinder r) (ucast (rq_head r)))"

definition rep_in :: "'d hw \<Rightarrow> u8 \<Rightarrow> u16 \<Rightarrow> nat \<Rightarrow> far \<Rightarrow> 'd machine \<Rightarrow> far \<times> 'd machine" where
  "rep_in hw mode port n p m =
     (if mode = ATA_MODE_PIO32 then rep_insd hw port n p m else rep_insw hw port n p m)"

text \<open>
  The transfer loop: one block, then the status. \<open>count\<close> is the 16-bit count of blocks still to
  come; a count of 0 wraps.
\<close>

function data_in_loop ::
  "'d hw \<Rightarrow> ata_chan \<Rightarrow> u8 \<Rightarrow> u16 \<Rightarrow> u16 \<Rightarrow> u16 \<Rightarrow> far \<Rightarrow> bio_dsk \<Rightarrow> 'd machine \<Rightarrow>
     (u16 \<times> bio_dsk \<times> 'd machine) option" where
  "data_in_loop hw ch mode words mult_blk_cnt count p b m =
     (let (p, m) = rep_in hw mode (iobase1 ch) (unat words) (adjust_overrun p) m;
          b = upd_drqp (\<lambda>r. r\<lparr>trsfsectors := trsfsectors r + mult_blk_cnt\<rparr>) b;
          count = count - 1
      in case wait_not_busy hw (iobase1 ch + ATA_CB_STAT) m of
           None \<Rightarrow> None
         | Some (status, m) \<Rightarrow>
             (let st = status AND (ATA_CB_STAT_BSY OR ATA_CB_STAT_RDY OR ATA_CB_STAT_DRQ
                                   OR ATA_CB_STAT_ERR)
              in if count = 0 then
                   Some (if st \<noteq> ATA_CB_STAT_RDY then 4 else 0, b, ints_on hw ch m)
                 else if st \<noteq> ATA_CB_STAT_RDY OR ATA_CB_STAT_DRQ then Some (5, b, ints_on hw ch m)
                 else data_in_loop hw ch mode words mult_blk_cnt count p b m))"
  by pat_completeness auto

lemma count_decreases: "(c :: u16) - 1 \<noteq> 0 \<Longrightarrow> unat (c - 2) < unat (c - 1)"
proof -
  assume "c - 1 \<noteq> 0"
  then have "unat (c - 1 - 1) < unat (c - 1)" by (rule unat_pred_less)
  then show ?thesis by (simp add: diff_diff_eq)
qed

termination data_in_loop
  by (relation "measure (\<lambda>(_, _, _, _, _, c, _, _, _). unat (c - 1))")
    (auto intro!: count_decreases)

declare data_in_loop.simps [simp del]

definition ata_cmd_data_in ::
  "'d hw \<Rightarrow> bio_dsk \<Rightarrow> u16 \<Rightarrow> u16 \<Rightarrow> 'd machine \<Rightarrow> (u16 \<times> bio_dsk \<times> 'd machine) option" where
  "ata_cmd_data_in hw b command count m =
     (let device = rq_dev_id (drqp b); ch = channels b (unat device div 2);
          mode = d_mode (devices b (unat device));
          words = pio_words mode (blksize (devices b (unat device)));
          (status, m) = inb hw (iobase1 ch + ATA_CB_STAT) m
      in if status AND ATA_CB_STAT_BSY \<noteq> 0 then Some (1, b, ints_on hw ch m)
         else
           let m = outb_seq hw (setup_in ch (drqp b) command count) m;
               multiple = (command = ATA_CMD_READ_MULTIPLE \<or> command = ATA_CMD_READ_MULTIPLE_EXT);
               mult_blk_cnt = (if multiple then count else 1);
               count = (if multiple then 1 else count)
           in case wait_not_busy hw (iobase1 ch + ATA_CB_STAT) m of
                None \<Rightarrow> None
              | Some (status, m) \<Rightarrow>
                  if status AND ATA_CB_STAT_ERR \<noteq> 0 then Some (2, b, ints_on hw ch m)
                  else if status AND ATA_CB_STAT_DRQ = 0 then Some (3, b, ints_on hw ch m)
                  else data_in_loop hw ch mode words mult_blk_cnt count (rq_buffer (drqp b)) b
                         (int_enable m))"

section \<open>Data-out commands\<close>

definition setup_out :: "ata_chan \<Rightarrow> disk_req \<Rightarrow> u16 \<Rightarrow> u16 \<Rightarrow> (u16 \<times> u8) list" where
  "setup_out ch r command count =
     (let lba = rq_lba r
      in if rq_sector r = 0 then
           (let ext = needs_ext lba count;
                lba' = (if ext then lba AND 0xffffff else lba)
            in (if ext then hob_writes (iobase1 ch) lba count else []) @
               task_writes ch (rq_dev_id r) command count
                 (ucast lba') (ucast (drop_bit 8 lba')) (ucast (drop_bit 24 lba' AND 0xf) OR 0x40))
         else task_writes ch (rq_dev_id r) command count
                (ucast (rq_sector r)) (rq_cylinder r) (ucast (rq_head r)))"

definition rep_out :: "'d hw \<Rightarrow> u8 \<Rightarrow> u16 \<Rightarrow> nat \<Rightarrow> far \<Rightarrow> 'd machine \<Rightarrow> far \<times> 'd machine" where
  "rep_out hw mode port n p m =
     (if mode = ATA_MODE_PIO32 then rep_outsd hw port n p m else rep_outsw hw port n p m)"

function data_out_loop ::
  "'d hw \<Rightarrow> ata_chan \<Rightarrow> u8 \<Rightarrow> u16 \<Rightarrow> u16 \<Rightarrow> far \<Rightarrow> bio_dsk \<Rightarrow> 'd machine \<Rightarrow>
     (u16 \<times> bio_dsk \<times> 'd machine) option" where
  "data_out_loop hw ch mode words count p b m =
     (let (p, m) = rep_out hw mode (iobase1 ch) (unat words) (adjust_overrun p) m;
          b = upd_drqp (\<lambda>r. r\<lparr>trsfsectors := trsfsectors r + 1\<rparr>) b;
          count = count - 1
      in case wait_not_busy hw (iobase1 ch + ATA_CB_STAT) m of
           None \<Rightarrow> None
         | Some (status, m) \<Rightarrow>
             if count = 0 then
               Some (if status AND (ATA_CB_STAT_BSY OR ATA_CB_STAT_RDY OR ATA_CB_STAT_DF
                        OR ATA_CB_STAT_DRQ OR ATA_CB_STAT_ERR) \<noteq> ATA_CB_STAT_RDY then 6 else 0,
                     b, ints_on hw ch m)
             else if status AND (ATA_CB_STAT_BSY OR ATA_CB_STAT_RDY OR ATA_CB_STAT_DRQ
                        OR ATA_CB_STAT_ERR) \<noteq> ATA_CB_STAT_RDY OR ATA_CB_STAT_DRQ
                  then Some (7, b, ints_on hw ch m)
             else data_out_loop hw ch mode words count p b m)"
  by pat_completeness auto

termination data_out_loop
  by (relation "measure (\<lambda>(_, _, _, _, c, _, _, _). unat (c - 1))")
    (auto intro!: count_decreases)

declare data_out_loop.simps [simp del]

definition ata_cmd_data_out ::
  "'d hw \<Rightarrow> bio_dsk \<Rightarrow> u16 \<Rightarrow> u16 \<Rightarrow> 'd machine \<Rightarrow> (u16 \<times> bio_dsk \<times> 'd machine) option" where
  "ata_cmd_data_out hw b command count m =
     (let device = rq_dev_id (drqp b); ch = channels b (unat device div 2);
          mode = d_mode (devices b (unat device));
          words = (if mode = ATA_MODE_PIO32 then drop_bit 2 0x200 else drop_bit 1 0x200);
          (status, m) = inb hw (iobase1 ch + ATA_CB_STAT) m
      in if status AND ATA_CB_STAT_BSY \<noteq> 0 then Some (1, b, ints_on hw ch m)
         else
           let m = outb_seq hw (setup_out ch (drqp b) command count) m
           in case wait_not_busy hw (iobase1 ch + ATA_CB_STAT) m of
                None \<Rightarrow> None
              | Some (status, m) \<Rightarrow>
                  if status AND ATA_CB_STAT_ERR \<noteq> 0 then Some (2, b, ints_on hw ch m)
                  else if status AND ATA_CB_STAT_DRQ = 0 then Some (3, b, ints_on hw ch m)
                  else data_out_loop hw ch mode words count (rq_buffer (drqp b)) b (int_enable m))"

section \<open>Reading and writing sectors\<close>

definition set_blksize :: "u8 \<Rightarrow> u16 \<Rightarrow> bio_dsk \<Rightarrow> bio_dsk" where
  "set_blksize device n b = upd_device (unat device) (\<lambda>d. d\<lparr>blksize := n\<rparr>) b"

definition read_multiple ::
  "'d hw \<Rightarrow> bio_dsk \<Rightarrow> 'd machine \<Rightarrow> (u16 \<times> bio_dsk \<times> 'd machine) option" where
  \<comment> \<open>the block of the device is made as long as the whole request for the one command\<close>
  "read_multiple hw b m =
     (let device_id = rq_dev_id (drqp b); n_sect = rq_nsect (drqp b)
      in map_option (\<lambda>(status, b, m). (status, set_blksize device_id 0x200 b, m))
           (ata_cmd_data_in hw (set_blksize device_id (n_sect * 0x200) b) ATA_CMD_READ_MULTIPLE
              n_sect m))"

definition ata_read_sectors ::
  "'d hw \<Rightarrow> bio_dsk \<Rightarrow> 'd machine \<Rightarrow> (u16 \<times> bio_dsk \<times> 'd machine) option" where
  "ata_read_sectors hw b m =
     (let r = drqp b
      in if rq_sector r \<noteq> 0 then read_multiple hw b m
         else if needs_ext (rq_lba r) (rq_nsect r)
         then ata_cmd_data_in hw b ATA_CMD_READ_SECTORS_EXT (rq_nsect r) m
         else read_multiple hw b m)"

definition ata_write_sectors ::
  "'d hw \<Rightarrow> bio_dsk \<Rightarrow> 'd machine \<Rightarrow> (u16 \<times> bio_dsk \<times> 'd machine) option" where
  "ata_write_sectors hw b m =
     (let r = drqp b
      in if rq_sector r \<noteq> 0 then ata_cmd_data_out hw b ATA_CMD_WRITE_SECTORS (rq_nsect r) m
         else if needs_ext (rq_lba r) (rq_nsect r)
         then ata_cmd_data_out hw b ATA_CMD_WRITE_SECTORS_EXT (rq_nsect r) m
         else ata_cmd_data_out hw b ATA_CMD_WRITE_SECTORS (rq_nsect r) m)"

section \<open>Packet commands\<close>

abbreviation "ATA_DATA_NO \<equiv> (0x00 :: u8)"
abbreviation "ATA_DATA_IN \<equiv> (0x01 :: u8)"
abbreviation "ATA_DATA_OUT \<equiv> (0x02 :: u8)"

definition normalize_far :: "far \<Rightarrow> far" where
  "normalize_far p = (fst p + snd p div 16, snd p mod 16)"

text \<open>
  How one burst of \<open>lcount\<close> bytes is divided: bytes to skip before (the rest of \<open>header\<close>), bytes
  for the caller, bytes to skip after; with the new \<open>header\<close> and \<open>length\<close>.
\<close>

definition split_burst :: "u16 \<Rightarrow> u16 \<Rightarrow> u32 \<Rightarrow> u16 \<times> u16 \<times> u16 \<times> u16 \<times> u32" where
  "split_burst lcount header len =
     (let (lbefore, header, lcount) =
            (if header > lcount then (lcount, header - lcount, 0)
             else (header, 0, lcount - header));
          (lafter, lcount, len) =
            (if ucast lcount > len then (ucast (ucast lcount - len), ucast len, 0)
             else (0, lcount, len - ucast lcount))
      in (lbefore, lcount, lafter, header, len))"

definition burst_mode :: "u8 \<Rightarrow> u16 \<Rightarrow> u16 \<Rightarrow> u16 \<Rightarrow> u8" where
  "burst_mode mode lbefore lcount lafter =
     (if lbefore AND 3 \<noteq> 0 \<or> lcount AND 3 \<noteq> 0 \<or> lafter AND 3 \<noteq> 0 then ATA_MODE_PIO16 else mode)"

definition read_burst ::
  "'d hw \<Rightarrow> u8 \<Rightarrow> u16 \<Rightarrow> u16 \<Rightarrow> u16 \<Rightarrow> u16 \<Rightarrow> far \<Rightarrow> 'd machine \<Rightarrow> 'd machine" where
  "read_burst hw mode port lbefore lcount lafter p m =
     (let lmode = burst_mode mode lbefore lcount lafter;
          (lcount, lafter) =
            (if lcount AND 1 \<noteq> 0
             then (lcount + 1, if lafter > 0 \<and> lafter AND 1 \<noteq> 0 then lafter - 1 else lafter)
             else (lcount, lafter))
      in if lmode = ATA_MODE_PIO32 then
           let m = insd_discard hw port (unat (drop_bit 2 lbefore)) m;
               m = snd (rep_insd hw port (unat (drop_bit 2 lcount)) p m)
           in insd_discard hw port (unat (drop_bit 2 lafter)) m
         else
           let m = insw_discard hw port (unat (drop_bit 1 lbefore)) m;
               m = snd (rep_insw hw port (unat (drop_bit 1 lcount)) p m)
           in insw_discard hw port (unat (drop_bit 1 lafter)) m)"

text \<open>
  The data phase: it ends with the last status when the drive has neither BSY nor DRQ set, and with
  the error code 3 or 4 otherwise. A drive that offers data without end keeps it going.
\<close>

partial_function (option) packet_data ::
  "'d hw \<Rightarrow> ata_chan \<Rightarrow> u8 \<Rightarrow> u16 \<Rightarrow> u32 \<Rightarrow> far \<Rightarrow> u32 \<Rightarrow> bio_dsk \<Rightarrow> 'd machine \<Rightarrow>
     ((u16 + u8) \<times> bio_dsk \<times> 'd machine) option" where
  "packet_data hw ch mode header len p transfer b m =
     (case wait_not_busy hw (iobase1 ch + ATA_CB_STAT) m of
        None \<Rightarrow> None
      | Some (status, m) \<Rightarrow>
          if status AND (ATA_CB_STAT_BSY OR ATA_CB_STAT_DRQ) = 0 then Some (Inr status, b, m)
          else if status AND ATA_CB_STAT_ERR \<noteq> 0 then Some (Inl 3, b, ints_on hw ch m)
          else if status AND (ATA_CB_STAT_BSY OR ATA_CB_STAT_RDY OR ATA_CB_STAT_DRQ
                    OR ATA_CB_STAT_ERR) \<noteq> ATA_CB_STAT_RDY OR ATA_CB_STAT_DRQ
          then Some (Inl 4, b, ints_on hw ch m)
          else
            let p = normalize_far p;
                (hi, m) = inb hw (iobase1 ch + ATA_CB_CH) m;
                (lo, m) = inb hw (iobase1 ch + ATA_CB_CL) m;
                (lbefore, lcount, lafter, header, len) = split_burst (mk16 hi lo) header len;
                m = read_burst hw mode (iobase1 ch) lbefore lcount lafter p m;
                transfer = transfer + ucast lcount;
                b = upd_drqp (\<lambda>r. r\<lparr>trsfbytes := transfer\<rparr>) b
            in packet_data hw ch mode header len (fst p, snd p + lcount) transfer b m)"

definition final_ready :: "u8 \<Rightarrow> bool" where
  "final_ready status \<longleftrightarrow>
     status AND (ATA_CB_STAT_BSY OR ATA_CB_STAT_RDY OR ATA_CB_STAT_DF OR ATA_CB_STAT_DRQ
       OR ATA_CB_STAT_ERR) = ATA_CB_STAT_RDY"

definition setup_packet :: "ata_chan \<Rightarrow> u8 \<Rightarrow> (u16 \<times> u8) list" where
  "setup_packet ch device =
     [(iobase2 ch + ATA_CB_DC, ATA_CB_DC_HD15 OR ATA_CB_DC_NIEN),
      (iobase1 ch + ATA_CB_CL, 0xf0),
      (iobase1 ch + ATA_CB_CH, 0xff),
      (iobase1 ch + ATA_CB_DH, dh_select device),
      (iobase1 ch + ATA_CB_CMD, ucast ATA_CMD_PACKET)]"

definition ata_cmd_packet ::
  "'d hw \<Rightarrow> bio_dsk \<Rightarrow> u8 \<Rightarrow> u8 \<Rightarrow> far \<Rightarrow> u16 \<Rightarrow> u32 \<Rightarrow> u8 \<Rightarrow> far \<Rightarrow> 'd machine \<Rightarrow>
     (u16 \<times> bio_dsk \<times> 'd machine) option" where
  "ata_cmd_packet hw b device cmdlen cmdbuf header len inout buffer m =
     (if inout = ATA_DATA_OUT then
        Some (1, b, bx_info ''ata_cmd_packet: DATA_OUT not supported yet\<newline>'' [] m)
      else if header AND 1 \<noteq> 0 then Some (1, b, m)
      else
        let ch = channels b (unat device div 2);
            mode = d_mode (devices b (unat device));
            cmdwords = (if cmdlen > 12 then 8 else 6);
            b = upd_drqp (\<lambda>r. r\<lparr>trsfsectors := 0, trsfbytes := 0\<rparr>) b;
            (status, m) = inb hw (iobase1 ch + ATA_CB_STAT) m
        in if status AND ATA_CB_STAT_BSY \<noteq> 0 then Some (2, b, m)
           else case wait_not_busy hw (iobase1 ch + ATA_CB_STAT)
                       (outb_seq hw (setup_packet ch device) m) of
             None \<Rightarrow> None
           | Some (status, m) \<Rightarrow>
               if status AND ATA_CB_STAT_ERR \<noteq> 0 then Some (3, b, ints_on hw ch m)
               else if status AND ATA_CB_STAT_DRQ = 0 then Some (4, b, ints_on hw ch m)
               else
                 let m = snd (rep_outsw hw (iobase1 ch) cmdwords (normalize_far cmdbuf) (int_enable m))
                 in case (if inout = ATA_DATA_NO
                          then (let (status, m) = inb hw (iobase1 ch + ATA_CB_STAT) m
                                in Some (Inr status, b, m))
                          else packet_data hw ch mode header len buffer 0 b m) of
                      None \<Rightarrow> None
                    | Some (Inl rc, b, m) \<Rightarrow> Some (rc, b, m)
                    | Some (Inr status, b, m) \<Rightarrow>
                        Some (if final_ready status then 0 else 4, b, ints_on hw ch m))"

definition ata_soft_reset :: "'d hw \<Rightarrow> bio_dsk \<Rightarrow> u8 \<Rightarrow> 'd machine \<Rightarrow> (u16 \<times> 'd machine) option" where
  "ata_soft_reset hw b device m =
     (let ch = channels b (unat device div 2);
          m = outb_seq hw
            [(iobase2 ch + ATA_CB_DC, ATA_CB_DC_HD15 OR ATA_CB_DC_NIEN),
             (iobase1 ch + ATA_CB_DH, dh_select device),
             (iobase1 ch + ATA_CB_CMD, ucast ATA_CMD_DEVICE_RESET)] m
      in case wait_not_busy hw (iobase1 ch + ATA_CB_STAT) m of
           None \<Rightarrow> None
         | Some (status, m) \<Rightarrow>
             Some (if final_ready status then 0 else 1, ints_on hw ch m))"

section \<open>Detection\<close>

definition ata_signature ::
  "'d hw \<Rightarrow> u16 \<Rightarrow> bool \<Rightarrow> 'd machine \<Rightarrow> (u8 \<times> 'd machine) option" where
  "ata_signature hw b1 slave m =
     (let m = outb hw (b1 + ATA_CB_DH) (if slave then ATA_CB_DH_DEV1 else ATA_CB_DH_DEV0) m
      in case wait_not_busy hw (b1 + ATA_CB_STAT) m of
           None \<Rightarrow> None
         | Some (st, m) \<Rightarrow>
             (let (sc, m) = inb hw (b1 + ATA_CB_SC) m; (sn, m) = inb hw (b1 + ATA_CB_SN) m
              in if sc = 1 \<and> sn = 1 then
                   let (cl, m) = inb hw (b1 + ATA_CB_CL) m; (chi, m) = inb hw (b1 + ATA_CB_CH) m
                   in Some (if cl = 0x14 \<and> chi = 0xEB then DSK_TYPE_ATAPI
                            else if cl = 0 \<and> chi = 0
                            then (if st \<noteq> 0 then DSK_TYPE_ATA else DSK_TYPE_NONE)
                            else DSK_TYPE_UNKNOWN, m)
                 else Some (DSK_TYPE_NONE, m)))"

text \<open>
  What \<open>ata_detect\<close> takes from its surroundings: the PCI BIOS lookup of an IDE controller
  (\<open>pci_find_class_noif\<close>), the stack buffer for the IDENTIFY data, the data segment and the addresses
  of its two string constants.
\<close>

record 'd detect_env =
  pci_find_class_noif :: "u16 \<Rightarrow> 'd machine \<Rightarrow> u16 \<times> 'd machine"
  id_buffer :: far
  data_seg :: u16
  str_slave :: u16
  str_master :: u16

definition buf_byte :: "far \<Rightarrow> u16 \<Rightarrow> 'd machine \<Rightarrow> u8" where
  "buf_byte p i m = read_byte (fst p) (snd p + i) m"

definition buf_word :: "far \<Rightarrow> u16 \<Rightarrow> 'd machine \<Rightarrow> u16" where
  "buf_word p i m = read_word (fst p) (snd p + i) m"

definition buf_dword :: "far \<Rightarrow> u16 \<Rightarrow> 'd machine \<Rightarrow> u32" where
  "buf_dword p i m = read_dword (fst p) (snd p + i) m"

definition isa_chan :: "u16 \<Rightarrow> u16 \<Rightarrow> u8 \<Rightarrow> ata_chan" where
  "isa_chan b1 b2 i = \<lparr>iface = 0, irq = i, iobase1 = b1, iobase2 = b2\<rparr>"

definition isa_channels :: "bio_dsk \<Rightarrow> bio_dsk" where
  "isa_channels b = b\<lparr>channels := (channels b)(0 := isa_chan 0x1f0 0x3f0 14,
     1 := isa_chan 0x170 0x370 15, 2 := isa_chan 0x1e8 0x3e0 12, 3 := isa_chan 0x168 0x360 11)\<rparr>"

definition chsgeo_base :: "u8 \<Rightarrow> u8" where
  "chsgeo_base device =
     (if device = 0 then 0x1e else if device = 1 then 0x26 else if device = 2 then 0x67
      else if device = 3 then 0x70 else 0)"

definition logical_geometry :: "'d hw \<Rightarrow> u8 \<Rightarrow> u64 \<Rightarrow> 'd machine \<Rightarrow> chs \<times> 'd machine" where
  "logical_geometry hw device nsectors m =
     (let base = chsgeo_base device
      in if base \<noteq> 0 then
           let (c0, m) = inb_cmos hw base m; (c1, m) = inb_cmos hw (base + 1) m;
               (h, m) = inb_cmos hw (base + 2) m; (s, m) = inb_cmos hw (base + 7) m
           in (\<lparr>heads = ucast h, cylinders = ucast c0 + push_bit 8 (ucast c1), spt = ucast s\<rparr>, m)
         else (set_geom_lba nsectors, m))"

text \<open>The fixed disk parameter table of disk 0 or 1, with its checksum, and its interrupt vector.\<close>

definition sum_bytes :: "u16 \<Rightarrow> u16 \<Rightarrow> nat \<Rightarrow> 'd machine \<Rightarrow> u8" where
  "sum_bytes seg off n m = sum_list (map (\<lambda>i. read_byte seg (off + of_nat i) m) [0..<n])"

definition write_fdpt ::
  "u16 \<Rightarrow> u8 \<Rightarrow> chs \<Rightarrow> u16 \<Rightarrow> u16 \<Rightarrow> u16 \<Rightarrow> 'd machine \<Rightarrow> 'd machine" where
  "write_fdpt ebda_seg device lgeo cyls hds sp m =
     (let fd = (if device = 0 then 0x3D else 0x4D) :: u16;
          vec = (0x41 + ucast device * 5) * 4 :: u16;
          m = write_word 0 (vec + 2) ebda_seg (write_word 0 vec fd m);
          m = write_dword ebda_seg (fd + 5) 0 (write_word ebda_seg (fd + 12) 0 m);
          m = write_word ebda_seg fd (cylinders lgeo) m;
          m = write_byte ebda_seg (fd + 2) (ucast (heads lgeo)) m;
          m = write_byte ebda_seg (fd + 3) 0xa0 m;
          m = write_byte ebda_seg (fd + 4) (ucast sp) m;
          m = write_word ebda_seg (fd + 9) cyls m;
          m = write_byte ebda_seg (fd + 11) (ucast hds) m;
          m = write_byte ebda_seg (fd + 14) (ucast (spt lgeo)) m
      in write_byte ebda_seg (fd + 15) (- sum_bytes ebda_seg fd 15 m) m)"

definition screen_printf ::
  "'d hw \<Rightarrow> u16 \<Rightarrow> string \<Rightarrow> u16 list \<Rightarrow> 'd machine \<Rightarrow> 'd machine option" where
  "screen_printf hw ds fmt args m =
     map_option end_machine
       (bios_printf hw ds BIOS_PRINTF_SCREEN fmt (\<lambda>i. if i < length args then args ! i else 0) m)"

text \<open>
  IDENTIFY DEVICE: the drive's answer is read into the stack buffer, and the device entry, the FDPT
  and the disk map are filled in from it. The first component of a result is how the BIOS stopped.
\<close>

definition ident_sectors :: "far \<Rightarrow> 'd machine \<Rightarrow> u64" where
  "ident_sectors p m =
     (let n = buf_dword p 120 m
      in if n = 0x0FFFFFFF
         then push_bit 32 (ucast (buf_dword p 204 m)) OR ucast (buf_dword p 200 m)
         else ucast n)"

definition temp_transfer :: "far \<Rightarrow> u8 \<Rightarrow> u8 \<Rightarrow> bio_dsk \<Rightarrow> bio_dsk" where
  \<comment> \<open>"temporary values to do the transfer"\<close>
  "temp_transfer p device kind b =
     upd_drqp (\<lambda>r. r\<lparr>rq_buffer := p, rq_dev_id := device\<rparr>)
       (upd_device (unat device) (\<lambda>d. d\<lparr>d_device := kind, d_mode := ATA_MODE_PIO16\<rparr>) b)"

definition identify_ata ::
  "'d hw \<Rightarrow> 'd detect_env \<Rightarrow> u16 \<Rightarrow> u8 \<Rightarrow> u8 \<Rightarrow> bio_dsk \<Rightarrow> 'd machine \<Rightarrow>
     ('d machine stop + bio_dsk \<times> 'd machine) option" where
  "identify_ata hw env ebda_seg device hdcnt b m =
     (let p = id_buffer env
      in case ata_cmd_data_in hw (temp_transfer p device DSK_DEVICE_HD b) ATA_CMD_IDENTIFY_DEVICE 1 m of
           None \<Rightarrow> None
         | Some (rc, b, m) \<Rightarrow>
             if rc \<noteq> 0
             then Some (Inl (bx_panic ''ata-detect: Failed to detect ATA device\<newline>'' [] m))
             else
               let rem = (if buf_byte p 0 m AND 0x80 \<noteq> 0 then 1 else 0);
                   mode = (if buf_byte p 96 m \<noteq> 0 then ATA_MODE_PIO32 else ATA_MODE_PIO16);
                   cyls = buf_word p 2 m; hds = buf_word p 6 m; sp = buf_word p 12 m;
                   nsectors = ident_sectors p m;
                   (lgeo, m) = logical_geometry hw device nsectors m;
                   m = bx_info ''ata%d-%d: PCHS=%u/%u/%u LCHS=%u/%u/%u\<newline>''
                     [ucast (device div 2), ucast (device mod 2), cyls, hds, sp,
                      cylinders lgeo, heads lgeo, spt lgeo] m;
                   b = upd_device (unat device)
                     (\<lambda>d. d\<lparr>d_device := DSK_DEVICE_HD, removable := rem, d_mode := mode,
                        blksize := 512, pchs := \<lparr>heads = hds, cylinders = cyls, spt = sp\<rparr>,
                        sectors := nsectors, lchs := lgeo\<rparr>) b;
                   m = (if device < 2 then write_fdpt ebda_seg device lgeo cyls hds sp m else m)
               in Some (Inr (b\<lparr>hdidmap := (hdidmap b)(unat hdcnt := device)\<rparr>, m)))"

definition identify_atapi ::
  "'d hw \<Rightarrow> 'd detect_env \<Rightarrow> u8 \<Rightarrow> u8 \<Rightarrow> bio_dsk \<Rightarrow> 'd machine \<Rightarrow>
     ('d machine stop + bio_dsk \<times> 'd machine) option" where
  "identify_atapi hw env device cdcnt b m =
     (let p = id_buffer env
      in case ata_cmd_data_in hw (temp_transfer p device DSK_DEVICE_CDROM b) ATA_CMD_IDENTIFY_PACKET 1 m of
           None \<Rightarrow> None
         | Some (rc, b, m) \<Rightarrow>
             if rc \<noteq> 0
             then Some (Inl (bx_panic ''ata-detect: Failed to detect ATAPI device\<newline>'' [] m))
             else
               let b = upd_device (unat device)
                 (\<lambda>d. d\<lparr>d_device := buf_byte p 1 m AND 0x1f,
                    removable := (if buf_byte p 0 m AND 0x80 \<noteq> 0 then 1 else 0),
                    d_mode := (if buf_byte p 96 m \<noteq> 0 then ATA_MODE_PIO32 else ATA_MODE_PIO16),
                    blksize := 2048\<rparr>) b
               in Some (Inr (b\<lparr>cdidmap := (cdidmap b)(unat cdcnt := device)\<rparr>, m)))"

text \<open>The line on the screen that names the drive: version and model from the IDENTIFY data.\<close>

definition ata_version :: "far \<Rightarrow> 'd machine \<Rightarrow> u8" where
  "ata_version p m =
     (let v = mk16 (buf_byte p 161 m) (buf_byte p 160 m)
      in case find (bit v) (rev [1..<16]) of None \<Rightarrow> 0 | Some i \<Rightarrow> of_nat i)"

definition model_name :: "far \<Rightarrow> 'd machine \<Rightarrow> u8 list" where
  \<comment> \<open>bytes swapped in pairs, trailing blanks of bytes 39 down to 1 cut, up to the first NUL\<close>
  "model_name p m =
     (let raw = concat (map (\<lambda>i. [buf_byte p (of_nat i * 2 + 55) m, buf_byte p (of_nat i * 2 + 54) m])
                  [0..<20]);
          cut = hd raw # rev (dropWhile (\<lambda>c. c = 0x20) (rev (tl raw)))
      in takeWhile (\<lambda>c. c \<noteq> 0) cut)"

fun print_chars :: "'d hw \<Rightarrow> u16 \<Rightarrow> u8 list \<Rightarrow> 'd machine \<Rightarrow> 'd machine option" where
  "print_chars hw ds [] m = Some m"
| "print_chars hw ds (c # cs) m =
     Option.bind (screen_printf hw ds ''%c'' [ucast c] m) (print_chars hw ds cs)"

definition describe_device ::
  "'d hw \<Rightarrow> 'd detect_env \<Rightarrow> u8 \<Rightarrow> u8 \<Rightarrow> bio_dsk \<Rightarrow> 'd machine \<Rightarrow> 'd machine option" where
  "describe_device hw env device kind b m =
     (let p = id_buffer env; ds = data_seg env; version = ucast (ata_version p m) :: u16;
          channel = ucast (device div 2) :: u16;
          which = (if device mod 2 \<noteq> 0 then str_slave env else str_master env);
          name = model_name p m;
          sizeinmb = ucast (drop_bit 11 (sectors (devices b (unat device)))) :: u32
      in if kind = DSK_TYPE_ATA then
           Option.bind (screen_printf hw ds ''ata%d %s: '' [channel, which] m) (\<lambda>m.
           Option.bind (print_chars hw ds name m) (\<lambda>m.
             screen_printf hw ds '' ATA-%d Hard-Disk (%lu MBytes)\<newline>''
               [version, ucast sizeinmb, ucast (drop_bit 16 sizeinmb)] m))
         else if kind = DSK_TYPE_ATAPI then
           Option.bind (screen_printf hw ds ''ata%d %s: '' [channel, which] m) (\<lambda>m.
           Option.bind (print_chars hw ds name m) (\<lambda>m.
             if d_device (devices b (unat device)) = DSK_DEVICE_CDROM
             then screen_printf hw ds '' ATAPI-%d CD-ROM/DVD-ROM\<newline>'' [version] m
             else screen_printf hw ds '' ATAPI-%d Device\<newline>'' [version] m))
         else if kind = DSK_TYPE_UNKNOWN then
           screen_printf hw ds ''ata%d %s: Unknown device\<newline>'' [channel, which] m
         else Some m)"

text \<open>
  One round of the detection loop. The state carries the disk structure and the two local counts.
\<close>

definition reset_and_sign ::
  "'d hw \<Rightarrow> u8 \<Rightarrow> bio_dsk \<Rightarrow> 'd machine \<Rightarrow> (bio_dsk \<times> 'd machine) option" where
  "reset_and_sign hw device b m =
     (let ch = channels b (unat device div 2); b1 = iobase1 ch; dc = iobase2 ch + ATA_CB_DC;
          m = outb hw dc (ATA_CB_DC_HD15 OR ATA_CB_DC_NIEN OR ATA_CB_DC_SRST) m;
          m = poll_max hw (b1 + ATA_CB_STAT) (\<lambda>st. st AND ATA_CB_STAT_BSY \<noteq> 0) 31 m;
          m = outb hw dc (ATA_CB_DC_HD15 OR ATA_CB_DC_NIEN) m
      in Option.bind (ata_signature hw b1 False m) (\<lambda>(t0, m).
         Option.bind (ata_signature hw b1 True m) (\<lambda>(t1, m).
           Some (upd_device (unat device + 1) (\<lambda>d. d\<lparr>d_type := t1\<rparr>)
                   (upd_device (unat device) (\<lambda>d. d\<lparr>d_type := t0\<rparr>) b), m))))"

type_synonym 'd detection = "bio_dsk \<times> u8 \<times> u8 \<times> 'd machine"

definition identify_device ::
  "'d hw \<Rightarrow> 'd detect_env \<Rightarrow> u16 \<Rightarrow> u8 \<Rightarrow> 'd detection \<Rightarrow>
     ('d machine stop + 'd detection) option" where
  "identify_device hw env ebda_seg device st =
     (case st of (b, hdc, cdc, m) \<Rightarrow>
        let kind = d_type (devices b (unat device));
            describe = (\<lambda>hdc cdc b m. map_option (\<lambda>m. Inr (b, hdc, cdc, m))
                          (describe_device hw env device kind b m))
        in if kind = DSK_TYPE_ATA then
             (case identify_ata hw env ebda_seg device hdc b m of
                None \<Rightarrow> None | Some (Inl e) \<Rightarrow> Some (Inl e)
              | Some (Inr (b, m)) \<Rightarrow> describe (hdc + 1) cdc b m)
           else if kind = DSK_TYPE_ATAPI then
             (case identify_atapi hw env device cdc b m of
                None \<Rightarrow> None | Some (Inl e) \<Rightarrow> Some (Inl e)
              | Some (Inr (b, m)) \<Rightarrow> describe hdc (cdc + 1) b m)
           else describe hdc cdc b m)"

definition detect_device ::
  "'d hw \<Rightarrow> 'd detect_env \<Rightarrow> u16 \<Rightarrow> u8 \<Rightarrow> 'd detection \<Rightarrow>
     ('d machine stop + 'd detection) option" where
  "detect_device hw env ebda_seg device st =
     (case st of (b, hdc, cdc, m) \<Rightarrow>
        let ch = channels b (unat device div 2);
            (status, m) = inb hw (iobase1 ch + ATA_CB_STAT) m
        in if status = 0xff then Some (Inr (b, hdc, cdc, m))
           else case (if device mod 2 = 0 then reset_and_sign hw device b m else Some (b, m)) of
                  None \<Rightarrow> None
                | Some (b, m) \<Rightarrow>
                    identify_device hw env ebda_seg device (b, hdc, cdc, ints_on hw ch m))"

fun detect_all ::
  "'d hw \<Rightarrow> 'd detect_env \<Rightarrow> u16 \<Rightarrow> u8 list \<Rightarrow> 'd detection \<Rightarrow>
     ('d machine stop + 'd detection) option" where
  "detect_all hw env ebda_seg [] st = Some (Inr st)"
| "detect_all hw env ebda_seg (device # ds) st =
     (case detect_device hw env ebda_seg device st of
        None \<Rightarrow> None
      | Some (Inl e) \<Rightarrow> Some (Inl e)
      | Some (Inr st) \<Rightarrow> detect_all hw env ebda_seg ds st)"

definition ata_detect ::
  "'d hw \<Rightarrow> 'd detect_env \<Rightarrow> bio_dsk \<Rightarrow> 'd machine \<Rightarrow>
     ('d machine stop + bio_dsk \<times> 'd machine) option" where
  "ata_detect hw env b m =
     (let ebda_seg = read_word 0x40 0x0E m;
          (busdevfn, m) = pci_find_class_noif env 0x0101 m
      in if busdevfn = 0xffff then
           Some (Inr (b, bx_info ''No PCI IDE controller, not probing IDE\<newline>'' [] m))
         else
           (case detect_all hw env ebda_seg [0, 1, 2, 3, 4, 5, 6, 7] (isa_channels b, 0, 0, m) of
              None \<Rightarrow> None
            | Some (Inl e) \<Rightarrow> Some (Inl e)
            | Some (Inr (b, hdc, cdc, m)) \<Rightarrow>
                Some (Inr (b\<lparr>hdcount := hdc, cdcount := cdc\<rparr>, write_byte 0x40 0x75 hdc m))))"

end
