(* ===== verification/AtaTransfer.thy ===== *)
theory AtaTransfer
  imports Ata
begin

text \<open>
  What the ATA driver's sector transfers do: memory as the image of the words that cross the data
  port, the protocol a drive follows (settling to a status without BSY, DRQ exactly while data is to
  be moved), and the properties of reading and writing sectors over them.
\<close>

section \<open>Memory images\<close>

definition flin :: "far \<Rightarrow> u32" where
  "flin p = lin (fst p) (snd p)"

definition store :: "u32 \<Rightarrow> u8 list \<Rightarrow> (u32 \<Rightarrow> u8) \<Rightarrow> u32 \<Rightarrow> u8" where
  "store a bs r = (\<lambda>x. if unat (x - a) < length bs then bs ! unat (x - a) else r x)"

definition wbytes :: "u16 list \<Rightarrow> u8 list" where
  "wbytes ws = concat (map (\<lambda>w. [lo8 w, hi8 w]) ws)"

lemma wbytes_simps [simp]:
  "wbytes [] = []" "wbytes (w # ws) = lo8 w # hi8 w # wbytes ws"
  "wbytes (vs @ ws) = wbytes vs @ wbytes ws"
  by (simp_all add: wbytes_def)

lemma length_wbytes [simp]: "length (wbytes ws) = 2 * length ws"
  by (induction ws) simp_all

lemma store_Nil [simp]: "store a [] r = r"
  by (simp add: store_def)

lemma unat_less_32: "unat (x :: u32) < 4294967296"
  using unsigned_less [of x, where 'a = nat] by simp

lemma store_Cons:
  assumes "length bs < 4294967296"
  shows "store a (c # bs) r = store (a + 1) bs (r(a := c))"
proof
  fix x
  show "store a (c # bs) r x = store (a + 1) bs (r(a := c)) x"
  proof (cases "x = a")
    case True
    have "unat (- 1 :: u32) = 4294967295"
      by (simp add: unsigned_minus_1_eq_mask mask_eq_exp_minus_1)
    then show ?thesis using True assms by (simp add: store_def)
  next
    case False
    then have "x - a \<noteq> 0" by simp
    then have "unat (x - a) = Suc (unat (x - a - 1))"
      using unat_minus_one [of "x - a"] unat_gt_0 [of "x - a"] by linarith
    then have "unat (x - a) = Suc (unat (x - (a + 1)))" by (simp add: diff_diff_eq)
    then show ?thesis using False by (simp add: store_def)
  qed
qed

lemma store_append:
  "length bs + length cs < 4294967296 \<Longrightarrow>
   store a (bs @ cs) r = store (a + of_nat (length bs)) cs (store a bs r)"
proof (induction bs arbitrary: a r)
  case (Cons x bs)
  then show ?case by (simp add: store_Cons add.assoc)
qed simp

lemma write_word_store:
  assumes "unat p + 1 < 65536"
  shows "write_word s p v m = m\<lparr>ram := store (lin s p) [lo8 v, hi8 v] (ram m)\<rparr>"
  using lin_add [of p 1 s] assms by (simp add: write_word_def write_byte_def store_Cons)

lemma word_pair_halves [simp]: "ucast (word_pair h l) = l" "ucast (drop_bit 16 (word_pair h l)) = h"
  unfolding word_pair_def
  by (rule bit_word_eqI; auto simp: bit_simps dest: bit_imp_le_length)+

lemma write_dword_store:
  assumes "unat p + 3 < 65536"
  shows "write_dword s p (word_pair h l) m = m\<lparr>ram := store (lin s p) (wbytes [l, h]) (ram m)\<rparr>"
proof -
  have "unat (p + 2) = unat p + 2" using unat_add_off [of p 2] assms by simp
  moreover have "lin s (p + 2) = lin s p + 2" using lin_add [of p 2 s] assms by simp
  ultimately show ?thesis
    using assms store_append [of "[lo8 l, hi8 l]" "[lo8 h, hi8 h]" "lin s p" "ram m"]
    by (simp add: write_dword_def write_word_store)
qed

section \<open>The drive's side of the protocol\<close>

text \<open>Reading the status register until BSY is clear.\<close>

inductive settles :: "'d hw \<Rightarrow> u16 \<Rightarrow> 'd \<Rightarrow> u8 \<Rightarrow> 'd \<Rightarrow> bool" for hw port where
  ready: "hw_inb hw port d = (st, d') \<Longrightarrow> st AND 0x80 = 0 \<Longrightarrow> settles hw port d st d'"
| busy: "hw_inb hw port d = (st, d1) \<Longrightarrow> st AND 0x80 \<noteq> 0 \<Longrightarrow> settles hw port d1 st' d' \<Longrightarrow>
    settles hw port d st' d'"

lemma wait_not_busy_settles:
  "settles hw port (dev m) st d' \<Longrightarrow> wait_not_busy hw port m = Some (st, m\<lparr>dev := d'\<rparr>)"
proof (induction "dev m" st d' arbitrary: m rule: settles.induct)
  case (ready st d')
  then show ?case by (subst wait_not_busy.simps) (simp add: inb_def)
next
  case (busy st d1 st' d')
  have "wait_not_busy hw port (m\<lparr>dev := d1\<rparr>) = Some (st', m\<lparr>dev := d1\<rparr>\<lparr>dev := d'\<rparr>)"
    by (rule busy) simp
  then show ?case using busy(1,2) by (subst wait_not_busy.simps) (simp add: inb_def)
qed

lemma wait_not_busy_SomeD:
  assumes "wait_not_busy hw port m = Some (st, m')"
  shows "\<exists>d. m' = m\<lparr>dev := d\<rparr> \<and> st AND 0x80 = 0"
proof -
  have "\<exists>d. snd (st, m') = m\<lparr>dev := d\<rparr> \<and> fst (st, m') AND 0x80 = 0"
  proof (rule wait_not_busy.raw_induct [where
        P = "\<lambda>hw port m r. \<exists>d. snd r = m\<lparr>dev := d\<rparr> \<and> fst r AND 0x80 = 0", OF _ assms])
    fix g :: "'a hw \<Rightarrow> u16 \<Rightarrow> 'a machine \<Rightarrow> (u8 \<times> 'a machine) option" and hw port m r
    assume IH: "\<And>hw port m r. g hw port m = Some r \<Longrightarrow>
        \<exists>d. snd r = m\<lparr>dev := d\<rparr> \<and> fst r AND 0x80 = 0"
      and body: "(let (status, m') = inb hw port m
        in if status AND 0x80 = 0 then Some (status, m') else g hw port m') = Some r"
    show "\<exists>d. snd r = m\<lparr>dev := d\<rparr> \<and> fst r AND 0x80 = 0"
    proof (cases "hw_inb hw port (dev m)")
      case (Pair status d1)
      show ?thesis
      proof (cases "status AND 0x80 = 0")
        case True
        then show ?thesis using body Pair by (auto simp: inb_def)
      next
        case False
        then have "g hw port (m\<lparr>dev := d1\<rparr>) = Some r" using body Pair by (simp add: inb_def)
        then show ?thesis using IH by fastforce
      qed
    qed
  qed
  then show ?thesis by simp
qed

text \<open>
  A drive that has data for the host, in PIO: \<open>pend\<close> is what it still has to deliver. Its status
  settles, with DRQ set exactly while data is pending, RDY set and no error, and each read of the data
  port takes the next word, or the next two for a 32-bit read.
\<close>

definition pio_reader :: "'d hw \<Rightarrow> u16 \<Rightarrow> ('d \<Rightarrow> u16 list) \<Rightarrow> bool" where
  "pio_reader hw b1 pend \<longleftrightarrow>
     (\<forall>d. \<exists>st d'. settles hw (b1 + 7) d st d' \<and> pend d' = pend d \<and>
        st AND 0xE9 = (if pend d = [] then 0x40 else 0x48)) \<and>
     (\<forall>d w ws. pend d = w # ws \<longrightarrow> (\<exists>d'. hw_inw hw b1 d = (w, d') \<and> pend d' = ws)) \<and>
     (\<forall>d l h ws. pend d = l # h # ws \<longrightarrow>
        (\<exists>d'. hw_ind hw b1 d = (word_pair h l, d') \<and> pend d' = ws))"

lemma pio_reader_status:
  assumes "pio_reader hw b1 pend"
  obtains st d' where "wait_not_busy hw (b1 + 7) m = Some (st, m\<lparr>dev := d'\<rparr>)"
    "pend d' = pend (dev m)" "st AND 0xE9 = (if pend (dev m) = [] then 0x40 else 0x48)"
  using assms wait_not_busy_settles unfolding pio_reader_def by metis

lemma pio_reader_inw:
  "pio_reader hw b1 pend \<Longrightarrow> pend d = w # ws \<Longrightarrow> \<exists>d'. hw_inw hw b1 d = (w, d') \<and> pend d' = ws"
  unfolding pio_reader_def by blast

lemma pio_reader_ind:
  "pio_reader hw b1 pend \<Longrightarrow> pend d = l # h # ws \<Longrightarrow>
   \<exists>d'. hw_ind hw b1 d = (word_pair h l, d') \<and> pend d' = ws"
  unfolding pio_reader_def by blast

lemma rep_insw_stores:
  assumes "pio_reader hw b1 pend"
  shows "pend (dev m) = ws @ rest \<Longrightarrow> unat p + 2 * length ws \<le> 65536 \<Longrightarrow>
    \<exists>d. rep_insw hw b1 (length ws) (s, p) m =
        ((s, p + of_nat (2 * length ws)), m\<lparr>ram := store (lin s p) (wbytes ws) (ram m), dev := d\<rparr>)
      \<and> pend d = rest"
proof (induction ws arbitrary: m p)
  case Nil
  then show ?case by (intro exI [of _ "dev m"]) simp
next
  case (Cons w ws)
  obtain d1 where d1: "hw_inw hw b1 (dev m) = (w, d1)" "pend d1 = ws @ rest"
    using pio_reader_inw [OF assms] Cons.prems(1) by fastforce
  let ?m = "m\<lparr>ram := store (lin s p) [lo8 w, hi8 w] (ram m), dev := d1\<rparr>"
  have w: "write_word s p w (m\<lparr>dev := d1\<rparr>) = ?m"
    using Cons.prems(2) by (simp add: write_word_store)
  show ?case
  proof (cases "ws = []")
    case True
    then show ?thesis using d1 w by (intro exI [of _ d1]) (simp add: inw_def)
  next
    case False
    then have "2 \<le> 2 * length ws" by (cases ws) simp_all
    then have u: "unat (p + 2) = unat p + 2" and l: "lin s (p + 2) = lin s p + 2"
      using Cons.prems(2) unat_add_off [of p 2] lin_add [of p 2 s] by simp_all
    have "\<exists>d. rep_insw hw b1 (length ws) (s, p + 2) ?m =
        ((s, p + 2 + of_nat (2 * length ws)),
         ?m\<lparr>ram := store (lin s (p + 2)) (wbytes ws) (ram ?m), dev := d\<rparr>) \<and> pend d = rest"
      using d1 u Cons.prems(2) by (intro Cons.IH) simp_all
    moreover have "store (lin s (p + 2)) (wbytes ws) (store (lin s p) [lo8 w, hi8 w] (ram m)) =
        store (lin s p) (wbytes (w # ws)) (ram m)"
      using store_append [of "[lo8 w, hi8 w]" "wbytes ws" "lin s p" "ram m"] l Cons.prems(2) by simp
    ultimately show ?thesis using d1 w by (auto simp: inw_def algebra_simps)
  qed
qed


lemma rep_insd_stores:
  assumes "pio_reader hw b1 pend"
  shows "pend (dev m) = ws @ rest \<Longrightarrow> unat p + 2 * length ws \<le> 65536 \<Longrightarrow> length ws = 2 * n \<Longrightarrow>
    \<exists>d. rep_insd hw b1 n (s, p) m =
        ((s, p + of_nat (2 * length ws)), m\<lparr>ram := store (lin s p) (wbytes ws) (ram m), dev := d\<rparr>)
      \<and> pend d = rest"
proof (induction n arbitrary: m p ws)
  case 0
  then show ?case by (intro exI [of _ "dev m"]) simp
next
  case (Suc n)
  then obtain l h vs where ws: "ws = l # h # vs"
    by (cases ws; cases "tl ws") auto
  obtain d1 where d1: "hw_ind hw b1 (dev m) = (word_pair h l, d1)" "pend d1 = vs @ rest"
    using pio_reader_ind [OF assms] Suc.prems(1) ws by fastforce
  let ?m = "m\<lparr>ram := store (lin s p) (wbytes [l, h]) (ram m), dev := d1\<rparr>"
  have w: "write_dword s p (word_pair h l) (m\<lparr>dev := d1\<rparr>) = ?m"
    using Suc.prems(2) ws by (simp add: write_dword_store)
  show ?case
  proof (cases "vs = []")
    case True
    then show ?thesis using d1 w ws Suc.prems by (intro exI [of _ d1]) (simp add: ind_def)
  next
    case False
    then have "2 \<le> 2 * length vs" by (cases vs) simp_all
    then have u: "unat (p + 4) = unat p + 4" and l: "lin s (p + 4) = lin s p + 4"
      using Suc.prems(2) unat_add_off [of p 4] lin_add [of p 4 s] ws by simp_all
    have "\<exists>d. rep_insd hw b1 n (s, p + 4) ?m =
        ((s, p + 4 + of_nat (2 * length vs)),
         ?m\<lparr>ram := store (lin s (p + 4)) (wbytes vs) (ram ?m), dev := d\<rparr>) \<and> pend d = rest"
      using d1 u Suc.prems ws by (intro Suc.IH) simp_all
    moreover have "store (lin s (p + 4)) (wbytes vs) (store (lin s p) (wbytes [l, h]) (ram m)) =
        store (lin s p) (wbytes ws) (ram m)"
      using store_append [of "wbytes [l, h]" "wbytes vs" "lin s p" "ram m"] l Suc.prems(2) ws by simp
    ultimately show ?thesis using d1 w ws by (auto simp: ind_def algebra_simps)
  qed
qed

definition unit_words :: "u8 \<Rightarrow> nat" where
  "unit_words mode = (if mode = ATA_MODE_PIO32 then 2 else 1)"

lemma rep_in_stores:
  assumes "pio_reader hw b1 pend" "pend (dev m) = ws @ rest" "length ws = unit_words mode * n"
    "unat (snd p) + 2 * length ws \<le> 65536"
  shows "\<exists>d. rep_in hw mode b1 n p m =
      ((fst p, snd p + of_nat (2 * length ws)), m\<lparr>ram := store (flin p) (wbytes ws) (ram m), dev := d\<rparr>)
    \<and> pend d = rest"
proof (cases "mode = ATA_MODE_PIO32")
  case True
  then show ?thesis
    using rep_insd_stores [OF assms(1,2), of "snd p" n "fst p"] assms(3,4)
    by (simp add: rep_in_def unit_words_def flin_def)
next
  case False
  then show ?thesis
    using rep_insw_stores [OF assms(1,2), of "snd p" "fst p"] assms(3,4)
    by (simp add: rep_in_def unit_words_def flin_def)
qed

section \<open>Blocks\<close>

text \<open>
  Moving the pointer back by 2K before a block keeps the linear address, as long as the transfer
  stays below 1 MB; a block of at most 2K then never crosses the end of the segment.
\<close>

lemma adjust_overrun_lin:
  assumes "unat (flin p) < 0x100000"
  shows "flin (adjust_overrun p) = flin p"
proof (cases "snd p \<ge> 0xF800")
  case True
  have u: "unat (snd p - 0x800) = unat (snd p) - 0x800"
    using True by (subst unat_sub) (auto simp: word_le_nat_alt)
  have "unat (fst p) + 0x80 < 65536"
    using assms True by (simp add: flin_def unat_lin word_le_nat_alt)
  then have v: "unat (fst p + 0x80) = unat (fst p) + 0x80"
    using unat_add_off [of "fst p" "0x80"] by simp
  have "unat (flin (adjust_overrun p)) = unat (flin p)"
    using True by (simp add: adjust_overrun_def flin_def unat_lin u v word_le_nat_alt)
  then show ?thesis by (simp add: word_unat_eq_iff)
qed (simp add: adjust_overrun_def)

lemma adjust_overrun_room: "unat (snd (adjust_overrun p)) + 0x800 < 65536"
proof (cases "snd p \<ge> 0xF800")
  case True
  have "unat (snd p - 0x800) = unat (snd p) - 0x800"
    using True by (subst unat_sub) (auto simp: word_le_nat_alt)
  then show ?thesis
    using True unsigned_less [of "snd p", where 'a = nat] by (simp add: adjust_overrun_def)
next
  case False
  then show ?thesis by (simp add: adjust_overrun_def word_le_nat_alt)
qed

lemma status_bits:
  "(0x80 OR 0x40 OR 0x08 OR 0x01 :: u8) = 0xC9" "(0x80 OR 0x40 OR 0x20 OR 0x08 OR 0x01 :: u8) = 0xE9"
  "(0x40 OR 0x08 :: u8) = 0x48" "(0x80 OR 0x08 :: u8) = 0x88"
  by simp_all

lemma status_weaken:
  assumes "st AND 0xE9 = x" "x AND m = y" "0xE9 AND m = m"
  shows "st AND m = (y :: u8)"
  using assms by (metis and.assoc)

definition block_fits :: "nat \<Rightarrow> nat \<Rightarrow> far \<Rightarrow> bool" where
  \<comment> \<open>\<open>k\<close> blocks of \<open>W\<close> words at \<open>p\<close>: at most 2K each, or a single one inside its segment\<close>
  "block_fits k W p \<longleftrightarrow>
     (2 * W \<le> 0x800 \<or> k = 1 \<and> unat (snd (adjust_overrun p)) + 2 * W \<le> 65536) \<and>
     unat (flin p) + 2 * (k * W) \<le> 0x100000"

lemma block_fits_step:
  assumes fits: "block_fits (Suc k) W p" and "0 < W"
  defines "q \<equiv> adjust_overrun p"
  shows "flin q = flin p" "unat (snd q) + 2 * W \<le> 65536"
    and "0 < k \<Longrightarrow> flin (fst q, snd q + of_nat (2 * W)) = flin p + of_nat (2 * W) \<and>
      block_fits k W (fst q, snd q + of_nat (2 * W))"
proof -
  have "unat (flin p) < 0x100000" using fits assms(2) by (simp add: block_fits_def)
  then show l: "flin q = flin p" unfolding q_def by (rule adjust_overrun_lin)
  show "unat (snd q) + 2 * W \<le> 65536"
    using fits adjust_overrun_room [of p] by (auto simp: block_fits_def q_def)
  assume "0 < k"
  then have r: "unat (snd q) + 2 * W < 65536" "2 * W \<le> 0x800"
    using fits adjust_overrun_room [of p] by (auto simp: block_fits_def q_def)
  have e: "flin (fst q, snd q + of_nat (2 * W)) = flin p + of_nat (2 * W)"
    using lin_add [OF r(1), of "fst q"] l by (simp add: flin_def)
  have "unat (flin p + of_nat (2 * W)) = unat (flin p) + 2 * W"
    using fits r(2) by (simp add: block_fits_def unat_word_ariths unat_of_nat take_bit_nat_eq_self)
  then show "flin (fst q, snd q + of_nat (2 * W)) = flin p + of_nat (2 * W) \<and>
      block_fits k W (fst q, snd q + of_nat (2 * W))"
    using e fits r(2) by (simp add: block_fits_def)
qed

definition count_sectors :: "u16 \<Rightarrow> bio_dsk \<Rightarrow> bio_dsk" where
  "count_sectors n b = upd_drqp (\<lambda>r. r\<lparr>trsfsectors := trsfsectors r + n\<rparr>) b"

lemma count_sectors_add: "count_sectors n (count_sectors k b) = count_sectors (k + n) b"
  by (simp add: count_sectors_def upd_drqp_def add.assoc)

lemma data_in_loop_delivers:
  assumes drive: "pio_reader hw (iobase1 ch) pend"
    and W: "W = unit_words mode * unat words" "0 < W"
  shows "unat count = Suc k \<Longrightarrow> pend (dev m) = ws @ rest \<Longrightarrow> length ws = Suc k * W \<Longrightarrow>
    block_fits (Suc k) W p \<Longrightarrow>
    \<exists>d. data_in_loop hw ch mode words mult count p b m =
        Some (if rest = [] then 0 else 4, count_sectors (of_nat (Suc k) * mult) b,
          ints_on hw ch (m\<lparr>ram := store (flin p) (wbytes ws) (ram m), dev := d\<rparr>))"
proof (induction k arbitrary: count m ws p b)
  case (0 count m ws p b)
  note fits = block_fits_step [OF "0.prems"(4) W(2)]
  have c: "count = 1" using "0.prems"(1) by (simp add: word_unat_eq_iff)
  obtain d where d: "rep_in hw mode (iobase1 ch) (unat words) (adjust_overrun p) m =
      ((fst (adjust_overrun p), snd (adjust_overrun p) + of_nat (2 * length ws)),
       m\<lparr>ram := store (flin p) (wbytes ws) (ram m), dev := d\<rparr>)" "pend d = rest"
    using rep_in_stores [OF drive, of m ws rest mode "unat words" "adjust_overrun p"] "0.prems" fits W
    by auto
  let ?m = "m\<lparr>ram := store (flin p) (wbytes ws) (ram m), dev := d\<rparr>"
  obtain st d' where st: "wait_not_busy hw (iobase1 ch + 7) ?m = Some (st, ?m\<lparr>dev := d'\<rparr>)"
    "st AND 0xE9 = (if pend (dev ?m) = [] then 0x40 else 0x48)"
    by (rule pio_reader_status [OF drive, of ?m]) blast
  have "st AND 0xC9 = (if rest = [] then 0x40 else 0x48)"
    by (rule status_weaken [OF st(2)]) (simp_all add: d(2))
  then show ?case
    using c d(1) st(1) by (intro exI [of _ d'], subst data_in_loop.simps)
      (simp add: status_bits count_sectors_def)
next
  case (Suc k count m ws p b)
  note fits = block_fits_step [OF Suc.prems(4) W(2)]
  let ?q = "adjust_overrun p"
  define vs us where "vs = take W ws" and "us = drop W ws"
  have ws: "ws = vs @ us" "length vs = W" "length us = Suc k * W"
    using Suc.prems(3) by (simp_all add: vs_def us_def)
  let ?m = "\<lambda>d. m\<lparr>ram := store (flin p) (wbytes vs) (ram m), dev := d\<rparr>"
  obtain d where d: "rep_in hw mode (iobase1 ch) (unat words) ?q m =
      ((fst ?q, snd ?q + of_nat (2 * W)), ?m d)" "pend d = us @ rest"
    using rep_in_stores [OF drive, of m vs "us @ rest" mode "unat words" ?q] Suc.prems(2) ws fits W by auto
  have "us \<noteq> []" using ws(3) W(2) by auto
  moreover obtain st d' where st: "wait_not_busy hw (iobase1 ch + 7) (?m d) = Some (st, ?m d\<lparr>dev := d'\<rparr>)"
      "pend d' = pend (dev (?m d))" "st AND 0xE9 = (if pend (dev (?m d)) = [] then 0x40 else 0x48)"
    by (rule pio_reader_status [OF drive, of "?m d"]) blast
  ultimately have "st AND 0xE9 = 0x48" "pend d' = us @ rest" using d(2) by simp_all
  note st = st(1) this
  have st9: "st AND 0xC9 = 0x48" by (rule status_weaken [OF st(2)]) simp_all
  have "count \<noteq> 0" using Suc.prems(1) by auto
  then have c: "count - 1 \<noteq> 0" "unat (count - 1) = Suc k"
    using Suc.prems(1) unat_minus_one [of count] by auto
  let ?p = "(fst ?q, snd ?q + of_nat (2 * W)) :: far"
  obtain d'' where "data_in_loop hw ch mode words mult (count - 1) ?p (count_sectors mult b) (?m d') =
      Some (if rest = [] then 0 else 4, count_sectors (of_nat (Suc k) * mult) (count_sectors mult b),
        ints_on hw ch (?m d'\<lparr>ram := store (flin ?p) (wbytes us) (ram (?m d')), dev := d''\<rparr>))"
    using Suc.IH [OF c(2), of "?m d'" us ?p "count_sectors mult b"] st(3) ws(3) fits(3) by auto
  moreover have "store (flin ?p) (wbytes us) (store (flin p) (wbytes vs) (ram m)) =
      store (flin p) (wbytes ws) (ram m)"
  proof -
    have "length (wbytes vs) + length (wbytes us) < 4294967296"
      using Suc.prems(3,4) ws by (simp add: block_fits_def)
    from store_append [OF this] show ?thesis using fits(3) ws by simp
  qed
  ultimately have "data_in_loop hw ch mode words mult count p b m =
      Some (if rest = [] then 0 else 4, count_sectors (of_nat (Suc (Suc k)) * mult) b,
        ints_on hw ch (m\<lparr>ram := store (flin p) (wbytes ws) (ram m), dev := d''\<rparr>))"
    using d(1) st(1) st9 c(1)
    by (subst data_in_loop.simps)
      (simp add: status_bits count_sectors_add flip: count_sectors_def, simp add: algebra_simps)
  then show ?case by blast
qed

section \<open>Reading sectors\<close>

definition read_command :: "disk_req \<Rightarrow> u16" where
  "read_command r =
     (if rq_sector r = 0 \<and> needs_ext (rq_lba r) (rq_nsect r) then ATA_CMD_READ_SECTORS_EXT
      else ATA_CMD_READ_MULTIPLE)"

definition request_chan :: "bio_dsk \<Rightarrow> ata_chan" where
  "request_chan b = channels b (unat (rq_dev_id (drqp b)) div 2)"

definition request_device :: "bio_dsk \<Rightarrow> disk_dev" where
  "request_device b = devices b (unat (rq_dev_id (drqp b)))"

definition block_sectors :: "nat \<Rightarrow> nat" where
  "block_sectors n = (if n mod 128 = 0 then 128 else n mod 128)"

lemma pio_words_units:
  "unit_words mode * unat (pio_words mode (of_nat n * 0x200)) = 256 * block_sectors n"
proof -
  have "of_nat n * 0x200 = (of_nat (n * 512) :: u16)" by simp
  also have "unat \<dots> = n * 512 mod (128 * 512)"
    by (simp only: unat_of_nat take_bit_eq_mod) simp
  also have "\<dots> = 512 * (n mod 128)"
    using mult_mod_right [of 512 n 128] by (simp add: mult.commute)
  finally have u: "unat (of_nat n * 0x200 :: u16) = 512 * (n mod 128)" .
  show ?thesis
  proof (cases "n mod 128 = 0")
    case True
    then have "of_nat n * 0x200 = (0 :: u16)" using u by (simp add: word_unat_eq_iff)
    then show ?thesis using True by (simp add: pio_words_def unit_words_def block_sectors_def)
  next
    case False
    then have "of_nat n * 0x200 \<noteq> (0 :: u16)" using u by (metis mult_eq_0_iff unsigned_0 zero_neq_numeral)
    then show ?thesis
      using u False
      by (simp add: pio_words_def unit_words_def unat_div drop_bit_eq_div block_sectors_def)
  qed
qed

lemma block_sectors_small: "0 < n \<Longrightarrow> n \<le> 128 \<Longrightarrow> block_sectors n = n"
  by (cases "n = 128") (simp_all add: block_sectors_def)

lemma iflag_order:
  "m\<lparr>iflag := i, ram := r, dev := d\<rparr> = m\<lparr>ram := r, dev := d, iflag := i\<rparr>"
  by (cases m) simp

lemma outb_seq_dev: "\<exists>d. outb_seq hw ws m = m\<lparr>dev := d\<rparr>"
proof (induction ws arbitrary: m)
  case Nil
  then show ?case by (intro exI [of _ "dev m"]) (simp add: outb_seq_def)
next
  case (Cons w ws)
  obtain d where "outb_seq hw ws (outb hw (fst w) (snd w) m) = outb hw (fst w) (snd w) m\<lparr>dev := d\<rparr>"
    using Cons.IH by blast
  then show ?case by (intro exI [of _ d]) (simp add: outb_seq_def outb_def split_def)
qed

lemma data_in_delivers:
  assumes drive: "pio_reader hw (iobase1 ch) pend"
    and ch: "ch = channels b (unat (rq_dev_id (drqp b)) div 2)"
    and idle: "inb hw (iobase1 ch + 7) m = (st0, m0)" "st0 AND 0x80 = 0"
    and W: "W = unit_words mode * unat (pio_words mode (blksize (devices b (unat (rq_dev_id (drqp b))))))"
      "mode = d_mode (devices b (unat (rq_dev_id (drqp b))))" "0 < W"
    and blocks: "(if command = ATA_CMD_READ_MULTIPLE \<or> command = ATA_CMD_READ_MULTIPLE_EXT then k = 0
        else unat count = Suc k)"
    and data: "pend (dev (outb_seq hw (setup_in ch (drqp b) command count) m0)) = ws @ rest"
      "length ws = Suc k * W"
    and fits: "block_fits (Suc k) W (rq_buffer (drqp b))"
  shows "\<exists>d. ata_cmd_data_in hw b command count m =
      Some (if rest = [] then 0 else 4, count_sectors count b,
        ints_on hw ch (int_enable (m\<lparr>ram := store (flin (rq_buffer (drqp b))) (wbytes ws) (ram m), dev := d\<rparr>)))"
proof -
  let ?p = "rq_buffer (drqp b)"
  obtain d1 where d1: "outb_seq hw (setup_in ch (drqp b) command count) m0 = m\<lparr>dev := d1\<rparr>"
    using outb_seq_dev [of hw "setup_in ch (drqp b) command count" m0] idle(1)
    by (auto simp: inb_def split: prod.splits)
  have "ws @ rest \<noteq> []" using data(2) W(3) by auto
  moreover obtain st d2 where st: "wait_not_busy hw (iobase1 ch + 7) (m\<lparr>dev := d1\<rparr>) =
      Some (st, m\<lparr>dev := d1\<rparr>\<lparr>dev := d2\<rparr>)" "pend d2 = pend (dev (m\<lparr>dev := d1\<rparr>))"
      "st AND 0xE9 = (if pend (dev (m\<lparr>dev := d1\<rparr>)) = [] then 0x40 else 0x48)"
    by (rule pio_reader_status [OF drive, of "m\<lparr>dev := d1\<rparr>"]) blast
  ultimately have s: "st AND 0xE9 = 0x48" "pend d2 = ws @ rest" using data(1) d1 by simp_all
  have b: "st AND 0x01 = 0" "st AND 0x08 = 0x08" by (rule status_weaken [OF s(1)]; simp)+
  let ?mult = "if command = ATA_CMD_READ_MULTIPLE \<or> command = ATA_CMD_READ_MULTIPLE_EXT then count else 1"
  let ?count = "if command = ATA_CMD_READ_MULTIPLE \<or> command = ATA_CMD_READ_MULTIPLE_EXT then 1 else count"
  have k: "unat ?count = Suc k \<and> of_nat (Suc k) * ?mult = count"
  proof (cases "command = ATA_CMD_READ_MULTIPLE \<or> command = ATA_CMD_READ_MULTIPLE_EXT")
    case False
    then have "unat count = Suc k" using blocks by simp
    moreover from this have "of_nat (Suc k) = count" by (metis of_nat_unat ucast_id)
    ultimately show ?thesis using False by simp
  qed (use blocks in simp)
  have "\<exists>d. data_in_loop hw ch mode
        (pio_words mode (blksize (devices b (unat (rq_dev_id (drqp b)))))) ?mult ?count ?p b
        (int_enable (m\<lparr>dev := d2\<rparr>)) =
      Some (if rest = [] then 0 else 4, count_sectors (of_nat (Suc k) * ?mult) b,
        ints_on hw ch (int_enable (m\<lparr>dev := d2\<rparr>)\<lparr>ram := store (flin ?p) (wbytes ws)
          (ram (int_enable (m\<lparr>dev := d2\<rparr>))), dev := d\<rparr>))"
    using s(2) data(2) fits
    by (intro data_in_loop_delivers [OF drive W(1) W(3) conjunct1 [OF k]]) (simp_all add: int_enable_def)
  then obtain d3 where "data_in_loop hw ch mode
        (pio_words mode (blksize (devices b (unat (rq_dev_id (drqp b)))))) ?mult ?count ?p b
        (int_enable (m\<lparr>dev := d2\<rparr>)) =
      Some (if rest = [] then 0 else 4, count_sectors count b,
        ints_on hw ch (int_enable (m\<lparr>ram := store (flin ?p) (wbytes ws) (ram m), dev := d3\<rparr>)))"
    unfolding conjunct2 [OF k] by (auto simp: int_enable_def iflag_order)
  then have "ata_cmd_data_in hw b command count m = Some (if rest = [] then 0 else 4, count_sectors count b,
      ints_on hw ch (int_enable (m\<lparr>ram := store (flin ?p) (wbytes ws) (ram m), dev := d3\<rparr>)))"
    using idle d1 st(1) b W(2)
    by (simp add: ata_cmd_data_in_def int_enable_def flip: ch)
  then show ?thesis by blast
qed

lemma restore_blksize:
  assumes "blksize (request_device b) = 0x200" 
  shows "set_blksize (rq_dev_id (drqp b)) 0x200 (count_sectors n (set_blksize (rq_dev_id (drqp b)) k b)) =
    count_sectors n b"
proof -
  have "devices b (unat (rq_dev_id (drqp b)))\<lparr>blksize := 0x200\<rparr> = devices b (unat (rq_dev_id (drqp b)))"
    using assms by (cases "devices b (unat (rq_dev_id (drqp b)))") (simp add: request_device_def)
  then have "(devices b)(unat (rq_dev_id (drqp b)) :=
      devices b (unat (rq_dev_id (drqp b)))\<lparr>blksize := 0x200\<rparr>) = devices b" by simp
  then show ?thesis
    by (simp add: set_blksize_def count_sectors_def upd_drqp_def upd_device_def)
qed

lemma read_multiple_moves:
  assumes drive: "pio_reader hw (iobase1 ch) pend" and ch: "ch = request_chan b"
    and idle: "inb hw (iobase1 ch + 7) m = (st, m')" "st AND 0x80 = 0"
    and n: "rq_nsect (drqp b) = of_nat n"
    and size: "blksize (request_device b) = 0x200"
    and multiple: "read_command (drqp b) = ATA_CMD_READ_MULTIPLE"
    and data: "pend (dev (outb_seq hw (setup_in ch (drqp b) ATA_CMD_READ_MULTIPLE (of_nat n)) m')) = vs @ rest"
      "length vs = 256 * block_sectors n"
    and room: "unat (flin (rq_buffer (drqp b))) + 512 * block_sectors n \<le> 0x100000"
      "unat (snd (adjust_overrun (rq_buffer (drqp b)))) + 512 * block_sectors n \<le> 65536"
  shows "\<exists>d. ata_read_sectors hw b m =
    Some (if rest = [] then 0 else 4, count_sectors (of_nat n) b,
      ints_on hw ch (int_enable (m\<lparr>ram := store (flin (rq_buffer (drqp b))) (wbytes vs) (ram m), dev := d\<rparr>)))"
proof -
  let ?b = "set_blksize (rq_dev_id (drqp b)) (of_nat n * 0x200) b"
  have [simp]: "drqp ?b = drqp b" "channels ?b = channels b"
    by (simp_all add: set_blksize_def)
  have "\<exists>d. ata_cmd_data_in hw ?b ATA_CMD_READ_MULTIPLE (of_nat n) m =
      Some (if rest = [] then 0 else 4, count_sectors (of_nat n) ?b,
        ints_on hw ch (int_enable (m\<lparr>ram := store (flin (rq_buffer (drqp ?b))) (wbytes vs) (ram m), dev := d\<rparr>)))"
  proof (rule data_in_delivers [OF drive _ idle, where W = "256 * block_sectors n" and k = 0])
    show "256 * block_sectors n = unit_words (d_mode (request_device b)) *
        unat (pio_words (d_mode (request_device b)) (blksize (devices ?b (unat (rq_dev_id (drqp ?b))))))"
      using pio_words_units [of _ n] by (simp add: set_blksize_def)
    show "block_fits (Suc 0) (256 * block_sectors n) (rq_buffer (drqp ?b))"
      using room by (simp add: block_fits_def)
    show "0 < 256 * block_sectors n" by (simp add: block_sectors_def)
  qed (use ch data in \<open>simp_all add: request_chan_def request_device_def set_blksize_def\<close>)
  then obtain d where "ata_cmd_data_in hw ?b ATA_CMD_READ_MULTIPLE (of_nat n) m =
      Some (if rest = [] then 0 else 4, count_sectors (of_nat n) ?b,
        ints_on hw ch (int_enable (m\<lparr>ram := store (flin (rq_buffer (drqp b))) (wbytes vs) (ram m), dev := d\<rparr>)))"
    by auto
  moreover have "set_blksize (rq_dev_id (drqp b)) 0x200 (count_sectors (of_nat n) ?b) = count_sectors (of_nat n) b"
    by (rule restore_blksize [OF size])
  ultimately have "ata_read_sectors hw b m = Some (if rest = [] then 0 else 4, count_sectors (of_nat n) b,
        ints_on hw ch (int_enable (m\<lparr>ram := store (flin (rq_buffer (drqp b))) (wbytes vs) (ram m), dev := d\<rparr>)))"
    using multiple n
    by (auto simp: ata_read_sectors_def read_multiple_def read_command_def Let_def split: if_splits)
  then show ?thesis by blast
qed

text \<open>
  A read request a drive serves: it follows the protocol and is idle; once the request is written to
  its registers it has the words \<open>ws\<close> of 1 to 128 sectors to deliver. The device has 512-byte
  blocks, the buffer lies below 1 MB, and a READ MULTIPLE request, which is one block, ends within
  its segment.
\<close>

definition serves_read ::
  "'d hw \<Rightarrow> ('d \<Rightarrow> u16 list) \<Rightarrow> bio_dsk \<Rightarrow> 'd machine \<Rightarrow> u16 list \<Rightarrow> bool" where
  "serves_read hw pend b m ws \<longleftrightarrow>
     (let r = drqp b; ch = request_chan b; n = unat (rq_nsect r);
          (st, m') = inb hw (iobase1 ch + 7) m
      in pio_reader hw (iobase1 ch) pend \<and> st AND 0x80 = 0 \<and>
         pend (dev (outb_seq hw (setup_in ch r (read_command r) (rq_nsect r)) m')) = ws \<and>
         length ws = 256 * n \<and> 0 < n \<and> n \<le> 128 \<and> blksize (request_device b) = 0x200 \<and>
         unat (flin (rq_buffer r)) + 512 * n \<le> 0x100000 \<and>
         (read_command r = ATA_CMD_READ_MULTIPLE \<longrightarrow>
            unat (snd (adjust_overrun (rq_buffer r))) + 512 * n \<le> 65536))"

lemma read_sectors_deliver:
  assumes "serves_read hw pend b m ws"
  shows "\<exists>d. ata_read_sectors hw b m =
    Some (0, count_sectors (rq_nsect (drqp b)) b, ints_on hw (request_chan b)
      (int_enable (m\<lparr>ram := store (flin (rq_buffer (drqp b))) (wbytes ws) (ram m), dev := d\<rparr>)))"
proof -
  define ch n where "ch = request_chan b" and "n = unat (rq_nsect (drqp b))"
  obtain st m' where i: "inb hw (iobase1 ch + 7) m = (st, m')" by fastforce
  have n: "rq_nsect (drqp b) = of_nat n" by (simp add: n_def)
  have drive: "pio_reader hw (iobase1 ch) pend" and idle: "st AND 0x80 = 0"
    and n': "0 < n" "n \<le> 128" and size: "blksize (request_device b) = 0x200"
    and data: "pend (dev (outb_seq hw (setup_in ch (drqp b) (read_command (drqp b)) (of_nat n)) m')) = ws"
      "length ws = 256 * n"
    and below_1M: "unat (flin (rq_buffer (drqp b))) + 512 * n \<le> 0x100000"
    and in_segment: "read_command (drqp b) = ATA_CMD_READ_MULTIPLE \<Longrightarrow>
      unat (snd (adjust_overrun (rq_buffer (drqp b)))) + 512 * n \<le> 65536"
    using assms i unfolding serves_read_def Let_def ch_def [symmetric] n_def [symmetric]
    by (simp_all add: n)
  have "\<exists>d. ata_read_sectors hw b m =
    Some (0, count_sectors (of_nat n) b,
      ints_on hw ch (int_enable (m\<lparr>ram := store (flin (rq_buffer (drqp b))) (wbytes ws) (ram m), dev := d\<rparr>)))"
  proof (cases "read_command (drqp b) = ATA_CMD_READ_MULTIPLE")
    case True
    then show ?thesis
      using read_multiple_moves [OF drive ch_def i idle n size True, of ws "[]"] data below_1M in_segment n'
      by (simp add: block_sectors_small)
  next
    case False
    then have lba: "rq_sector (drqp b) = 0" "needs_ext (rq_lba (drqp b)) (of_nat n)"
        "read_command (drqp b) = ATA_CMD_READ_SECTORS_EXT"
      using n by (auto simp: read_command_def split: if_splits)
    obtain k where k: "n = Suc k" using n'(1) by (cases n) auto
    have "\<exists>d. ata_cmd_data_in hw b ATA_CMD_READ_SECTORS_EXT (of_nat n) m =
        Some (if ([] :: u16 list) = [] then 0 else 4, count_sectors (of_nat n) b,
          ints_on hw ch (int_enable (m\<lparr>ram := store (flin (rq_buffer (drqp b))) (wbytes ws) (ram m), dev := d\<rparr>)))"
    proof (rule data_in_delivers [OF drive _ i idle, where rest = "[]" and W = 256 and k = k])
      show "256 = unit_words (d_mode (request_device b)) *
          unat (pio_words (d_mode (request_device b)) (blksize (devices b (unat (rq_dev_id (drqp b))))))"
        using size by (simp add: request_device_def pio_words_def unit_words_def unat_div)
      show "block_fits (Suc k) 256 (rq_buffer (drqp b))"
        using below_1M k by (simp add: block_fits_def)
    qed (use n' k lba data in \<open>simp_all add: ch_def request_chan_def request_device_def
          unat_of_nat take_bit_nat_eq_self del: of_nat_Suc\<close>)
    then show ?thesis using lba n by (simp add: ata_read_sectors_def)
  qed
  then show ?thesis unfolding n ch_def .
qed

text \<open>A drive that answers any command with \<open>n\<close> sectors of a constant word.\<close>

definition sector_drive :: "nat \<Rightarrow> u16 list hw" where
  "sector_drive n = \<lparr>hw_inb = \<lambda>p d. (if d = [] then 0x40 else 0x48, d),
     hw_inw = \<lambda>p d. case d of [] \<Rightarrow> (0, []) | w # ws \<Rightarrow> (w, ws),
     hw_ind = \<lambda>p d. case d of l # h # ws \<Rightarrow> (word_pair h l, ws) | _ \<Rightarrow> (0, []),
     hw_outb = \<lambda>p v d. if p = 0x1f7 then replicate (256 * n) 0xABCD else d,
     hw_outw = \<lambda>p v d. d, hw_outd = \<lambda>p v d. d\<rparr>"

lemma sector_drive_reader: "pio_reader (sector_drive n) b1 id"
proof -
  have "settles (sector_drive n) (b1 + 7) d (if d = [] then 0x40 else 0x48) d" for d
    by (rule settles.ready) (simp_all add: sector_drive_def)
  then have "\<exists>st d'. settles (sector_drive n) (b1 + 7) d st d' \<and> id d' = id d \<and>
      st AND 0xE9 = (if id d = [] then 0x40 else 0x48)" for d
    by (intro exI [of _ "if d = [] then 0x40 else 0x48"] exI [of _ d]) simp
  then show ?thesis
    unfolding pio_reader_def by (intro conjI allI impI; (simp add: sector_drive_def)?)
qed

definition one_disk :: "far \<Rightarrow> u8 \<Rightarrow> bio_dsk" where
  "one_disk p mode = \<lparr>
     drqp = \<lparr>rq_lba = 0, rq_buffer = p, rq_dev_id = 0, rq_nsect = 1, rq_sect_sz = 512,
       rq_cylinder = 2, rq_head = 3, rq_sector = 4, trsfsectors = 0, trsfbytes = 0\<rparr>,
     devices = (\<lambda>_. no_device\<lparr>d_type := DSK_TYPE_ATA, d_mode := mode\<rparr>),
     hdcount = 1, hdidmap = (\<lambda>_. 0), cdcount = 0, cdidmap = (\<lambda>_. 20),
     channels = (\<lambda>_. isa_chan 0x1f0 0x3f0 14),
     b_dpte = \<lparr>e_iobase1 = 0, e_iobase2 = 0, e_prefix = 0, e_unused = 0, e_irq = 0, e_blkcount = 0,
       e_dma = 0, e_pio = 0, e_options = 0, e_reserved = 0, e_revision = 0, e_checksum = 0\<rparr>\<rparr>"



section \<open>Every request ends, with the drive's interrupts on\<close>

definition ends_well :: "'d hw \<Rightarrow> ata_chan \<Rightarrow> bio_dsk \<Rightarrow> (u16 \<times> bio_dsk \<times> 'd machine) option \<Rightarrow> bool" where
  \<comment> \<open>it returns, it has changed the disk structure in the transfer count at most, and its last act
    was to enable the drive's interrupts\<close>
  "ends_well hw ch b r \<longleftrightarrow>
     (\<exists>rc n m. r = Some (rc, count_sectors n b, ints_on hw ch m))"

lemma count_sectors_0 [simp]: "count_sectors 0 b = b"
  by (simp add: count_sectors_def upd_drqp_def)

lemma ends_well_count_Some: "ends_well hw ch b (Some (rc, count_sectors n b, ints_on hw ch m))"
  unfolding ends_well_def by blast

lemma ends_well_Some: "ends_well hw ch b (Some (rc, b, ints_on hw ch m))"
  using ends_well_count_Some [of hw ch b rc 0 m] by simp

lemma ends_well_count:
  assumes "ends_well hw ch (count_sectors k b) r"
  shows "ends_well hw ch b r"
  using assms unfolding ends_well_def by (metis count_sectors_add)

lemma waits:
  assumes "\<forall>d. \<exists>st d'. settles hw port d st d'"
  obtains st m' where "wait_not_busy hw port m = Some (st, m')"
  using assms wait_not_busy_settles by metis

lemma data_in_loop_ends:
  assumes "\<forall>d. \<exists>st d'. settles hw (iobase1 ch + 7) d st d'"
  shows "ends_well hw ch b (data_in_loop hw ch mode words mult count p b m)"
  using assms
proof (induction hw ch mode words mult count p b m rule: data_in_loop.induct)
  case (1 hw ch mode words mult count p b m)
  obtain q m1 where r: "rep_in hw mode (iobase1 ch) (unat words) (adjust_overrun p) m = (q, m1)"
    by fastforce
  obtain st m2 where w: "wait_not_busy hw (iobase1 ch + 7) m1 = Some (st, m2)"
    using waits [OF 1(2)] by blast
  note IH = ends_well_count [OF 1(1) [OF refl r [symmetric] refl refl w refl refl _ _ 1(2), folded count_sectors_def]]
  show ?case
    using IH r w
    by (subst data_in_loop.simps)
      (auto simp: Let_def ends_well_count_Some split: if_splits simp flip: count_sectors_def)
qed

lemma data_out_loop_ends:
  assumes "\<forall>d. \<exists>st d'. settles hw (iobase1 ch + 7) d st d'"
  shows "ends_well hw ch b (data_out_loop hw ch mode words count p b m)"
  using assms
proof (induction hw ch mode words count p b m rule: data_out_loop.induct)
  case (1 hw ch mode words count p b m)
  obtain q m1 where r: "rep_out hw mode (iobase1 ch) (unat words) (adjust_overrun p) m = (q, m1)"
    by fastforce
  obtain st m2 where w: "wait_not_busy hw (iobase1 ch + 7) m1 = Some (st, m2)"
    using waits [OF 1(2)] by blast
  note IH = ends_well_count [OF 1(1) [OF refl r [symmetric] refl refl w refl _ _ 1(2), folded count_sectors_def]]
  show ?case
    using IH r w
    by (subst data_out_loop.simps)
      (auto simp: Let_def ends_well_count_Some split: if_splits simp flip: count_sectors_def)
qed

lemma data_in_ends:
  assumes "\<forall>d. \<exists>st d'. settles hw (iobase1 ch + 7) d st d'"
    and ch: "channels b (unat (rq_dev_id (drqp b)) div 2) = ch"
  shows "ends_well hw ch b (ata_cmd_data_in hw b command count m)"
proof -
  obtain st m1 where i: "inb hw (iobase1 ch + 7) m = (st, m1)" by fastforce
  obtain st2 m2 where w: "wait_not_busy hw (iobase1 ch + 7)
      (outb_seq hw (setup_in ch (drqp b) command count) m1) = Some (st2, m2)"
    using waits [OF assms(1)] by blast
  show ?thesis
    using i w by (simp add: ata_cmd_data_in_def Let_def ch ends_well_Some data_in_loop_ends [OF assms(1)])
qed

lemma data_out_ends:
  assumes "\<forall>d. \<exists>st d'. settles hw (iobase1 ch + 7) d st d'"
    and ch: "channels b (unat (rq_dev_id (drqp b)) div 2) = ch"
  shows "ends_well hw ch b (ata_cmd_data_out hw b command count m)"
proof -
  obtain st m1 where i: "inb hw (iobase1 ch + 7) m = (st, m1)" by fastforce
  obtain st2 m2 where w: "wait_not_busy hw (iobase1 ch + 7)
      (outb_seq hw (setup_out ch (drqp b) command count) m1) = Some (st2, m2)"
    using waits [OF assms(1)] by blast
  show ?thesis
    using i w by (simp add: ata_cmd_data_out_def Let_def ch ends_well_Some data_out_loop_ends [OF assms(1)])
qed

lemma read_multiple_ends:
  assumes "\<forall>d. \<exists>st d'. settles hw (iobase1 ch + 7) d st d'" and ch: "ch = request_chan b"
    and size: "blksize (request_device b) = 0x200"
  shows "ends_well hw ch b (read_multiple hw b m)"
proof -
  let ?b = "set_blksize (rq_dev_id (drqp b)) (rq_nsect (drqp b) * 0x200) b"
  have "ends_well hw ch ?b (ata_cmd_data_in hw ?b ATA_CMD_READ_MULTIPLE (rq_nsect (drqp b)) m)"
    using assms(1) ch by (intro data_in_ends) (simp_all add: set_blksize_def request_chan_def)
  then obtain rc n m' where "ata_cmd_data_in hw ?b ATA_CMD_READ_MULTIPLE (rq_nsect (drqp b)) m =
      Some (rc, count_sectors n ?b, ints_on hw ch m')"
    unfolding ends_well_def by blast
  then have "read_multiple hw b m = Some (rc, count_sectors n b, ints_on hw ch m')"
    by (simp add: read_multiple_def restore_blksize [OF size])
  then show ?thesis by (simp add: ends_well_count_Some)
qed

text \<open>
  C32: Every sector request ends: for any drive whose status always settles, and whatever it answers,
  \<open>ata_read_sectors\<close> and \<open>ata_write_sectors\<close> return a status, on every success and failure path
  leave the drive's interrupts enabled as their last act, and change nothing of the disk structure
  but the count of transferred sectors; the block size patched in for READ MULTIPLE is restored.
\<close>

theorem ata_requests_end:
  assumes "\<forall>d. \<exists>st d'. settles hw (iobase1 ch + 7) d st d'" and "ch = request_chan b"
    and "blksize (request_device b) = 0x200"
  shows "(\<exists>rc n m'. ata_read_sectors hw b m = Some (rc, count_sectors n b, ints_on hw ch m')) \<and>
    (\<exists>rc n m'. ata_write_sectors hw b m = Some (rc, count_sectors n b, ints_on hw ch m'))"
proof -
  have "channels b (unat (rq_dev_id (drqp b)) div 2) = ch"
    using assms(2) by (simp add: request_chan_def)
  then have "ends_well hw ch b (ata_read_sectors hw b m)" "ends_well hw ch b (ata_write_sectors hw b m)"
    using data_in_ends [OF assms(1)] data_out_ends [OF assms(1)] read_multiple_ends [OF assms]
    by (simp_all add: ata_read_sectors_def ata_write_sectors_def Let_def)
  then show ?thesis by (simp add: ends_well_def)
qed

theorem ata_requests_end_witness:
  "(\<exists>rc n m'. ata_read_sectors (sector_drive 1) (one_disk (0x1000, 0) ATA_MODE_PIO16) (blank []) =
      Some (rc, count_sectors n (one_disk (0x1000, 0) ATA_MODE_PIO16),
        ints_on (sector_drive 1) (isa_chan 0x1f0 0x3f0 14) m')) \<and>
   (\<exists>rc n m'. ata_write_sectors (sector_drive 1) (one_disk (0x1000, 0) ATA_MODE_PIO16) (blank []) =
      Some (rc, count_sectors n (one_disk (0x1000, 0) ATA_MODE_PIO16),
        ints_on (sector_drive 1) (isa_chan 0x1f0 0x3f0 14) m'))"
proof (rule ata_requests_end)
  show "\<forall>d. \<exists>st d'. settles (sector_drive 1) (iobase1 (isa_chan 0x1f0 0x3f0 14) + 7) d st d'"
    using sector_drive_reader unfolding pio_reader_def by blast
qed (simp_all add: one_disk_def request_chan_def request_device_def no_device_def)

end
