(* ===== verification/AtaTaskFile.thy ===== *)
theory AtaTaskFile
  imports AtaTransfer
begin

text \<open>
  The addressing side of the ATA driver: what a drive with double-buffered task file registers makes
  of the register writes of the data-in and data-out commands.
\<close>

section \<open>The task file\<close>

text \<open>
  What a drive makes of the register writes: every register of the command block keeps the byte
  written last and the one before (the "high order byte" of a 48-bit command).
\<close>

definition latch :: "(u16 \<times> u8) list \<Rightarrow> (u16 \<Rightarrow> u8 \<times> u8) \<Rightarrow> u16 \<Rightarrow> u8 \<times> u8" where
  "latch ws f = foldl (\<lambda>f (p, v). f(p := (snd (f p), v))) f ws"

definition cur :: "(u16 \<Rightarrow> u8 \<times> u8) \<Rightarrow> u16 \<Rightarrow> u64" where "cur f p = ucast (snd (f p))"
definition prev :: "(u16 \<Rightarrow> u8 \<times> u8) \<Rightarrow> u16 \<Rightarrow> u64" where "prev f p = ucast (fst (f p))"

definition lba48 :: "u16 \<Rightarrow> (u16 \<Rightarrow> u8 \<times> u8) \<Rightarrow> u64" where
  "lba48 b1 f = cur f (b1 + 3) OR push_bit 8 (cur f (b1 + 4)) OR push_bit 16 (cur f (b1 + 5)) OR
     push_bit 24 (prev f (b1 + 3)) OR push_bit 32 (prev f (b1 + 4)) OR push_bit 40 (prev f (b1 + 5))"

definition lba28 :: "u16 \<Rightarrow> (u16 \<Rightarrow> u8 \<times> u8) \<Rightarrow> u64" where
  "lba28 b1 f = cur f (b1 + 3) OR push_bit 8 (cur f (b1 + 4)) OR push_bit 16 (cur f (b1 + 5)) OR
     push_bit 24 (take_bit 4 (cur f (b1 + 6)))"

definition request_seen :: "ata_chan \<Rightarrow> (u16 \<times> u8) list \<Rightarrow> u8 \<Rightarrow> u64 \<Rightarrow> u16 \<Rightarrow> u16 \<Rightarrow> bool" where
  "request_seen ch ws device lba count command \<longleftrightarrow>
     (\<forall>f. let b1 = iobase1 ch; g = latch ws f in
        (if needs_ext lba count
         then lba48 b1 g = lba \<and> mk16 (fst (g (b1 + 2))) (snd (g (b1 + 2))) = count
         else lba28 b1 g = lba \<and> snd (g (b1 + 2)) = lo8 count) \<and>
        bit (snd (g (b1 + 6))) 6 \<and> (bit (snd (g (b1 + 6))) 4 \<longleftrightarrow> bit device 0) \<and>
        last ws = (b1 + 7, ucast command))"

lemma bit_u8_bound: "bit w n \<Longrightarrow> n < 8" for w :: u8
  using bit_imp_le_length by fastforce

lemma take_byte:
  "take_bit (k + 8) w = take_bit k w OR push_bit k (ucast (ucast (drop_bit k w) :: u8))" for w :: u64
proof (rule bit_word_eqI)
  fix n assume "n < LENGTH(64)"
  then show "bit (take_bit (k + 8) w) n \<longleftrightarrow>
      bit (take_bit k w OR push_bit k (ucast (ucast (drop_bit k w) :: u8))) n"
    by (cases "n < k") (auto simp: bit_simps)
qed

lemma take_nibble:
  "take_bit (k + 4) w = take_bit k w OR push_bit k (take_bit 4 (drop_bit k w))" for w :: u64
proof (rule bit_word_eqI)
  fix n assume "n < LENGTH(64)"
  then show "bit (take_bit (k + 4) w) n \<longleftrightarrow>
      bit (take_bit k w OR push_bit k (take_bit 4 (drop_bit k w))) n"
    by (cases "n < k") (auto simp: bit_simps)
qed

lemma take_bit_all: "unat w < 2 ^ n \<Longrightarrow> take_bit n w = w" for w :: u64
proof -
  assume "unat w < 2 ^ n"
  then have "unat (take_bit n w) = unat w"
    by (simp only: unsigned_take_bit_eq take_bit_nat_eq_self)
  then show ?thesis by (simp only: word_unat_eq_iff)
qed

lemma lba48_bytes:
  fixes lba :: u64
  assumes "unat lba < 2 ^ 48"
  shows "ucast (ucast lba :: u8) OR push_bit 8 (ucast (ucast (drop_bit 8 lba) :: u8)) OR
    push_bit 16 (ucast (ucast (drop_bit 16 lba) :: u8)) OR
    push_bit 24 (ucast (ucast (drop_bit 24 lba) :: u8)) OR
    push_bit 32 (ucast (ucast (drop_bit 32 lba) :: u8)) OR
    push_bit 40 (ucast (ucast (drop_bit 40 lba) :: u8)) = lba"
  using take_byte [of 0 lba] take_byte [of 8 lba] take_byte [of 16 lba] take_byte [of 24 lba]
    take_byte [of 32 lba] take_byte [of 40 lba] take_bit_all [OF assms]
  by (simp add: or.assoc)

lemma lba28_bytes:
  fixes lba :: u64
  assumes "unat lba < 2 ^ 28"
  shows "ucast (ucast lba :: u8) OR push_bit 8 (ucast (ucast (drop_bit 8 lba) :: u8)) OR
    push_bit 16 (ucast (ucast (drop_bit 16 lba) :: u8)) OR
    push_bit 24 (take_bit 4 (drop_bit 24 lba)) = lba"
  using take_byte [of 0 lba] take_byte [of 8 lba] take_byte [of 16 lba] take_nibble [of 24 lba]
    take_bit_all [OF assms]
  by (simp add: or.assoc)

lemma byte_of_cylinder:
  "ucast (ucast (drop_bit k lba) :: u16) = (ucast (drop_bit k lba) :: u8)"
  "ucast (drop_bit 8 (ucast (drop_bit k lba) :: u16)) = (ucast (drop_bit (k + 8) lba) :: u8)"
  for lba :: u64
  by (rule bit_word_eqI; auto simp: bit_simps ac_simps)+

lemma dh_select_bits: "dh_select d = 0xa0 OR (if bit d 0 then 0x10 else 0)"
  by (simp add: dh_select_def bit_0 odd_iff_mod_2_eq_one)

lemma and_0xf: "x AND 0xf = take_bit 4 x" for x :: "'a :: len word"
proof -
  have "(0xf :: 'a word) = mask 4" by (simp add: mask_numeral)
  then show ?thesis by (simp add: take_bit_eq_mask)
qed

lemma device_head:
  fixes x :: u64 and d :: u8
  defines "h \<equiv> dh_select d OR (ucast (x AND 0xf) OR 0x40) :: u8"
  shows "bit h 6" "bit h 4 \<longleftrightarrow> bit d 0" "take_bit 4 (ucast h) = take_bit 4 x"
proof -
  show "bit h 6" by (simp add: h_def bit_simps)
  show "bit h 4 \<longleftrightarrow> bit d 0" by (simp add: h_def dh_select_bits and_0xf bit_simps)
  have "take_bit 4 h = ucast (take_bit 4 x)"
    by (simp add: h_def dh_select_bits and_0xf take_bit_or)
      (rule bit_word_eqI, auto simp: bit_simps)
  moreover have "take_bit 4 (ucast h :: u64) = ucast (take_bit 4 h)"
    by (rule bit_word_eqI) (auto simp: bit_simps)
  ultimately have "take_bit 4 (ucast h :: u64) = ucast (ucast (take_bit 4 x) :: u8)" by simp
  also have "\<dots> = take_bit 4 x" by (rule bit_word_eqI) (auto simp: bit_simps)
  finally show "take_bit 4 (ucast h) = take_bit 4 x" .
qed

definition ports_apart :: "ata_chan \<Rightarrow> bool" where
  \<comment> \<open>the control register is none of the registers 2 to 6 of the command block\<close>
  "ports_apart ch \<longleftrightarrow> (\<forall>i \<in> {2, 3, 4, 5, 6}. iobase2 ch + 6 \<noteq> iobase1 ch + i)"

lemma latch_task:
  fixes ch device command count s c h
  assumes "ports_apart ch"
  defines "ws \<equiv> task_writes ch device command count s c h" and "b1 \<equiv> iobase1 ch"
  shows "latch ws f (b1 + 2) = (snd (f (b1 + 2)), ucast count)" "latch ws f (b1 + 3) = (snd (f (b1 + 3)), s)"
    "latch ws f (b1 + 4) = (snd (f (b1 + 4)), lo8 c)" "latch ws f (b1 + 5) = (snd (f (b1 + 5)), hi8 c)"
    "latch ws f (b1 + 6) = (snd (f (b1 + 6)), dh_select device OR h)"
  using assms(1) by (auto simp: ws_def b1_def task_writes_def latch_def ports_apart_def)

lemma latch_hob:
  fixes b1 lba count
  defines "ws \<equiv> hob_writes b1 lba count"
  shows "snd (latch ws f (b1 + 2)) = hi8 count" "snd (latch ws f (b1 + 3)) = ucast (drop_bit 24 lba)"
    "snd (latch ws f (b1 + 4)) = lo8 (ucast (drop_bit 32 lba))"
    "snd (latch ws f (b1 + 5)) = hi8 (ucast (drop_bit 32 lba))"
  by (simp_all add: ws_def hob_writes_def latch_def Let_def)

lemma latch_append: "latch (vs @ ws) f = latch ws (latch vs f)"
  by (simp add: latch_def)

lemma task_writes_last:
  "last (vs @ task_writes ch device command count s c h) = (iobase1 ch + 7, ucast command)"
  by (simp add: task_writes_def)

lemma seen_ext:
  fixes x :: u64
  assumes "unat lba < 2 ^ 48" "ports_apart ch" "needs_ext lba count"
    and "s = ucast lba" "c = ucast (drop_bit 8 lba)"
  shows "request_seen ch (hob_writes (iobase1 ch) lba count @
      task_writes ch device command count s c (ucast (x AND 0xf) OR 0x40)) device lba count command"
  using lba48_bytes [OF assms(1)] assms(3)
  by (simp add: request_seen_def Let_def latch_append latch_task [OF assms(2)] latch_hob lba48_def
      cur_def prev_def lo8_def hi8_def byte_of_cylinder device_head task_writes_last assms(4,5)
      mk16_hi_lo [unfolded lo8_def hi8_def])

lemma seen_28:
  assumes "unat lba < 2 ^ 28" "ports_apart ch" "\<not> needs_ext lba count"
  shows "request_seen ch (task_writes ch device command count (ucast lba) (ucast (drop_bit 8 lba))
      (ucast (drop_bit 24 lba AND 0xf) OR 0x40)) device lba count command"
  using lba28_bytes [OF assms(1)] assms(3) task_writes_last [of "[]"]
  by (simp add: request_seen_def Let_def latch_task [OF assms(2)] lba28_def
      cur_def lo8_def hi8_def byte_of_cylinder device_head)

lemma not_ext_bound:
  assumes "unat lba < 2 ^ 48" "\<not> needs_ext lba count"
  shows "unat lba < 2 ^ 28"
proof -
  have c: "unat (ucast count :: u64) < 65536"
    using unsigned_less [of count, where 'a = nat] by (simp add: unsigned_ucast_eq take_bit_nat_eq_self)
  have "unat (lba + ucast count) = unat lba + unat (ucast count :: u64)"
    using assms(1) c by (simp add: unat_word_ariths)
  then show ?thesis
    using assms(2) c by (simp add: needs_ext_def word_le_nat_alt)
qed

lemma and_24_bits: "x AND 0xffffff = take_bit 24 x" for x :: u64
proof -
  have "(0xffffff :: u64) = mask 24" by (simp add: mask_numeral)
  then show ?thesis by (simp add: take_bit_eq_mask)
qed



end
