(* ===== verification/Disk.thy ===== *)
theory Disk
  imports AtaTransfer
begin

text \<open>
  The hard disk services of the PC BIOS (\<open>Devices/PC/BIOS/disk.c\<close>): INT 13h functions 00h to 18h
  (\<open>int13_harddisk\<close>), the extensions 41h to 50h (\<open>int13_harddisk_ext\<close>) and the EDD device
  parameter table. The table \<open>dskacc\<close> of controller routines is a parameter: from the type of a
  device and the index 0 (read) or 1 (write) to the routine, which works on the request packet.
\<close>

type_synonym 'd driver = "bio_dsk \<Rightarrow> 'd machine \<Rightarrow> (u16 \<times> bio_dsk \<times> 'd machine) option"
type_synonym 'd dskacc = "u8 \<Rightarrow> u8 \<Rightarrow> 'd driver"
type_synonym 'd served = "regs \<times> bio_dsk \<times> 'd machine"

section \<open>Device parameter table\<close>

definition dpte_bytes :: "dpte \<Rightarrow> u8 list" where
  "dpte_bytes e =
     [lo8 (e_iobase1 e), hi8 (e_iobase1 e), lo8 (e_iobase2 e), hi8 (e_iobase2 e), e_prefix e,
      e_unused e, e_irq e, e_blkcount e, e_dma e, e_pio e, lo8 (e_options e), hi8 (e_options e),
      lo8 (e_reserved e), hi8 (e_reserved e), e_revision e, e_checksum e]"

definition dpte_options :: "disk_dev \<Rightarrow> u16" where
  \<comment> \<open>with the precedence the C text has: \<open>c ? 1 : (0 << 7)\<close>\<close>
  "dpte_options d =
     (let options = (if translation d = GEO_TRANSLATION_NONE then 0 else push_bit 3 1);
          options = options OR push_bit 4 1;
          options = (if d_device d = DSK_DEVICE_CDROM
                     then options OR push_bit 5 1 OR push_bit 6 1 else options);
          options = options OR (if d_mode d = ATA_MODE_PIO32 then 1 else push_bit 7 0);
          options = options OR (if translation d = GEO_TRANSLATION_LBA then 1 else push_bit 9 0)
      in options OR (if translation d = GEO_TRANSLATION_RECHS then 3 else push_bit 9 0))"

definition build_dpte :: "bio_dsk \<Rightarrow> u8 \<Rightarrow> dpte" where
  "build_dpte b device =
     (let ch = channels b (unat device div 2);
          e = \<lparr>e_iobase1 = iobase1 ch, e_iobase2 = iobase2 ch,
               e_prefix = push_bit 4 (0xe OR device mod 2), e_unused = 0xcb, e_irq = irq ch,
               e_blkcount = 1, e_dma = 0, e_pio = 0,
               e_options = dpte_options (devices b (unat device)), e_reserved = 0,
               e_revision = 0x11, e_checksum = e_checksum (b_dpte b)\<rparr>
      in e\<lparr>e_checksum := - sum_list (take 15 (dpte_bytes e))\<rparr>)"

fun write_bytes :: "u16 \<Rightarrow> u16 \<Rightarrow> u8 list \<Rightarrow> 'd machine \<Rightarrow> 'd machine" where
  "write_bytes seg off [] m = m"
| "write_bytes seg off (c # cs) m = write_bytes seg (off + 1) cs (write_byte seg off c m)"

definition fill_edd1 :: "u16 \<Rightarrow> u16 \<Rightarrow> disk_dev \<Rightarrow> 'd machine \<Rightarrow> 'd machine" where
  "fill_edd1 seg off d m =
     (let m = write_word seg (off + 24) (blksize d) (write_word seg off 0x1a m)
      in if d_device d = DSK_DEVICE_CDROM then
           let m = write_word seg (off + 2) 0x74 m;
               m = write_dword seg (off + 4) 0xffffffff m;
               m = write_dword seg (off + 8) 0xffffffff m;
               m = write_dword seg (off + 12) 0xffffffff m;
               m = write_dword seg (off + 16) 0xffffffff m
           in write_dword seg (off + 20) 0xffffffff m
         else
           let m = write_word seg (off + 2) 0x02 m;
               m = write_dword seg (off + 4) (ucast (cylinders (pchs d))) m;
               m = write_dword seg (off + 8) (ucast (heads (pchs d))) m;
               m = write_dword seg (off + 12) (ucast (spt (pchs d))) m;
               m = write_dword seg (off + 16) (ucast (sectors d)) m
           in write_dword seg (off + 20) (ucast (drop_bit 32 (sectors d))) m)"

definition fill_edd2 :: "u16 \<Rightarrow> u16 \<Rightarrow> u16 \<Rightarrow> u16 \<Rightarrow> 'd machine \<Rightarrow> 'd machine" where
  "fill_edd2 seg off ebda_seg dpte_off m =
     (let m = write_word seg off 0x1e m;
          m = write_word seg (off + 28) ebda_seg m
      in write_word seg (off + 26) dpte_off m)"

definition fill_edd3 :: "u16 \<Rightarrow> u16 \<Rightarrow> ata_chan \<Rightarrow> u8 \<Rightarrow> 'd machine \<Rightarrow> 'd machine" where
  "fill_edd3 seg off ch device m =
     (let isa = (iface ch = 0);
          m = write_word seg off 0x42 m;
          m = write_word seg (off + 30) 0xbedd m;
          m = write_byte seg (off + 32) 0x24 m;
          m = write_byte seg (off + 33) 0 m;
          m = write_word seg (off + 34) 0 m;
          m = (if isa then write_bytes seg (off + 36) (bytes ''ISA '') m else m);
          m = write_bytes seg (off + 40) (bytes ''ATA     '') m;
          m = (if isa then
                 write_dword seg (off + 52) 0
                   (write_word seg (off + 50) 0 (write_word seg (off + 48) (iobase1 ch) m))
               else m);
          m = write_dword seg (off + 60) 0
                (write_word seg (off + 58) 0 (write_word seg (off + 56) (ucast (device AND 1)) m))
      in write_byte seg (off + 65) (- sum_bytes seg (off + 30) 34 m) m)"

text \<open>
  \<open>dpte_off\<close> is the offset of the DPTE in the EBDA, which the layout of the structure decides. The
  result is the \<open>int\<close> the function returns, as a failure flag.
\<close>

definition edd_fill_dpt ::
  "u16 \<Rightarrow> u16 \<Rightarrow> u16 \<Rightarrow> bio_dsk \<Rightarrow> u8 \<Rightarrow> 'd machine \<Rightarrow> bool \<times> bio_dsk \<times> 'd machine" where
  "edd_fill_dpt dpte_off seg off b device m =
     (let ebda_seg = read_word 0x40 0x0E m; d = devices b (unat device);
          ch = channels b (unat device div 2)
      in if read_word seg off m < 0x1a then (True, b, m)
         else
           let m = (if read_word seg off m \<ge> 0x1a then fill_edd1 seg off d m else m);
               (b, m) = (if read_word seg off m \<ge> 0x1e
                         then (b\<lparr>b_dpte := build_dpte b device\<rparr>, fill_edd2 seg off ebda_seg dpte_off m)
                         else (b, m));
               m = (if read_word seg off m \<ge> 0x42 then fill_edd3 seg off ch device m else m)
           in (False, b, m))"

section \<open>Ends of the services\<close>

definition set_disk_ret_status :: "u8 \<Rightarrow> 'd machine \<Rightarrow> 'd machine" where
  "set_disk_ret_status st m = write_byte 0x40 0x74 st m"

definition int13_fail_noah :: "'d served \<Rightarrow> 'd served" where
  "int13_fail_noah s = (case s of (r, b, m) \<Rightarrow>
     (set_cf r, b, set_disk_ret_status (hi8 (rax r)) m))"

definition int13_fail :: "'d served \<Rightarrow> 'd served" where
  "int13_fail s = (case s of (r, b, m) \<Rightarrow> int13_fail_noah (set_ah 0x01 r, b, m))"

definition int13_success_noah :: "'d served \<Rightarrow> 'd served" where
  "int13_success_noah s = (case s of (r, b, m) \<Rightarrow> (clear_cf r, b, set_disk_ret_status 0x00 m))"

definition int13_success :: "'d served \<Rightarrow> 'd served" where
  "int13_success s = (case s of (r, b, m) \<Rightarrow> int13_success_noah (set_ah 0x00 r, b, m))"

section \<open>INT 13h, functions 00h to 18h\<close>

definition chs_lba :: "chs \<Rightarrow> u16 \<Rightarrow> u16 \<Rightarrow> u16 \<Rightarrow> u32" where
  "chs_lba geo c h s =
     (ucast c * ucast (heads geo) + ucast h) * ucast (spt geo) + ucast s - 1"

text \<open>
  Functions 02h, 03h and 04h. \<open>lba0\<close> is what the uninitialised local \<open>lba\<close> holds; it reaches the
  request when no translation is needed.
\<close>

definition chs_cylinder :: "regs \<Rightarrow> u16" where
  "chs_cylinder r = ucast (hi8 (rcx r)) OR (push_bit 2 (ucast (lo8 (rcx r))) AND 0x300)"

definition needs_lba :: "disk_dev \<Rightarrow> u8 \<Rightarrow> bool" where
  "needs_lba d device \<longleftrightarrow>
     heads (pchs d) \<noteq> heads (lchs d) \<or> spt (pchs d) \<noteq> spt (lchs d) \<or> VBOX_IS_SCSI_DEVICE device"

definition chs_request :: "u32 \<Rightarrow> u8 \<Rightarrow> disk_dev \<Rightarrow> regs \<Rightarrow> disk_req \<Rightarrow> disk_req" where
  "chs_request lba0 device d r q =
     (let c = chs_cylinder r; s = ucast (lo8 (rcx r)) AND 0x3f; h = ucast (hi8 (rdx r));
          (lba, sector) = (if needs_lba d device then (chs_lba (lchs d) c h s, 0) else (lba0, s))
      in q\<lparr>trsfsectors := 0, trsfbytes := 0, rq_lba := ucast lba, rq_buffer := (res r, rbx r),
           rq_nsect := ucast (lo8 (rax r)), rq_sect_sz := 512, rq_cylinder := c, rq_head := h,
           rq_sector := sector, rq_dev_id := device\<rparr>)"

definition int13_transfer ::
  "'d dskacc \<Rightarrow> u32 \<Rightarrow> u8 \<Rightarrow> 'd served \<Rightarrow> 'd served option" where
  "int13_transfer dskacc lba0 device st = (case st of (r, b, m) \<Rightarrow>
     let ah = hi8 (rax r); count = ucast (lo8 (rax r)) :: u16; d = devices b (unat device);
         c = chs_cylinder r; s = ucast (lo8 (rcx r)) AND 0x3f :: u16; h = ucast (hi8 (rdx r)) :: u16
     in if count > 128 \<or> count = 0 then
          Some (int13_fail (r, b, bx_info ''int13_harddisk: function %02x, count out of range!\<newline>''
            [ucast ah] m))
        else if c \<ge> cylinders (lchs d) \<or> h \<ge> heads (lchs d) \<or> s > spt (lchs d) then
          Some (int13_fail (r, b, bx_info
            ''int13_harddisk: function %02x, disk %02x, parameters out of range %04x/%04x/%04x!\<newline>''
            [ucast ah, ucast (lo8 (rdx r)), c, h, s] m))
        else if ah = 0x04 then Some (int13_success (r, b, m))
        else
          (case dskacc (d_type d) (ah - 0x02) (upd_drqp (chs_request lba0 device d r) b) m of
             None \<Rightarrow> None
           | Some (rc, b, m) \<Rightarrow>
               let status = lo8 rc; r = set_al (lo8 (trsfsectors (drqp b))) r
               in if status \<noteq> 0 then
                    Some (int13_fail_noah (set_ah 0x0c r, b,
                      bx_info ''int13_harddisk: function %02x, error %02x !\<newline>'' [ucast ah, ucast status] m))
                  else Some (int13_success (r, b, m))))"

definition int13_parameters :: "u8 \<Rightarrow> 'd served \<Rightarrow> 'd served" where
  \<comment> \<open>function 08h\<close>
  "int13_parameters device st = (case st of (r, b, m) \<Rightarrow>
     let geo = lchs (devices b (unat device)); nlc = cylinders geo - 1;
         r = set_al 0 r; r = set_ch (lo8 nlc) r;
         r = set_cl (ucast (drop_bit 2 nlc AND 0xc0 OR (spt geo AND 0x3f))) r;
         r = set_dh (lo8 (heads geo - 1)) r; r = set_dl (hdcount b) r
     in int13_success (r, b, m))"

definition int13_ready :: "'d hw \<Rightarrow> u8 \<Rightarrow> 'd served \<Rightarrow> 'd served" where
  \<comment> \<open>function 10h\<close>
  "int13_ready hw device st = (case st of (r, b, m) \<Rightarrow>
     if \<not> VBOX_IS_SCSI_DEVICE device then
       let (status, m) = inb hw (iobase1 (channels b (unat device div 2)) + ATA_CB_STAT) m
       in if status AND (ATA_CB_STAT_BSY OR ATA_CB_STAT_RDY) = ATA_CB_STAT_RDY
          then int13_success (r, b, m) else int13_fail_noah (set_ah 0xAA r, b, m)
     else int13_success (r, b, m))"

definition int13_size :: "u8 \<Rightarrow> 'd served \<Rightarrow> 'd served" where
  \<comment> \<open>function 15h\<close>
  "int13_size device st = (case st of (r, b, m) \<Rightarrow>
     let geo = pchs (devices b (unat device));
         lba = ucast (cylinders geo) * ucast (heads geo) * ucast (spt geo) :: u32;
         r = r\<lparr>rcx := ucast (drop_bit 16 lba), rdx := ucast lba\<rparr>
     in int13_success_noah (set_ah 3 r, b, m))"

definition int13_dispatch ::
  "'d hw \<Rightarrow> 'd dskacc \<Rightarrow> u32 \<Rightarrow> u8 \<Rightarrow> 'd served \<Rightarrow> 'd served option" where
  "int13_dispatch hw dskacc lba0 device st = (case st of (r, b, m) \<Rightarrow>
     let ah = hi8 (rax r)
     in if ah = 0x00 then
          Some (int13_success (r, b,
            if \<not> VBOX_IS_SCSI_DEVICE device then ata_reset hw b device m else m))
        else if ah = 0x01 then
          (let status = read_byte 0x40 0x74 m; r = set_ah status r; m = set_disk_ret_status 0 m
           in Some (if status \<noteq> 0 then (set_cf r, b, m) else int13_success_noah (r, b, m)))
        else if ah \<in> {0x02, 0x03, 0x04} then int13_transfer dskacc lba0 device st
        else if ah = 0x05 then
          Some (int13_success (r, b, bx_info ''format disk track called\<newline>'' [] m))
        else if ah = 0x08 then Some (int13_parameters device st)
        else if ah = 0x10 then Some (int13_ready hw device st)
        else if ah = 0x15 then Some (int13_size device st)
        else if ah \<in> {0x09, 0x0c, 0x0d, 0x11, 0x14} then
          Some (int13_success (r, b,
            bx_info ''int13_harddisk: function %02xh unimplemented, returns success\<newline>'' [ucast ah] m))
        else
          Some (int13_fail (r, b,
            bx_info ''int13_harddisk: function %02xh unsupported, returns fail\<newline>'' [ucast ah] m)))"

text \<open>The checks both entry points begin with: the drive number, then the disk map.\<close>

definition find_device :: "string \<Rightarrow> 'd served \<Rightarrow> 'd served + u8" where
  "find_device func st = (case st of (r, b, m) \<Rightarrow>
     let eldl = lo8 (rsp r); ah = hi8 (rax r)
     in if eldl < 0x80 \<or> eldl \<ge> 0x80 + 20 then
          Inl (int13_fail (r, b, bx_info (func @ '': function %02x, ELDL out of range %02x\<newline>'')
            [ucast ah, ucast eldl] m))
        else
          let device = hdidmap b (unat (eldl - 0x80))
          in if device \<ge> 20 then
               Inl (int13_fail (r, b, bx_info (func @ '': function %02x, unmapped device for ELDL=%02x\<newline>'')
                 [ucast ah, ucast eldl] m))
             else Inr device)"

definition int13_harddisk ::
  "'d hw \<Rightarrow> 'd dskacc \<Rightarrow> u32 \<Rightarrow> 'd served \<Rightarrow> 'd served option" where
  "int13_harddisk hw dskacc lba0 st = (case st of (r, b, m) \<Rightarrow>
     let st = (set_if r, b, write_byte 0x40 0x8e 0 m)
     in case find_device ''int13_harddisk'' st of
          Inl s \<Rightarrow> Some s
        | Inr device \<Rightarrow> int13_dispatch hw dskacc lba0 device st)"

section \<open>INT 13h extensions, functions 41h to 50h\<close>

definition ext_request :: "u8 \<Rightarrow> u64 \<Rightarrow> far \<Rightarrow> u16 \<Rightarrow> disk_req \<Rightarrow> disk_req" where
  "ext_request device lba buffer count q =
     q\<lparr>trsfsectors := 0, trsfbytes := 0, rq_lba := lba, rq_buffer := buffer, rq_nsect := count,
       rq_sect_sz := 512, rq_sector := 0, rq_dev_id := device\<rparr>"

definition int13_ext_transfer :: "'d dskacc \<Rightarrow> u8 \<Rightarrow> 'd served \<Rightarrow> 'd served option" where
  "int13_ext_transfer dskacc device st = (case st of (r, b, m) \<Rightarrow>
     let ah = hi8 (rax r); seg = rds r; off = rsi r; d = devices b (unat device);
         count = read_word seg (off + 2) m;
         buffer = (read_word seg (off + 6) m, read_word seg (off + 4) m);
         lba = push_bit 32 (ucast (read_dword seg (off + 12) m)) OR ucast (read_dword seg (off + 8) m)
     in if lba \<ge> sectors d then
          Some (int13_fail (r, b, bx_info ''int13_harddisk_ext: function %02x. LBA out of range\<newline>''
            [ucast ah] m))
        else if ah = 0x44 \<or> ah = 0x47 then Some (int13_success (r, b, m))
        else
          (case dskacc (d_type d) (ah - 0x42) (upd_drqp (ext_request device lba buffer count) b) m of
             None \<Rightarrow> None
           | Some (rc, b, m) \<Rightarrow>
               let status = lo8 rc; m = write_word seg (off + 2) (trsfsectors (drqp b)) m
               in if status \<noteq> 0 then
                    Some (int13_fail_noah (set_ah 0x0c r, b,
                      bx_info ''int13_harddisk_ext: function %02x, error %02x !\<newline>''
                        [ucast ah, ucast status] m))
                  else Some (int13_success (r, b, m))))"

definition int13_ext_dispatch ::
  "u16 \<Rightarrow> 'd dskacc \<Rightarrow> u8 \<Rightarrow> 'd served \<Rightarrow> 'd served option" where
  "int13_ext_dispatch dpte_off dskacc device st = (case st of (r, b, m) \<Rightarrow>
     let ah = hi8 (rax r)
     in if ah = 0x41 then
          Some (int13_success_noah ((set_ah 0x30 (r\<lparr>rbx := 0xaa55\<rparr>))\<lparr>rcx := 0x0007\<rparr>, b, m))
        else if ah \<in> {0x42, 0x43, 0x44, 0x47} then int13_ext_transfer dskacc device st
        else if ah \<in> {0x45, 0x49} then Some (int13_success (r, b, m))
        else if ah = 0x46 then Some (int13_fail_noah (set_ah 0xb2 r, b, m))
        else if ah = 0x48 then
          (let (failed, b, m) = edd_fill_dpt dpte_off (rds r) (rsi r) b device m
           in Some (if failed then int13_fail (r, b, m) else int13_success (r, b, m)))
        else if ah = 0x4e then
          Some (if lo8 (rax r) \<in> {0x01, 0x03, 0x04, 0x06} then int13_success (r, b, m)
                else int13_fail (r, b, m))
        else
          Some (int13_fail (r, b,
            bx_info ''int13_harddisk_ext: function %02xh unsupported, returns fail\<newline>'' [ucast ah] m)))"

definition int13_harddisk_ext :: "u16 \<Rightarrow> 'd dskacc \<Rightarrow> 'd served \<Rightarrow> 'd served option" where
  "int13_harddisk_ext dpte_off dskacc st = (case st of (r, b, m) \<Rightarrow>
     let st = (r, b, write_byte 0x40 0x8e 0 m)
     in case find_device ''int13_harddisk_ext'' st of
          Inl s \<Rightarrow> Some s
        | Inr device \<Rightarrow> int13_ext_dispatch dpte_off dskacc device st)"

text \<open>The routines of ATA disks in the table; those of the other controllers stay a parameter.\<close>

definition dskacc_ata :: "'d hw \<Rightarrow> 'd dskacc \<Rightarrow> 'd dskacc" where
  "dskacc_ata hw other kind i =
     (if kind = DSK_TYPE_ATA then (if i = 0 then ata_read_sectors hw else ata_write_sectors hw)
      else other kind i)"

end
