(* ===== verification/AtaWrite.thy ===== *)
theory AtaWrite
  imports AtaTransfer
begin

text \<open>
  Writing sectors: memory seen as the words a transfer takes from it, the protocol of a drive that
  takes data from the host, and the lemma that \<open>ata_write_sectors\<close> hands it exactly the words of the
  buffer.
\<close>

section \<open>Words taken from memory\<close>

definition fetch :: "u32 \<Rightarrow> nat \<Rightarrow> (u32 \<Rightarrow> u8) \<Rightarrow> u16 list" where
  "fetch a n r = map (\<lambda>i. mk16 (r (a + of_nat (2 * i) + 1)) (r (a + of_nat (2 * i)))) [0..<n]"

lemma fetch_0 [simp]: "fetch a 0 r = []"
  by (simp add: fetch_def)

lemma length_fetch [simp]: "length (fetch a n r) = n"
  by (simp add: fetch_def)

lemma fetch_add: "fetch a (k + n) r = fetch a k r @ fetch (a + of_nat (2 * k)) n r"
proof -
  have u: "[0..<k + n] = [0..<k] @ map (\<lambda>i. i + k) [0..<n]"
    using upt_add_eq_append [of 0 k n] map_add_upt [of k n] by (simp add: add.commute)
  have o: "a + of_nat (2 * (i + k)) = a + of_nat (2 * k) + of_nat (2 * i)" for i
    by (simp add: distrib_left)
  show ?thesis
    unfolding fetch_def u map_append list.map_comp comp_def o ..
qed

lemma fetch_1: "fetch a 1 r = [mk16 (r (a + 1)) (r a)]"
  by (simp add: fetch_def)

lemma read_word_fetch:
  assumes "unat p + 1 < 65536"
  shows "read_word s p m = mk16 (ram m (lin s p + 1)) (ram m (lin s p))"
  using lin_add [of p 1 s] assms by (simp add: read_word_def read_byte_def)

text \<open>
  A drive that takes data: \<open>need\<close> is how many words it still wants, \<open>sink\<close> what it has got.
\<close>

definition pio_writer :: "'d hw \<Rightarrow> u16 \<Rightarrow> ('d \<Rightarrow> nat) \<Rightarrow> ('d \<Rightarrow> u16 list) \<Rightarrow> bool" where
  "pio_writer hw b1 need sink \<longleftrightarrow>
     (\<forall>d. \<exists>st d'. settles hw (b1 + 7) d st d' \<and> need d' = need d \<and> sink d' = sink d \<and>
        st AND 0xE9 = (if need d = 0 then 0x40 else 0x48)) \<and>
     (\<forall>d v. 0 < need d \<longrightarrow>
        need (hw_outw hw b1 v d) = need d - 1 \<and> sink (hw_outw hw b1 v d) = sink d @ [v]) \<and>
     (\<forall>d v. 1 < need d \<longrightarrow> need (hw_outd hw b1 v d) = need d - 2 \<and>
        sink (hw_outd hw b1 v d) = sink d @ [ucast v, ucast (drop_bit 16 v)])"

lemma pio_writer_status:
  assumes "pio_writer hw b1 need sink"
  obtains st d' where "wait_not_busy hw (b1 + 7) m = Some (st, m\<lparr>dev := d'\<rparr>)"
    "need d' = need (dev m)" "sink d' = sink (dev m)"
    "st AND 0xE9 = (if need (dev m) = 0 then 0x40 else 0x48)"
  using assms wait_not_busy_settles unfolding pio_writer_def by metis

lemma rep_outsw_sends:
  assumes "pio_writer hw b1 need sink"
  shows "n \<le> need (dev m) \<Longrightarrow> unat p + 2 * n \<le> 65536 \<Longrightarrow>
    \<exists>d. rep_outsw hw b1 n (s, p) m = ((s, p + of_nat (2 * n)), m\<lparr>dev := d\<rparr>) \<and>
      need d = need (dev m) - n \<and> sink d = sink (dev m) @ fetch (lin s p) n (ram m)"
proof (induction n arbitrary: m p)
  case 0
  then show ?case by (intro exI [of _ "dev m"]) simp
next
  case (Suc n)
  let ?v = "read_word s p m"
  let ?m = "outw hw b1 ?v m"
  have d: "need (dev ?m) = need (dev m) - 1" "sink (dev ?m) = sink (dev m) @ [?v]" "ram ?m = ram m"
    using assms Suc.prems(1) by (simp_all add: pio_writer_def outw_def)
  have v: "fetch (lin s p) 1 (ram m) = [?v]"
    using Suc.prems(2) by (simp add: fetch_1 read_word_fetch del: One_nat_def)
  show ?case
  proof (cases "n = 0")
    case True
    then show ?thesis using d v by (intro exI [of _ "dev ?m"]) (simp add: outw_def)
  next
    case False
    then have u: "unat (p + 2) = unat p + 2" and l: "lin s (p + 2) = lin s p + 2"
      using Suc.prems(2) unat_add_off [of p 2] lin_add [of p 2 s] by simp_all
    have "\<exists>d. rep_outsw hw b1 n (s, p + 2) ?m = ((s, p + 2 + of_nat (2 * n)), ?m\<lparr>dev := d\<rparr>) \<and>
      need d = need (dev ?m) - n \<and> sink d = sink (dev ?m) @ fetch (lin s (p + 2)) n (ram ?m)"
      using d u Suc.prems by (intro Suc.IH) simp_all
    moreover have "fetch (lin s p) (Suc n) (ram m) = [?v] @ fetch (lin s p + 2) n (ram m)"
      using fetch_add [of "lin s p" 1 n "ram m"] v by simp
    ultimately show ?thesis using d l by (auto simp: outw_def algebra_simps)
  qed
qed

lemma rep_outsd_sends:
  assumes "pio_writer hw b1 need sink"
  shows "2 * n \<le> need (dev m) \<Longrightarrow> unat p + 4 * n \<le> 65536 \<Longrightarrow>
    \<exists>d. rep_outsd hw b1 n (s, p) m = ((s, p + of_nat (4 * n)), m\<lparr>dev := d\<rparr>) \<and>
      need d = need (dev m) - 2 * n \<and> sink d = sink (dev m) @ fetch (lin s p) (2 * n) (ram m)"
proof (induction n arbitrary: m p)
  case 0
  then show ?case by (intro exI [of _ "dev m"]) simp
next
  case (Suc n)
  let ?l = "read_word s p m" and ?h = "read_word s (p + 2) m"
  let ?m = "outd hw b1 (read_dword s p m) m"
  have r: "read_dword s p m = word_pair ?h ?l" by (simp add: read_dword_def word_pair_def)
  have d: "need (dev ?m) = need (dev m) - 2" "sink (dev ?m) = sink (dev m) @ [?l, ?h]" "ram ?m = ram m"
    using assms Suc.prems(1) by (simp_all add: pio_writer_def outd_def r)
  have p2: "unat (p + 2) = unat p + 2" "lin s (p + 2) = lin s p + 2"
    using Suc.prems(2) unat_add_off [of p 2] lin_add [of p 2 s] by simp_all
  have v: "fetch (lin s p) 2 (ram m) = [?l, ?h]"
    using Suc.prems(2) p2 fetch_add [of "lin s p" 1 1 "ram m"] fetch_1
    by (simp add: read_word_fetch fetch_def numeral_2_eq_2)
  show ?case
  proof (cases "n = 0")
    case True
    then show ?thesis using d v by (intro exI [of _ "dev ?m"]) (simp add: outd_def)
  next
    case False
    then have u: "unat (p + 4) = unat p + 4" and l: "lin s (p + 4) = lin s p + 4"
      using Suc.prems(2) unat_add_off [of p 4] lin_add [of p 4 s] by simp_all
    have "\<exists>d. rep_outsd hw b1 n (s, p + 4) ?m = ((s, p + 4 + of_nat (4 * n)), ?m\<lparr>dev := d\<rparr>) \<and>
      need d = need (dev ?m) - 2 * n \<and> sink d = sink (dev ?m) @ fetch (lin s (p + 4)) (2 * n) (ram ?m)"
      using d u Suc.prems by (intro Suc.IH) simp_all
    moreover have "fetch (lin s p) (2 * Suc n) (ram m) = [?l, ?h] @ fetch (lin s p + 4) (2 * n) (ram m)"
      using fetch_add [of "lin s p" 2 "2 * n" "ram m"] v by simp
    ultimately show ?thesis using d l by (auto simp: outd_def algebra_simps)
  qed
qed

lemma rep_out_sends:
  assumes "pio_writer hw b1 need sink" "unit_words mode * n = W" "W \<le> need (dev m)"
    "unat (snd p) + 2 * W \<le> 65536"
  shows "\<exists>d. rep_out hw mode b1 n p m = ((fst p, snd p + of_nat (2 * W)), m\<lparr>dev := d\<rparr>) \<and>
      need d = need (dev m) - W \<and> sink d = sink (dev m) @ fetch (flin p) W (ram m)"
proof (cases "mode = ATA_MODE_PIO32")
  case True
  then show ?thesis
    using rep_outsd_sends [OF assms(1), of n m "snd p" "fst p"] assms(2-4)
    by (auto simp: rep_out_def unit_words_def flin_def)
next
  case False
  then show ?thesis
    using rep_outsw_sends [OF assms(1), of n m "snd p" "fst p"] assms(2-4)
    by (auto simp: rep_out_def unit_words_def flin_def)
qed


section \<open>The transfer loop\<close>

definition sector_units :: "u8 \<Rightarrow> u16" where
  "sector_units mode = (if mode = ATA_MODE_PIO32 then drop_bit 2 0x200 else drop_bit 1 0x200)"

lemma sector_units: "unit_words mode * unat (sector_units mode) = 256"
  by (simp add: unit_words_def sector_units_def)

lemma data_out_loop_sends:
  assumes drive: "pio_writer hw (iobase1 ch) need sink"
  shows "unat count = Suc k \<Longrightarrow> need (dev m) = Suc k * 256 \<Longrightarrow> block_fits (Suc k) 256 p \<Longrightarrow>
    \<exists>d. data_out_loop hw ch mode (sector_units mode) count p b m =
        Some (0, count_sectors (of_nat (Suc k)) b, ints_on hw ch (m\<lparr>dev := d\<rparr>)) \<and>
      sink d = sink (dev m) @ fetch (flin p) (Suc k * 256) (ram m)"
proof (induction k arbitrary: count m p b)
  case (0 count m p b)
  note fits = block_fits_step [OF "0.prems"(3)]
  have c: "count = 1" using "0.prems"(1) by (simp add: word_unat_eq_iff)
  obtain d where d: "rep_out hw mode (iobase1 ch) (unat (sector_units mode)) (adjust_overrun p) m =
      ((fst (adjust_overrun p), snd (adjust_overrun p) + of_nat (2 * 256)), m\<lparr>dev := d\<rparr>)"
      "need d = 0" "sink d = sink (dev m) @ fetch (flin p) 256 (ram m)"
    using rep_out_sends [OF drive sector_units, where m = m and p = "adjust_overrun p"] "0.prems" fits by auto
  obtain st d' where st: "wait_not_busy hw (iobase1 ch + 7) (m\<lparr>dev := d\<rparr>) = Some (st, m\<lparr>dev := d\<rparr>\<lparr>dev := d'\<rparr>)"
      "sink d' = sink (dev (m\<lparr>dev := d\<rparr>))" "st AND 0xE9 = (if need (dev (m\<lparr>dev := d\<rparr>)) = 0 then 0x40 else 0x48)"
    by (rule pio_writer_status [OF drive, of "m\<lparr>dev := d\<rparr>"]) blast
  show ?case
    using c d st by (intro exI [of _ d'], subst data_out_loop.simps)
      (simp add: status_bits count_sectors_def)
next
  case (Suc k count m p b)
  note fits = block_fits_step [OF Suc.prems(3)]
  let ?q = "adjust_overrun p"
  let ?p = "(fst ?q, snd ?q + of_nat (2 * 256)) :: far"
  have p: "flin ?p = flin p + of_nat (2 * 256)" "block_fits (Suc k) 256 ?p" using fits(3) by simp_all
  obtain d where d: "rep_out hw mode (iobase1 ch) (unat (sector_units mode)) ?q m = (?p, m\<lparr>dev := d\<rparr>)"
      "need d = Suc k * 256" "sink d = sink (dev m) @ fetch (flin p) 256 (ram m)"
    using rep_out_sends [OF drive sector_units, where m = m and p = ?q] Suc.prems fits by auto
  obtain st d' where st: "wait_not_busy hw (iobase1 ch + 7) (m\<lparr>dev := d\<rparr>) = Some (st, m\<lparr>dev := d\<rparr>\<lparr>dev := d'\<rparr>)"
      "need d' = need (dev (m\<lparr>dev := d\<rparr>))" "sink d' = sink (dev (m\<lparr>dev := d\<rparr>))"
      "st AND 0xE9 = (if need (dev (m\<lparr>dev := d\<rparr>)) = 0 then 0x40 else 0x48)"
    by (rule pio_writer_status [OF drive, of "m\<lparr>dev := d\<rparr>"]) blast
  have "st AND 0xE9 = 0x48" using st(4) d(2) by simp
  then have st9: "st AND 0xC9 = 0x48" by (rule status_weaken) simp_all
  have "count \<noteq> 0" using Suc.prems(1) by auto
  then have c: "count - 1 \<noteq> 0" "unat (count - 1) = Suc k"
    using Suc.prems(1) unat_minus_one [of count] by auto
  obtain d'' where d'': "data_out_loop hw ch mode (sector_units mode) (count - 1) ?p (count_sectors 1 b)
        (m\<lparr>dev := d'\<rparr>) =
      Some (0, count_sectors (of_nat (Suc k)) (count_sectors 1 b), ints_on hw ch (m\<lparr>dev := d''\<rparr>))"
      "sink d'' = sink d @ fetch (flin ?p) (Suc k * 256) (ram m)"
    using Suc.IH [OF c(2), of "m\<lparr>dev := d'\<rparr>" ?p "count_sectors 1 b"] st d(2) p(2) by auto
  have "data_out_loop hw ch mode (sector_units mode) count p b m =
      Some (0, count_sectors (of_nat (Suc (Suc k))) b, ints_on hw ch (m\<lparr>dev := d''\<rparr>))"
    using d(1) st(1) st9 c(1) d''(1)
    by (subst data_out_loop.simps) (simp add: status_bits count_sectors_add flip: count_sectors_def)
  moreover have "fetch (flin p) (256 + Suc k * 256) (ram m) =
      fetch (flin p) 256 (ram m) @ fetch (flin ?p) (Suc k * 256) (ram m)"
    using fetch_add [of "flin p" 256 "Suc k * 256" "ram m"] p(1) by simp
  ultimately show ?case using d(3) d''(2) by (intro exI [of _ d'']) simp
qed

section \<open>Writing sectors\<close>

definition write_command :: "disk_req \<Rightarrow> u16" where
  "write_command r =
     (if rq_sector r = 0 \<and> needs_ext (rq_lba r) (rq_nsect r) then ATA_CMD_WRITE_SECTORS_EXT
      else ATA_CMD_WRITE_SECTORS)"

text \<open>
  A write request a drive serves: it follows the protocol and is idle, and once the request is
  written to its registers it wants the words of 1 to 65535 sectors. The buffer lies below 1 MB; it
  may cross ends of segments, a sector at a time.
\<close>

definition serves_write ::
  "'d hw \<Rightarrow> ('d \<Rightarrow> nat) \<Rightarrow> ('d \<Rightarrow> u16 list) \<Rightarrow> bio_dsk \<Rightarrow> 'd machine \<Rightarrow> bool" where
  "serves_write hw need sink b m \<longleftrightarrow>
     (let r = drqp b; ch = request_chan b; n = unat (rq_nsect r);
          (st, m') = inb hw (iobase1 ch + 7) m;
          d = dev (outb_seq hw (setup_out ch r (write_command r) (rq_nsect r)) m')
      in pio_writer hw (iobase1 ch) need sink \<and> st AND 0x80 = 0 \<and> 0 < n \<and>
         need d = 256 * n \<and> sink d = [] \<and> unat (flin (rq_buffer r)) + 512 * n \<le> 0x100000)"

lemma write_sectors_deliver:
  assumes "serves_write hw need sink b m"
  defines "n \<equiv> unat (rq_nsect (drqp b))"
  shows "\<exists>d. ata_write_sectors hw b m =
      Some (0, count_sectors (rq_nsect (drqp b)) b, ints_on hw (request_chan b) (int_enable (m\<lparr>dev := d\<rparr>))) \<and>
    sink d = fetch (flin (rq_buffer (drqp b))) (256 * n) (ram m)"
proof -
  let ?p = "rq_buffer (drqp b)" and ?count = "rq_nsect (drqp b)" and ?cmd = "write_command (drqp b)"
  define ch where "ch = request_chan b"
  obtain st m0 where i: "inb hw (iobase1 ch + 7) m = (st, m0)" by fastforce
  obtain d1 where d1: "outb_seq hw (setup_out ch (drqp b) ?cmd ?count) m0 = m\<lparr>dev := d1\<rparr>"
    using outb_seq_dev [of hw "setup_out ch (drqp b) ?cmd ?count" m0] i
    by (auto simp: inb_def split: prod.splits)
  have drive: "pio_writer hw (iobase1 ch) need sink" and idle: "st AND 0x80 = 0" and n: "0 < n"
    and d: "need d1 = 256 * n" "sink d1 = []" and below_1M: "unat (flin ?p) + 512 * n \<le> 0x100000"
    using assms i d1 unfolding serves_write_def Let_def ch_def [symmetric] n_def [symmetric]
    by simp_all
  obtain k where k: "n = Suc k" using n by (cases n) auto
  obtain st' d2 where st: "wait_not_busy hw (iobase1 ch + 7) (m\<lparr>dev := d1\<rparr>) = Some (st', m\<lparr>dev := d1\<rparr>\<lparr>dev := d2\<rparr>)"
      "need d2 = need (dev (m\<lparr>dev := d1\<rparr>))" "sink d2 = sink (dev (m\<lparr>dev := d1\<rparr>))"
      "st' AND 0xE9 = (if need (dev (m\<lparr>dev := d1\<rparr>)) = 0 then 0x40 else 0x48)"
    by (rule pio_writer_status [OF drive, of "m\<lparr>dev := d1\<rparr>"]) blast
  have "st' AND 0xE9 = 0x48" using st(4) d n by simp
  then have b: "st' AND 0x01 = 0" "st' AND 0x08 = 0x08" by (rule status_weaken; simp)+
  define mode where "mode = d_mode (request_device b)"
  obtain d3 where d3: "data_out_loop hw ch mode (sector_units mode) ?count ?p b (int_enable (m\<lparr>dev := d2\<rparr>)) =
      Some (0, count_sectors (of_nat (Suc k)) b, ints_on hw ch (int_enable (m\<lparr>dev := d2\<rparr>)\<lparr>dev := d3\<rparr>))"
      "sink d3 = sink (dev (int_enable (m\<lparr>dev := d2\<rparr>))) @
         fetch (flin ?p) (Suc k * 256) (ram (int_enable (m\<lparr>dev := d2\<rparr>)))"
    using data_out_loop_sends [OF drive, of ?count k "int_enable (m\<lparr>dev := d2\<rparr>)" ?p mode b]
      st d k below_1M by (auto simp: int_enable_def block_fits_def n_def [symmetric])
  have "of_nat (Suc k) = ?count" using k n_def by (metis of_nat_unat ucast_id)
  moreover have "int_enable (m\<lparr>dev := d2\<rparr>)\<lparr>dev := d3\<rparr> = int_enable (m\<lparr>dev := d3\<rparr>)"
    by (cases m) (simp add: int_enable_def)
  ultimately have "ata_cmd_data_out hw b ?cmd ?count m =
      Some (0, count_sectors ?count b, ints_on hw ch (int_enable (m\<lparr>dev := d3\<rparr>)))"
    using i idle d1 st(1) b d3(1)
    by (simp add: ata_cmd_data_out_def ch_def request_chan_def mode_def request_device_def
        sector_units_def [symmetric])
  moreover have "ata_write_sectors hw b m = ata_cmd_data_out hw b ?cmd ?count m"
    by (simp add: ata_write_sectors_def write_command_def Let_def)
  moreover have "sink d3 = fetch (flin ?p) (256 * n) (ram m)"
    using d3(2) st d k by (simp add: int_enable_def mult.commute)
  ultimately show ?thesis by (intro exI [of _ d3]) (simp add: ch_def)
qed

end
