(* ===== verification/DiskServices.thy ===== *)
theory DiskServices
  imports Disk AtaWrite
begin

text \<open>
  Properties of the INT 13h hard disk services: how errors are reported, which requests reach a
  controller routine and with which address, the device parameter table and the fallback geometry.
\<close>

section \<open>Reporting\<close>

definition reports :: "'d served \<Rightarrow> bool" where
  \<comment> \<open>carry and the status byte 40:74 agree, and on failure AH holds the status\<close>
  "reports s \<longleftrightarrow> (case s of (r, b, m) \<Rightarrow>
     (get_cf r \<longleftrightarrow> read_byte 0x40 0x74 m \<noteq> 0) \<and>
     (get_cf r \<longrightarrow> hi8 (rax r) = read_byte 0x40 0x74 m))"

definition if_set :: "regs \<Rightarrow> bool" where
  "if_set r \<longleftrightarrow> bit (flags r) 9"

lemma flag_ops [simp]:
  "get_cf (set_cf r)" "\<not> get_cf (clear_cf r)"
  "if_set (set_cf r) \<longleftrightarrow> if_set r" "if_set (clear_cf r) \<longleftrightarrow> if_set r" "if_set (set_if r)"
  by (simp_all add: get_cf_def set_cf_def clear_cf_def if_set_def set_if_def bit_simps)

lemma flag_frame [simp]:
  "flags (set_cf r) = flags r OR 1" "rax (set_cf r) = rax r" "rax (clear_cf r) = rax r"
  by (simp_all add: set_cf_def clear_cf_def)

lemma status_byte [simp]: "read_byte 0x40 0x74 (set_disk_ret_status v m) = v"
  by (simp add: set_disk_ret_status_def)

lemma reports_ends:
  "reports (int13_success s)" "reports (int13_success_noah s)" "reports (int13_fail s)"
  by (simp_all add: reports_def int13_success_def int13_success_noah_def int13_fail_def
      int13_fail_noah_def split: prod.split)

lemma reports_fail_noah: "hi8 (rax r) \<noteq> 0 \<Longrightarrow> reports (int13_fail_noah (r, b, m))"
  by (simp add: reports_def int13_fail_noah_def)

text \<open>The interrupt flag of the caller's saved flags: no end of a service changes it.\<close>

definition flag_of :: "'d served \<Rightarrow> bool" where
  "flag_of s = if_set (fst s)"

lemma flag_of_ends [simp]:
  "flag_of (int13_success s) = flag_of s" "flag_of (int13_success_noah s) = flag_of s"
  "flag_of (int13_fail s) = flag_of s" "flag_of (int13_fail_noah s) = flag_of s"
  by (simp_all add: flag_of_def int13_success_def int13_success_noah_def int13_fail_def
      int13_fail_noah_def if_set_def set_cf_def clear_cf_def bit_simps split: prod.split)

lemma flag_of_Pair [simp]: "flag_of (r, x) = if_set r"
  by (simp add: flag_of_def)

lemma if_set_halves [simp]:
  "if_set (r\<lparr>rax := v\<rparr>) = if_set r" "if_set (r\<lparr>rbx := v\<rparr>) = if_set r"
  "if_set (r\<lparr>rcx := v\<rparr>) = if_set r" "if_set (r\<lparr>rdx := v\<rparr>) = if_set r"
  by (simp_all add: if_set_def)

lemma transfer_reports:
  "int13_transfer dskacc lba0 device st = Some s \<Longrightarrow> reports s \<and> flag_of s = flag_of st"
  by (auto simp: int13_transfer_def Let_def reports_ends reports_fail_noah
      split: prod.splits if_splits option.splits)

lemma ext_transfer_reports:
  "int13_ext_transfer dskacc device st = Some s \<Longrightarrow> reports s \<and> flag_of s = flag_of st"
  by (auto simp: int13_ext_transfer_def Let_def reports_ends reports_fail_noah
      split: prod.splits if_splits option.splits)

lemma small_services_report:
  "reports (int13_parameters device st) \<and> flag_of (int13_parameters device st) = flag_of st"
  "reports (int13_ready hw device st) \<and> flag_of (int13_ready hw device st) = flag_of st"
  "reports (int13_size device st) \<and> flag_of (int13_size device st) = flag_of st"
  by (auto simp: int13_parameters_def int13_ready_def int13_size_def Let_def reports_ends
      reports_fail_noah split: prod.splits)

lemma dispatch_reports:
  assumes "int13_dispatch hw dskacc lba0 device (r, b, m) = Some s" "hi8 (rax r) \<noteq> 0x01"
  shows "reports s \<and> flag_of s = if_set r"
  using assms transfer_reports [of dskacc lba0 device "(r, b, m)" s]
    small_services_report(1,3) [of device "(r, b, m)"] small_services_report(2) [of hw device "(r, b, m)"]
  by (auto simp: int13_dispatch_def Let_def reports_ends split: if_splits)

lemma find_device_reports:
  "find_device f st = Inl s \<Longrightarrow> reports s \<and> flag_of s = flag_of st"
  by (auto simp: find_device_def Let_def reports_ends split: prod.splits if_splits)

lemma ext_dispatch_reports:
  assumes "int13_ext_dispatch dpte_off dskacc device (r, b, m) = Some s"
  shows "reports s \<and> flag_of s = if_set r"
  using assms ext_transfer_reports [of dskacc device "(r, b, m)" s]
  by (auto simp: int13_ext_dispatch_def Let_def reports_ends reports_fail_noah
      split: if_splits prod.splits)



section \<open>A disk for the concrete instances\<close>

definition small_disk :: "u8 \<Rightarrow> bio_dsk" where
  \<comment> \<open>drive 80h is ATA device 0, with 1000 logical cylinders of 16 heads and 63 sectors; the
    physical geometry has more heads when \<open>h\<close> is not 16, so that addresses are translated\<close>
  "small_disk h = (one_disk (0, 0) ATA_MODE_PIO16)\<lparr>devices := (\<lambda>_. no_device\<lparr>d_type := DSK_TYPE_ATA,
     lchs := \<lparr>heads = 16, cylinders = 1000, spt = 63\<rparr>,
     pchs := \<lparr>heads = ucast h, cylinders = 1000, spt = 63\<rparr>, sectors := 1008000\<rparr>)\<rparr>"

definition call13 :: "u16 \<Rightarrow> u16 \<Rightarrow> u16 \<Rightarrow> regs" where
  \<comment> \<open>AX, CX and DX of a call for drive 80h with the buffer 1000:0000 and a packet at 3000:0000\<close>
  "call13 ax cx dx = \<lparr>rax = ax, rbx = 0, rcx = cx, rdx = dx, rsi = 0, rdi = 0, rsp = 0x0080,
     rds = 0x3000, res = 0x1000, flags = 0, ifl = 0\<rparr>"

lemma halves_numeral [simp]:
  "hi8 (numeral k) = ucast (drop_bit 8 (numeral k :: u16))" "lo8 (numeral k) = ucast (numeral k :: u16)"
  by (simp_all add: hi8_def lo8_def)


section \<open>What a request must satisfy\<close>

definition drive_of :: "bio_dsk \<Rightarrow> regs \<Rightarrow> u8 option" where
  \<comment> \<open>the device behind the drive number in ELDL, if there is one\<close>
  "drive_of b r =
     (let n = unat (lo8 (rsp r))
      in if 0x80 \<le> n \<and> n < 0x80 + 20 \<and> hdidmap b (n - 0x80) < 20
         then Some (hdidmap b (n - 0x80)) else None)"

definition chs_valid :: "chs \<Rightarrow> regs \<Rightarrow> bool" where
  "chs_valid geo r \<longleftrightarrow>
     (let n = unat (lo8 (rax r))
      in 0 < n \<and> n \<le> 128 \<and> chs_cylinder r < cylinders geo \<and> ucast (hi8 (rdx r)) < heads geo \<and>
         ucast (lo8 (rcx r)) AND 0x3f \<le> spt geo)"

definition refused :: "bio_dsk \<Rightarrow> regs \<Rightarrow> bool" where
  "refused b r \<longleftrightarrow>
     (case drive_of b r of None \<Rightarrow> True | Some d \<Rightarrow> \<not> chs_valid (lchs (devices b (unat d))) r)"

lemma find_device_Inr_iff: "find_device f (r, b, m) = Inr d \<longleftrightarrow> drive_of b r = Some d"
proof -
  have "unat (lo8 (rsp r) - 0x80) = unat (lo8 (rsp r)) - 0x80" if "\<not> lo8 (rsp r) < 0x80"
    using that by (subst unat_sub) (simp_all add: not_less)
  then show ?thesis
    by (auto simp: find_device_def drive_of_def Let_def word_less_nat_alt word_le_nat_alt not_less)
qed

lemma find_device_Inl:
  assumes "drive_of b r = None"
  shows "\<exists>f' xs. find_device f (r, b, m) = Inl (int13_fail (r, b, bx_info f' xs m))"
proof (cases "find_device f (r, b, m)")
  case (Inl s)
  then show ?thesis by (auto simp: find_device_def Let_def split: if_splits)
next
  case (Inr d)
  then show ?thesis using assms find_device_Inr_iff [of f r b m d] by simp
qed

lemma drive_of_set_if [simp]: "drive_of b (set_if r) = drive_of b r"
  by (simp add: drive_of_def set_if_def)

lemma set_if_fields [simp]:
  "rax (set_if r) = rax r" "rbx (set_if r) = rbx r" "rcx (set_if r) = rcx r" "rdx (set_if r) = rdx r"
  "rsi (set_if r) = rsi r" "rds (set_if r) = rds r" "res (set_if r) = res r" "rsp (set_if r) = rsp r"
  by (simp_all add: set_if_def)


lemma chs_valid_set_if [simp]: "chs_valid geo (set_if r) = chs_valid geo r"
  by (simp add: chs_valid_def chs_cylinder_def)

lemma chs_valid_iff:
  "chs_valid geo r \<longleftrightarrow>
     \<not> ((ucast (lo8 (rax r)) :: u16) > 128 \<or> (ucast (lo8 (rax r)) :: u16) = 0) \<and>
     \<not> (chs_cylinder r \<ge> cylinders geo \<or> ucast (hi8 (rdx r)) \<ge> heads geo \<or>
        ucast (lo8 (rcx r)) AND 0x3f > spt geo)"
proof -
  have "(ucast (lo8 (rax r)) :: u16) > 128 \<longleftrightarrow> unat (lo8 (rax r)) > 128"
    "(ucast (lo8 (rax r)) :: u16) = 0 \<longleftrightarrow> unat (lo8 (rax r)) = 0"
    using unsigned_less [of "lo8 (rax r)", where 'a = nat]
    by (simp_all add: word_less_nat_alt word_unat_eq_iff unsigned_ucast_eq take_bit_nat_eq_self)
  then show ?thesis by (auto simp: chs_valid_def Let_def not_less not_le)
qed

lemma transfer_refused:
  assumes "\<not> chs_valid (lchs (devices b (unat d))) r"
  shows "\<exists>f xs. int13_transfer dskacc lba0 d (r, b, m) = Some (int13_fail (r, b, bx_info f xs m))"
proof (cases "(ucast (lo8 (rax r)) :: u16) > 128 \<or> (ucast (lo8 (rax r)) :: u16) = 0")
  case True
  then show ?thesis by (simp add: int13_transfer_def Let_def) blast
next
  case False
  then show ?thesis
    using assms unfolding chs_valid_iff chs_cylinder_def [symmetric]
    by (simp add: int13_transfer_def Let_def) blast
qed

lemma transfer_accepted:
  assumes "chs_valid (lchs (devices b (unat d))) r"
  shows "int13_transfer dskacc lba0 d (r, b, m) =
    (if hi8 (rax r) = 0x04 then Some (int13_success (r, b, m))
     else case dskacc (d_type (devices b (unat d))) (hi8 (rax r) - 0x02)
                 (upd_drqp (chs_request lba0 d (devices b (unat d)) r) b) m of
            None \<Rightarrow> None
          | Some (rc, b, m) \<Rightarrow>
              let status = lo8 rc; r' = set_al (lo8 (trsfsectors (drqp b))) r
              in if status \<noteq> 0 then
                   Some (int13_fail_noah (set_ah 0x0c r', b,
                     bx_info ''int13_harddisk: function %02x, error %02x !\<newline>''
                       [ucast (hi8 (rax r)), ucast status] m))
                 else Some (int13_success (r', b, m)))"
  using assms unfolding chs_valid_iff by (simp add: int13_transfer_def Let_def)

lemma dispatch_transfer:
  assumes "hi8 (rax r) \<in> {2, 3, 4}" "drive_of b r = Some d"
  shows "int13_harddisk hw dskacc lba0 (r, b, m) =
    int13_transfer dskacc lba0 d (set_if r, b, write_byte 0x40 0x8e 0 m)"
  using assms find_device_Inr_iff [of "''int13_harddisk''" "set_if r" b "write_byte 0x40 0x8e 0 m" d]
  by (auto simp: int13_harddisk_def int13_dispatch_def)

section \<open>Requests that are refused\<close>




section \<open>Requests that are served\<close>

lemma dskacc_ata [simp]:
  "dskacc_ata hw other DSK_TYPE_ATA 0 = ata_read_sectors hw"
  "dskacc_ata hw other DSK_TYPE_ATA 1 = ata_write_sectors hw"
  by (simp_all add: dskacc_ata_def)

lemma chs_request_fields [simp]:
  "rq_nsect (chs_request lba0 d dv r q) = ucast (lo8 (rax r))"
  "rq_buffer (chs_request lba0 d dv r q) = (res r, rbx r)"
  "rq_dev_id (chs_request lba0 d dv r q) = d"
  "trsfsectors (chs_request lba0 d dv r q) = 0"
  by (simp_all add: chs_request_def Let_def split: prod.split)

lemma chs_request_set_if [simp]: "chs_request lba0 d dv (set_if r) = chs_request lba0 d dv r"
  by (simp add: chs_request_def chs_cylinder_def fun_eq_iff)

lemma trsfsectors_count [simp]: "trsfsectors (drqp (count_sectors n b)) = trsfsectors (drqp b) + n"
  by (simp add: count_sectors_def)

lemma lo8_ucast [simp]: "lo8 (ucast (c :: u8)) = c"
  unfolding lo8_def by (rule bit_word_eqI) (auto simp: bit_simps)

lemma halves_01 [simp]: "lo8 0 = 0" "lo8 1 = 1" "hi8 0 = 0" "hi8 1 = 0"
  by (simp_all add: lo8_def hi8_def)

lemma mk16_same [simp]: "mk16 (hi8 w) (lo8 w) = w"
  by simp

lemma set_ah_twice [simp]: "set_ah v (set_al (lo8 (rax r)) r) = set_ah v r"
  by simp

abbreviation chs_packet :: "u32 \<Rightarrow> bio_dsk \<Rightarrow> u8 \<Rightarrow> regs \<Rightarrow> bio_dsk" where
  "chs_packet lba0 b d r \<equiv> upd_drqp (chs_request lba0 d (devices b (unat d)) r) b"

lemma ram_ints_on [simp]: "ram (ints_on hw ch m) = ram m" "dev (ints_on hw ch m) = hw_outb hw (iobase2 ch + 6) 8 (dev m)"
  by (simp_all add: ints_on_def outb_def)

lemma int_enable_fields [simp]: "ram (int_enable m) = ram m" "dev (int_enable m) = dev m"
  by (simp_all add: int_enable_def)

lemma set_disk_ret_status_fields [simp]:
  "ram (set_disk_ret_status v m) = (ram m)(lin 0x40 0x74 := v)" "dev (set_disk_ret_status v m) = dev m"
  by (simp_all add: set_disk_ret_status_def write_byte_def)

text \<open>
  C8: INT 13h function 02h, from the registers to memory: for a drive number that maps to an ATA disk,
  a valid address and count, and a disk that serves the request the BIOS makes of it with the words
  \<open>ws\<close>, the call returns with carry clear, AH = 0 and AL sectors read; memory holds the bytes of
  \<open>ws\<close> at ES:BX and is otherwise unchanged but for the status 40:74 and the flag 40:8E.
\<close>

theorem int13_read_delivers:
  assumes ah: "hi8 (rax r) = 2" and drive: "drive_of b r = Some d"
    and ata: "d_type (devices b (unat d)) = DSK_TYPE_ATA"
    and valid: "chs_valid (lchs (devices b (unat d))) r"
    and serves: "serves_read hw pend (chs_packet lba0 b d r) (write_byte 0x40 0x8e 0 m) ws"
  shows "\<exists>b' m'. int13_harddisk hw (dskacc_ata hw other) lba0 (r, b, m) =
      Some (clear_cf (set_ah 0 (set_if r)), b', m') \<and>
    trsfsectors (drqp b') = ucast (lo8 (rax r)) \<and>
    ram m' = (store (lin (res r) (rbx r)) (wbytes ws) ((ram m)(lin 0x40 0x8e := 0)))(lin 0x40 0x74 := 0)"
proof -
  let ?m = "write_byte 0x40 0x8e 0 m" and ?b = "chs_packet lba0 b d r"
  have m: "ram ?m = (ram m)(lin 0x40 0x8e := 0)" by (simp add: write_byte_def)
  obtain dv where "ata_read_sectors hw ?b ?m =
      Some (0, count_sectors (ucast (lo8 (rax r))) ?b, ints_on hw (request_chan ?b) (int_enable
        (?m\<lparr>ram := store (lin (res r) (rbx r)) (wbytes ws) (ram ?m), dev := dv\<rparr>)))"
    using read_sectors_deliver [OF serves] by (auto simp: flin_def)
  then show ?thesis
    using dispatch_transfer [of r b d hw "dskacc_ata hw other" lba0 m]
      transfer_accepted [of b d "set_if r" "dskacc_ata hw other" lba0 ?m] ah drive ata valid
    by (simp add: Let_def int13_success_def int13_success_noah_def m)
qed

lemma small_disk_request:
  assumes "request_chan (chs_packet lba0 (small_disk 16) 0 r) = ch"
  shows "ch = isa_chan 0x1f0 0x3f0 14"
  using assms by (simp add: request_chan_def small_disk_def one_disk_def)

lemma small_disk_fields [simp]:
  "devices (small_disk h) n = no_device\<lparr>d_type := DSK_TYPE_ATA,
     lchs := \<lparr>heads = 16, cylinders = 1000, spt = 63\<rparr>,
     pchs := \<lparr>heads = ucast h, cylinders = 1000, spt = 63\<rparr>, sectors := 1008000\<rparr>"
  "channels (small_disk h) n = isa_chan 0x1f0 0x3f0 14" "hdidmap (small_disk h) n = 0"
  by (simp_all add: small_disk_def one_disk_def)

lemma isa_chan_fields [simp]: "iobase1 (isa_chan b1 b2 i) = b1" "iobase2 (isa_chan b1 b2 i) = b2"
  by (simp_all add: isa_chan_def)

lemma sector_drive_ports [simp]:
  "hw_inb (sector_drive n) p d = (if d = [] then 0x40 else 0x48, d)"
  "hw_outb (sector_drive n) p v d = (if p = 0x1f7 then replicate (256 * n) 0xABCD else d)"
  by (simp_all add: sector_drive_def)

theorem int13_read_delivers_witness:
  "\<exists>b' m'. int13_harddisk (sector_drive 1) (dskacc_ata (sector_drive 1) (\<lambda>_ _ b m. None)) 0
        (call13 0x0201 0x0102 0x0380, small_disk 16, blank ([] :: u16 list)) =
      Some (clear_cf (set_ah 0 (set_if (call13 0x0201 0x0102 0x0380))), b', m') \<and>
    trsfsectors (drqp b') = 1 \<and>
    ram m' = (store (lin 0x1000 0) (wbytes (replicate 256 0xABCD)) ((\<lambda>_. 0)(lin 0x40 0x8e := 0)))
      (lin 0x40 0x74 := 0)"
proof -
  let ?r = "call13 0x0201 0x0102 0x0380" and ?m = "blank ([] :: u16 list)"
  have r: "rax ?r = 0x0201" "rbx ?r = 0" "rcx ?r = 0x0102" "rdx ?r = 0x0380" "res ?r = 0x1000" "rsp ?r = 0x80"
    by (simp_all add: call13_def)
  have "serves_read (sector_drive 1) id (chs_packet 0 (small_disk 16) 0 ?r) (write_byte 0x40 0x8e 0 ?m)
      (replicate 256 0xABCD)"
    using sector_drive_reader [of 1]
    by (simp add: serves_read_def Let_def request_chan_def request_device_def chs_request_def needs_lba_def
        VBOX_IS_SCSI_DEVICE_def chs_cylinder_def r no_device_def inb_def blank_def
        read_command_def setup_in_def task_writes_def outb_seq_def outb_def flin_def unat_lin
        adjust_overrun_def split: prod.split)
  then show ?thesis
    using int13_read_delivers [of ?r "small_disk 16" 0 "sector_drive 1" id 0 ?m "replicate 256 0xABCD"
        "\<lambda>_ _ b m. None"]
    by (simp add: r drive_of_def chs_valid_def chs_cylinder_def no_device_def) (simp add: blank_def)
qed

text \<open>
  C10: INT 13h function 03h: for a disk that serves the request, the call returns with carry clear and
  AH = 0, the disk has got exactly the words of the AL sectors at ES:BX, in order, and memory is
  unchanged but for the status 40:74 and the flag 40:8E.
\<close>

theorem int13_write_delivers:
  assumes ah: "hi8 (rax r) = 3" and drive: "drive_of b r = Some d"
    and ata: "d_type (devices b (unat d)) = DSK_TYPE_ATA"
    and valid: "chs_valid (lchs (devices b (unat d))) r"
    and serves: "serves_write hw need sink (chs_packet lba0 b d r) (write_byte 0x40 0x8e 0 m)"
  shows "\<exists>b' m' dv. int13_harddisk hw (dskacc_ata hw other) lba0 (r, b, m) =
      Some (clear_cf (set_ah 0 (set_if r)), b', m') \<and>
    ram m' = (ram m)(lin 0x40 0x8e := 0, lin 0x40 0x74 := 0) \<and>
    dev m' = hw_outb hw (iobase2 (channels b (unat d div 2)) + 6) 8 dv \<and>
    sink dv = fetch (lin (res r) (rbx r)) (256 * unat (lo8 (rax r))) ((ram m)(lin 0x40 0x8e := 0))"
proof -
  let ?m = "write_byte 0x40 0x8e 0 m" and ?b = "chs_packet lba0 b d r"
  have m: "ram ?m = (ram m)(lin 0x40 0x8e := 0)" by (simp add: write_byte_def)
  have n: "unat (ucast (lo8 (rax r)) :: u16) = unat (lo8 (rax r))"
    using unsigned_less [of "lo8 (rax r)", where 'a = nat]
    by (simp add: unsigned_ucast_eq take_bit_nat_eq_self)
  obtain dv where dv: "ata_write_sectors hw ?b ?m =
      Some (0, count_sectors (ucast (lo8 (rax r))) ?b, ints_on hw (request_chan ?b) (int_enable (?m\<lparr>dev := dv\<rparr>)))"
      "sink dv = fetch (lin (res r) (rbx r)) (256 * unat (lo8 (rax r))) (ram ?m)"
    using write_sectors_deliver [OF serves] by (auto simp: flin_def n)
  have "request_chan ?b = channels b (unat d div 2)" by (simp add: request_chan_def)
  then show ?thesis
    using dispatch_transfer [of r b d hw "dskacc_ata hw other" lba0 m]
      transfer_accepted [of b d "set_if r" "dskacc_ata hw other" lba0 ?m] ah drive ata valid dv
    by (intro exI [of _ "count_sectors (ucast (lo8 (rax r))) ?b"] exI [of _
        "set_disk_ret_status 0 (ints_on hw (request_chan ?b) (int_enable (?m\<lparr>dev := dv\<rparr>)))"] exI [of _ dv])
      (simp add: Let_def int13_success_def int13_success_noah_def m)
qed


text \<open>A drive that takes the words of \<open>n\<close> sectors after any command.\<close>

definition sector_sink :: "nat \<Rightarrow> (nat \<times> u16 list) hw" where
  "sector_sink n = \<lparr>hw_inb = \<lambda>p d. (if fst d = 0 then 0x40 else 0x48, d),
     hw_inw = \<lambda>p d. (0, d), hw_ind = \<lambda>p d. (0, d),
     hw_outb = \<lambda>p v d. if p = 0x1f7 then (256 * n, []) else d,
     hw_outw = \<lambda>p v d. (fst d - 1, snd d @ [v]),
     hw_outd = \<lambda>p v d. (fst d - 2, snd d @ [ucast v, ucast (drop_bit 16 v)])\<rparr>"

lemma sector_sink_writer: "pio_writer (sector_sink n) b1 fst snd"
proof -
  have "settles (sector_sink n) (b1 + 7) d (if fst d = 0 then 0x40 else 0x48) d" for d
    by (rule settles.ready) (simp_all add: sector_sink_def)
  then have "\<exists>st d'. settles (sector_sink n) (b1 + 7) d st d' \<and> fst d' = fst d \<and> snd d' = snd d \<and>
      st AND 0xE9 = (if fst d = 0 then 0x40 else 0x48)" for d
    by (intro exI [of _ "if fst d = 0 then 0x40 else 0x48"] exI [of _ d]) simp
  then show ?thesis
    unfolding pio_writer_def by (intro conjI allI impI; (simp add: sector_sink_def)?)
qed

lemma sector_sink_ports [simp]:
  "hw_inb (sector_sink n) p d = (if fst d = 0 then 0x40 else 0x48, d)"
  "hw_outb (sector_sink n) p v d = (if p = 0x1f7 then (256 * n, []) else d)"
  by (simp_all add: sector_sink_def)

theorem int13_write_delivers_witness:
  "\<exists>b' m' dv. int13_harddisk (sector_sink 1) (dskacc_ata (sector_sink 1) (\<lambda>_ _ b m. None)) 0
        (call13 0x0301 0x0102 0x0380, small_disk 16, blank (0, [] :: u16 list)) =
      Some (clear_cf (set_ah 0 (set_if (call13 0x0301 0x0102 0x0380))), b', m') \<and>
    ram m' = (\<lambda>_. 0)(lin 0x40 0x8e := 0, lin 0x40 0x74 := 0) \<and>
    dev m' = dv \<and>
    snd dv = fetch (lin 0x1000 0) (256 * unat (1 :: u8)) ((\<lambda>_. 0)(lin 0x40 0x8e := 0))"
proof -
  let ?r = "call13 0x0301 0x0102 0x0380" and ?m = "blank (0, [] :: u16 list)"
  have r: "rax ?r = 0x0301" "rbx ?r = 0" "rcx ?r = 0x0102" "rdx ?r = 0x0380" "res ?r = 0x1000" "rsp ?r = 0x80"
    by (simp_all add: call13_def)
  have "serves_write (sector_sink 1) fst snd (chs_packet 0 (small_disk 16) 0 ?r) (write_byte 0x40 0x8e 0 ?m)"
    using sector_sink_writer [of 1]
    by (simp add: serves_write_def Let_def request_chan_def chs_request_def needs_lba_def
        VBOX_IS_SCSI_DEVICE_def chs_cylinder_def r no_device_def inb_def blank_def
        write_command_def setup_out_def task_writes_def outb_seq_def outb_def flin_def unat_lin split: prod.split)
  then show ?thesis
    using int13_write_delivers [of ?r "small_disk 16" 0 "sector_sink 1" fst snd 0 ?m "\<lambda>_ _ b m. None"]
    by (simp add: r drive_of_def chs_valid_def chs_cylinder_def no_device_def) (simp add: blank_def)
qed

end
