(* ===== verification/DiskGeometry.thy ===== *)
theory DiskGeometry
  imports DiskServices
begin

text \<open>
  Addresses and geometry of the INT 13h disk services: the translation of a cylinder, head and sector
  to a linear address, the geometry function 08h reports, the fallback geometry for a disk whose
  CMOS has none, and the EDD device parameter table.
\<close>

section \<open>Addresses\<close>

definition capacity :: "chs \<Rightarrow> nat" where
  "capacity g = unat (cylinders g) * unat (heads g) * unat (spt g)"

definition decode_lba :: "chs \<Rightarrow> nat \<Rightarrow> nat \<times> nat \<times> nat" where
  "decode_lba g l =
     (l div (unat (heads g) * unat (spt g)), l div unat (spt g) mod unat (heads g), l mod unat (spt g) + 1)"

definition head_of :: "regs \<Rightarrow> nat" where "head_of r = unat (hi8 (rdx r))"
definition sector_of :: "regs \<Rightarrow> nat" where "sector_of r = unat (lo8 (rcx r) AND 0x3f)"
definition cylinder_of :: "regs \<Rightarrow> nat" where "cylinder_of r = unat (chs_cylinder r)"

lemma mixed_radix:
  fixes c h s :: nat
  assumes "c < K" "h < N" "s < M"
  shows "(c * N + h) * M + s < K * N * M"
    and "((c * N + h) * M + s) div (N * M) = c" "((c * N + h) * M + s) div M mod N = h"
    and "((c * N + h) * M + s) mod M = s"
proof -
  have step: "x * y + z < w * y" if "x < w" "z < y" for w x y z :: nat
  proof -
    have "x * y + z < Suc x * y" using that(2) by simp
    also have "\<dots> \<le> w * y" using that(1) by (intro mult_le_mono1) simp
    finally show ?thesis .
  qed
  show "(c * N + h) * M + s < K * N * M" using assms by (intro step)
  have d: "((c * N + h) * M + s) div M = c * N + h" using assms(3) by simp
  then show "((c * N + h) * M + s) div M mod N = h" using assms(2) by simp
  have "((c * N + h) * M + s) div (M * N) = c" using d assms(2) by (simp add: div_mult2_eq)
  then show "((c * N + h) * M + s) div (N * M) = c" by (simp only: mult.commute)
  show "((c * N + h) * M + s) mod M = s" using assms(3) by simp
qed

lemma byte_in_word [simp]: "unat (ucast (c :: u8) :: u16) = unat c" "unat (ucast (c :: u8) :: u32) = unat c"
  using unsigned_less [of c, where 'a = nat] by (simp_all add: unsigned_ucast_eq take_bit_nat_eq_self)

lemma word_in_dword [simp]: "unat (ucast (c :: u16) :: u32) = unat c" "unat (ucast (c :: u16) :: u64) = unat c"
  using unsigned_less [of c, where 'a = nat] by (simp_all add: unsigned_ucast_eq take_bit_nat_eq_self)

lemma dword_in_qword [simp]: "unat (ucast (c :: u32) :: u64) = unat c"
  using unsigned_less [of c, where 'a = nat] by (simp add: unsigned_ucast_eq take_bit_nat_eq_self)

lemma sector_bits: "(ucast (c :: u8) :: u16) AND 0x3f = ucast (c AND 0x3f)"
proof -
  have m: "(0x3f :: u16) = mask 6" "(0x3f :: u8) = mask 6" by (simp_all add: mask_numeral)
  show ?thesis unfolding m by (rule bit_word_eqI) (auto simp: bit_simps)
qed

lemma chs_lba_value:
  assumes "unat c < unat (cylinders g)" "unat h < unat (heads g)" "0 < unat s" "unat s \<le> unat (spt g)"
    and "capacity g < 4294967296"
  shows "unat (chs_lba g c h s) = (unat c * unat (heads g) + unat h) * unat (spt g) + (unat s - 1)"
proof -
  let ?n = "(unat c * unat (heads g) + unat h) * unat (spt g)"
  have b: "?n + (unat s - 1) < capacity g"
    unfolding capacity_def using assms by (intro mixed_radix) auto
  have u: "ucast x = (of_nat (unat x) :: u32)" for x :: u16
    using unsigned_less [of x, where 'a = nat]
    by (intro word_unat_eq_iff [THEN iffD2]) (simp add: unat_of_nat take_bit_nat_eq_self)
  have "(of_nat (unat s) :: u32) = of_nat (Suc (unat s - 1))"
    by (rule arg_cong [where f = of_nat], rule Suc_pred' [OF assms(3)])
  then have "chs_lba g c h s = of_nat (?n + (unat s - 1))"
    unfolding chs_lba_def u by (simp only: of_nat_add of_nat_mult of_nat_Suc) simp
  moreover have "unat (of_nat x :: u32) = x" if "x < 4294967296" for x
    using that by (simp add: unat_of_nat take_bit_nat_eq_self)
  ultimately show ?thesis using less_trans [OF b assms(5)] by metis
qed

text \<open>
  C25: Translation: when the logical geometry differs from the physical one (or the disk is on a SCSI
  controller), a valid address with a sector number of 1 or more becomes a request by linear address
  (sector 0) that lies inside the logical capacity and decodes to exactly the cylinder, head and
  sector of the registers; otherwise the request carries the three numbers unchanged.
\<close>

theorem chs_request_addresses:
  fixes lba0 :: u32 and d :: u8 and q' :: disk_req
  assumes "chs_valid (lchs dv) r" "1 \<le> sector_of r" "capacity (lchs dv) < 4294967296"
  defines "q \<equiv> chs_request lba0 d dv r q'"
  shows "if needs_lba dv d
     then rq_sector q = 0 \<and> unat (rq_lba q) < capacity (lchs dv) \<and>
       decode_lba (lchs dv) (unat (rq_lba q)) = (cylinder_of r, head_of r, sector_of r)
     else (unat (rq_cylinder q), unat (rq_head q), unat (rq_sector q)) =
       (cylinder_of r, head_of r, sector_of r)"
proof -
  let ?g = "lchs dv"
  have v: "cylinder_of r < unat (cylinders ?g)" "head_of r < unat (heads ?g)" "sector_of r \<le> unat (spt ?g)"
    using assms(1) by (simp_all add: chs_valid_def Let_def cylinder_of_def head_of_def sector_of_def
        sector_bits word_less_nat_alt word_le_nat_alt)
  have l: "unat (chs_lba ?g (chs_cylinder r) (ucast (hi8 (rdx r))) (ucast (lo8 (rcx r) AND 0x3f))) =
      (cylinder_of r * unat (heads ?g) + head_of r) * unat (spt ?g) + (sector_of r - 1)"
    using v assms(2,3) chs_lba_value
      [of "chs_cylinder r" ?g "ucast (hi8 (rdx r))" "ucast (lo8 (rcx r) AND 0x3f)"]
    by (simp add: cylinder_of_def head_of_def sector_of_def)
  have s: "sector_of r - 1 < unat (spt ?g)" "sector_of r - 1 + 1 = sector_of r" using v assms(2) by auto
  show ?thesis
    using mixed_radix [OF v(1,2) s(1)] l s(2)
    by (simp add: q_def chs_request_def Let_def sector_bits decode_lba_def capacity_def)
      (simp add: cylinder_of_def head_of_def sector_of_def)
qed

theorem chs_request_addresses_witness:
  "rq_sector (chs_request 0 0 (devices (small_disk 32) 0) (call13 0x0201 0x0142 0x0380) (drqp (small_disk 32))) = 0 \<and>
   decode_lba \<lparr>heads = 16, cylinders = 1000, spt = 63\<rparr> (unat (rq_lba
     (chs_request 0 0 (devices (small_disk 32) 0) (call13 0x0201 0x0142 0x0380) (drqp (small_disk 32))))) =
     (257, 3, 2)"
  using chs_request_addresses [of "devices (small_disk 32) 0" "call13 0x0201 0x0142 0x0380" 0 0 "drqp (small_disk 32)"]
  by (simp add: chs_valid_def chs_cylinder_def call13_def sector_of_def capacity_def needs_lba_def
      cylinder_of_def head_of_def no_device_def)


text \<open>
  Sector numbers start at 1, but a transfer for sector 0 of cylinder 0, head 0 is accepted: the
  controller's routine is called with linear address FFFFFFFFh when addresses are translated, and
  otherwise with a request that is taken for one by linear address whose address is the never
  initialised local variable \<open>lba\<close>. Shown with a routine that reports success.
\<close>

theorem int13_accepts_sector_0:
  assumes "hi8 (rax r) \<in> {2, 3}" "drive_of b r = Some d" "chs_valid (lchs (devices b (unat d))) r"
    and "cylinder_of r = 0" "head_of r = 0" "sector_of r = 0"
  shows "\<exists>r' b' m'. int13_harddisk hw (\<lambda>_ _ b m. Some (0, b, m)) lba0 (r, b, m) = Some (r', b', m') \<and>
    \<not> get_cf r' \<and> rq_sector (drqp b') = 0 \<and>
    rq_lba (drqp b') = (if needs_lba (devices b (unat d)) d then 0xFFFFFFFF else ucast lba0)"
proof -
  have z: "chs_cylinder r = 0" "hi8 (rdx r) = 0" "lo8 (rcx r) AND 0x3f = 0"
    using assms(4-6) by (simp_all add: cylinder_of_def head_of_def sector_of_def word_unat_eq_iff)
  have "ucast (- 1 :: u32) = (0xFFFFFFFF :: u64)"
    by (simp add: unsigned_minus_1_eq_mask mask_eq_exp_minus_1)
  moreover have "hi8 (rax r) \<in> {2, 3, 4}" "hi8 (rax r) \<noteq> 4" using assms(1) by auto
  ultimately show ?thesis
    using dispatch_transfer [of r b d hw "\<lambda>_ _ b m. Some (0, b, m)" lba0 m] assms(2,3)
      transfer_accepted [of b d "set_if r" "\<lambda>_ _ b m. Some (0, b, m)" lba0 "write_byte 0x40 0x8e 0 m"]
    by (simp add: Let_def int13_success_def int13_success_noah_def chs_request_def z chs_lba_def sector_bits
        split: prod.split)
qed

theorem int13_accepts_sector_0_witness:
  "\<exists>r' b' m'. int13_harddisk (sector_drive 1) (\<lambda>_ _ b m. Some (0, b, m)) 7
        (call13 0x0201 0 0x80, small_disk 32, blank ([] :: u16 list)) = Some (r', b', m') \<and>
    \<not> get_cf r' \<and> rq_sector (drqp b') = 0 \<and> rq_lba (drqp b') = 0xFFFFFFFF"
  using int13_accepts_sector_0 [of "call13 0x0201 0 0x80" "small_disk 32" 0 "sector_drive 1" 7 "blank []"]
  by (simp add: call13_def drive_of_def chs_valid_def chs_cylinder_def cylinder_of_def head_of_def
      sector_of_def no_device_def needs_lba_def)

section \<open>Drive parameters\<close>

lemma take_bit_small: "unat w < 2 ^ n \<Longrightarrow> take_bit n w = w" for w :: u16
  by (intro word_unat_eq_iff [THEN iffD2]) (simp add: unsigned_take_bit_eq take_bit_nat_eq_self)

lemma cylinder_bits:
  fixes c s :: u16
  assumes "c < 0x400"
  shows "(ucast (lo8 c) :: u16) OR (push_bit 2 (ucast (ucast (drop_bit 2 c AND 0xc0 OR (s AND 0x3f)) :: u8)) AND 0x300) = c"
    and "(ucast (drop_bit 2 c AND 0xc0 OR (s AND 0x3f)) :: u8) AND 0x3f = ucast (s AND 0x3f)"
proof -
  have m: "(0xc0 :: u16) = push_bit 6 (mask 2)" "(0x300 :: u16) = push_bit 8 (mask 2)"
    "(0x3f :: u16) = mask 6" "(0x3f :: u8) = mask 6"
    by (simp_all add: mask_numeral push_bit_eq_mult)
  have "take_bit 10 c = c" using assms by (intro take_bit_small) (simp add: word_less_nat_alt)
  then have c: "bit c n \<Longrightarrow> n < 10" for n by (metis bit_take_bit_iff)
  have k: "Suc (Suc (n - 2)) = n" if "8 \<le> n" for n using that by simp
  show "(ucast (lo8 c) :: u16) OR (push_bit 2 (ucast (ucast (drop_bit 2 c AND 0xc0 OR (s AND 0x3f)) :: u8)) AND 0x300) = c"
    unfolding m lo8_def by (rule bit_word_eqI) (auto simp: bit_simps k not_less dest: c)
  show "(ucast (drop_bit 2 c AND 0xc0 OR (s AND 0x3f)) :: u8) AND 0x3f = ucast (s AND 0x3f)"
    unfolding m by (rule bit_word_eqI) (auto simp: bit_simps)
qed

text \<open>
  Function 08h: for a geometry of at most 1024 cylinders, 256 heads and 63 sectors a track, the
  values it returns in CH, CL and DH are the last cylinder, head and sector of the drive, and handed
  to function 02h, 03h or 04h with any valid count they are a valid address; DL is the number of
  drives.
\<close>

theorem int13_parameters_last_sector:
  assumes "drive_of b r = Some d" "hi8 (rax r) = 8"
    and geo: "g = lchs (devices b (unat d))" "0 < unat (cylinders g)" "unat (cylinders g) \<le> 1024"
      "0 < unat (heads g)" "unat (heads g) \<le> 256" "unat (spt g) \<le> 63"
  shows "\<exists>r' m'. int13_harddisk hw dskacc lba0 (r, b, m) = Some (r', b, m') \<and> \<not> get_cf r' \<and>
    (cylinder_of r', head_of r', sector_of r') =
      (unat (cylinders g) - 1, unat (heads g) - 1, unat (spt g)) \<and>
    lo8 (rdx r') = hdcount b \<and>
    (\<forall>n. 0 < unat n \<and> unat n \<le> 128 \<longrightarrow> chs_valid g (set_al n r'))"
proof -
  let ?m = "write_byte 0x40 0x8e 0 m"
  let ?nlc = "cylinders g - 1"
  have "unat ?nlc = unat (cylinders g) - 1" using geo(2) by (intro unat_minus_one) auto
  then have c: "unat ?nlc = unat (cylinders g) - 1" "?nlc < 0x400"
    using geo(2,3) by (simp_all add: word_less_nat_alt)
  have "unat (heads g - 1) = unat (heads g) - 1" using geo(4) by (intro unat_minus_one) auto
  then have h: "unat (lo8 (heads g - 1)) = unat (heads g) - 1"
    using geo(4,5) by (simp add: lo8_def unsigned_ucast_eq take_bit_nat_eq_self)
  have "spt g AND 0x3f = take_bit 6 (spt g)" by (simp add: take_bit_eq_mask mask_numeral)
  also have "\<dots> = spt g" using geo(6) by (intro take_bit_small) simp
  finally have s: "spt g AND 0x3f = spt g" .
  have s8: "unat (ucast (spt g) :: u8) = unat (spt g)"
    using geo(6) by (simp add: unsigned_ucast_eq take_bit_nat_eq_self)
  have find: "find_device ''int13_harddisk'' (set_if r, b, ?m) = Inr d"
    using assms(1) by (simp add: find_device_Inr_iff)
  let ?r = "fst (int13_parameters d (set_if r, b, ?m))"
  have run: "int13_harddisk hw dskacc lba0 (r, b, m) = Some (?r, b, set_disk_ret_status 0 ?m)" and cf: "\<not> get_cf ?r"
    using find assms(2)
    by (simp_all add: int13_harddisk_def int13_dispatch_def int13_parameters_def Let_def
        int13_success_def int13_success_noah_def)
  have "rcx (set_cf r) = rcx r" "rcx (clear_cf r) = rcx r" "rdx (clear_cf r) = rdx r" for r
    by (simp_all add: set_cf_def clear_cf_def)
  then have regs: "chs_cylinder ?r = ?nlc" "hi8 (rdx ?r) = lo8 (heads g - 1)" "lo8 (rcx ?r) AND 0x3f = ucast (spt g)"
      "lo8 (rdx ?r) = hdcount b"
    using cylinder_bits [OF c(2), of "spt g"] s
    by (simp_all add: int13_parameters_def Let_def int13_success_def int13_success_noah_def chs_cylinder_def geo(1))
  have "chs_valid g (set_al n ?r)" if "0 < unat n \<and> unat n \<le> 128" for n
    using that c h s8 geo regs
    by (simp add: chs_valid_def chs_cylinder_def sector_bits word_less_nat_alt word_le_nat_alt)
  then show ?thesis
    using run cf c h s8 regs
    by (intro exI [of _ ?r] exI [of _ "set_disk_ret_status 0 ?m"])
      (simp add: cylinder_of_def head_of_def sector_of_def)
qed


theorem int13_parameters_last_sector_witness:
  "\<exists>r' m'. int13_harddisk (sector_drive 1) (\<lambda>_ _ _ _. None) 0
      (call13 0x0800 0 0x80, small_disk 16, blank ([] :: u16 list)) = Some (r', small_disk 16, m') \<and>
    \<not> get_cf r' \<and> (cylinder_of r', head_of r', sector_of r') = (999, 15, 63) \<and>
    lo8 (rdx r') = hdcount (small_disk 16) \<and> chs_valid \<lparr>heads = 16, cylinders = 1000, spt = 63\<rparr> (set_al 1 r')"
proof -
  have "\<exists>r' m'. int13_harddisk (sector_drive 1) (\<lambda>_ _ _ _. None) 0
      (call13 0x0800 0 0x80, small_disk 16, blank ([] :: u16 list)) = Some (r', small_disk 16, m') \<and>
    \<not> get_cf r' \<and> (cylinder_of r', head_of r', sector_of r') =
      (unat (1000 :: u16) - 1, unat (16 :: u16) - 1, unat (63 :: u16)) \<and>
    lo8 (rdx r') = hdcount (small_disk 16) \<and>
    (\<forall>n. 0 < unat n \<and> unat n \<le> 128 \<longrightarrow> chs_valid \<lparr>heads = 16, cylinders = 1000, spt = 63\<rparr> (set_al n r'))"
    using int13_parameters_last_sector [of "small_disk 16" "call13 0x0800 0 0x80" 0
      "\<lparr>heads = 16, cylinders = 1000, spt = 63\<rparr>"]
    by (simp add: drive_of_def call13_def no_device_def)
  moreover have "0 < unat (1 :: u8) \<and> unat (1 :: u8) \<le> 128" by simp
  ultimately show ?thesis by auto
qed


section \<open>Fallback geometry\<close>

definition fallback_heads :: "nat \<Rightarrow> nat" where
  "fallback_heads n =
     (if n \<le> 1024 * 16 * 63 then 16 else if n \<le> 1024 * 32 * 63 then 32
      else if n \<le> 1024 * 64 * 63 then 64 else if n \<le> 1024 * 128 * 63 then 128 else 255)"

lemma geom_heads_value:
  "geom_heads 4 n 8257536 255 =
     (if n \<le> 1032192 then 16 else if n \<le> 2064384 then 32 else if n \<le> 4128768 then 64
      else if n \<le> 8257536 then 128 else 255)"
proof -
  have "geom_heads 4 n 8257536 255 = geom_heads (Suc (Suc (Suc (Suc 0)))) n 8257536 255"
    by (simp add: numeral_eq_Suc)
  then show ?thesis by (simp add: word_le_nat_alt)
qed

lemma clamp_sectors:
  "unat (if drop_bit 32 (n :: u64) \<noteq> 0 then 0xFFFFFFFF else ucast n :: u32) = min (unat n) 0xFFFFFFFF"
proof (cases "unat n < 2 ^ 32")
  case True
  have "unat (drop_bit 32 n) = 0" using True by (subst unat_drop_bit_eq) (simp add: drop_bit_eq_div)
  then have "drop_bit 32 n = 0" by (simp only: unat_eq_0)
  then show ?thesis using True by (simp add: unsigned_ucast_eq take_bit_nat_eq_self)
next
  case False
  have "unat (drop_bit 32 n) \<noteq> 0" using False by (subst unat_drop_bit_eq) (simp add: drop_bit_eq_div div_eq_0_iff)
  then have "drop_bit 32 n \<noteq> 0" by auto
  then show ?thesis using False by simp
qed

lemma set_geom_lba_value:
  fixes n :: u64
  defines "c \<equiv> min (unat n) 0xFFFFFFFF div (fallback_heads (unat n) * 63) mod 65536"
  shows "unat (heads (set_geom_lba n)) = fallback_heads (unat n)" "unat (spt (set_geom_lba n)) = 63"
    "unat (cylinders (set_geom_lba n)) = min c 1024"
proof -
  define k where "k = (if drop_bit 32 n \<noteq> 0 then 0xFFFFFFFF else ucast n :: u32)"
  have k: "unat k = min (unat n) 0xFFFFFFFF" unfolding k_def by (rule clamp_sectors)
  have h: "unat (geom_heads 4 k 8257536 255) = fallback_heads (unat n)"
    unfolding geom_heads_value fallback_heads_def word_le_nat_alt k by auto
  then have "unat (ucast (geom_heads 4 k 8257536 255) * 63 :: u32) = fallback_heads (unat n) * 63"
    by (simp add: unat_word_ariths fallback_heads_def)
  then have "unat (ucast (k div (ucast (geom_heads 4 k 8257536 255) * 63)) :: u16) = c"
    by (simp add: unsigned_ucast_eq unat_div k c_def take_bit_eq_mod)
  then show "unat (cylinders (set_geom_lba n)) = min c 1024" "unat (heads (set_geom_lba n)) = fallback_heads (unat n)"
      "unat (spt (set_geom_lba n)) = 63"
    using h by (auto simp: set_geom_lba_def Let_def k_def [symmetric] word_less_nat_alt)
qed
text \<open>
  C37: The fallback geometry of a disk of fewer than 65536 * 16065 sectors: 63 sectors a track, 16, 32,
  64, 128 or 255 heads and at most 1024 cylinders, never more than the disk has; and it leaves out
  less than one cylinder, unless the disk exceeds the largest geometry, 1024 cylinders of 255 heads.
\<close>

theorem set_geom_lba_covers:
  fixes n :: u64
  assumes "unat n < 65536 * (255 * 63)"
  defines "g \<equiv> set_geom_lba n"
  shows "unat (heads g) \<in> {16, 32, 64, 128, 255} \<and> unat (spt g) = 63 \<and> unat (cylinders g) \<le> 1024 \<and>
    capacity g \<le> unat n \<and>
    (unat n < capacity g + unat (heads g) * unat (spt g) \<or> unat (cylinders g) = 1024 \<and> unat (heads g) = 255)"
proof -
  define h where "h = fallback_heads (unat n)"
  have h: "h \<in> {16, 32, 64, 128, 255}" "h = 255 \<or> unat n \<le> 1024 * (h * 63)"
    by (auto simp: h_def fallback_heads_def)
  define q where "q = unat n div (h * 63)"
  have "q < 65536" using assms(1) h by (auto simp: q_def less_mult_imp_div_less)
  then have g: "unat (heads g) = h" "unat (spt g) = 63" "unat (cylinders g) = min q 1024"
    using set_geom_lba_value [of n] assms(1) by (simp_all add: g_def h_def q_def)
  have "q * (h * 63) \<le> unat n" "unat n < (q + 1) * (h * 63)"
    using h(1) by (auto simp: q_def dividend_less_div_times)
  have "h = 255" if "1024 < q"
  proof -
    have "1025 * (h * 63) \<le> q * (h * 63)" using that by (intro mult_le_mono1) simp
    then show ?thesis using h \<open>q * (h * 63) \<le> unat n\<close> by auto
  qed
  moreover have "min q 1024 * (h * 63) \<le> q * (h * 63)" by (intro mult_le_mono1) simp
  ultimately show ?thesis
    using g h(1) \<open>q * (h * 63) \<le> unat n\<close> \<open>unat n < (q + 1) * (h * 63)\<close>
    by (cases "q \<le> 1024") (auto simp: capacity_def mult.assoc)
qed

theorem set_geom_lba_covers_witness:
  "capacity (set_geom_lba 1008000) \<le> 1008000 \<and> 1008000 < capacity (set_geom_lba 1008000) + 16 * 63"
  using set_geom_lba_covers [of 1008000] set_geom_lba_value [of 1008000]
  by (simp add: fallback_heads_def)

text \<open>
  The cylinder count is cut to 16 bits before it is compared with 1024: a disk of
  65536 * 16065 + \<open>k\<close> sectors, about 502 GB and a little, is given only the cylinders that \<open>k\<close>
  sectors fill, none at all for \<open>k\<close> = 0.
\<close>

theorem set_geom_lba_wraps:
  assumes "k < 1024 * 16065"
  shows "unat (cylinders (set_geom_lba (of_nat (65536 * 16065 + k)))) = k div 16065"
proof -
  let ?n = "65536 * 16065 + k"
  have n: "unat (of_nat ?n :: u64) = ?n"
    using assms by (simp only: unat_of_nat) (simp add: take_bit_nat_eq_self)
  have "?n div 16065 mod 65536 = k div 16065"
    using assms by (simp only: div_mult_self3) (simp add: less_mult_imp_div_less)
  then show ?thesis
    using set_geom_lba_value(3) [of "of_nat ?n"] n assms
    by (simp add: fallback_heads_def min_def less_mult_imp_div_less less_imp_le)
qed

theorem set_geom_lba_wraps_witness:
  "unat (cylinders (set_geom_lba 1052835840)) = 0"
  using set_geom_lba_wraps [of 0] by simp

section \<open>The device parameter table\<close>

lemma fill_edd1_frame: "0x1a \<le> i \<Longrightarrow> read_byte seg (off + i) (fill_edd1 seg off d m) = read_byte seg (off + i) m"
  by (auto simp: fill_edd1_def Let_def read_byte_write_dword_seg read_byte_write_word_seg add.assoc
      word_le_nat_alt)

lemma fill_edd1_size: "read_word seg off (fill_edd1 seg off d m) = 0x1a"
  by (simp add: fill_edd1_def Let_def read_word_def read_byte_write_dword_seg read_byte_write_word_seg add.assoc
      mk16_def)

lemma fill_edd1_fields:
  assumes "d_device d \<noteq> DSK_DEVICE_CDROM"
  shows "read_dword seg (off + 4) (fill_edd1 seg off d m) = ucast (cylinders (pchs d))"
    "read_dword seg (off + 8) (fill_edd1 seg off d m) = ucast (heads (pchs d))"
    "read_dword seg (off + 12) (fill_edd1 seg off d m) = ucast (spt (pchs d))"
    "read_dword seg (off + 16) (fill_edd1 seg off d m) = ucast (sectors d)"
    "read_dword seg (off + 20) (fill_edd1 seg off d m) = ucast (drop_bit 32 (sectors d))"
    "read_word seg (off + 24) (fill_edd1 seg off d m) = blksize d"
  using assms
  by (simp_all add: fill_edd1_def Let_def read_dword_def read_word_def read_byte_write_dword_seg
      read_byte_write_word_seg add.assoc join_halves)

text \<open>
  Function 48h fills in the EDD 1.x part of the caller's buffer and nothing more: it fails,
  touching nothing, when the size in the buffer's first word is less than 26; otherwise, for however
  large a buffer, it reports 26 bytes, the physical geometry, the 64-bit number of sectors and the
  block size of a disk, and leaves every byte from offset 26 on as well as the DPTE as they were. The
  parts for EDD 2.x and 3.x are never reached, since their tests read the size just written.
\<close>

theorem edd_fill_dpt_is_edd1:
  fixes b :: bio_dsk and device :: u8
  defines "d \<equiv> devices b (unat device)"
  shows "if read_word seg off m < 0x1a then edd_fill_dpt dpte_off seg off b device m = (True, b, m)
    else (\<exists>m'. edd_fill_dpt dpte_off seg off b device m = (False, b, m') \<and> read_word seg off m' = 0x1a \<and>
      (\<forall>i. i < 0x1a \<or> read_byte seg (off + i) m' = read_byte seg (off + i) m) \<and>
      (d_device d = DSK_DEVICE_CDROM \<or>
        read_dword seg (off + 4) m' = ucast (cylinders (pchs d)) \<and>
        read_dword seg (off + 8) m' = ucast (heads (pchs d)) \<and>
        read_dword seg (off + 12) m' = ucast (spt (pchs d)) \<and>
        read_dword seg (off + 16) m' = ucast (sectors d) \<and>
        read_dword seg (off + 20) m' = ucast (drop_bit 32 (sectors d)) \<and>
        read_word seg (off + 24) m' = blksize d))"
proof (cases "read_word seg off m < 0x1a")
  case True
  then show ?thesis by (simp add: edd_fill_dpt_def)
next
  case False
  then have "edd_fill_dpt dpte_off seg off b device m = (False, b, fill_edd1 seg off d m)"
    by (simp add: edd_fill_dpt_def fill_edd1_size d_def not_less Let_def)
  moreover have "i < 0x1a \<or> read_byte seg (off + i) (fill_edd1 seg off d m) = read_byte seg (off + i) m" for i
    using fill_edd1_frame [of i seg off d m] by (cases "i < 0x1a") (simp_all add: not_less)
  ultimately show ?thesis
    using False fill_edd1_fields [of d seg off m]
    by (cases "d_device d = DSK_DEVICE_CDROM") (simp_all add: fill_edd1_size)
qed


section \<open>Extended reads\<close>

text \<open>The address packet at DS:SI.\<close>

definition packet_count :: "regs \<Rightarrow> 'd machine \<Rightarrow> u16" where
  "packet_count r m = read_word (rds r) (rsi r + 2) m"

definition packet_buffer :: "regs \<Rightarrow> 'd machine \<Rightarrow> far" where
  "packet_buffer r m = (read_word (rds r) (rsi r + 6) m, read_word (rds r) (rsi r + 4) m)"

definition packet_lba :: "regs \<Rightarrow> 'd machine \<Rightarrow> u64" where
  "packet_lba r m =
     push_bit 32 (ucast (read_dword (rds r) (rsi r + 12) m)) OR ucast (read_dword (rds r) (rsi r + 8) m)"

lemma dispatch_ext:
  assumes "hi8 (rax r) \<in> {0x42, 0x43, 0x44, 0x47}" "drive_of b r = Some d"
  shows "int13_harddisk_ext dpte_off dskacc (r, b, m) =
    int13_ext_transfer dskacc d (r, b, write_byte 0x40 0x8e 0 m)"
  using assms find_device_Inr_iff [of "''int13_harddisk_ext''" r b "write_byte 0x40 0x8e 0 m" d]
  by (auto simp: int13_harddisk_ext_def int13_ext_dispatch_def)

definition ext_packet :: "bio_dsk \<Rightarrow> u8 \<Rightarrow> regs \<Rightarrow> 'd machine \<Rightarrow> bio_dsk" where
  "ext_packet b d r m = upd_drqp (ext_request d (packet_lba r m) (packet_buffer r m) (packet_count r m)) b"

lemma ext_transfer_range:
  "sectors (devices b (unat d)) \<le> packet_lba r m \<Longrightarrow>
   int13_ext_transfer dskacc d (r, b, m) = Some (int13_fail (r, b,
     bx_info ''int13_harddisk_ext: function %02x. LBA out of range\<newline>'' [ucast (hi8 (rax r))] m))"
  by (simp only: int13_ext_transfer_def Let_def packet_lba_def prod.case if_True)

lemma ext_transfer_runs:
  assumes "packet_lba r m < sectors (devices b (unat d))" "hi8 (rax r) \<in> {0x42, 0x43}"
    and "dskacc (d_type (devices b (unat d))) (hi8 (rax r) - 0x42) (ext_packet b d r m) m = Some (0, b', m')"
  shows "int13_ext_transfer dskacc d (r, b, m) =
    Some (int13_success (r, b', write_word (rds r) (rsi r + 2) (trsfsectors (drqp b')) m'))"
proof -
  have "\<not> sectors (devices b (unat d)) \<le> packet_lba r m" "hi8 (rax r) \<noteq> 0x44" "hi8 (rax r) \<noteq> 0x47"
    using assms(1,2) by (auto simp: not_le)
  then show ?thesis
    using assms(3) unfolding packet_lba_def
    by (simp only: int13_ext_transfer_def Let_def prod.case if_False simp_thms option.case
        ext_packet_def packet_lba_def packet_count_def packet_buffer_def halves_01)
qed

text \<open>
  C30: Extended read (function 42h): a packet at DS:SI whose 64-bit address is beyond the disk's last
  sector is refused with AH = 01h and nothing but 40:74, 40:8E and the log changes. Otherwise the
  request goes to the drive with all 64 bits of the address, and if the drive serves it, the bytes of
  the packet's sectors are in the packet's buffer, the number of sectors in the packet, and the call
  succeeds.
\<close>

theorem int13_ext_read_delivers:
  fixes b :: bio_dsk and d :: u8 and m :: "'d machine"
  assumes ah: "hi8 (rax r) = 0x42" and drive: "drive_of b r = Some d"
    and ata: "d_type (devices b (unat d)) = DSK_TYPE_ATA"
  defines "m1 \<equiv> write_byte 0x40 0x8e 0 m"
  defines "q \<equiv> ext_packet b d r m1"
  assumes serves: "packet_lba r m1 < sectors (devices b (unat d)) \<Longrightarrow> serves_read hw pend q m1 ws"
  shows "if packet_lba r m1 < sectors (devices b (unat d))
    then \<exists>b' m'. int13_harddisk_ext dpte_off (dskacc_ata hw other) (r, b, m) =
        Some (clear_cf (set_ah 0 r), b', m') \<and>
      rq_lba (drqp b') = packet_lba r m1 \<and> trsfsectors (drqp b') = packet_count r m1 \<and>
      ram m' = (ram (write_word (rds r) (rsi r + 2) (packet_count r m1)
        (m1\<lparr>ram := store (flin (packet_buffer r m1)) (wbytes ws) (ram m1)\<rparr>)))(lin 0x40 0x74 := 0)
    else \<exists>log. int13_harddisk_ext dpte_off (dskacc_ata hw other) (r, b, m) =
        Some (set_cf (set_ah 1 r), b, m1\<lparr>ram := (ram m1)(lin 0x40 0x74 := 1), blog := log\<rparr>)"
proof -
  have run: "int13_harddisk_ext dpte_off (dskacc_ata hw other) (r, b, m) =
      int13_ext_transfer (dskacc_ata hw other) d (r, b, m1)"
    using dispatch_ext [of r b d dpte_off "dskacc_ata hw other" m] ah drive by (simp add: m1_def)
  show ?thesis
  proof (cases "packet_lba r m1 < sectors (devices b (unat d))")
    case True
    obtain dv where rd: "ata_read_sectors hw q m1 =
        Some (0, count_sectors (packet_count r m1) q, ints_on hw (request_chan q) (int_enable
          (m1\<lparr>ram := store (flin (packet_buffer r m1)) (wbytes ws) (ram m1), dev := dv\<rparr>)))"
      using read_sectors_deliver [OF serves [OF True]] by (auto simp: q_def ext_request_def ext_packet_def)
    have q: "trsfsectors (drqp q) = 0" "rq_lba (drqp (count_sectors n q)) = packet_lba r m1" for n
      by (simp_all add: q_def ext_request_def ext_packet_def count_sectors_def)
    have "int13_ext_transfer (dskacc_ata hw other) d (r, b, m1) =
      Some (int13_success (r, count_sectors (packet_count r m1) q,
        write_word (rds r) (rsi r + 2) (packet_count r m1) (ints_on hw (request_chan q) (int_enable
          (m1\<lparr>ram := store (flin (packet_buffer r m1)) (wbytes ws) (ram m1), dev := dv\<rparr>)))))"
      using ext_transfer_runs [OF True, of "dskacc_ata hw other"] ah ata rd q(1) by (simp add: q_def)
    then show ?thesis
      using True q unfolding run
      by (simp add: int13_success_def int13_success_noah_def) (simp add: write_word_def write_byte_def)
  next
    case False
    have "int13_ext_transfer (dskacc_ata hw other) d (r, b, m1) = Some (set_cf (set_ah 1 r), b,
        m1\<lparr>ram := (ram m1)(lin 0x40 0x74 := 1), blog := blog m1 @
          [(''int13_harddisk_ext: function %02x. LBA out of range\<newline>'', [ucast (hi8 (rax r))])]\<rparr>)"
      using False by (simp add: ext_transfer_range not_less int13_fail_def int13_fail_noah_def
          set_disk_ret_status_def write_byte_def bx_info_def)
    then show ?thesis using False unfolding run by (simp only: if_False) blast
  qed
qed


definition packet_machine :: "u16 list machine" where
  "packet_machine = blank []\<lparr>ram := store (lin 0x3000 0)
     [0x10, 0, 1, 0, 0, 0, 0, 0x10, 5, 0, 0, 0, 0, 0, 0, 0] (\<lambda>_. 0)\<rparr>"

theorem int13_ext_read_delivers_witness:
  "\<exists>b' m'. int13_harddisk_ext 0 (dskacc_ata (sector_drive 1) (\<lambda>_ _ b m. None))
        (call13 0x4200 0 0x80, small_disk 16, packet_machine) =
      Some (clear_cf (set_ah 0 (call13 0x4200 0 0x80)), b', m') \<and>
    rq_lba (drqp b') = 5 \<and> trsfsectors (drqp b') = 1"
proof -
  let ?r = "call13 0x4200 0 0x80" and ?m = "write_byte 0x40 0x8e 0 packet_machine"
  have r: "rax ?r = 0x4200" "rds ?r = 0x3000" "rsi ?r = 0" "rsp ?r = 0x80" by (simp_all add: call13_def)
  have p: "packet_count ?r ?m = 1" "packet_buffer ?r ?m = (0x1000, 0)" "packet_lba ?r ?m = 5"
    by (simp_all add: packet_count_def packet_buffer_def packet_lba_def r read_word_def read_dword_def
        read_byte_def write_byte_def packet_machine_def lin_def store_def mk16_def)
  have dv: "dev packet_machine = []" by (simp add: packet_machine_def blank_def)
  have d: "drive_of (small_disk 16) ?r = Some 0" by (simp add: drive_of_def r)
  have "serves_read (sector_drive 1) id (ext_packet (small_disk 16) 0 ?r ?m) ?m (replicate 256 0xABCD)"
    using sector_drive_reader [of 1]
    by (simp add: serves_read_def Let_def request_chan_def request_device_def ext_packet_def ext_request_def
        p no_device_def inb_def dv
        read_command_def setup_in_def task_writes_def outb_seq_def outb_def flin_def unat_lin
        adjust_overrun_def needs_ext_def split: prod.split)
  then show ?thesis
    using int13_ext_read_delivers [of ?r "small_disk 16" 0 packet_machine "sector_drive 1" id
        "replicate 256 0xABCD" 0 "\<lambda>_ _ b m. None"] d
    by (simp add: r p no_device_def) metis
qed

end
