(* ===== verification/Iprt.thy ===== *)
theory Iprt
  imports Prelude "HOL-Library.Monad_Syntax"
begin

text \<open>
  What the models of VirtualBox's ring-0 runtime (IPRT) share: its status codes
  (\<open>include/iprt/err.h\<close>), and linked lists in an explicit heap. A heap maps the addresses of live
  records to records; address 0 is NULL, and an address outside the domain is freed or was never
  allocated. Code that follows such an address has no value in the models: they return
  \<open>None\<close> for a run that dereferences a dead record or that never ends, so that every theorem with
  a result of the form \<open>Some\<close> excludes both.
\<close>

section \<open>Status codes\<close>

definition VINF_SUCCESS :: int where "VINF_SUCCESS = 0"
definition VERR_INVALID_PARAMETER :: int where "VERR_INVALID_PARAMETER = - 2"
definition VERR_INVALID_HANDLE :: int where "VERR_INVALID_HANDLE = - 4"
definition VERR_INVALID_POINTER :: int where "VERR_INVALID_POINTER = - 6"
definition VERR_NO_MEMORY :: int where "VERR_NO_MEMORY = - 8"
definition VERR_WRONG_ORDER :: int where "VERR_WRONG_ORDER = - 22"
definition VERR_ACCESS_DENIED :: int where "VERR_ACCESS_DENIED = - 38"
definition VERR_INTERRUPTED :: int where "VERR_INTERRUPTED = - 39"
definition VERR_NOT_OWNER :: int where "VERR_NOT_OWNER = - 355"
definition VERR_SEM_BUSY :: int where "VERR_SEM_BUSY = - 360"
definition VERR_SEM_DESTROYED :: int where "VERR_SEM_DESTROYED = - 363"
definition VERR_SEM_NESTED :: int where "VERR_SEM_NESTED = - 364"
definition VERR_SEM_BAD_CONTEXT :: int where "VERR_SEM_BAD_CONTEXT = - 367"
definition VINF_SEM_BAD_CONTEXT :: int where "VINF_SEM_BAD_CONTEXT = 367"
definition VERR_NOT_FOUND :: int where "VERR_NOT_FOUND = - 78"
definition VERR_ALREADY_EXISTS :: int where "VERR_ALREADY_EXISTS = - 105"

lemmas iprt_status = VINF_SUCCESS_def VERR_INVALID_PARAMETER_def VERR_INVALID_HANDLE_def
  VERR_INVALID_POINTER_def VERR_NO_MEMORY_def VERR_WRONG_ORDER_def VERR_ACCESS_DENIED_def
  VERR_NOT_FOUND_def VERR_ALREADY_EXISTS_def VERR_INTERRUPTED_def VERR_NOT_OWNER_def
  VERR_SEM_BUSY_def VERR_SEM_DESTROYED_def VERR_SEM_NESTED_def VERR_SEM_BAD_CONTEXT_def
  VINF_SEM_BAD_CONTEXT_def

definition RT_SUCCESS :: "int \<Rightarrow> bool" where
  "RT_SUCCESS rc \<longleftrightarrow> rc \<ge> 0"

section \<open>Linked lists in a heap\<close>

text \<open>\<open>reg_path nxt h p as q\<close>: from address \<open>p\<close> the records at \<open>as\<close> lead to \<open>q\<close>.\<close>

primrec reg_path :: "('r \<Rightarrow> u64) \<Rightarrow> (u64 \<rightharpoonup> 'r) \<Rightarrow> u64 \<Rightarrow> u64 list \<Rightarrow> u64 \<Rightarrow> bool" where
  "reg_path nxt h p [] q \<longleftrightarrow> p = q"
| "reg_path nxt h p (a # as) q \<longleftrightarrow>
     p = a \<and> a \<noteq> 0 \<and> (case h a of None \<Rightarrow> False | Some r \<Rightarrow> reg_path nxt h (nxt r) as q)"

abbreviation reg_list :: "('r \<Rightarrow> u64) \<Rightarrow> (u64 \<rightharpoonup> 'r) \<Rightarrow> u64 \<Rightarrow> u64 list \<Rightarrow> bool" where
  "reg_list nxt h p as \<equiv> reg_path nxt h p as 0"

lemma reg_path_append:
  "reg_path nxt h p (as @ bs) q \<longleftrightarrow> (\<exists>m. reg_path nxt h p as m \<and> reg_path nxt h m bs q)"
  by (induction as arbitrary: p) (auto split: option.splits)

lemma reg_path_nonzero: "reg_path nxt h p as q \<Longrightarrow> 0 \<notin> set as"
  by (induction as arbitrary: p) (auto split: option.splits)

lemma reg_path_dom: "reg_path nxt h p as q \<Longrightarrow> a \<in> set as \<Longrightarrow> \<exists>r. h a = Some r"
  by (induction as arbitrary: p) (auto split: option.splits)

lemma reg_path_fresh: "reg_path nxt h p as q \<Longrightarrow> h a = None \<Longrightarrow> a \<notin> set as"
  using reg_path_dom by fastforce

lemma reg_list_0 [simp]: "reg_path nxt h 0 as q \<longleftrightarrow> as = [] \<and> q = 0"
  by (cases as) auto

lemma reg_list_unique: "reg_list nxt h p as \<Longrightarrow> reg_list nxt h p bs \<Longrightarrow> as = bs"
proof (induction as arbitrary: p bs)
  case Nil
  then show ?case by simp
next
  case (Cons a as)
  then show ?case by (cases bs) (auto split: option.splits)
qed

lemma reg_list_distinct: "reg_list nxt h p as \<Longrightarrow> distinct as"
proof (induction as arbitrary: p)
  case Nil
  then show ?case by simp
next
  case (Cons a as)
  then obtain r where r: "h a = Some r" "reg_list nxt h (nxt r) as" by (auto split: option.splits)
  have "a \<notin> set as"
  proof
    assume "a \<in> set as"
    then obtain bs cs where as: "as = bs @ a # cs" by (auto simp: in_set_conv_decomp)
    with r have "reg_list nxt h a (a # cs)" by (auto simp: reg_path_append split: option.splits)
    moreover have "reg_list nxt h a (a # as)" using Cons.prems by simp
    ultimately have "a # cs = a # as" by (rule reg_list_unique)
    with as show False by auto
  qed
  with Cons.IH [OF r(2)] show ?case by simp
qed

text \<open>Changes outside a path, and changes that keep the links of its records, keep the path.\<close>

lemma reg_path_cong:
  assumes "\<And>a. a \<in> set as \<Longrightarrow> map_option nxt (h' a) = map_option nxt (h a)"
  shows "reg_path nxt h' p as q \<longleftrightarrow> reg_path nxt h p as q"
  using assms
proof (induction as arbitrary: p)
  case Nil
  then show ?case by simp
next
  case (Cons a as)
  have "map_option nxt (h' a) = map_option nxt (h a)" by (rule Cons.prems) simp
  moreover have "reg_path nxt h' p as q \<longleftrightarrow> reg_path nxt h p as q" for p
    by (rule Cons.IH) (simp add: Cons.prems)
  ultimately show ?case by (cases "h a"; cases "h' a") auto
qed

lemma reg_path_upd_other [simp]:
  "a \<notin> set as \<Longrightarrow> reg_path nxt (h(a := v)) p as q \<longleftrightarrow> reg_path nxt h p as q"
  by (rule reg_path_cong) auto

end
