(* ===== verification/Registry.thy ===== *)
theory Registry
  imports Iprt
begin

text \<open>
  The contract of a callback registry, as a client sees it: an ordered list of registrations
  without duplicates. Adding appends, unless the registration exists or memory is short; removing
  takes out the one registration it names. The client lemma is that any sequence of calls is
  accounted for by that list.
\<close>

datatype 'k registry_op = Add 'k | Remove 'k

text \<open>What one call may return on a list of registrations, and the list it leaves.\<close>

fun registry_out :: "'k registry_op \<Rightarrow> 'k list \<Rightarrow> int \<Rightarrow> 'k list \<Rightarrow> bool" where
  "registry_out (Add k) ks rc ks' \<longleftrightarrow>
     (if k \<in> set ks then rc = VERR_ALREADY_EXISTS \<and> ks' = ks
      else rc = VINF_SUCCESS \<and> ks' = ks @ [k] \<or> rc = VERR_NO_MEMORY \<and> ks' = ks)"
| "registry_out (Remove k) ks rc ks' \<longleftrightarrow>
     (if k \<in> set ks then rc = VINF_SUCCESS \<and> ks' = remove1 k ks
      else rc = VERR_NOT_FOUND \<and> ks' = ks)"

fun registry_outs :: "'k registry_op list \<Rightarrow> 'k list \<Rightarrow> int list \<Rightarrow> 'k list \<Rightarrow> bool" where
  "registry_outs [] ks rcs ks' \<longleftrightarrow> rcs = [] \<and> ks' = ks"
| "registry_outs (x # xs) ks rcs ks' \<longleftrightarrow>
     (\<exists>rc rest ks1. rcs = rc # rest \<and> registry_out x ks rc ks1 \<and> registry_outs xs ks1 rest ks')"

fun registry_run ::
  "('k \<Rightarrow> 's \<Rightarrow> (int \<times> 's) option) \<Rightarrow> ('k \<Rightarrow> 's \<Rightarrow> (int \<times> 's) option) \<Rightarrow>
   'k registry_op list \<Rightarrow> 's \<Rightarrow> (int list \<times> 's) option" where
  "registry_run add del [] s = Some ([], s)"
| "registry_run add del (x # xs) s =
     do { (rc, s) \<leftarrow> (case x of Add k \<Rightarrow> add k s | Remove k \<Rightarrow> del k s);
          (rcs, s) \<leftarrow> registry_run add del xs s;
          Some (rc # rcs, s) }"

lemma registry_out_distinct: "registry_out x ks rc ks' \<Longrightarrow> distinct ks \<Longrightarrow> distinct ks'"
  by (cases x) (auto split: if_splits)

lemma registry_outs_distinct: "registry_outs xs ks rcs ks' \<Longrightarrow> distinct ks \<Longrightarrow> distinct ks'"
  by (induction xs arbitrary: ks rcs) (auto dest: registry_out_distinct)

locale registry =
  fixes represents :: "'s \<Rightarrow> 'k list \<Rightarrow> bool"
    and valid :: "'k \<Rightarrow> bool"
    and add del :: "'k \<Rightarrow> 's \<Rightarrow> (int \<times> 's) option"
  assumes add_law: "represents s ks \<Longrightarrow> valid k \<Longrightarrow>
      \<exists>rc s' ks'. add k s = Some (rc, s') \<and> represents s' ks' \<and> registry_out (Add k) ks rc ks'"
    and del_law: "represents s ks \<Longrightarrow> valid k \<Longrightarrow>
      \<exists>rc s' ks'. del k s = Some (rc, s') \<and> represents s' ks' \<and> registry_out (Remove k) ks rc ks'"
begin

lemma run_refines:
  assumes "represents s ks" "\<forall>x\<in>set xs. case x of Add k \<Rightarrow> valid k | Remove k \<Rightarrow> valid k"
  shows "\<exists>rcs s' ks'. registry_run add del xs s = Some (rcs, s') \<and> represents s' ks' \<and>
    registry_outs xs ks rcs ks'"
  using assms
proof (induction xs arbitrary: s ks)
  case Nil
  then show ?case by auto
next
  case (Cons x xs)
  have "\<exists>rc s1 ks1. (case x of Add k \<Rightarrow> add k s | Remove k \<Rightarrow> del k s) = Some (rc, s1) \<and>
      represents s1 ks1 \<and> registry_out x ks rc ks1"
    using add_law [OF Cons.prems(1)] del_law [OF Cons.prems(1)] Cons.prems(2) by (cases x) auto
  then obtain rc s1 ks1 where s1: "(case x of Add k \<Rightarrow> add k s | Remove k \<Rightarrow> del k s) = Some (rc, s1)"
      "represents s1 ks1" "registry_out x ks rc ks1" by blast
  obtain rcs s' ks' where "registry_run add del xs s1 = Some (rcs, s')" "represents s' ks'"
      "registry_outs xs ks1 rcs ks'"
    using Cons.IH [OF s1(2)] Cons.prems(2) by auto
  with s1 show ?case by auto
qed

end

end
