(* ===== verification/Notification.thy ===== *)
theory Notification
  imports Registry
begin

text \<open>
  Event notification of the ring-0 runtime (\<open>Runtime/r0drv/mpnotification-r0drv.c\<close> and its twin
  \<open>powernotification-r0drv.c\<close>): a linked list of registered callbacks under a spinlock, and the
  event walk that calls them with the spinlock released, guarded by a list generation and by one
  bit per event in every record.

  Every critical section is one step on the state. What other threads and the callback itself do
  while the lock is free is a parameter: \<open>mid\<close> between the two sections of a registration,
  \<open>env\<close> while a callback runs. The list lives in an explicit heap, because the walk keeps a pointer
  to the next record across the callback.
\<close>

section \<open>State\<close>

record nreg =
  nr_next :: u64
  nr_cb :: u64
  nr_user :: u64
  nr_done :: u64

record notify =
  nt_heap :: "u64 \<rightharpoonup> nreg"
  nt_lock :: bool                    \<comment> \<open>the spinlock handle is not NIL\<close>
  nt_head :: u64
  nt_bit :: u32
  nt_gen :: u32
  nt_calls :: "(u64 \<times> u64) list"    \<comment> \<open>callbacks made so far, in order\<close>

text \<open>\<open>RT_VALID_PTR\<close> for ring-0 pointers on AMD64: not around NULL, and canonical.\<close>

definition RT_VALID_PTR :: "u64 \<Rightarrow> bool" where
  "RT_VALID_PTR p \<longleftrightarrow> p + 0x1000 \<ge> 0x2000 \<and>
     (p AND 0xffff800000000000 = 0xffff800000000000 \<or> p AND 0xffff800000000000 = 0)"

definition nreg_matches :: "u64 \<Rightarrow> u64 \<Rightarrow> nreg \<Rightarrow> bool" where
  "nreg_matches cb user r \<longleftrightarrow> nr_user r = user \<and> nr_cb r = cb"

section \<open>Registration\<close>

partial_function (option) find_reg ::
  "u64 \<Rightarrow> u64 \<Rightarrow> (u64 \<rightharpoonup> nreg) \<Rightarrow> u64 \<Rightarrow> u64 option" where
  "find_reg cb user h p =
     (if p = 0 then Some 0
      else do { r \<leftarrow> h p;
                if nreg_matches cb user r then Some p else find_reg cb user h (nr_next r) })"

text \<open>The insertion walk: the duplicate it stops at (0 if none) and the heap it leaves.\<close>

partial_function (option) insert_walk ::
  "u64 \<Rightarrow> u64 \<Rightarrow> u64 \<Rightarrow> (u64 \<rightharpoonup> nreg) \<Rightarrow> u64 \<Rightarrow> (u64 \<times> (u64 \<rightharpoonup> nreg)) option" where
  "insert_walk cb user pnew h p =
     do { r \<leftarrow> h p;
          if nreg_matches cb user r then Some (p, h)
          else if nr_next r = 0 then Some (0, h(p \<mapsto> r\<lparr>nr_next := pnew\<rparr>))
          else insert_walk cb user pnew h (nr_next r) }"

definition register_insert :: "u64 \<Rightarrow> u64 \<Rightarrow> u64 \<Rightarrow> notify \<Rightarrow> (u64 \<times> notify) option" where
  "register_insert cb user pnew s =
     (if nt_head s = 0
      then Some (0, s\<lparr>nt_head := pnew, nt_gen := nt_gen s + 1\<rparr>)
      else do { (pcur, h) \<leftarrow> insert_walk cb user pnew (nt_heap s) (nt_head s);
                Some (pcur, s\<lparr>nt_heap := h, nt_gen := nt_gen s + 1\<rparr>) })"

definition notify_free :: "u64 \<Rightarrow> notify \<Rightarrow> notify" where
  "notify_free p s = s\<lparr>nt_heap := (nt_heap s)(p := None)\<rparr>"

definition notify_register ::
  "((u64 \<rightharpoonup> nreg) \<Rightarrow> u64 option) \<Rightarrow> (notify \<Rightarrow> notify) \<Rightarrow> u64 \<Rightarrow> u64 \<Rightarrow> notify \<Rightarrow>
   (int \<times> notify) option" where
  "notify_register alloc mid cb user s =
     (if \<not> RT_VALID_PTR cb then Some (VERR_INVALID_POINTER, s)
      else if \<not> nt_lock s then Some (VERR_WRONG_ORDER, s)
      else do {
        pcur \<leftarrow> find_reg cb user (nt_heap s) (nt_head s);
        if pcur \<noteq> 0 then Some (VERR_ALREADY_EXISTS, s)
        else
          let s = mid s in
          case alloc (nt_heap s) of
            None \<Rightarrow> Some (VERR_NO_MEMORY, s)
          | Some pnew \<Rightarrow>
              let s = s\<lparr>nt_heap := (nt_heap s)
                    (pnew \<mapsto> \<lparr>nr_next = 0, nr_cb = cb, nr_user = user, nr_done = - 1\<rparr>)\<rparr>
              in do {
                (pcur, s) \<leftarrow> register_insert cb user pnew s;
                if pcur \<noteq> 0 then Some (VERR_ALREADY_EXISTS, notify_free pcur s)
                else Some (VINF_SUCCESS, s) } })"

text \<open>The deregistration walk: predecessor and record found, both 0 if there is none.\<close>

partial_function (option) find_prev ::
  "u64 \<Rightarrow> u64 \<Rightarrow> (u64 \<rightharpoonup> nreg) \<Rightarrow> u64 \<Rightarrow> u64 \<Rightarrow> (u64 \<times> u64) option" where
  "find_prev cb user h prev p =
     (if p = 0 then Some (prev, 0)
      else do { r \<leftarrow> h p;
                if nreg_matches cb user r then Some (prev, p)
                else find_prev cb user h p (nr_next r) })"

definition notify_unlink :: "u64 \<Rightarrow> u64 \<Rightarrow> notify \<Rightarrow> notify option" where
  "notify_unlink prev p s =
     do { r \<leftarrow> nt_heap s p;
          s \<leftarrow> (if prev \<noteq> 0
                then do { rp \<leftarrow> nt_heap s prev;
                          Some (s\<lparr>nt_heap := (nt_heap s)(prev \<mapsto> rp\<lparr>nr_next := nr_next r\<rparr>)\<rparr>) }
                else Some (s\<lparr>nt_head := nr_next r\<rparr>));
          Some (s\<lparr>nt_gen := nt_gen s + 1\<rparr>) }"

definition notify_deregister :: "u64 \<Rightarrow> u64 \<Rightarrow> notify \<Rightarrow> (int \<times> notify) option" where
  "notify_deregister cb user s =
     (if \<not> RT_VALID_PTR cb then Some (VERR_INVALID_POINTER, s)
      else if \<not> nt_lock s then Some (VERR_WRONG_ORDER, s)
      else do {
        (prev, p) \<leftarrow> find_prev cb user (nt_heap s) 0 (nt_head s);
        if p = 0 then Some (VERR_NOT_FOUND, s)
        else do {
          s \<leftarrow> notify_unlink prev p s;
          \<comment> \<open>the record is invalidated before it is freed: its old contents stay nowhere\<close>
          Some (VINF_SUCCESS, notify_free p s) } })"

section \<open>The event walk\<close>

partial_function (option) clear_done ::
  "nat \<Rightarrow> (u64 \<rightharpoonup> nreg) \<Rightarrow> u64 \<Rightarrow> (u64 \<rightharpoonup> nreg) option" where
  "clear_done i h p =
     (if p = 0 then Some h
      else do { r \<leftarrow> h p;
                clear_done i (h(p \<mapsto> r\<lparr>nr_done := unset_bit i (nr_done r)\<rparr>)) (nr_next r) })"

definition call_record :: "nat \<Rightarrow> u64 \<Rightarrow> nreg \<Rightarrow> notify \<Rightarrow> notify" where
  \<comment> \<open>the done bit set by the test-and-set, and the call noted\<close>
  "call_record i p r s =
     s\<lparr>nt_heap := (nt_heap s)(p \<mapsto> r\<lparr>nr_done := set_bit i (nr_done r)\<rparr>),
       nt_calls := nt_calls s @ [(nr_cb r, nr_user r)]\<rparr>"

text \<open>
  The two nested loops: \<open>p\<close> is \<open>pCur\<close>, \<open>gen\<close> is \<open>iGeneration\<close>. The inner loop is left with \<open>break\<close>
  when the generation changed over a callback; the outer one then starts again at the head unless
  \<open>pCur\<close> is NULL. The result is \<open>False\<close> when the lock was destroyed meanwhile.
\<close>

partial_function (option) event_walk ::
  "(u64 \<times> u64 \<Rightarrow> notify \<Rightarrow> notify) \<Rightarrow> nat \<Rightarrow> u32 \<Rightarrow> u64 \<Rightarrow> notify \<Rightarrow> (bool \<times> notify) option" where
  "event_walk env i gen p s =
     (if p = 0 then Some (True, s)
      else do {
        r \<leftarrow> nt_heap s p;
        if \<not> bit (nr_done r) i then
          let s' = env (nr_cb r, nr_user r) (call_record i p r s) in
          if \<not> nt_lock s' then Some (False, s')
          else if nt_gen s' \<noteq> gen then
            (if nr_next r = 0 then Some (True, s')
             else event_walk env i (nt_gen s') (nt_head s') s')
          else event_walk env i gen (nr_next r) s'
        else event_walk env i gen (nr_next r) s })"

definition notify_event ::
  "(u64 \<times> u64 \<Rightarrow> notify \<Rightarrow> notify) \<Rightarrow> notify \<Rightarrow> (bool \<times> notify) option" where
  "notify_event env s =
     (let s = s\<lparr>nt_bit := nt_bit s + 1\<rparr>;
          i = unat (nt_bit s) mod 64
      in if \<not> nt_lock s then Some (False, s)
         else do {
           h \<leftarrow> clear_done i (nt_heap s) (nt_head s);
           let s = s\<lparr>nt_heap := h\<rparr> in event_walk env i (nt_gen s) (nt_head s) s })"

section \<open>Termination of the service\<close>

partial_function (option) free_list :: "(u64 \<rightharpoonup> nreg) \<Rightarrow> u64 \<Rightarrow> (u64 \<rightharpoonup> nreg) option" where
  "free_list h p =
     (if p = 0 then Some h
      else do { r \<leftarrow> h p; free_list (h(p := None)) (nr_next r) })"

definition notify_term :: "notify \<Rightarrow> notify option" where
  "notify_term s =
     (if \<not> nt_lock s then Some s
      else
        let p = nt_head s;
            s = s\<lparr>nt_lock := False, nt_head := 0, nt_gen := nt_gen s + 1\<rparr>
        in do { h \<leftarrow> free_list (nt_heap s) p; Some (s\<lparr>nt_heap := h\<rparr>) })"

text \<open>\<open>create\<close> and \<open>native\<close> are the status codes of the spinlock creation and the native setup.\<close>

definition notify_init :: "int \<Rightarrow> int \<Rightarrow> notify \<Rightarrow> int \<times> notify" where
  "notify_init create native s =
     (if RT_SUCCESS create then
        (if RT_SUCCESS native then (native, s\<lparr>nt_lock := True\<rparr>) else (native, s\<lparr>nt_lock := False\<rparr>))
      else (create, s))"

declare find_reg.simps [code] insert_walk.simps [code] find_prev.simps [code] clear_done.simps [code]
  event_walk.simps [code] free_list.simps [code]

section \<open>The entry points\<close>

definition RTMpNotificationRegister where
  "RTMpNotificationRegister = notify_register"

definition RTMpNotificationDeregister where
  "RTMpNotificationDeregister = notify_deregister"

definition rtMpNotificationDoCallbacks ::
  "(u64 \<times> u64 \<Rightarrow> notify \<Rightarrow> notify) \<Rightarrow> notify \<Rightarrow> notify option" where
  "rtMpNotificationDoCallbacks env s = map_option snd (notify_event env s)"

definition RTPowerNotificationRegister where
  "RTPowerNotificationRegister = notify_register"

definition RTPowerNotificationDeregister where
  "RTPowerNotificationDeregister = notify_deregister"

definition RTPowerSignalEvent ::
  "(u64 \<times> u64 \<Rightarrow> notify \<Rightarrow> notify) \<Rightarrow> notify \<Rightarrow> (int \<times> notify) option" where
  "RTPowerSignalEvent env s =
     map_option (\<lambda>(ok, s). (if ok then VINF_SUCCESS else VERR_ACCESS_DENIED, s)) (notify_event env s)"

section \<open>The walks on a list\<close>

definition nreg_key :: "(u64 \<rightharpoonup> nreg) \<Rightarrow> u64 \<Rightarrow> u64 \<times> u64" where
  "nreg_key h p = (nr_cb (the (h p)), nr_user (the (h p)))"

abbreviation nreg_list :: "(u64 \<rightharpoonup> nreg) \<Rightarrow> u64 \<Rightarrow> u64 list \<Rightarrow> bool" where
  "nreg_list \<equiv> reg_list nr_next"

lemma nreg_matches_key: "h p = Some r \<Longrightarrow> nreg_matches cb user r \<longleftrightarrow> nreg_key h p = (cb, user)"
  by (auto simp: nreg_matches_def nreg_key_def)

lemma find_reg_found:
  assumes "reg_path nr_next h p (as @ [a]) q" "nreg_key h a = (cb, user)"
    "(cb, user) \<notin> nreg_key h ` set as"
  shows "find_reg cb user h p = Some a"
  using assms
proof (induction as arbitrary: p)
  case Nil
  then show ?case
    by (subst find_reg.simps) (auto simp: nreg_matches_def nreg_key_def split: option.splits)
next
  case (Cons b as)
  then show ?case
    by (subst find_reg.simps) (auto simp: nreg_matches_def nreg_key_def split: option.splits)
qed

lemma find_reg_none:
  assumes "nreg_list h p ps" "(cb, user) \<notin> nreg_key h ` set ps"
  shows "find_reg cb user h p = Some 0"
  using assms
proof (induction ps arbitrary: p)
  case Nil
  then show ?case by (subst find_reg.simps) simp
next
  case (Cons b as)
  then show ?case
    by (subst find_reg.simps) (auto simp: nreg_matches_def nreg_key_def split: option.splits)
qed

lemma insert_walk_dup:
  assumes "reg_path nr_next h p (as @ [a]) q" "nreg_key h a = (cb, user)"
    "(cb, user) \<notin> nreg_key h ` set as"
  shows "insert_walk cb user pnew h p = Some (a, h)"
  using assms
proof (induction as arbitrary: p)
  case Nil
  then show ?case
    by (subst insert_walk.simps) (auto simp: nreg_matches_def nreg_key_def split: option.splits)
next
  case (Cons b as)
  then obtain r where r: "p = b" "h b = Some r" "reg_path nr_next h (nr_next r) (as @ [a]) q"
    by (auto split: option.splits)
  have "nr_next r \<noteq> 0" using r(3) by (cases as) auto
  moreover have "insert_walk cb user pnew h (nr_next r) = Some (a, h)"
    using Cons.IH [OF r(3) Cons.prems(2)] Cons.prems(3) by simp
  moreover have "\<not> nreg_matches cb user r"
    using Cons.prems(3) nreg_matches_key [of h b r cb user] r(2) by force
  ultimately show ?case
    by (subst insert_walk.simps) (simp add: r(1,2))
qed

lemma insert_walk_end:
  assumes "nreg_list h p (as @ [a])" "(cb, user) \<notin> nreg_key h ` set (as @ [a])"
  shows "insert_walk cb user pnew h p = Some (0, h(a \<mapsto> (the (h a))\<lparr>nr_next := pnew\<rparr>))"
  using assms
proof (induction as arbitrary: p)
  case Nil
  then show ?case
    by (subst insert_walk.simps) (auto simp: nreg_matches_def nreg_key_def split: option.splits)
next
  case (Cons b as)
  then obtain r where r: "p = b" "h b = Some r" "nreg_list h (nr_next r) (as @ [a])"
    by (auto split: option.splits)
  have "nr_next r \<noteq> 0" using r(3) by (cases as) auto
  moreover have "insert_walk cb user pnew h (nr_next r) = Some (0, h(a \<mapsto> (the (h a))\<lparr>nr_next := pnew\<rparr>))"
    by (rule Cons.IH [OF r(3)]) (use Cons.prems(2) in simp)
  moreover have "\<not> nreg_matches cb user r"
    using Cons.prems(2) nreg_matches_key [of h b r cb user] r(2) by force
  ultimately show ?case
    by (subst insert_walk.simps) (simp add: r(1,2))
qed

lemma find_prev_found:
  assumes "reg_path nr_next h p (as @ [a]) q" "nreg_key h a = (cb, user)"
    "(cb, user) \<notin> nreg_key h ` set as"
  shows "find_prev cb user h prev p = Some (last (prev # as), a)"
  using assms
proof (induction as arbitrary: p prev)
  case Nil
  then show ?case
    by (subst find_prev.simps) (auto simp: nreg_matches_def nreg_key_def split: option.splits)
next
  case (Cons b as)
  then show ?case
    by (subst find_prev.simps) (auto simp: nreg_matches_def nreg_key_def split: option.splits)
qed

lemma find_prev_none:
  assumes "nreg_list h p ps" "(cb, user) \<notin> nreg_key h ` set ps"
  shows "find_prev cb user h prev p = Some (last (prev # ps), 0)"
  using assms
proof (induction ps arbitrary: p prev)
  case Nil
  then show ?case by (subst find_prev.simps) simp
next
  case (Cons b as)
  then show ?case
    by (subst find_prev.simps) (auto simp: nreg_matches_def nreg_key_def split: option.splits)
qed

definition clear_heap :: "nat \<Rightarrow> u64 set \<Rightarrow> (u64 \<rightharpoonup> nreg) \<Rightarrow> (u64 \<rightharpoonup> nreg)" where
  "clear_heap i A h a =
     (if a \<in> A then map_option (\<lambda>r. r\<lparr>nr_done := unset_bit i (nr_done r)\<rparr>) (h a) else h a)"

lemma clear_done_list:
  assumes "nreg_list h p ps"
  shows "clear_done i h p = Some (clear_heap i (set ps) h)"
  using assms
proof (induction ps arbitrary: p h)
  case Nil
  then show ?case by (subst clear_done.simps) (simp add: clear_heap_def fun_eq_iff)
next
  case (Cons b as)
  then obtain r where r: "p = b" "b \<noteq> 0" "h b = Some r" "nreg_list h (nr_next r) as"
    by (auto split: option.splits)
  let ?h = "h(b \<mapsto> r\<lparr>nr_done := unset_bit i (nr_done r)\<rparr>)"
  have nb: "b \<notin> set as" using reg_list_distinct [OF Cons.prems] by simp
  have "nreg_list ?h (nr_next r) as" using r(4) reg_path_upd_other [OF nb] by blast
  then have "clear_done i ?h (nr_next r) = Some (clear_heap i (set as) ?h)" by (rule Cons.IH)
  also have "clear_heap i (set as) ?h = clear_heap i (set (b # as)) h"
    using nb r(3) by (auto simp: clear_heap_def fun_eq_iff)
  finally have "clear_done i ?h (nr_next r) = Some (clear_heap i (set (b # as)) h)" .
  then show ?case using r by (subst clear_done.simps) simp
qed

lemma clear_done_dangling:
  assumes "reg_path nr_next h p as q" "distinct as" "q \<notin> set as" "q \<noteq> 0" "h q = None"
  shows "clear_done i h p = None"
  using assms
proof (induction as arbitrary: p h)
  case Nil
  then show ?case by (subst clear_done.simps) simp
next
  case (Cons b as)
  then obtain r where r: "p = b" "b \<noteq> 0" "h b = Some r" "reg_path nr_next h (nr_next r) as q"
    by (auto split: option.splits)
  let ?h = "h(b \<mapsto> r\<lparr>nr_done := unset_bit i (nr_done r)\<rparr>)"
  have nb: "b \<notin> set as" using Cons.prems by simp
  have "reg_path nr_next ?h (nr_next r) as q" using r(4) reg_path_upd_other [OF nb] by blast
  then have "clear_done i ?h (nr_next r) = None"
    by (rule Cons.IH) (use Cons.prems in auto)
  then show ?case by (subst clear_done.simps) (simp add: r)
qed

lemma free_list_all:
  assumes "nreg_list h p ps"
  shows "free_list h p = Some (\<lambda>a. if a \<in> set ps then None else h a)"
  using assms
proof (induction ps arbitrary: p h)
  case Nil
  then show ?case by (subst free_list.simps) simp
next
  case (Cons b as)
  then obtain r where r: "p = b" "b \<noteq> 0" "h b = Some r" "nreg_list h (nr_next r) as"
    by (auto split: option.splits)
  have nb: "b \<notin> set as" using reg_list_distinct [OF Cons.prems] by simp
  have "nreg_list (h(b := None)) (nr_next r) as" using r(4) reg_path_upd_other [OF nb] by blast
  then have "free_list (h(b := None)) (nr_next r) = Some (\<lambda>a. if a \<in> set as then None else (h(b := None)) a)"
    by (rule Cons.IH)
  also have "(\<lambda>a. if a \<in> set as then None else (h(b := None)) a) = (\<lambda>a. if a \<in> set (b # as) then None else h a)"
    by auto
  finally have "free_list (h(b := None)) (nr_next r) = Some (\<lambda>a. if a \<in> set (b # as) then None else h a)" .
  then show ?case using r by (subst free_list.simps) (simp del: fun_upd_apply)
qed

section \<open>The list the state represents\<close>

definition notify_ok :: "notify \<Rightarrow> u64 list \<Rightarrow> bool" where
  "notify_ok s ps \<longleftrightarrow> nreg_list (nt_heap s) (nt_head s) ps \<and>
     distinct (map (nreg_key (nt_heap s)) ps)"

definition notify_regs :: "notify \<Rightarrow> u64 list \<Rightarrow> (u64 \<times> u64) list" where
  "notify_regs s ps = map (nreg_key (nt_heap s)) ps"

definition fresh_alloc :: "((u64 \<rightharpoonup> nreg) \<Rightarrow> u64 option) \<Rightarrow> bool" where
  \<comment> \<open>what the code relies on of the allocator: not NULL, and not in use\<close>
  "fresh_alloc alloc \<longleftrightarrow> (\<forall>h p. alloc h = Some p \<longrightarrow> p \<noteq> 0 \<and> h p = None)"

lemma nreg_key_cong: "h' p = h p \<Longrightarrow> nreg_key h' p = nreg_key h p"
  by (simp add: nreg_key_def)

lemma notify_ok_unique: "notify_ok s ps \<Longrightarrow> notify_ok s qs \<Longrightarrow> ps = qs"
  using reg_list_unique unfolding notify_ok_def by blast

lemma split_at_key:
  assumes "notify_ok s ps" "k \<in> set (notify_regs s ps)"
  obtains as a bs where "ps = as @ a # bs" "nreg_key (nt_heap s) a = k"
    "k \<notin> nreg_key (nt_heap s) ` set as" "k \<notin> nreg_key (nt_heap s) ` set bs" "a \<noteq> 0"
    "a \<notin> set as" "a \<notin> set bs" "distinct as"
    "reg_path nr_next (nt_heap s) (nt_head s) (as @ [a]) (nr_next (the (nt_heap s a)))"
    "nreg_list (nt_heap s) (nr_next (the (nt_heap s a))) bs"
proof -
  let ?h = "nt_heap s"
  from assms(2) obtain a where a: "a \<in> set ps" "nreg_key ?h a = k" by (auto simp: notify_regs_def)
  then obtain as bs where ps: "ps = as @ a # bs" by (auto simp: in_set_conv_decomp)
  have l: "nreg_list ?h (nt_head s) ps" and d: "distinct (map (nreg_key ?h) ps)"
    using assms(1) by (simp_all add: notify_ok_def)
  have "k \<notin> nreg_key ?h ` set as" "k \<notin> nreg_key ?h ` set bs" "distinct ps"
    using d a(2) reg_list_distinct [OF l] by (auto simp: ps)
  moreover have "a \<noteq> 0" using reg_path_nonzero [OF l] ps by auto
  moreover have "reg_path nr_next ?h (nt_head s) (as @ [a]) (nr_next (the (?h a)))"
      "nreg_list ?h (nr_next (the (?h a))) bs"
    using l by (auto simp: ps reg_path_append split: option.splits)
  ultimately show thesis using that ps a(2) by auto
qed

text \<open>Appending a fresh record.\<close>

lemma nreg_list_snoc:
  assumes "nreg_list h q (as @ [a])" "p \<noteq> 0" "h p = None" "nr_next r = 0"
    "h' = h(p \<mapsto> r, a \<mapsto> (the (h a))\<lparr>nr_next := p\<rparr>)"
  shows "nreg_list h' q (as @ [a, p])"
proof -
  have d: "distinct (as @ [a])" by (rule reg_list_distinct [OF assms(1)])
  have np: "p \<notin> set (as @ [a])" by (rule reg_path_fresh [OF assms(1,3)])
  have path: "reg_path nr_next h q as a" and a: "a \<noteq> 0"
    using assms(1) by (auto simp: reg_path_append split: option.splits)
  have "reg_path nr_next h' q as a \<longleftrightarrow> reg_path nr_next h q as a"
    using d np by (intro reg_path_cong) (auto simp: assms(5))
  with path have "reg_path nr_next h' q as a" by simp
  moreover have "reg_path nr_next h' a [a, p] 0"
    using a np assms(2,4) by (simp add: assms(5))
  ultimately show ?thesis by (auto simp: reg_path_append)
qed

lemma register_new:
  assumes ok: "notify_ok s ps" and new: "(cb, user) \<notin> set (notify_regs s ps)"
    and p: "p \<noteq> 0" "nt_heap s p = None"
  defines "r \<equiv> \<lparr>nr_next = 0, nr_cb = cb, nr_user = user, nr_done = - 1\<rparr>"
  obtains s' where
    "register_insert cb user p (s\<lparr>nt_heap := (nt_heap s)(p \<mapsto> r)\<rparr>) = Some (0, s')"
    "notify_ok s' (ps @ [p])" "notify_regs s' (ps @ [p]) = notify_regs s ps @ [(cb, user)]"
    "nt_gen s' = nt_gen s + 1" "nt_lock s' = nt_lock s" "nt_calls s' = nt_calls s"
    "\<And>a. a \<noteq> p \<Longrightarrow> map_option nr_done (nt_heap s' a) = map_option nr_done (nt_heap s a)"
    "\<And>a. a \<noteq> p \<Longrightarrow> nreg_key (nt_heap s' ) a = nreg_key (nt_heap s) a"
    "map_option nr_done (nt_heap s' p) = Some (- 1)" "nreg_key (nt_heap s') p = (cb, user)"
proof -
  let ?h = "nt_heap s"
  have l: "nreg_list ?h (nt_head s) ps" and d: "distinct (notify_regs s ps)"
    using ok by (simp_all add: notify_ok_def notify_regs_def)
  have np: "p \<notin> set ps" by (rule reg_path_fresh [OF l p(2)])
  define hr where "hr = ?h(p \<mapsto> r)"
  have hr: "nreg_key hr a = nreg_key ?h a" if "a \<in> set ps" for a
    using that np by (auto simp: hr_def nreg_key_def)
  show thesis
  proof (cases ps rule: rev_cases)
    case Nil
    let ?s = "s\<lparr>nt_heap := hr, nt_head := p, nt_gen := nt_gen s + 1\<rparr>"
    have "nt_head s = 0" using l Nil by simp
    then have run: "register_insert cb user p (s\<lparr>nt_heap := ?h(p \<mapsto> r)\<rparr>) = Some (0, ?s)"
      by (simp add: register_insert_def hr_def)
    show thesis
      by (rule that [OF run])
        (use p Nil in \<open>auto simp: notify_ok_def notify_regs_def hr_def r_def nreg_key_def\<close>)
  next
    case (snoc as a)
    define h' where "h' = hr(a \<mapsto> (the (hr a))\<lparr>nr_next := p\<rparr>)"
    let ?s = "s\<lparr>nt_heap := h', nt_gen := nt_gen s + 1\<rparr>"
    have ap: "a \<noteq> p" using np snoc by auto
    have lr: "nreg_list hr (nt_head s) (as @ [a])"
      using l np unfolding hr_def snoc by (simp only: reg_path_upd_other not_False_eq_True)
    have nm: "(cb, user) \<notin> nreg_key hr ` set (as @ [a])"
      using new hr by (force simp: notify_regs_def snoc)
    have h0: "nt_head s \<noteq> 0" using l snoc by (cases as) auto
    have run: "register_insert cb user p (s\<lparr>nt_heap := ?h(p \<mapsto> r)\<rparr>) = Some (0, ?s)"
      using insert_walk_end [OF lr nm, of p] h0 by (simp add: register_insert_def h'_def flip: hr_def)
    have h'_eq: "h' = ?h(p \<mapsto> r, a \<mapsto> (the (?h a))\<lparr>nr_next := p\<rparr>)"
      using ap by (simp add: h'_def hr_def)
    have l': "nreg_list h' (nt_head s) (ps @ [p])"
      using nreg_list_snoc [OF _ p _ h'_eq] l snoc by (simp add: r_def)
    have a_ok: "\<exists>ra. ?h a = Some ra" using reg_path_dom [OF l, of a] snoc by simp
    have key: "nreg_key h' b = (if b = p then (cb, user) else nreg_key ?h b)" for b
      using ap by (auto simp: h'_eq nreg_key_def r_def)
    have regs: "map (nreg_key h') (ps @ [p]) = notify_regs s ps @ [(cb, user)]"
      using np by (auto simp: notify_regs_def key)
    show thesis
    proof (rule that [OF run])
      show "notify_ok ?s (ps @ [p])"
        using l' d new unfolding notify_ok_def by (simp add: regs del: map_append)
      show "notify_regs ?s (ps @ [p]) = notify_regs s ps @ [(cb, user)]"
        using regs by (simp add: notify_regs_def)
    qed (use ap a_ok key in \<open>auto simp: h'_eq r_def\<close>)
  qed
qed

text \<open>Unlinking and freeing a record.\<close>

lemma nreg_list_unlink_head:
  "nreg_list h q (a # bs) \<Longrightarrow> nreg_list (h(a := None)) (nr_next (the (h a))) bs"
  using reg_list_distinct [of nr_next h q "a # bs"] by (auto split: option.splits)

lemma nreg_list_unlink:
  assumes "nreg_list h q (as @ b # a # bs)"
    and "h' = h(b \<mapsto> (the (h b))\<lparr>nr_next := nr_next (the (h a))\<rparr>, a := None)"
  shows "nreg_list h' q (as @ b # bs)"
proof -
  have d: "distinct (as @ b # a # bs)" by (rule reg_list_distinct [OF assms(1)])
  have path: "reg_path nr_next h q as b" and b: "b \<noteq> 0" and rest: "nreg_list h (nr_next (the (h a))) bs"
    using assms(1) by (auto simp: reg_path_append split: option.splits)
  have "reg_path nr_next h' q as b \<longleftrightarrow> reg_path nr_next h q as b"
    using d by (intro reg_path_cong) (auto simp: assms(2))
  moreover have "nreg_list h' (nr_next (the (h a))) bs \<longleftrightarrow> nreg_list h (nr_next (the (h a))) bs"
    using d by (intro reg_path_cong) (auto simp: assms(2))
  ultimately show ?thesis
    using path rest b d by (simp add: reg_path_append assms(2))
qed

lemma deregister_found:
  assumes ok: "notify_ok s ps" and k: "(cb, user) \<in> set (notify_regs s ps)"
    and valid: "RT_VALID_PTR cb" "nt_lock s"
  obtains s' as a bs where "notify_deregister cb user s = Some (VINF_SUCCESS, s')"
    "ps = as @ a # bs" "nreg_key (nt_heap s) a = (cb, user)"
    "notify_ok s' (as @ bs)" "notify_regs s' (as @ bs) = remove1 (cb, user) (notify_regs s ps)"
    "nt_gen s' = nt_gen s + 1" "nt_lock s' = nt_lock s" "nt_calls s' = nt_calls s"
    "\<And>b. b \<noteq> a \<Longrightarrow> map_option nr_done (nt_heap s' b) = map_option nr_done (nt_heap s b)"
    "\<And>b. b \<noteq> a \<Longrightarrow> nreg_key (nt_heap s') b = nreg_key (nt_heap s) b"
proof -
  note result = that
  let ?h = "nt_heap s"
  obtain as a bs where ps: "ps = as @ a # bs" "nreg_key ?h a = (cb, user)"
      "(cb, user) \<notin> nreg_key ?h ` set as" "a \<noteq> 0" "a \<notin> set as" "a \<notin> set bs"
      "reg_path nr_next ?h (nt_head s) (as @ [a]) (nr_next (the (?h a)))"
    by (rule split_at_key [OF ok k])
  have l: "nreg_list ?h (nt_head s) ps" and dk: "distinct (map (nreg_key ?h) ps)"
    using ok by (simp_all add: notify_ok_def)
  have find: "find_prev cb user ?h 0 (nt_head s) = Some (last (0 # as), a)"
    by (rule find_prev_found [OF ps(7,2,3)])
  obtain r where r: "?h a = Some r" using reg_path_dom [OF l, of a] ps(1) by auto
  have finish: thesis
    if run: "notify_unlink (last (0 # as)) a s = Some s1"
      and s1: "nt_gen s1 = nt_gen s + 1" "nt_lock s1 = nt_lock s" "nt_calls s1 = nt_calls s"
        "nreg_list ((nt_heap s1)(a := None)) (nt_head s1) (as @ bs)"
      and key: "\<And>b. b \<noteq> a \<Longrightarrow> nreg_key (nt_heap s1) b = nreg_key ?h b"
      and dn: "\<And>b. b \<noteq> a \<Longrightarrow> map_option nr_done (nt_heap s1 b) = map_option nr_done (?h b)" for s1
  proof -
    let ?s = "notify_free a s1"
    have key': "nreg_key (nt_heap ?s) b = nreg_key ?h b" if "b \<noteq> a" for b
      using that key [OF that] by (simp add: notify_free_def nreg_key_def)
    have regs: "map (nreg_key (nt_heap ?s)) (as @ bs) = map (nreg_key ?h) (as @ bs)"
      by (rule map_cong [OF refl], rule key') (use ps(5,6) in auto)
    have "notify_deregister cb user s = Some (VINF_SUCCESS, ?s)"
      using valid find ps(4) run by (simp add: notify_deregister_def)
    then show thesis
    proof (rule result [OF _ ps(1,2)])
      show "notify_ok ?s (as @ bs)"
      proof -
        have "distinct (map (nreg_key ?h) (as @ bs))" using dk by (auto simp: ps(1))
        then show ?thesis
          unfolding notify_ok_def regs using s1(4) by (simp add: notify_free_def)
      qed
      show "notify_regs ?s (as @ bs) = remove1 (cb, user) (notify_regs s ps)"
        using regs ps(1-3) by (simp add: notify_regs_def remove1_append)
    qed (use s1 key' dn in \<open>auto simp: notify_free_def\<close>)
  qed
  show thesis
  proof (cases as rule: rev_cases)
    case Nil
    let ?s1 = "s\<lparr>nt_head := nr_next r, nt_gen := nt_gen s + 1\<rparr>"
    have "notify_unlink 0 a s = Some ?s1" by (simp add: notify_unlink_def r)
    moreover have "nreg_list (?h(a := None)) (nr_next r) bs"
      using nreg_list_unlink_head [of ?h "nt_head s" a bs] l ps(1) Nil r by simp
    ultimately show thesis using finish [of ?s1] Nil by simp
  next
    case (snoc cs b)
    obtain rb where rb: "?h b = Some rb" using reg_path_dom [OF l, of b] ps(1) snoc by auto
    have b: "b \<noteq> 0" "b \<noteq> a" using reg_path_nonzero [OF l] ps(1,5) snoc by auto
    let ?h1 = "?h(b \<mapsto> rb\<lparr>nr_next := nr_next r\<rparr>)"
    let ?s1 = "s\<lparr>nt_heap := ?h1, nt_gen := nt_gen s + 1\<rparr>"
    have "notify_unlink (last (0 # as)) a s = Some ?s1" by (simp add: notify_unlink_def r snoc rb b)
    moreover have "nreg_list (?h1(a := None)) (nt_head s) (as @ bs)"
      using nreg_list_unlink [of ?h "nt_head s" cs b a bs] l ps(1) snoc r rb by simp
    ultimately show thesis
      by (intro finish [of ?s1]) (auto simp: nreg_key_def rb)
  qed
qed

lemma deregister_missing:
  assumes "notify_ok s ps" "(cb, user) \<notin> set (notify_regs s ps)" "RT_VALID_PTR cb" "nt_lock s"
  shows "notify_deregister cb user s = Some (VERR_NOT_FOUND, s)"
  using assms find_prev_none [of "nt_heap s" "nt_head s" ps cb user 0]
  by (auto simp: notify_deregister_def notify_ok_def notify_regs_def)

lemma register_duplicate:
  assumes "notify_ok s ps" "(cb, user) \<in> set (notify_regs s ps)" "RT_VALID_PTR cb" "nt_lock s"
  shows "notify_register alloc mid cb user s = Some (VERR_ALREADY_EXISTS, s)"
proof -
  obtain as a bs where a: "nreg_key (nt_heap s) a = (cb, user)" "a \<noteq> 0"
      "(cb, user) \<notin> nreg_key (nt_heap s) ` set as"
      "reg_path nr_next (nt_heap s) (nt_head s) (as @ [a]) (nr_next (the (nt_heap s a)))"
    by (rule split_at_key [OF assms(1,2)])
  then show ?thesis
    using find_reg_found [OF a(4,1,3)] assms(3,4) by (simp add: notify_register_def)
qed

section \<open>The registry contract\<close>

definition notify_represents :: "notify \<Rightarrow> (u64 \<times> u64) list \<Rightarrow> bool" where
  "notify_represents s ks \<longleftrightarrow> nt_lock s \<and> (\<exists>ps. notify_ok s ps \<and> ks = notify_regs s ps)"

lemma notify_represents_distinct: "notify_represents s ks \<Longrightarrow> distinct ks"
  by (auto simp: notify_represents_def notify_ok_def notify_regs_def)

lemma register_alone:
  assumes "notify_ok s ps" "nt_lock s" "(cb, user) \<notin> set (notify_regs s ps)" "RT_VALID_PTR cb"
    and "alloc (nt_heap s) = Some p" "fresh_alloc alloc"
  obtains s' where "notify_register alloc id cb user s = Some (VINF_SUCCESS, s')"
    "notify_ok s' (ps @ [p])" "notify_regs s' (ps @ [p]) = notify_regs s ps @ [(cb, user)]"
    "nt_gen s' = nt_gen s + 1" "nt_lock s' = nt_lock s" "nt_calls s' = nt_calls s"
    "\<And>a. a \<noteq> p \<Longrightarrow> map_option nr_done (nt_heap s' a) = map_option nr_done (nt_heap s a)"
    "\<And>a. a \<noteq> p \<Longrightarrow> nreg_key (nt_heap s') a = nreg_key (nt_heap s) a"
    "map_option nr_done (nt_heap s' p) = Some (- 1)" "nreg_key (nt_heap s') p = (cb, user)"
proof -
  note result = that
  have p: "p \<noteq> 0" "nt_heap s p = None" using assms(5,6) by (auto simp: fresh_alloc_def)
  have find: "find_reg cb user (nt_heap s) (nt_head s) = Some 0"
    using assms(1,3) by (intro find_reg_none) (auto simp: notify_ok_def notify_regs_def)
  show thesis
    by (rule register_new [OF assms(1,3) p], rule result)
      (simp_all add: notify_register_def assms find)
qed

lemma notify_registry:
  assumes "fresh_alloc alloc"
  shows "registry notify_represents (\<lambda>(cb, user). RT_VALID_PTR cb)
    (\<lambda>(cb, user). notify_register alloc id cb user) (\<lambda>(cb, user). notify_deregister cb user)"
proof
  fix s ks and k :: "u64 \<times> u64"
  assume rep: "notify_represents s ks" and valid: "case k of (cb, user) \<Rightarrow> RT_VALID_PTR cb"
  obtain cb user where k: "k = (cb, user)" "RT_VALID_PTR cb" using valid by (cases k) auto
  obtain ps where ps: "notify_ok s ps" "ks = notify_regs s ps" "nt_lock s"
    using rep by (auto simp: notify_represents_def)
  have find: "(cb, user) \<notin> set ks \<Longrightarrow> find_reg cb user (nt_heap s) (nt_head s) = Some 0"
    using ps by (intro find_reg_none) (auto simp: notify_ok_def notify_regs_def)
  show "\<exists>rc s' ks'. (case k of (cb, user) \<Rightarrow> notify_register alloc id cb user) s = Some (rc, s') \<and>
      notify_represents s' ks' \<and> registry_out (Add k) ks rc ks'"
  proof (cases "(cb, user) \<in> set ks")
    case True
    then show ?thesis
      using register_duplicate [OF ps(1) _ k(2) ps(3)] ps rep k(1) by auto
  next
    case False
    show ?thesis
    proof (cases "alloc (nt_heap s)")
      case None
      then have "notify_register alloc id cb user s = Some (VERR_NO_MEMORY, s)"
        using find [OF False] k(2) ps(3) by (simp add: notify_register_def)
      with False rep k(1) show ?thesis by auto
    next
      case (Some p)
      obtain s' where "notify_register alloc id cb user s = Some (VINF_SUCCESS, s')"
          "notify_ok s' (ps @ [p])" "notify_regs s' (ps @ [p]) = ks @ [(cb, user)]" "nt_lock s'"
        using register_alone [OF ps(1,3) _ k(2) Some assms, of user] False ps(2,3) by metis
      with False k(1) show ?thesis by (auto simp: notify_represents_def)
    qed
  qed
  show "\<exists>rc s' ks'. (case k of (cb, user) \<Rightarrow> notify_deregister cb user) s = Some (rc, s') \<and>
      notify_represents s' ks' \<and> registry_out (Remove k) ks rc ks'"
  proof (cases "(cb, user) \<in> set ks")
    case True
    then obtain s' qs where "notify_deregister cb user s = Some (VINF_SUCCESS, s')"
        "notify_ok s' qs" "notify_regs s' qs = remove1 (cb, user) ks" "nt_lock s'"
      using deregister_found [OF ps(1) _ k(2) ps(3), of user] ps(2,3) by metis
    with True k(1) show ?thesis by (auto simp: notify_represents_def)
  next
    case False
    then show ?thesis
      using deregister_missing [OF ps(1) _ k(2) ps(3)] ps rep k(1) by auto
  qed
qed

end
