(* ===== verification/NotifyEvents.thy ===== *)
theory NotifyEvents
  imports Notification
begin

text \<open>
  The event walk of \<open>Notification\<close> under interference: what the rest of the system may do to the
  list while a callback runs is the contract \<open>notify_world\<close>; under it the walk ends, calls every
  registration that stays exactly once, and leaves none undone. Registrations and deregistrations
  by the code itself satisfy the contract.
\<close>

section \<open>Done bits\<close>

definition rec_done :: "nat \<Rightarrow> notify \<Rightarrow> u64 \<Rightarrow> bool" where
  "rec_done i s p \<longleftrightarrow> bit (nr_done (the (nt_heap s p))) i"

definition undone :: "nat \<Rightarrow> notify \<Rightarrow> u64 list \<Rightarrow> u64 set" where
  "undone i s ps = {p \<in> set ps. \<not> rec_done i s p}"

lemma finite_undone [simp]: "finite (undone i s ps)"
  by (simp add: undone_def)

lemma call_record_ok:
  assumes "notify_ok s ps" "p \<in> set ps" "nt_heap s p = Some r"
  shows "notify_ok (call_record i p r s) ps"
proof -
  let ?s = "call_record i p r s"
  have "nreg_list (nt_heap ?s) (nt_head s) ps \<longleftrightarrow> nreg_list (nt_heap s) (nt_head s) ps"
    by (rule reg_path_cong) (simp add: call_record_def assms(3))
  moreover have "nreg_key (nt_heap ?s) = nreg_key (nt_heap s)"
    by (auto simp: fun_eq_iff nreg_key_def call_record_def assms(3))
  ultimately show ?thesis
    using assms(1) by (simp add: notify_ok_def) (simp add: call_record_def)
qed

lemma call_record_fields [simp]:
  "nt_lock (call_record i p r s) = nt_lock s" "nt_gen (call_record i p r s) = nt_gen s"
  "nt_calls (call_record i p r s) = nt_calls s @ [(nr_cb r, nr_user r)]"
  by (simp_all add: call_record_def)

lemma call_record_done:
  "i < 64 \<Longrightarrow> rec_done i (call_record i p r s) q \<longleftrightarrow> q = p \<or> rec_done i s q"
  by (simp add: rec_done_def call_record_def bit_set_bit_iff)

lemma call_record_key:
  "nt_heap s p = Some r \<Longrightarrow> nreg_key (nt_heap (call_record i p r s)) q = nreg_key (nt_heap s) q"
  by (simp add: nreg_key_def call_record_def)

lemma nreg_list_next:
  assumes "nreg_list h p ps" "nreg_list h' q ps"
  shows "p = q"
  using assms by (cases ps) auto

section \<open>The contract of the rest of the system\<close>

locale notify_world =
  fixes env :: "u64 \<times> u64 \<Rightarrow> notify \<Rightarrow> notify" and i :: nat
  assumes bit_bound: "i < 64"
    and env_ok: "notify_ok s ps \<Longrightarrow> nt_lock s \<Longrightarrow>
      \<exists>ps'. notify_ok (env x s) ps' \<and> nt_lock (env x s) \<and> nt_calls (env x s) = nt_calls s"
    and env_gen: "notify_ok s ps \<Longrightarrow> nt_lock s \<Longrightarrow> nt_gen (env x s) = nt_gen s \<Longrightarrow>
      notify_ok (env x s) ps"
    and env_undone: "notify_ok s ps \<Longrightarrow> nt_lock s \<Longrightarrow> notify_ok (env x s) ps' \<Longrightarrow>
      undone i (env x s) ps' \<subseteq> undone i s ps"
begin

text \<open>
  One induction for everything the walk does: it ends, with the list well formed and nothing
  undone, and keeps every invariant of the call step.
\<close>

lemma walk_returns:
  assumes step: "\<And>s ps p r. I s \<Longrightarrow> notify_ok s ps \<Longrightarrow> nt_lock s \<Longrightarrow> p \<in> set ps \<Longrightarrow>
      nt_heap s p = Some r \<Longrightarrow> \<not> rec_done i s p \<Longrightarrow>
      I (env (nr_cb r, nr_user r) (call_record i p r s))"
    and start: "I s" "notify_ok s (pre @ suf)" "nt_lock s" "nreg_list (nt_heap s) p suf"
      "\<forall>q\<in>set pre. rec_done i s q" "gen = nt_gen s"
  shows "\<exists>s' ps'. event_walk env i gen p s = Some (True, s') \<and> notify_ok s' ps' \<and> nt_lock s' \<and>
    undone i s' ps' = {} \<and> I s'"
  using start
proof (induction "card (undone i s (pre @ suf))" arbitrary: s pre suf p gen rule: less_induct)
  case less
  note outer = less.hyps
  show ?case
    using less.prems outer
  proof (induction suf arbitrary: pre p)
    case Nil
    then have "event_walk env i gen p s = Some (True, s)"
      by (subst event_walk.simps) simp
    moreover have "undone i s (pre @ []) = {}" using Nil.prems(5) by (auto simp: undone_def)
    ultimately show ?case using Nil.prems by blast
  next
    case (Cons a suf)
    let ?ps = "pre @ a # suf"
    obtain r where r: "p = a" "a \<noteq> 0" "nt_heap s a = Some r" "nreg_list (nt_heap s) (nr_next r) suf"
      using Cons.prems(4) by (auto split: option.splits)
    show ?case
    proof (cases "rec_done i s a")
      case True
      then have eq: "event_walk env i gen p s = event_walk env i gen (nr_next r) s"
        by (subst event_walk.simps) (simp add: r rec_done_def)
      show ?thesis
        unfolding eq
        by (rule Cons.IH [of "pre @ [a]" "nr_next r"])
          (use Cons.prems True r(4) in \<open>simp_all\<close>)
    next
      case False
      let ?s1 = "call_record i a r s"
      let ?k = "(nr_cb r, nr_user r)"
      let ?s2 = "env ?k ?s1"
      have ok1: "notify_ok ?s1 ?ps" by (rule call_record_ok [OF Cons.prems(2) _ r(3)]) simp
      have lock1: "nt_lock ?s1" using Cons.prems(3) by simp
      obtain ps' where ok2: "notify_ok ?s2 ps'" and lock2: "nt_lock ?s2"
        using env_ok [OF ok1 lock1, of ?k] by auto
      have un: "undone i ?s2 ps' \<subseteq> undone i ?s1 ?ps" by (rule env_undone [OF ok1 lock1 ok2])
      have un1: "undone i ?s1 ?ps = undone i s ?ps - {a}"
        by (auto simp: undone_def call_record_done bit_bound)
      moreover have "a \<in> undone i s ?ps" using False by (simp add: undone_def)
      ultimately have smaller: "card (undone i ?s2 ps') < card (undone i s ?ps)"
        using un by (intro psubset_card_mono) auto
      have I2: "I ?s2" by (rule step [OF Cons.prems(1,2,3) _ r(3) False]) simp
      have walk: "event_walk env i gen p s =
          (if nt_gen ?s2 \<noteq> gen then
             (if nr_next r = 0 then Some (True, ?s2)
              else event_walk env i (nt_gen ?s2) (nt_head ?s2) ?s2)
           else event_walk env i gen (nr_next r) ?s2)"
        using False lock2 by (subst event_walk.simps) (simp add: r rec_done_def Let_def)
      consider (restart) "nt_gen ?s2 \<noteq> gen" "nr_next r \<noteq> 0" | (last) "nt_gen ?s2 \<noteq> gen" "nr_next r = 0"
        | (go_on) "nt_gen ?s2 = gen" by blast
      then show ?thesis
      proof cases
        case restart
        have "nreg_list (nt_heap ?s2) (nt_head ?s2) ps'" using ok2 by (simp add: notify_ok_def)
        then have "\<exists>s' ps'. event_walk env i (nt_gen ?s2) (nt_head ?s2) ?s2 = Some (True, s') \<and>
            notify_ok s' ps' \<and> nt_lock s' \<and> undone i s' ps' = {} \<and> I s'"
          using Cons.prems(7) [of ?s2 "[]" ps'] smaller I2 ok2 lock2 by simp
        with restart show ?thesis by (simp add: walk)
      next
        case last
        then have "suf = []" using r(4) by simp
        then have "undone i ?s1 ?ps = {}"
          using Cons.prems(5) by (auto simp: undone_def call_record_done bit_bound)
        with un last ok2 lock2 I2 show ?thesis by (auto simp: walk)
      next
        case go_on
        have ok3: "notify_ok ?s2 ?ps"
          using env_gen [OF ok1 lock1, of ?k] go_on Cons.prems(6) by simp
        then have ps': "ps' = ?ps" using ok2 notify_ok_unique by blast
        have "\<forall>q\<in>set (pre @ [a]). rec_done i ?s1 q"
          using Cons.prems(5) by (auto simp: call_record_done bit_bound)
        then have marked: "\<forall>q\<in>set (pre @ [a]). rec_done i ?s2 q"
          using un ps' by (auto simp: undone_def)
        have "\<exists>q. nreg_list (nt_heap ?s2) q suf"
          using ok3 by (auto simp: notify_ok_def reg_path_append split: option.splits)
        then have "nreg_list (nt_heap ?s2) (nr_next r) suf"
          using nreg_list_next [OF r(4)] by blast
        then have "\<exists>s' ps'. event_walk env i gen (nr_next r) ?s2 = Some (True, s') \<and>
            notify_ok s' ps' \<and> nt_lock s' \<and> undone i s' ps' = {} \<and> I s'"
          using Cons.prems(7) [of ?s2 "pre @ [a]" suf] smaller I2 ok3 lock2 marked go_on ps' by simp
        with go_on show ?thesis by (simp add: walk)
      qed
    qed
  qed
qed

end

section \<open>A registration that stays\<close>

lemma clear_heap_ok:
  fixes i :: nat
  assumes "notify_ok s ps"
  defines "s' \<equiv> s\<lparr>nt_heap := clear_heap i (set ps) (nt_heap s)\<rparr>"
  shows "notify_ok s' ps" "p \<in> set ps \<Longrightarrow> \<not> rec_done i s' p"
    "nreg_key (nt_heap s') = nreg_key (nt_heap s)"
proof -
  have key: "nreg_key (nt_heap s') = nreg_key (nt_heap s)"
  proof
    fix q
    show "nreg_key (nt_heap s') q = nreg_key (nt_heap s) q"
      by (cases "nt_heap s q") (simp_all add: s'_def nreg_key_def clear_heap_def)
  qed
  have "reg_path nr_next (clear_heap i (set ps) (nt_heap s)) (nt_head s) ps 0 \<longleftrightarrow>
      reg_path nr_next (nt_heap s) (nt_head s) ps 0"
    by (rule reg_path_cong) (auto simp: clear_heap_def option.map_comp comp_def)
  then show "notify_ok s' ps" "nreg_key (nt_heap s') = nreg_key (nt_heap s)"
    using assms(1) key by (simp_all add: notify_ok_def s'_def)
  show "\<not> rec_done i s' p" if "p \<in> set ps"
    using that reg_path_dom [of nr_next "nt_heap s" "nt_head s" ps 0 p] assms(1)
    by (auto simp: notify_ok_def rec_done_def s'_def clear_heap_def bit_unset_bit_iff)
qed

definition once :: "nat \<Rightarrow> nat \<Rightarrow> u64 \<times> u64 \<Rightarrow> notify \<Rightarrow> bool" where
  \<comment> \<open>\<open>k\<close> is registered, and has been called once since there were \<open>c\<close> calls if it is marked done\<close>
  "once i c k s \<longleftrightarrow> (\<exists>ps p. notify_ok s ps \<and> p \<in> set ps \<and> nreg_key (nt_heap s) p = k \<and>
     count_list (nt_calls s) k = c + (if rec_done i s p then 1 else 0))"

locale stable_world = notify_world +
  fixes k :: "u64 \<times> u64"
  assumes env_stable: "notify_ok s ps \<Longrightarrow> nt_lock s \<Longrightarrow> p \<in> set ps \<Longrightarrow> nreg_key (nt_heap s) p = k \<Longrightarrow>
      notify_ok (env x s) ps' \<Longrightarrow>
      p \<in> set ps' \<and> nreg_key (nt_heap (env x s)) p = k \<and> (rec_done i (env x s) p \<longleftrightarrow> rec_done i s p)"
begin

lemma once_step:
  assumes inv: "once i c k s" and ok: "notify_ok s ps" "nt_lock s"
    and p: "p \<in> set ps" "nt_heap s p = Some r" "\<not> rec_done i s p"
  shows "once i c k (env (nr_cb r, nr_user r) (call_record i p r s))"
proof -
  let ?s1 = "call_record i p r s" and ?x = "(nr_cb r, nr_user r)"
  obtain p0 where p0: "p0 \<in> set ps" "nreg_key (nt_heap s) p0 = k"
      "count_list (nt_calls s) k = c + (if rec_done i s p0 then 1 else 0)"
    using inv notify_ok_unique [OF ok(1)] unfolding once_def by metis
  have ok1: "notify_ok ?s1 ps" by (rule call_record_ok [OF ok(1) p(1,2)])
  have lock1: "nt_lock ?s1" using ok(2) by simp
  obtain ps' where ok2: "notify_ok (env ?x ?s1) ps'" and calls: "nt_calls (env ?x ?s1) = nt_calls ?s1"
    using env_ok [OF ok1 lock1] by metis
  have k1: "nreg_key (nt_heap ?s1) p0 = k" using p0(2) by (simp add: call_record_key p(2))
  have same: "?x = k \<longleftrightarrow> p = p0"
  proof
    assume "?x = k"
    then have "nreg_key (nt_heap s) p = nreg_key (nt_heap s) p0"
      using p(2) p0(2) by (simp add: nreg_key_def)
    then show "p = p0"
      using ok(1) p(1) p0(1) by (auto simp: notify_ok_def distinct_map dest: inj_onD)
  next
    assume "p = p0"
    then show "?x = k" using p(2) p0(2) by (simp add: nreg_key_def)
  qed
  have after: "p0 \<in> set ps'" "nreg_key (nt_heap (env ?x ?s1)) p0 = k"
      "rec_done i (env ?x ?s1) p0 \<longleftrightarrow> rec_done i ?s1 p0"
    using env_stable [OF ok1 lock1 p0(1) k1 ok2] by simp_all
  moreover have "count_list (nt_calls (env ?x ?s1)) k =
      c + (if rec_done i (env ?x ?s1) p0 then 1 else 0)"
    using p0(3) p(3) same after(3) by (auto simp: calls call_record_done bit_bound)
  ultimately show ?thesis
    using ok2 unfolding once_def by blast
qed

lemma event_once:
  assumes ok: "notify_ok s ps" "nt_lock s" and k: "k \<in> set (notify_regs s ps)"
    and i: "i = unat (nt_bit s + 1) mod 64"
  shows "\<exists>s' ps'. notify_event env s = Some (True, s') \<and> notify_ok s' ps' \<and> nt_lock s' \<and>
    k \<in> set (notify_regs s' ps') \<and> undone i s' ps' = {} \<and>
    count_list (nt_calls s') k = Suc (count_list (nt_calls s) k)"
proof -
  let ?sb = "s\<lparr>nt_bit := nt_bit s + 1\<rparr>"
  have okb: "notify_ok ?sb ps" using ok(1) by (simp add: notify_ok_def)
  let ?s0 = "?sb\<lparr>nt_heap := clear_heap i (set ps) (nt_heap ?sb)\<rparr>"
  have s0: "notify_ok ?s0 ps" "nt_lock ?s0" "nt_calls ?s0 = nt_calls s"
      "nreg_key (nt_heap ?s0) = nreg_key (nt_heap s)"
    using clear_heap_ok [OF okb] ok(2) by simp_all
  have clear: "clear_done i (nt_heap s) (nt_head s) = Some (nt_heap ?s0)"
    using clear_done_list [of "nt_heap s" "nt_head s" ps i] ok(1) by (simp add: notify_ok_def)
  obtain p0 where "p0 \<in> set ps" "nreg_key (nt_heap s) p0 = k" using k by (auto simp: notify_regs_def)
  moreover from this have "\<not> rec_done i ?s0 p0" by (intro clear_heap_ok(2) [OF okb]) simp
  ultimately have o0: "once i (count_list (nt_calls s) k) k ?s0"
    using s0 unfolding once_def by (intro exI [of _ ps] exI [of _ p0]) simp
  have l0: "nreg_list (nt_heap ?s0) (nt_head ?s0) ps" using s0(1) by (simp only: notify_ok_def)
  have "\<exists>s' ps'. event_walk env i (nt_gen ?s0) (nt_head ?s0) ?s0 = Some (True, s') \<and> notify_ok s' ps' \<and>
      nt_lock s' \<and> undone i s' ps' = {} \<and> once i (count_list (nt_calls s) k) k s'"
    by (rule walk_returns [where pre = "[]" and suf = ps, OF once_step o0])
      (simp_all only: append_Nil s0 l0 list.set ball_empty not_False_eq_True)
  then obtain s' ps' where s': "event_walk env i (nt_gen ?s0) (nt_head ?s0) ?s0 = Some (True, s')"
      "notify_ok s' ps'" "nt_lock s'" "undone i s' ps' = {}" "once i (count_list (nt_calls s) k) k s'"
    by blast
  have "notify_event env s = Some (True, s')"
    using s'(1) clear ok(2) i by (simp add: notify_event_def Let_def)
  moreover obtain p where p: "p \<in> set ps'" "nreg_key (nt_heap s') p = k"
      "count_list (nt_calls s') k = count_list (nt_calls s) k + (if rec_done i s' p then 1 else 0)"
    using s'(5) notify_ok_unique [OF s'(2)] unfolding once_def by metis
  moreover have "rec_done i s' p" using p(1) s'(4) by (auto simp: undone_def)
  moreover have "k \<in> set (notify_regs s' ps')" using p(1,2) by (auto simp: notify_regs_def)
  ultimately show ?thesis using s'(2-4) by simp blast
qed

end

section \<open>Registrations and deregistrations while callbacks run\<close>

text \<open>
  Whatever runs while callback number \<open>n\<close> does is a list of calls of the registration functions.
\<close>

abbreviation notify_add :: "((u64 \<rightharpoonup> nreg) \<Rightarrow> u64 option) \<Rightarrow> u64 \<times> u64 \<Rightarrow> notify \<Rightarrow> (int \<times> notify) option" where
  "notify_add alloc k \<equiv> notify_register alloc id (fst k) (snd k)"

abbreviation notify_del :: "u64 \<times> u64 \<Rightarrow> notify \<Rightarrow> (int \<times> notify) option" where
  "notify_del k \<equiv> notify_deregister (fst k) (snd k)"

definition ops_env ::
  "((u64 \<rightharpoonup> nreg) \<Rightarrow> u64 option) \<Rightarrow> (nat \<Rightarrow> (u64 \<times> u64) registry_op list) \<Rightarrow>
   u64 \<times> u64 \<Rightarrow> notify \<Rightarrow> notify" where
  "ops_env alloc sched x s =
     (case registry_run (notify_add alloc) notify_del (sched (length (nt_calls s))) s of
        None \<Rightarrow> s | Some (rcs, s') \<Rightarrow> s')"

fun valid_op :: "(u64 \<times> u64) registry_op \<Rightarrow> bool" where
  "valid_op (Add k) \<longleftrightarrow> RT_VALID_PTR (fst k)"
| "valid_op (Remove k) \<longleftrightarrow> RT_VALID_PTR (fst k)"

text \<open>What a call leaves behind: how the list, the generation and the done bits move.\<close>

definition op_effect :: "nat \<Rightarrow> notify \<Rightarrow> u64 list \<Rightarrow> notify \<Rightarrow> u64 list \<Rightarrow> bool" where
  "op_effect i s ps s' ps' \<longleftrightarrow> notify_ok s' ps' \<and> nt_lock s' \<and> nt_calls s' = nt_calls s \<and>
     undone i s' ps' \<subseteq> undone i s ps"

definition op_keeps :: "nat \<Rightarrow> u64 \<times> u64 \<Rightarrow> notify \<Rightarrow> u64 list \<Rightarrow> notify \<Rightarrow> u64 list \<Rightarrow> bool" where
  "op_keeps i k s ps s' ps' \<longleftrightarrow> (\<forall>p\<in>set ps. nreg_key (nt_heap s) p = k \<longrightarrow>
     p \<in> set ps' \<and> nreg_key (nt_heap s') p = k \<and> (rec_done i s' p \<longleftrightarrow> rec_done i s p))"

lemma rec_done_cong:
  assumes "map_option nr_done (nt_heap s' p) = map_option nr_done (nt_heap s p)"
    and "nt_heap s p \<noteq> None"
  shows "rec_done i s' p \<longleftrightarrow> rec_done i s p"
  using assms by (auto simp: rec_done_def)

lemma op_step:
  assumes ok: "notify_ok s ps" "nt_lock s" and valid: "valid_op x" "fresh_alloc alloc" and i: "i < 64"
  shows "\<exists>rc s' ps'. (case x of Add k \<Rightarrow> notify_add alloc k s | Remove k \<Rightarrow> notify_del k s) = Some (rc, s') \<and>
    op_effect i s ps s' ps' \<and> (s' = s \<and> ps' = ps \<or> nt_gen s' = nt_gen s + 1) \<and>
    (x \<noteq> Remove k \<longrightarrow> op_keeps i k s ps s' ps')"
proof -
  have dom: "nt_heap s p \<noteq> None" if "p \<in> set ps" for p
    using that ok(1) reg_path_dom by (fastforce simp: notify_ok_def)
  have idle: "op_effect i s ps s ps" "op_keeps i k s ps s ps"
    using ok by (simp_all add: op_effect_def op_keeps_def)
  show ?thesis
  proof (cases x)
    case (Add y)
    obtain cb user where y: "y = (cb, user)" by (cases y)
    have v: "RT_VALID_PTR cb" using valid Add y by simp
    show ?thesis
    proof (cases "(cb, user) \<in> set (notify_regs s ps)")
      case True
      then show ?thesis using register_duplicate [OF ok(1) True v ok(2)] Add y idle by auto
    next
      case new: False
      show ?thesis
      proof (cases "alloc (nt_heap s)")
        case None
        have "find_reg cb user (nt_heap s) (nt_head s) = Some 0"
          using ok new by (intro find_reg_none) (auto simp: notify_ok_def notify_regs_def)
        then show ?thesis using None v ok(2) Add y idle by (simp add: notify_register_def)
      next
        case (Some q)
        have q: "nt_heap s q = None" using Some valid(2) by (simp add: fresh_alloc_def)
        have nq: "q \<notin> set ps" using dom q by blast
        obtain s' where s': "notify_register alloc id cb user s = Some (VINF_SUCCESS, s')"
            "notify_ok s' (ps @ [q])" "nt_gen s' = nt_gen s + 1" "nt_lock s' = nt_lock s"
            "nt_calls s' = nt_calls s"
            "\<And>a. a \<noteq> q \<Longrightarrow> map_option nr_done (nt_heap s' a) = map_option nr_done (nt_heap s a)"
            "\<And>a. a \<noteq> q \<Longrightarrow> nreg_key (nt_heap s') a = nreg_key (nt_heap s) a"
            "map_option nr_done (nt_heap s' q) = Some (- 1)"
          by (rule register_alone [OF ok(1,2) new v Some valid(2)]) (rule that; assumption)
        have dn: "rec_done i s' p \<longleftrightarrow> rec_done i s p" if "p \<in> set ps" for p
          by (intro rec_done_cong s'(6)) (use that nq dom in auto)
        have ky: "nreg_key (nt_heap s') p = nreg_key (nt_heap s) p" if "p \<in> set ps" for p
          by (rule s'(7)) (use that nq in auto)
        have dq: "rec_done i s' q" using s'(8) i by (auto simp: rec_done_def)
        have "op_effect i s ps s' (ps @ [q])"
          using s'(2,4,5) ok(2) dn dq by (auto simp: op_effect_def undone_def)
        moreover have "op_keeps i k s ps s' (ps @ [q])"
          using dn ky by (auto simp: op_keeps_def)
        ultimately show ?thesis using s'(1,3) Add y by auto
      qed
    qed
  next
    case (Remove y)
    obtain cb user where y: "y = (cb, user)" by (cases y)
    have v: "RT_VALID_PTR cb" using valid Remove y by simp
    show ?thesis
    proof (cases "(cb, user) \<in> set (notify_regs s ps)")
      case False
      then show ?thesis using deregister_missing [OF ok(1) False v ok(2)] Remove y idle by auto
    next
      case True
      obtain s' as a bs where s': "notify_deregister cb user s = Some (VINF_SUCCESS, s')"
          "ps = as @ a # bs" "nreg_key (nt_heap s) a = (cb, user)" "notify_ok s' (as @ bs)"
          "nt_gen s' = nt_gen s + 1" "nt_lock s' = nt_lock s" "nt_calls s' = nt_calls s"
          "\<And>b. b \<noteq> a \<Longrightarrow> map_option nr_done (nt_heap s' b) = map_option nr_done (nt_heap s b)"
          "\<And>b. b \<noteq> a \<Longrightarrow> nreg_key (nt_heap s') b = nreg_key (nt_heap s) b"
        by (rule deregister_found [OF ok(1) True v ok(2)]) blast
      have na: "a \<notin> set as" "a \<notin> set bs"
        using ok(1) reg_list_distinct unfolding notify_ok_def s'(2) by fastforce+
      have dn: "rec_done i s' p \<longleftrightarrow> rec_done i s p" if "p \<in> set (as @ bs)" for p
        by (intro rec_done_cong s'(8)) (use that na dom s'(2) in auto)
      have ky: "nreg_key (nt_heap s') p = nreg_key (nt_heap s) p" if "p \<in> set (as @ bs)" for p
        by (rule s'(9)) (use that na in auto)
      have "op_effect i s ps s' (as @ bs)"
        using s'(2,4,6,7) ok(2) dn by (auto simp: op_effect_def undone_def)
      moreover have "op_keeps i k s ps s' (as @ bs)" if "x \<noteq> Remove k"
        using that dn ky s'(2,3) Remove y by (auto simp: op_keeps_def)
      ultimately show ?thesis using s'(1,5) Remove y by auto
    qed
  qed
qed

lemma op_effect_trans:
  "op_effect i s ps s1 ps1 \<Longrightarrow> op_effect i s1 ps1 s2 ps2 \<Longrightarrow> op_effect i s ps s2 ps2"
  by (auto simp: op_effect_def)

lemma op_keeps_trans:
  "op_keeps i k s ps s1 ps1 \<Longrightarrow> op_keeps i k s1 ps1 s2 ps2 \<Longrightarrow> op_keeps i k s ps s2 ps2"
  by (simp add: op_keeps_def)

lemma ops_run:
  assumes "notify_ok s ps" "nt_lock s" "\<forall>x\<in>set xs. valid_op x" "fresh_alloc alloc" "i < 64"
  shows "\<exists>rcs s' ps' n. registry_run (notify_add alloc) notify_del xs s = Some (rcs, s') \<and>
    op_effect i s ps s' ps' \<and> n \<le> length xs \<and> nt_gen s' = nt_gen s + of_nat n \<and>
    (n = 0 \<longrightarrow> s' = s \<and> ps' = ps) \<and> (Remove k \<notin> set xs \<longrightarrow> op_keeps i k s ps s' ps')"
  using assms(1-3)
proof (induction xs arbitrary: s ps)
  case Nil
  then have "op_effect i s ps s ps" "op_keeps i k s ps s ps"
    by (simp_all add: op_effect_def op_keeps_def)
  then show ?case by (intro exI [of _ "[]"] exI [of _ s] exI [of _ ps] exI [of _ 0]) simp
next
  case (Cons x xs)
  obtain rc s1 ps1 where s1: "(case x of Add k \<Rightarrow> notify_add alloc k s | Remove k \<Rightarrow> notify_del k s) = Some (rc, s1)"
      "op_effect i s ps s1 ps1" "s1 = s \<and> ps1 = ps \<or> nt_gen s1 = nt_gen s + 1"
      "x \<noteq> Remove k \<longrightarrow> op_keeps i k s ps s1 ps1"
    using op_step [OF Cons.prems(1,2) _ assms(4,5), of x k] Cons.prems(3) by auto
  have ok1: "notify_ok s1 ps1" "nt_lock s1" using s1(2) by (simp_all add: op_effect_def)
  have v: "\<forall>x\<in>set xs. valid_op x" using Cons.prems(3) by simp
  obtain rcs s' ps' n where s': "registry_run (notify_add alloc) notify_del xs s1 = Some (rcs, s')"
      "op_effect i s1 ps1 s' ps'" "n \<le> length xs" "nt_gen s' = nt_gen s1 + of_nat n"
      "n = 0 \<longrightarrow> s' = s1 \<and> ps' = ps1" "Remove k \<notin> set xs \<longrightarrow> op_keeps i k s1 ps1 s' ps'"
    using Cons.IH [OF ok1 v] by blast
  have run: "registry_run (notify_add alloc) notify_del (x # xs) s = Some (rc # rcs, s')"
    using s1(1) s'(1) by simp
  have keeps: "Remove k \<notin> set (x # xs) \<longrightarrow> op_keeps i k s ps s' ps'"
  proof
    assume "Remove k \<notin> set (x # xs)"
    then have "op_keeps i k s ps s1 ps1" "op_keeps i k s1 ps1 s' ps'" using s1(4) s'(6) by auto
    then show "op_keeps i k s ps s' ps'" by (rule op_keeps_trans)
  qed
  have eff: "op_effect i s ps s' ps'" by (rule op_effect_trans [OF s1(2) s'(2)])
  from s1(3) show ?case
  proof
    assume same: "s1 = s \<and> ps1 = ps"
    then have "n \<le> length (x # xs)" "nt_gen s' = nt_gen s + of_nat n" "n = 0 \<longrightarrow> s' = s \<and> ps' = ps"
      using s'(3-5) by simp_all
    with run eff keeps show ?thesis by blast
  next
    assume "nt_gen s1 = nt_gen s + 1"
    then have "Suc n \<le> length (x # xs)" "nt_gen s' = nt_gen s + of_nat (Suc n)"
        "Suc n = 0 \<longrightarrow> s' = s \<and> ps' = ps"
      using s'(3-5) by (simp_all add: add.assoc)
    with run eff keeps show ?thesis by blast
  qed
qed

definition sched_ok :: "(nat \<Rightarrow> (u64 \<times> u64) registry_op list) \<Rightarrow> bool" where
  \<comment> \<open>too few changes during one callback for the 32-bit generation to come round\<close>
  "sched_ok sched \<longleftrightarrow> (\<forall>n. length (sched n) < 2 ^ 32 \<and> (\<forall>x\<in>set (sched n). valid_op x))"

lemma ops_env_step:
  assumes "notify_ok s ps" "nt_lock s" "sched_ok sched" "fresh_alloc alloc" "i < 64"
  shows "\<exists>ps'. op_effect i s ps (ops_env alloc sched x s) ps' \<and>
    (nt_gen (ops_env alloc sched x s) = nt_gen s \<longrightarrow> ps' = ps) \<and>
    ((\<forall>n. Remove k \<notin> set (sched n)) \<longrightarrow> op_keeps i k s ps (ops_env alloc sched x s) ps')"
proof -
  let ?xs = "sched (length (nt_calls s))"
  have len: "length ?xs < 2 ^ 32" and v: "\<forall>x\<in>set ?xs. valid_op x"
    using assms(3) by (simp_all add: sched_ok_def)
  obtain rcs s' ps' n where s': "registry_run (notify_add alloc) notify_del ?xs s = Some (rcs, s')"
      "op_effect i s ps s' ps'" "n \<le> length ?xs" "nt_gen s' = nt_gen s + of_nat n"
      "n = 0 \<longrightarrow> s' = s \<and> ps' = ps" "Remove k \<notin> set ?xs \<longrightarrow> op_keeps i k s ps s' ps'"
    using ops_run [OF assms(1,2) v assms(4,5), of k] by blast
  have gen: "nt_gen s' = nt_gen s \<longrightarrow> ps' = ps"
  proof
    assume "nt_gen s' = nt_gen s"
    then have "(of_nat n :: u32) = 0" using s'(4) by simp
    then have "2 ^ 32 dvd n" by (simp add: word_of_nat_eq_0_iff)
    with s'(3) len have "n = 0" by (auto dest: dvd_imp_le)
    with s'(5) show "ps' = ps" by simp
  qed
  have env: "ops_env alloc sched x s = s'" by (simp add: ops_env_def s'(1))
  show ?thesis
    unfolding env using s'(2,6) gen by blast
qed

lemma ops_world:
  assumes "sched_ok sched" "fresh_alloc alloc" "i < 64"
  shows "notify_world (ops_env alloc sched) i"
proof
  fix s ps x
  assume ok: "notify_ok s ps" "nt_lock s"
  obtain ps1 where e: "op_effect i s ps (ops_env alloc sched x s) ps1"
      "nt_gen (ops_env alloc sched x s) = nt_gen s \<longrightarrow> ps1 = ps"
    using ops_env_step [OF ok assms, where x = x] by blast
  show "\<exists>ps'. notify_ok (ops_env alloc sched x s) ps' \<and> nt_lock (ops_env alloc sched x s) \<and>
      nt_calls (ops_env alloc sched x s) = nt_calls s"
    using e(1) by (auto simp: op_effect_def)
  show "notify_ok (ops_env alloc sched x s) ps"
    if "nt_gen (ops_env alloc sched x s) = nt_gen s"
    using e that by (simp add: op_effect_def)
  show "undone i (ops_env alloc sched x s) ps' \<subseteq> undone i s ps"
    if "notify_ok (ops_env alloc sched x s) ps'" for ps'
    using e(1) notify_ok_unique [OF that] by (auto simp: op_effect_def)
qed (rule assms(3))

lemma ops_stable:
  assumes "sched_ok sched" "fresh_alloc alloc" "i < 64" "\<forall>n. Remove k \<notin> set (sched n)"
  shows "stable_world (ops_env alloc sched) i k"
proof (rule stable_world.intro [OF ops_world [OF assms(1-3)]], unfold_locales)
  fix s ps p x ps'
  assume ok: "notify_ok s ps" "nt_lock s" and p: "p \<in> set ps" "nreg_key (nt_heap s) p = k"
    and ok': "notify_ok (ops_env alloc sched x s) ps'"
  obtain ps1 where "op_effect i s ps (ops_env alloc sched x s) ps1"
      "op_keeps i k s ps (ops_env alloc sched x s) ps1"
    using ops_env_step [OF ok assms(1-3), where x = x and k = k] assms(4) by blast
  with p show "p \<in> set ps' \<and> nreg_key (nt_heap (ops_env alloc sched x s)) p = k \<and>
      rec_done i (ops_env alloc sched x s) p = rec_done i s p"
    using notify_ok_unique [OF ok'] by (auto simp: op_effect_def op_keeps_def)
qed

section \<open>Instances\<close>

text \<open>An allocator with four cells, and a schedule: the first callback replaces a registration.\<close>

definition slot_alloc :: "(u64 \<rightharpoonup> nreg) \<Rightarrow> u64 option" where
  "slot_alloc h = List.find (\<lambda>p. h p = None) [0x1000, 0x1040, 0x1080, 0x10c0]"

lemma slot_alloc_fresh: "fresh_alloc slot_alloc"
  by (auto simp: fresh_alloc_def slot_alloc_def find_Some_iff nth_Cons split: nat.splits if_splits)

definition demo_sched :: "nat \<Rightarrow> (u64 \<times> u64) registry_op list" where
  "demo_sched n = (if n = 0 then [Add (0x7000, 3), Remove (0x6000, 2)] else [])"

lemma demo_sched_ok: "sched_ok demo_sched"
  by (simp add: sched_ok_def demo_sched_def RT_VALID_PTR_def)

interpretation mp: registry notify_represents "\<lambda>(cb, user). RT_VALID_PTR cb"
  "\<lambda>(cb, user). RTMpNotificationRegister slot_alloc id cb user"
  "\<lambda>(cb, user). RTMpNotificationDeregister cb user"
  unfolding RTMpNotificationRegister_def RTMpNotificationDeregister_def
  by (rule notify_registry [OF slot_alloc_fresh])

interpretation power: registry notify_represents "\<lambda>(cb, user). RT_VALID_PTR cb"
  "\<lambda>(cb, user). RTPowerNotificationRegister slot_alloc id cb user"
  "\<lambda>(cb, user). RTPowerNotificationDeregister cb user"
  unfolding RTPowerNotificationRegister_def RTPowerNotificationDeregister_def
  by (rule notify_registry [OF slot_alloc_fresh])

interpretation demo: stable_world "ops_env slot_alloc demo_sched" 1 "(0x5000, 1)"
  by (rule ops_stable [OF demo_sched_ok slot_alloc_fresh]) (auto simp: demo_sched_def)

section \<open>An event nobody disturbs\<close>

definition quiet_env :: "u64 \<times> u64 \<Rightarrow> notify \<Rightarrow> notify" where
  "quiet_env x s = s"

lemma quiet_walk:
  assumes "nreg_list (nt_heap s) p ps" "\<forall>q\<in>set ps. \<not> rec_done i s q" "nt_lock s" "i < 64"
  shows "\<exists>s'. event_walk quiet_env i (nt_gen s) p s = Some (True, s') \<and>
    nt_calls s' = nt_calls s @ map (nreg_key (nt_heap s)) ps"
  using assms
proof (induction ps arbitrary: p s)
  case Nil
  then show ?case by (subst event_walk.simps) simp
next
  case (Cons a as)
  then obtain r where r: "p = a" "a \<noteq> 0" "nt_heap s a = Some r" "nreg_list (nt_heap s) (nr_next r) as"
    by (auto split: option.splits)
  let ?s = "call_record i a r s"
  have na: "a \<notin> set as" using reg_list_distinct [OF Cons.prems(1)] by simp
  have "nreg_list (nt_heap ?s) (nr_next r) as \<longleftrightarrow> nreg_list (nt_heap s) (nr_next r) as"
    by (rule reg_path_cong) (use na in \<open>auto simp: call_record_def\<close>)
  then have l: "nreg_list (nt_heap ?s) (nr_next r) as" using r(4) by simp
  have d: "\<forall>q\<in>set as. \<not> rec_done i ?s q"
    using Cons.prems(2) na Cons.prems(4) by (auto simp: call_record_done)
  have key: "nreg_key (nt_heap ?s) = nreg_key (nt_heap s)"
    by (rule ext) (rule call_record_key [OF r(3)])
  have lock: "nt_lock ?s" using Cons.prems(3) by simp
  obtain s' where s': "event_walk quiet_env i (nt_gen ?s) (nr_next r) ?s = Some (True, s')"
      "nt_calls s' = nt_calls ?s @ map (nreg_key (nt_heap ?s)) as"
    using Cons.IH [OF l d lock Cons.prems(4)] by blast
  have "event_walk quiet_env i (nt_gen s) p s = Some (True, s')"
    using Cons.prems(2,3) s'(1) r by (subst event_walk.simps) (simp add: rec_done_def quiet_env_def Let_def)
  then show ?case
    using s'(2) by (simp add: key) (simp add: nreg_key_def r(3))
qed

section \<open>Properties\<close>

text \<open>
  C19: The callback registry is an ordered list without duplicates: any sequence of
  \<open>RTMpNotificationRegister\<close> and \<open>RTMpNotificationDeregister\<close> calls on the heap-allocated list
  ends, touches no dead record, and returns status codes and leaves registrations that the list
  specification allows (append if new, \<open>VERR_ALREADY_EXISTS\<close>, \<open>VERR_NO_MEMORY\<close>, \<open>VERR_NOT_FOUND\<close>).
\<close>

theorem notify_refines_registry:
  assumes "notify_represents s ks" "fresh_alloc alloc"
    and "\<forall>x\<in>set xs. case x of Add (cb, user) \<Rightarrow> RT_VALID_PTR cb | Remove (cb, user) \<Rightarrow> RT_VALID_PTR cb"
  shows "\<exists>rcs s' ks'.
    registry_run (\<lambda>(cb, user). RTMpNotificationRegister alloc id cb user)
      (\<lambda>(cb, user). RTMpNotificationDeregister cb user) xs s = Some (rcs, s') \<and>
    notify_represents s' ks' \<and> registry_outs xs ks rcs ks' \<and> distinct ks'"
proof -
  obtain rcs s' ks' where "registry_run (\<lambda>(cb, user). RTMpNotificationRegister alloc id cb user)
      (\<lambda>(cb, user). RTMpNotificationDeregister cb user) xs s = Some (rcs, s')"
      "notify_represents s' ks'" "registry_outs xs ks rcs ks'"
    using registry.run_refines [OF notify_registry [OF assms(2)] assms(1,3)]
    unfolding RTMpNotificationRegister_def RTMpNotificationDeregister_def by blast
  then show ?thesis using notify_represents_distinct by blast
qed

definition notify_empty :: notify where
  "notify_empty = \<lparr>nt_heap = (\<lambda>_. None), nt_lock = True, nt_head = 0, nt_bit = 0, nt_gen = 0,
     nt_calls = []\<rparr>"

lemma notify_empty_represents: "notify_represents notify_empty []"
  by (auto simp: notify_represents_def notify_ok_def notify_regs_def notify_empty_def)

theorem notify_refines_registry_witness:
  "\<exists>s'. registry_run (\<lambda>(cb, user). RTMpNotificationRegister slot_alloc id cb user)
      (\<lambda>(cb, user). RTMpNotificationDeregister cb user)
      [Add (0x5000, 1), Add (0x5000, 1), Remove (0x6000, 2)] notify_empty =
    Some ([VINF_SUCCESS, VERR_ALREADY_EXISTS, VERR_NOT_FOUND], s') \<and> notify_represents s' [(0x5000, 1)]"
proof -
  let ?xs = "[Add (0x5000, 1), Add (0x5000, 1), Remove (0x6000, 2)] :: (u64 \<times> u64) registry_op list"
  let ?run = "registry_run (\<lambda>(cb, user). RTMpNotificationRegister slot_alloc id cb user)
      (\<lambda>(cb, user). RTMpNotificationDeregister cb user) ?xs notify_empty"
  have v: "\<forall>x\<in>set ?xs. case x of Add (cb, user) \<Rightarrow> RT_VALID_PTR cb | Remove (cb, user) \<Rightarrow> RT_VALID_PTR cb"
    by (simp add: RT_VALID_PTR_def)
  have "map_option fst ?run = Some [0, - 105, - 78]"
    by code_simp
  then have rcs: "rcs = [VINF_SUCCESS, VERR_ALREADY_EXISTS, VERR_NOT_FOUND]" if "?run = Some (rcs, s')" for rcs s'
    using that by (simp add: iprt_status)
  obtain rcs s' ks' where "?run = Some (rcs, s')" "notify_represents s' ks'" "registry_outs ?xs [] rcs ks'"
    using notify_refines_registry [OF notify_empty_represents slot_alloc_fresh v] by blast
  with rcs show ?thesis by (auto simp: iprt_status split: if_splits)
qed


text \<open>A list of two registrations, as the registration functions build it.\<close>

definition notify_two :: notify where
  "notify_two = snd (the (registry_run (notify_add slot_alloc) notify_del
     [Add (0x5000, 1), Add (0x6000, 2)] notify_empty))"

lemma notify_two_heap:
  "nt_heap notify_two = [0x1000 \<mapsto> \<lparr>nr_next = 0x1040, nr_cb = 0x5000, nr_user = 1, nr_done = - 1\<rparr>,
     0x1040 \<mapsto> \<lparr>nr_next = 0, nr_cb = 0x6000, nr_user = 2, nr_done = - 1\<rparr>]"
  "nt_head notify_two = 0x1000" "nt_lock notify_two" "nt_bit notify_two = 0" "nt_calls notify_two = []"
  by (simp_all add: notify_two_def notify_empty_def notify_register_def find_reg.simps slot_alloc_def
      register_insert_def insert_walk.simps nreg_matches_def RT_VALID_PTR_def Let_def fun_eq_iff)

lemma notify_two_ok:
  "notify_ok notify_two [0x1000, 0x1040]"
  "notify_regs notify_two [0x1000, 0x1040] = [(0x5000, 1), (0x6000, 2)]"
  by (simp_all add: notify_ok_def notify_regs_def nreg_key_def notify_two_heap)


text \<open>
  Nobody disturbing it, an event calls all registrations, each once and in registration order,
  and \<open>RTPowerSignalEvent\<close> reports success.
\<close>

theorem event_in_order:
  assumes "notify_ok s ps" "nt_lock s"
  shows "\<exists>s'. RTPowerSignalEvent quiet_env s = Some (VINF_SUCCESS, s') \<and>
    nt_calls s' = nt_calls s @ notify_regs s ps"
proof -
  let ?sb = "s\<lparr>nt_bit := nt_bit s + 1\<rparr>" and ?i = "unat (nt_bit s + 1) mod 64"
  have okb: "notify_ok ?sb ps" using assms(1) by (simp add: notify_ok_def)
  let ?s0 = "?sb\<lparr>nt_heap := clear_heap ?i (set ps) (nt_heap ?sb)\<rparr>"
  note s0 = clear_heap_ok [OF okb, where i = ?i]
  have clear: "clear_done ?i (nt_heap s) (nt_head s) = Some (nt_heap ?s0)"
    using clear_done_list [of "nt_heap s" "nt_head s" ps ?i] assms(1) by (simp add: notify_ok_def)
  have l: "nreg_list (nt_heap ?s0) (nt_head ?s0) ps" using s0(1) by (simp only: notify_ok_def)
  obtain s' where s': "event_walk quiet_env ?i (nt_gen ?s0) (nt_head ?s0) ?s0 = Some (True, s')"
      "nt_calls s' = nt_calls ?s0 @ map (nreg_key (nt_heap ?s0)) ps"
    using quiet_walk [OF l, of ?i] s0(2) assms(2) by force
  have "nt_calls s' = nt_calls s @ notify_regs s ps"
    using s'(2) unfolding s0(3) notify_regs_def by simp
  with s'(1) clear assms(2) show ?thesis
    by (simp add: RTPowerSignalEvent_def notify_event_def Let_def)
qed

theorem event_in_order_witness:
  "\<exists>s'. RTPowerSignalEvent quiet_env notify_two = Some (VINF_SUCCESS, s') \<and>
     nt_calls s' = [(0x5000, 1), (0x6000, 2)]"
  using event_in_order [OF notify_two_ok(1) notify_two_heap(3)]
  by (simp add: notify_two_ok(2) notify_two_heap(5))

text \<open>
  Shutting the service down frees every record of the list and nothing else, and later calls of
  the registration functions are refused with \<open>VERR_WRONG_ORDER\<close>.
\<close>

theorem notify_term_frees_all:
  assumes "notify_ok s ps" "nt_lock s" "RT_VALID_PTR cb"
  shows "\<exists>s'. notify_term s = Some s' \<and>
    (\<forall>p. nt_heap s' p = (if p \<in> set ps then None else nt_heap s p)) \<and>
    RTMpNotificationRegister alloc mid cb user s' = Some (VERR_WRONG_ORDER, s') \<and>
    RTMpNotificationDeregister cb user s' = Some (VERR_WRONG_ORDER, s')"
  using free_list_all [of "nt_heap s" "nt_head s" ps] assms
  by (auto simp: notify_term_def notify_ok_def Let_def RTMpNotificationRegister_def
      RTMpNotificationDeregister_def notify_register_def notify_deregister_def)

theorem notify_term_frees_all_witness:
  "\<exists>s'. notify_term notify_two = Some s' \<and> nt_heap s' 0x1000 = None \<and> nt_heap s' 0x1040 = None"
  using notify_term_frees_all [OF notify_two_ok(1) notify_two_heap(3), of "0x5000" slot_alloc id 1]
  by (auto simp: RT_VALID_PTR_def)

text \<open>
  C23: Two threads registering the same callback at the same time corrupt the list: when the second
  one inserts between the first one's two critical sections, the first one frees the record that is
  on the list instead of its own new one. It reports \<open>VERR_ALREADY_EXISTS\<close>, its own record leaks,
  the list ends in a dead record, and the next event dereferences it.
\<close>

theorem register_race_dangles:
  assumes "notify_ok s ps" "nt_lock s" "RT_VALID_PTR cb" "(cb, user) \<notin> set (notify_regs s ps)"
    and "fresh_alloc alloc" "alloc (nt_heap s) = Some p"
  defines "other \<equiv> \<lambda>s. snd (the (RTMpNotificationRegister alloc id cb user s))"
  assumes "alloc (nt_heap (other s)) = Some q"
  shows "\<exists>s'. RTMpNotificationRegister alloc other cb user s = Some (VERR_ALREADY_EXISTS, s') \<and>
    reg_path nr_next (nt_heap s') (nt_head s') ps p \<and> nt_heap s' p = None \<and> nt_heap s' q \<noteq> None \<and>
    (\<forall>env. rtMpNotificationDoCallbacks env s' = None)"
proof -
  obtain s1 where s1: "notify_register alloc id cb user s = Some (VINF_SUCCESS, s1)"
      "notify_ok s1 (ps @ [p])" "notify_regs s1 (ps @ [p]) = notify_regs s ps @ [(cb, user)]"
      "nt_lock s1 = nt_lock s" "nreg_key (nt_heap s1) p = (cb, user)"
    by (rule register_alone [OF assms(1,2,4,3,6,5)]) (rule that; assumption)
  have mid: "other s = s1" by (simp add: other_def RTMpNotificationRegister_def s1(1))
  have q: "q \<noteq> 0" "nt_heap s1 q = None"
    using assms(5,8) by (auto simp: fresh_alloc_def mid)
  have l1: "nreg_list (nt_heap s1) (nt_head s1) (ps @ [p])" and d1: "distinct (notify_regs s1 (ps @ [p]))"
    using s1(2) by (simp_all add: notify_ok_def notify_regs_def)
  have nq: "q \<notin> set (ps @ [p])" by (rule reg_path_fresh [OF l1 q(2)])
  have np: "p \<notin> set ps" "distinct ps" "p \<noteq> 0"
    using reg_list_distinct [OF l1] reg_path_nonzero [OF l1] by auto
  define r where "r = \<lparr>nr_next = 0, nr_cb = cb, nr_user = user, nr_done = - 1 :: u64\<rparr>"
  define h where "h = (nt_heap s1)(q \<mapsto> r)"
  have lh: "reg_path nr_next h (nt_head s1) (ps @ [p]) 0"
    using l1 nq unfolding h_def by (simp only: reg_path_upd_other not_False_eq_True)
  have key: "nreg_key h a = nreg_key (nt_heap s1) a" if "a \<noteq> q" for a
    using that by (simp add: h_def nreg_key_def)
  have kp: "nreg_key h p = (cb, user)" using key [of p] nq s1(5) by auto
  have kps: "(cb, user) \<notin> nreg_key h ` set ps"
    using d1 s1(3,5) nq key by (force simp: notify_regs_def)
  have h0: "nt_head s1 \<noteq> 0" using l1 by (cases ps) auto
  have dup: "insert_walk cb user q h (nt_head s1) = Some (p, h)"
    by (rule insert_walk_dup [OF lh kp kps])
  let ?s = "s1\<lparr>nt_heap := h(p := None), nt_gen := nt_gen s1 + 1\<rparr>"
  have find: "find_reg cb user (nt_heap s) (nt_head s) = Some 0"
    using assms(1,4) by (intro find_reg_none) (auto simp: notify_ok_def notify_regs_def)
  have run: "RTMpNotificationRegister alloc other cb user s = Some (VERR_ALREADY_EXISTS, ?s)"
    using dup h0 np(3) assms(2,3,8) find
    by (simp add: RTMpNotificationRegister_def notify_register_def mid register_insert_def notify_free_def
        flip: r_def h_def)
  have "reg_path nr_next h (nt_head s1) ps p" using lh by (auto simp: reg_path_append split: option.splits)
  then have path: "reg_path nr_next (h(p := None)) (nt_head s1) ps p"
    using np(1) by (simp only: reg_path_upd_other not_False_eq_True)
  have "rtMpNotificationDoCallbacks env ?s = None" for env
    using clear_done_dangling [OF path np(2,1,3)] s1(4) assms(2)
    by (simp add: rtMpNotificationDoCallbacks_def notify_event_def Let_def)
  moreover have "(h(p := None)) q \<noteq> None" using nq by (auto simp: h_def)
  ultimately show ?thesis using run path by (intro exI [of _ ?s]) simp
qed

theorem register_race_dangles_witness:
  "\<exists>s'. RTMpNotificationRegister slot_alloc
     (\<lambda>s. snd (the (RTMpNotificationRegister slot_alloc id 0x7000 3 s))) 0x7000 3 notify_two =
     Some (VERR_ALREADY_EXISTS, s') \<and> nt_heap s' 0x1080 = None \<and>
     (\<forall>env. rtMpNotificationDoCallbacks env s' = None)"
proof -
  have a: "slot_alloc (nt_heap notify_two) = Some 0x1080"
    by (simp add: slot_alloc_def notify_two_heap)
  have b: "slot_alloc (nt_heap (snd (the (RTMpNotificationRegister slot_alloc id 0x7000 3 notify_two)))) =
      Some 0x10c0"
    by (simp add: RTMpNotificationRegister_def notify_register_def find_reg.simps slot_alloc_def
        register_insert_def insert_walk.simps nreg_matches_def RT_VALID_PTR_def Let_def notify_two_heap)
  have "(0x7000, 3) \<notin> set (notify_regs notify_two [0x1000, 0x1040])"
    by (simp add: notify_two_ok(2))
  moreover have "RT_VALID_PTR 0x7000" by (simp add: RT_VALID_PTR_def)
  ultimately show ?thesis
    using register_race_dangles [OF notify_two_ok(1) notify_two_heap(3) _ _ slot_alloc_fresh a b] by blast
qed

end
