(* ===== verification/SpinMutex.thy ===== *)
theory SpinMutex
  imports Iprt
begin

text \<open>
  The spinning mutex of the ring-0 runtime (\<open>Runtime/r0drv/generic/semspinmutex-r0drv-generic.c\<close>,
  the Linux configuration), as a step relation: any number of threads run the request, try,
  release and destroy operations, and every access to the shared structure is one step. A thread
  carries its place in the operation, the saved-state local, and its CPU context (preemption
  depth, interrupt flag), which the operations change and restore.

  The event semaphore the mutex sleeps on belongs to the OS: here it is an auto-reset flag; a
  wait may also fail with any status.
\<close>

section \<open>State\<close>

record spin_saved =
  ss_flags :: bool     \<comment> \<open>saved interrupt flag\<close>
  ss_spin :: bool
  ss_valid :: bool

text \<open>Where a thread is: between two accesses to the shared structure.\<close>

datatype place =
    Idle
  | Req_count | Req_first | Req_busy
  | Req_loop u32 | Req_check u32 | Req_sleep u32 | Req_woken u32 | Req_got
  | Try_cas | Try_busy | Try_count | Try_got
  | Rel_cas | Rel_count | Rel_signal

record thr =
  t_place :: place
  t_state :: spin_saved
  t_bad :: bool        \<comment> \<open>the local \<open>rc\<close> is \<open>VINF_SEM_BAD_CONTEXT\<close>\<close>
  t_held :: bool       \<comment> \<open>the last successful operation was a request\<close>
  t_rc :: int          \<comment> \<open>status of the last operation\<close>
  t_irq :: bool        \<comment> \<open>runs in interrupt context\<close>
  t_depth :: nat       \<comment> \<open>preemption disable count\<close>
  t_ints :: bool       \<comment> \<open>interrupts enabled\<close>

record spinmtx =
  x_magic :: u32
  x_flags :: u32
  x_owner :: "nat option"
  x_lockers :: u32
  x_event :: bool
  x_saved :: spin_saved
  x_thr :: "nat \<Rightarrow> thr"
  x_leaks :: nat       \<comment> \<open>ghost: requests that failed after counting themselves in\<close>

definition RTSEMSPINMUTEX_MAGIC :: u32 where "RTSEMSPINMUTEX_MAGIC = 0x18670209"
definition RTSEMSPINMUTEX_MAGIC_DEAD :: u32 where "RTSEMSPINMUTEX_MAGIC_DEAD = 0x19161209"

lemma magics_differ [simp]: "RTSEMSPINMUTEX_MAGIC_DEAD \<noteq> RTSEMSPINMUTEX_MAGIC"
  by (simp add: RTSEMSPINMUTEX_MAGIC_def RTSEMSPINMUTEX_MAGIC_DEAD_def)

definition irq_safe :: "u32 \<Rightarrow> bool" where
  "irq_safe fl \<longleftrightarrow> bit fl 0"

section \<open>Creation and context\<close>

definition RTSemSpinMutexCreate :: "bool \<Rightarrow> int \<Rightarrow> u32 \<Rightarrow> (nat \<Rightarrow> thr) \<Rightarrow> int + spinmtx" where
  \<comment> \<open>\<open>mem\<close>: memory was available; \<open>rc_event\<close>: status of the event semaphore's creation\<close>
  "RTSemSpinMutexCreate mem rc_event fl th =
     (if fl AND NOT 0x00000001 \<noteq> 0 then Inl VERR_INVALID_PARAMETER
      else if \<not> mem then Inl VERR_NO_MEMORY
      else if RT_SUCCESS rc_event then
        Inr \<lparr>x_magic = RTSEMSPINMUTEX_MAGIC, x_flags = fl, x_owner = None, x_lockers = 0,
             x_event = False, x_saved = \<lparr>ss_flags = False, ss_spin = False, ss_valid = False\<rparr>,
             x_thr = th, x_leaks = 0\<rparr>
      else Inl rc_event)"

definition validate_handle :: "spinmtx \<Rightarrow> int" where
  "validate_handle s =
     (if x_magic s \<noteq> RTSEMSPINMUTEX_MAGIC
      then if x_magic s = RTSEMSPINMUTEX_MAGIC_DEAD then VERR_SEM_DESTROYED else VERR_INVALID_HANDLE
      else VINF_SUCCESS)"

definition preempt_is_enabled :: "thr \<Rightarrow> bool" where
  "preempt_is_enabled t \<longleftrightarrow> t_depth t = 0 \<and> t_ints t"

definition rtSemSpinMutexEnter :: "u32 \<Rightarrow> thr \<Rightarrow> thr" where
  "rtSemSpinMutexEnter fl t =
     t\<lparr>t_bad := t_irq t \<and> \<not> irq_safe fl,
       t_state := \<lparr>ss_flags = irq_safe fl \<and> t_ints t, ss_spin = \<not> preempt_is_enabled t \<or> t_irq t,
                   ss_valid = irq_safe fl\<rparr>,
       t_depth := t_depth t + 1,
       t_ints := t_ints t \<and> \<not> irq_safe fl\<rparr>"

definition rtSemSpinMutexLeave :: "spin_saved \<Rightarrow> thr \<Rightarrow> thr" where
  "rtSemSpinMutexLeave st t =
     t\<lparr>t_ints := (if ss_valid st then ss_flags st else t_ints t), t_depth := t_depth t - 1\<rparr>"

section \<open>The steps of the operations\<close>

definition goto :: "place \<Rightarrow> thr \<Rightarrow> thr" where
  "goto p t = t\<lparr>t_place := p\<rparr>"

definition return_rc :: "int \<Rightarrow> thr \<Rightarrow> thr" where
  "return_rc rc t = t\<lparr>t_place := Idle, t_rc := rc\<rparr>"

definition fail_leave :: "int \<Rightarrow> thr \<Rightarrow> thr" where
  \<comment> \<open>\<open>rtSemSpinMutexLeave(&State); return rc;\<close>\<close>
  "fail_leave rc t = return_rc rc (rtSemSpinMutexLeave (t_state t) t)"

definition set_thr :: "nat \<Rightarrow> thr \<Rightarrow> spinmtx \<Rightarrow> spinmtx" where
  "set_thr i t s = s\<lparr>x_thr := (x_thr s)(i := t)\<rparr>"

text \<open>The entry of an operation: handle validation, then the context.\<close>

definition request_start :: "nat \<Rightarrow> spinmtx \<Rightarrow> spinmtx" where
  "request_start i s =
     (let t = x_thr s i in
      if validate_handle s \<noteq> VINF_SUCCESS then set_thr i (return_rc (validate_handle s) t) s
      else set_thr i (goto Req_count (rtSemSpinMutexEnter (x_flags s) t)) s)"

definition try_start :: "nat \<Rightarrow> spinmtx \<Rightarrow> spinmtx" where
  "try_start i s =
     (let t = x_thr s i in
      if validate_handle s \<noteq> VINF_SUCCESS then set_thr i (return_rc (validate_handle s) t) s
      else set_thr i (goto Try_cas (rtSemSpinMutexEnter (x_flags s) t)) s)"

definition release_start :: "nat \<Rightarrow> spinmtx \<Rightarrow> spinmtx" where
  "release_start i s =
     (let t = x_thr s i in
      if validate_handle s \<noteq> VINF_SUCCESS then set_thr i (return_rc (validate_handle s) t) s
      else set_thr i (goto Rel_cas (t\<lparr>t_state := x_saved s\<rparr>)) s)"

text \<open>Everything after the entry that does not wait for the event: one step per shared access.\<close>

definition run_step :: "nat \<Rightarrow> spinmtx \<Rightarrow> spinmtx" where
  "run_step i s =
     (let t = x_thr s i in
      case t_place t of
        Idle \<Rightarrow> s
      | Req_count \<Rightarrow> set_thr i (goto Req_first t) (s\<lparr>x_lockers := x_lockers s + 1\<rparr>)
      | Req_first \<Rightarrow>
          if x_owner s = None then set_thr i (goto Req_got t) (s\<lparr>x_owner := Some i\<rparr>)
          else set_thr i (goto Req_busy t) s
      | Req_busy \<Rightarrow>
          if x_owner s = Some i
          then set_thr i (fail_leave VERR_SEM_NESTED t) (s\<lparr>x_leaks := Suc (x_leaks s)\<rparr>)
          else if t_bad t
          then set_thr i (fail_leave VERR_SEM_BAD_CONTEXT t) (s\<lparr>x_leaks := Suc (x_leaks s)\<rparr>)
          else set_thr i (goto (Req_loop 0) t) s
      | Req_loop n \<Rightarrow>
          if x_owner s = None then set_thr i (goto Req_got t) (s\<lparr>x_owner := Some i\<rparr>)
          else set_thr i (goto (Req_check n) t) s
      | Req_check n \<Rightarrow>
          if x_magic s \<noteq> RTSEMSPINMUTEX_MAGIC
          then set_thr i (fail_leave VERR_SEM_DESTROYED t) (s\<lparr>x_leaks := Suc (x_leaks s)\<rparr>)
          else if ss_spin (t_state t) then
            (if n AND 0x7f = 0x1f
             then set_thr i (goto (Req_loop (n + 1))
                    (rtSemSpinMutexEnter (x_flags s) (rtSemSpinMutexLeave (t_state t) t))) s
             else set_thr i (goto (Req_loop (n + 1)) t) s)
          else if n AND 15 = 15
          then set_thr i (goto (Req_sleep n) (rtSemSpinMutexLeave (t_state t) t)) s
          else set_thr i (goto (Req_loop (n + 1)) t) s
      | Req_sleep n \<Rightarrow> s
      | Req_woken n \<Rightarrow>
          if x_magic s \<noteq> RTSEMSPINMUTEX_MAGIC
          then set_thr i (return_rc VERR_SEM_DESTROYED t) (s\<lparr>x_leaks := Suc (x_leaks s)\<rparr>)
          else set_thr i (goto (Req_loop (n + 1)) (rtSemSpinMutexEnter (x_flags s) t)) s
      | Req_got \<Rightarrow> set_thr i (return_rc VINF_SUCCESS (t\<lparr>t_held := True\<rparr>)) (s\<lparr>x_saved := t_state t\<rparr>)
      | Try_cas \<Rightarrow>
          if x_owner s = None then set_thr i (goto Try_count t) (s\<lparr>x_owner := Some i\<rparr>)
          else set_thr i (goto Try_busy t) s
      | Try_busy \<Rightarrow>
          set_thr i (fail_leave (if x_owner s = Some i then VERR_SEM_NESTED else VERR_SEM_BUSY) t) s
      | Try_count \<Rightarrow> set_thr i (goto Try_got t) (s\<lparr>x_lockers := x_lockers s + 1\<rparr>)
      | Try_got \<Rightarrow> set_thr i (return_rc VINF_SUCCESS (t\<lparr>t_held := True\<rparr>)) (s\<lparr>x_saved := t_state t\<rparr>)
      | Rel_cas \<Rightarrow>
          if x_owner s = Some i
          then set_thr i (goto Rel_count (t\<lparr>t_held := False\<rparr>)) (s\<lparr>x_owner := None\<rparr>)
          else set_thr i (return_rc VERR_NOT_OWNER t) s
      | Rel_count \<Rightarrow>
          let n = x_lockers s - 1; t = rtSemSpinMutexLeave (t_state t) t
          in set_thr i (if n > 0 then goto Rel_signal t else return_rc VINF_SUCCESS t)
               (s\<lparr>x_lockers := n\<rparr>)
      | Rel_signal \<Rightarrow> set_thr i (return_rc VINF_SUCCESS t) (s\<lparr>x_event := True\<rparr>))"

text \<open>
  The event wait: it consumes a signal, or fails. \<open>VERR_INTERRUPTED\<close> is not expected by the code,
  which goes on as if woken, but without looking at the magic.
\<close>

definition wait_ok :: "nat \<Rightarrow> u32 \<Rightarrow> spinmtx \<Rightarrow> spinmtx" where
  "wait_ok i n s = set_thr i (goto (Req_woken n) (x_thr s i)) (s\<lparr>x_event := False\<rparr>)"

definition wait_failed :: "nat \<Rightarrow> int \<Rightarrow> spinmtx \<Rightarrow> spinmtx" where
  "wait_failed i rc s = set_thr i (return_rc rc (x_thr s i)) (s\<lparr>x_leaks := Suc (x_leaks s)\<rparr>)"

definition wait_interrupted :: "nat \<Rightarrow> u32 \<Rightarrow> spinmtx \<Rightarrow> spinmtx" where
  "wait_interrupted i n s =
     set_thr i (goto (Req_loop (n + 1)) (rtSemSpinMutexEnter (x_flags s) (x_thr s i))) s"

text \<open>Destruction as far as the structure is concerned; it is freed afterwards.\<close>

definition RTSemSpinMutexDestroy :: "spinmtx \<Rightarrow> int \<times> spinmtx" where
  "RTSemSpinMutexDestroy s =
     (if validate_handle s \<noteq> VINF_SUCCESS then (validate_handle s, s)
      else (VINF_SUCCESS, s\<lparr>x_magic := RTSEMSPINMUTEX_MAGIC_DEAD, x_event := False\<rparr>))"

text \<open>The threads \<open>0 ..< n\<close> in any interleaving.\<close>

inductive smx_step :: "nat \<Rightarrow> spinmtx \<Rightarrow> spinmtx \<Rightarrow> bool" for n where
  Request: "i < n \<Longrightarrow> t_place (x_thr s i) = Idle \<Longrightarrow> smx_step n s (request_start i s)"
| Try: "i < n \<Longrightarrow> t_place (x_thr s i) = Idle \<Longrightarrow> smx_step n s (try_start i s)"
| Release: "i < n \<Longrightarrow> t_place (x_thr s i) = Idle \<Longrightarrow> smx_step n s (release_start i s)"
| Run: "i < n \<Longrightarrow> smx_step n s (run_step i s)"
| Wait: "i < n \<Longrightarrow> t_place (x_thr s i) = Req_sleep k \<Longrightarrow> x_event s \<Longrightarrow> smx_step n s (wait_ok i k s)"
| Wait_fail: "i < n \<Longrightarrow> t_place (x_thr s i) = Req_sleep k \<Longrightarrow> \<not> RT_SUCCESS rc \<Longrightarrow> rc \<noteq> VERR_INTERRUPTED \<Longrightarrow>
    smx_step n s (wait_failed i rc s)"
| Wait_interrupted: "i < n \<Longrightarrow> t_place (x_thr s i) = Req_sleep k \<Longrightarrow>
    smx_step n s (wait_interrupted i k s)"
| Destroy: "smx_step n s (snd (RTSemSpinMutexDestroy s))"

inductive smx_reach :: "nat \<Rightarrow> spinmtx \<Rightarrow> spinmtx \<Rightarrow> bool" for n s0 where
  Start: "smx_reach n s0 s0"
| Step: "smx_reach n s0 s \<Longrightarrow> smx_step n s s' \<Longrightarrow> smx_reach n s0 s'"

definition idle_threads :: "(nat \<Rightarrow> thr) \<Rightarrow> bool" where
  "idle_threads th \<longleftrightarrow> (\<forall>i. t_place (th i) = Idle \<and> \<not> t_held (th i))"

section \<open>Ownership and context\<close>

definition owning :: "thr \<Rightarrow> bool" where
  "owning t \<longleftrightarrow> t_held t \<or> t_place t \<in> {Req_got, Try_count, Try_got}"

definition held_place :: "thr \<Rightarrow> bool" where
  "held_place t \<longleftrightarrow> (t_held t \<longrightarrow>
     t_place t \<in> {Idle, Req_count, Req_first, Req_busy, Try_cas, Try_busy, Rel_cas})"

text \<open>The places between \<open>rtSemSpinMutexEnter\<close> and \<open>rtSemSpinMutexLeave\<close>.\<close>

fun inside :: "place \<Rightarrow> bool" where
  "inside Idle = False" | "inside (Req_sleep n) = False" | "inside (Req_woken n) = False"
| "inside Rel_cas = False" | "inside Rel_signal = False" | "inside _ = True"

definition entered :: "u32 \<Rightarrow> nat \<times> bool \<Rightarrow> nat \<times> bool" where
  "entered fl c = (fst c + 1, snd c \<and> \<not> irq_safe fl)"

definition context_of :: "thr \<Rightarrow> nat \<times> bool" where
  "context_of t = (t_depth t, t_ints t)"

definition saves :: "u32 \<Rightarrow> nat \<times> bool \<Rightarrow> spin_saved \<Rightarrow> bool" where
  "saves fl c st \<longleftrightarrow> ss_valid st = irq_safe fl \<and> ss_flags st = (irq_safe fl \<and> snd c)"

lemma context_of_eq: "context_of t = c \<longleftrightarrow> t_depth t = fst c \<and> t_ints t = snd c"
  by (cases c) (simp add: context_of_def)

text \<open>
  \<open>c\<close> is the context the thread calls in while it does not hold the mutex. Holding it, the thread
  runs in the entered context, and the structure remembers how to get back.
\<close>

definition ctx_ok :: "u32 \<Rightarrow> nat \<times> bool \<Rightarrow> spin_saved \<Rightarrow> thr \<Rightarrow> bool" where
  "ctx_ok fl c saved t \<longleftrightarrow>
     (let b = (if t_held t then entered fl c else c) in
      context_of t = (if inside (t_place t) then entered fl b else b) \<and>
      (inside (t_place t) \<longrightarrow> saves fl b (t_state t)) \<and>
      (t_held t \<longrightarrow> saves fl c saved) \<and>
      (t_held t \<and> t_place t = Rel_cas \<longrightarrow> saves fl c (t_state t)))"

definition smx_inv :: "u32 \<Rightarrow> (nat \<Rightarrow> nat \<times> bool) \<Rightarrow> spinmtx \<Rightarrow> bool" where
  "smx_inv fl c s \<longleftrightarrow> x_flags s = fl \<and>
     (\<forall>i. (owning (x_thr s i) \<longleftrightarrow> x_owner s = Some i) \<and> held_place (x_thr s i) \<and>
        ctx_ok fl (c i) (x_saved s) (x_thr s i))"

lemma smx_inv_update:
  assumes inv: "smx_inv fl c s"
    and thr: "x_thr s' = x_thr s" "x_flags s' = x_flags s"
    and owner: "x_owner s' = x_owner s \<or> x_owner s = None \<and> x_owner s' = Some i \<or>
      x_owner s = Some i \<and> x_owner s' = None"
    and saved: "x_saved s' = x_saved s \<or> x_owner s = Some i"
    and self: "owning t \<longleftrightarrow> x_owner s' = Some i" "held_place t" "ctx_ok fl (c i) (x_saved s') t"
  shows "smx_inv fl c (set_thr i t s')"
proof -
  have j: "(owning (x_thr s j) \<longleftrightarrow> x_owner s' = Some j) \<and> held_place (x_thr s j) \<and>
      ctx_ok fl (c j) (x_saved s') (x_thr s j)" if "j \<noteq> i" for j
  proof -
    have inv_j: "owning (x_thr s j) \<longleftrightarrow> x_owner s = Some j" "held_place (x_thr s j)"
        "ctx_ok fl (c j) (x_saved s) (x_thr s j)"
      using inv by (simp_all add: smx_inv_def)
    have "x_owner s = Some j \<longleftrightarrow> x_owner s' = Some j" using owner that by auto
    moreover have "ctx_ok fl (c j) (x_saved s') (x_thr s j)"
    proof (cases "x_saved s' = x_saved s")
      case True
      then show ?thesis using inv_j(3) by simp
    next
      case False
      then have "\<not> t_held (x_thr s j)" using saved inv_j(1) that by (auto simp: owning_def)
      then show ?thesis using inv_j(3) by (simp add: ctx_ok_def)
    qed
    ultimately show ?thesis using inv_j by simp
  qed
  then show ?thesis
    using inv self thr by (auto simp: smx_inv_def set_thr_def)
qed

lemma smx_inv_if:
  "(b \<Longrightarrow> smx_inv fl c x) \<Longrightarrow> (\<not> b \<Longrightarrow> smx_inv fl c y) \<Longrightarrow> smx_inv fl c (if b then x else y)"
  by simp

lemmas smx_simps = set_thr_def goto_def return_rc_def fail_leave_def rtSemSpinMutexEnter_def
  rtSemSpinMutexLeave_def ctx_ok_def owning_def held_place_def entered_def context_of_eq saves_def Let_def

lemma smx_inv_thr:
  assumes "smx_inv fl c s"
  shows "owning (x_thr s i) \<longleftrightarrow> x_owner s = Some i" "held_place (x_thr s i)"
    "ctx_ok fl (c i) (x_saved s) (x_thr s i)" "x_flags s = fl"
  using assms by (simp_all add: smx_inv_def)

lemma start_inv:
  assumes inv: "smx_inv fl c s" and idle: "t_place (x_thr s i) = Idle"
  shows "smx_inv fl c (request_start i s) \<and> smx_inv fl c (try_start i s) \<and>
    smx_inv fl c (release_start i s)"
  unfolding request_start_def try_start_def release_start_def Let_def
  by (intro conjI smx_inv_if smx_inv_update [OF inv];
      use smx_inv_thr(1-3) [OF inv, of i] smx_inv_thr(4) [OF inv] idle in \<open>force simp: smx_simps\<close>)

lemma wait_inv:
  assumes inv: "smx_inv fl c s" and sleep: "t_place (x_thr s i) = Req_sleep k"
  shows "smx_inv fl c (wait_ok i n s) \<and> smx_inv fl c (wait_failed i rc s) \<and>
    smx_inv fl c (wait_interrupted i n s)"
  unfolding wait_ok_def wait_failed_def wait_interrupted_def
  by (intro conjI smx_inv_update [OF inv];
      use smx_inv_thr(1-3) [OF inv, of i] smx_inv_thr(4) [OF inv] sleep in \<open>force simp: smx_simps\<close>)

lemma run_inv:
  assumes inv: "smx_inv fl c s"
  shows "smx_inv fl c (run_step i s)"
proof -
  note facts = smx_inv_thr(1-3) [OF inv, of i] smx_inv_thr(4) [OF inv]
  show ?thesis
    unfolding run_step_def Let_def
    by (split place.split)
      (intro conjI allI impI inv smx_inv_if smx_inv_update [OF inv]; use facts in \<open>force simp: smx_simps\<close>)
qed

lemma destroy_inv: "smx_inv fl c s \<Longrightarrow> smx_inv fl c (snd (RTSemSpinMutexDestroy s))"
  by (simp add: RTSemSpinMutexDestroy_def smx_inv_def)

lemma step_inv: "smx_step n s s' \<Longrightarrow> smx_inv fl c s \<Longrightarrow> smx_inv fl c s'"
  by (erule smx_step.cases) (auto simp: start_inv wait_inv run_inv destroy_inv)

lemma reach_inv: "smx_reach n s0 s \<Longrightarrow> smx_inv fl c s0 \<Longrightarrow> smx_inv fl c s"
  by (induction rule: smx_reach.induct) (auto intro: step_inv)

lemma create_inv:
  assumes "RTSemSpinMutexCreate mem rce fl th = Inr s" "idle_threads th"
  shows "smx_inv fl (\<lambda>i. context_of (th i)) s"
  using assms by (auto simp: RTSemSpinMutexCreate_def idle_threads_def smx_inv_def smx_simps split: if_splits)
    (simp_all add: context_of_def)

section \<open>Counting the contenders\<close>

fun waiting :: "place \<Rightarrow> bool" where
  "waiting Req_first = True" | "waiting Req_busy = True" | "waiting (Req_loop n) = True"
| "waiting (Req_check n) = True" | "waiting (Req_sleep n) = True" | "waiting (Req_woken n) = True"
| "waiting _ = False"

definition locker_count :: "thr \<Rightarrow> nat" where
  "locker_count t = (if waiting (t_place t) then 1 else 0) +
     (if t_held t \<or> t_place t \<in> {Req_got, Try_got, Rel_count} then 1 else 0)"

definition smx_count :: "nat \<Rightarrow> spinmtx \<Rightarrow> bool" where
  "smx_count n s \<longleftrightarrow> x_lockers s = of_nat ((\<Sum>i<n. locker_count (x_thr s i)) + x_leaks s)"

lemma sum_set_thr:
  fixes g :: "thr \<Rightarrow> nat"
  assumes "i < n"
  shows "(\<Sum>j<n. g (x_thr (set_thr i t s) j)) + g (x_thr s i) = (\<Sum>j<n. g (x_thr s j)) + g t"
proof -
  have "(\<Sum>j<n. g (((x_thr s)(i := t)) j)) = g t + (\<Sum>j\<in>{..<n} - {i}. g (x_thr s j))"
    using assms by (subst sum.remove [of _ i]) auto
  moreover have "(\<Sum>j<n. g (x_thr s j)) = g (x_thr s i) + (\<Sum>j\<in>{..<n} - {i}. g (x_thr s j))"
    using assms by (subst sum.remove [of _ i]) auto
  ultimately show ?thesis by (simp add: set_thr_def)
qed

lemma smx_count_update:
  assumes count: "smx_count n s" and i: "i < n" and thr: "x_thr s' = x_thr s"
    and moved: "x_lockers s' + of_nat (locker_count (x_thr s i) + x_leaks s) =
      x_lockers s + of_nat (locker_count t + x_leaks s')"
  shows "smx_count n (set_thr i t s')"
proof -
  let ?S = "\<lambda>s. \<Sum>j<n. locker_count (x_thr s j)"
  have sum: "?S (set_thr i t s') + locker_count (x_thr s i) = ?S s + locker_count t"
    using sum_set_thr [OF i, of locker_count t s'] thr by simp
  have "x_lockers s' + of_nat (locker_count (x_thr s i) + x_leaks s) =
      of_nat (?S s + locker_count t) + of_nat (x_leaks s + x_leaks s')"
    using moved count by (simp add: smx_count_def)
  also have "\<dots> = of_nat (?S (set_thr i t s') + x_leaks s') + of_nat (locker_count (x_thr s i) + x_leaks s)"
    unfolding sum [symmetric] by simp
  finally show ?thesis by (simp add: smx_count_def) (simp add: set_thr_def)
qed

lemma smx_count_if:
  "(b \<Longrightarrow> smx_count n x) \<Longrightarrow> (\<not> b \<Longrightarrow> smx_count n y) \<Longrightarrow> smx_count n (if b then x else y)"
  by simp

lemmas count_simps = smx_simps locker_count_def

lemma start_count:
  assumes count: "smx_count n s" and i: "i < n" and idle: "t_place (x_thr s i) = Idle"
  shows "smx_count n (request_start i s) \<and> smx_count n (try_start i s) \<and> smx_count n (release_start i s)"
  unfolding request_start_def try_start_def release_start_def Let_def
  by (intro conjI smx_count_if smx_count_update [OF count i]; use idle in \<open>force simp: count_simps\<close>)

lemma wait_count:
  assumes count: "smx_count n s" and i: "i < n" and sleep: "t_place (x_thr s i) = Req_sleep k"
  shows "smx_count n (wait_ok i m s) \<and> smx_count n (wait_failed i rc s) \<and>
    smx_count n (wait_interrupted i m s)"
  unfolding wait_ok_def wait_failed_def wait_interrupted_def
  by (intro conjI smx_count_update [OF count i]; use sleep in \<open>force simp: count_simps\<close>)

lemma run_count:
  assumes count: "smx_count n s" and i: "i < n" and inv: "smx_inv fl c s"
  shows "smx_count n (run_step i s)"
proof -
  note facts = smx_inv_thr(1,2) [OF inv, of i]
  show ?thesis
    unfolding run_step_def Let_def
    by (split place.split)
      (intro conjI allI impI count smx_count_if smx_count_update [OF count i];
        use facts in \<open>force simp: count_simps\<close>)
qed

section \<open>Wake-ups\<close>

text \<open>
  The threads that will go to sleep or sleep, having found the mutex owned, and the threads that
  will see to them: one that releases, or one that contends for the mutex itself.
\<close>

fun sleepy :: "place \<Rightarrow> bool" where
  "sleepy (Req_check n) = True" | "sleepy (Req_sleep n) = True" | "sleepy _ = False"

fun rescuer :: "place \<Rightarrow> bool" where
  "rescuer Rel_count = True" | "rescuer Rel_signal = True" | "rescuer (Req_loop n) = True"
| "rescuer (Req_woken n) = True" | "rescuer _ = False"

definition rescued :: "nat \<Rightarrow> spinmtx \<Rightarrow> bool" where
  "rescued n s \<longleftrightarrow> x_event s \<or> x_owner s \<noteq> None \<or> (\<exists>u<n. rescuer (t_place (x_thr s u)))"

definition smx_wake :: "nat \<Rightarrow> spinmtx \<Rightarrow> bool" where
  "smx_wake n s \<longleftrightarrow> (x_magic s = RTSEMSPINMUTEX_MAGIC \<and> (\<exists>i<n. sleepy (t_place (x_thr s i))) \<longrightarrow>
     rescued n s)"

lemma wake_update:
  assumes wake: "smx_wake n s" and i: "i < n" and thr: "x_thr s' = x_thr s"
    and cond: "x_event s' \<or> x_owner s' \<noteq> None \<or> rescuer (t_place t) \<or> x_magic s' \<noteq> RTSEMSPINMUTEX_MAGIC \<or>
      x_magic s' = x_magic s \<and> x_event s' = x_event s \<and> x_owner s' = x_owner s \<and>
      \<not> rescuer (t_place (x_thr s i)) \<and> (sleepy (t_place t) \<longrightarrow> sleepy (t_place (x_thr s i)))"
  shows "smx_wake n (set_thr i t s')"
proof (cases "x_event s' \<or> x_owner s' \<noteq> None \<or> rescuer (t_place t) \<or> x_magic s' \<noteq> RTSEMSPINMUTEX_MAGIC")
  case True
  then show ?thesis using i by (auto simp: smx_wake_def rescued_def set_thr_def)
next
  case False
  then have same: "x_magic s' = x_magic s" "x_event s' = x_event s" "x_owner s' = x_owner s"
      "\<not> rescuer (t_place (x_thr s i))" "sleepy (t_place t) \<longrightarrow> sleepy (t_place (x_thr s i))"
    using cond by blast+
  have eq: "x_thr (set_thr i t s') j = (if j = i then t else x_thr s j)" for j
    by (simp add: set_thr_def thr)
  have "rescued n s" if "\<exists>j<n. sleepy (t_place (x_thr (set_thr i t s') j))"
    using that wake False same i unfolding smx_wake_def by (auto simp: eq split: if_splits)
  moreover have "rescued n (set_thr i t s')" if "rescued n s"
  proof -
    from that False same(2,3) obtain u where "u < n" "rescuer (t_place (x_thr s u))"
      by (auto simp: rescued_def)
    moreover from this have "u \<noteq> i" using same(4) by blast
    ultimately show ?thesis by (auto simp: rescued_def eq)
  qed
  ultimately show ?thesis by (auto simp: smx_wake_def)
qed

lemma smx_wake_if:
  "(b \<Longrightarrow> smx_wake n x) \<Longrightarrow> (\<not> b \<Longrightarrow> smx_wake n y) \<Longrightarrow> smx_wake n (if b then x else y)"
  by simp

text \<open>A release that finds no other contender leaves nobody asleep.\<close>

lemma last_release:
  assumes count: "smx_count n s" and few: "2 * n + x_leaks s < 2 ^ 32"
    and i: "i < n" "t_place (x_thr s i) = Rel_count" and zero: "x_lockers s - 1 = 0"
    and j: "j < n" "sleepy (t_place (x_thr s j))"
  shows "False"
proof -
  let ?S = "\<Sum>k<n. locker_count (x_thr s k)"
  have "?S \<le> (\<Sum>k<n. 2)" by (rule sum_mono) (simp add: locker_count_def)
  then have small: "?S + x_leaks s < 2 ^ 32" using few by simp
  have ne: "i \<noteq> j" using i j by auto
  have "1 + 1 \<le> (\<Sum>k\<in>{i, j}. locker_count (x_thr s k))"
    using i j ne by (cases "t_place (x_thr s j)") (auto simp: locker_count_def)
  also have "\<dots> \<le> ?S" using i(1) j(1) by (intro sum_mono2) auto
  finally have two: "2 \<le> ?S" by simp
  have "unat (x_lockers s) = ?S + x_leaks s"
    using count small by (simp add: smx_count_def unat_of_nat del: of_nat_add)
  moreover have "x_lockers s = 1" using zero by simp
  ultimately show False using two by simp
qed

lemma run_wake:
  assumes wake: "smx_wake n s" and count: "smx_count n s" and inv: "smx_inv fl c s"
    and few: "2 * n + x_leaks s < 2 ^ 32" and i: "i < n"
  shows "smx_wake n (run_step i s)"
proof (cases "t_place (x_thr s i) = Rel_count \<and> x_lockers s - 1 = 0")
  case True
  then show ?thesis
    using last_release [OF count few i] i
    by (force simp: run_step_def smx_wake_def set_thr_def return_rc_def rtSemSpinMutexLeave_def Let_def
        split: if_splits)
next
  case False
  then have n: "t_place (x_thr s i) = Rel_count \<longrightarrow> x_lockers s - 1 > 0" by (simp add: word_gt_0)
  note facts = smx_inv_thr(1,2) [OF inv, of i]
  show ?thesis
    unfolding run_step_def Let_def
    by (split place.split)
      (intro conjI allI impI wake smx_wake_if wake_update [OF wake i];
        use facts n in \<open>force simp: smx_simps\<close>)
qed

lemma start_wake:
  assumes "smx_wake n s" "i < n" "t_place (x_thr s i) = Idle"
  shows "smx_wake n (request_start i s) \<and> smx_wake n (try_start i s) \<and> smx_wake n (release_start i s)"
  unfolding request_start_def try_start_def release_start_def Let_def
  by (intro conjI smx_wake_if wake_update [OF assms(1,2)]; use assms(3) in \<open>force simp: smx_simps\<close>)

lemma wait_wake:
  assumes "smx_wake n s" "i < n" "t_place (x_thr s i) = Req_sleep k"
  shows "smx_wake n (wait_ok i m s) \<and> smx_wake n (wait_failed i rc s) \<and> smx_wake n (wait_interrupted i m s)"
  unfolding wait_ok_def wait_failed_def wait_interrupted_def
  by (intro conjI wake_update [OF assms(1,2)]; use assms(3) in \<open>force simp: smx_simps\<close>)

section \<open>Reachable states\<close>

lemma step_count: "smx_step n s s' \<Longrightarrow> smx_count n s \<Longrightarrow> smx_inv fl c s \<Longrightarrow> smx_count n s'"
  by (erule smx_step.cases)
    (simp_all add: start_count wait_count run_count,
     simp add: RTSemSpinMutexDestroy_def smx_count_def)

lemma step_leaks: "smx_step n s s' \<Longrightarrow> x_leaks s \<le> x_leaks s'"
  by (erule smx_step.cases)
    (simp_all add: request_start_def try_start_def release_start_def wait_ok_def wait_failed_def
      wait_interrupted_def RTSemSpinMutexDestroy_def run_step_def set_thr_def Let_def split: place.split)

lemma step_wake:
  assumes "smx_step n s s'" "smx_wake n s" "smx_count n s" "smx_inv fl c s"
    and "2 * n + x_leaks s < 2 ^ 32"
  shows "smx_wake n s'"
  using assms(1)
proof cases
  case (Run i)
  then show ?thesis using run_wake [OF assms(2-5)] by simp
next
  case Destroy
  then show ?thesis using assms(2) by (auto simp: RTSemSpinMutexDestroy_def smx_wake_def rescued_def)
qed (use assms(2) start_wake wait_wake in auto)

definition fresh_mutex :: "u32 \<Rightarrow> (nat \<Rightarrow> thr) \<Rightarrow> spinmtx \<Rightarrow> bool" where
  "fresh_mutex fl th s \<longleftrightarrow> idle_threads th \<and> RTSemSpinMutexCreate True VINF_SUCCESS fl th = Inr s"

lemma fresh_mutex_inv:
  assumes "fresh_mutex fl th s"
  shows "smx_inv fl (\<lambda>i. context_of (th i)) s" "smx_count n s" "smx_wake n s"
proof -
  show "smx_inv fl (\<lambda>i. context_of (th i)) s"
    using assms create_inv unfolding fresh_mutex_def by blast
  show "smx_count n s" "smx_wake n s"
    using assms by (auto simp: fresh_mutex_def RTSemSpinMutexCreate_def idle_threads_def smx_count_def
        locker_count_def smx_wake_def split: if_splits)
qed

lemma reach_count:
  assumes "smx_reach n s0 s" "fresh_mutex fl th s0"
  shows "smx_count n s"
  using assms(1)
proof induction
  case Start
  show ?case by (rule fresh_mutex_inv(2) [OF assms(2)])
next
  case (Step s s')
  show ?case
    by (rule step_count [OF Step.hyps(2) Step.IH reach_inv [OF Step.hyps(1) fresh_mutex_inv(1) [OF assms(2)]]])
qed

lemma reach_wake:
  assumes "smx_reach n s0 s" "fresh_mutex fl th s0" "2 * n + x_leaks s < 2 ^ 32"
  shows "smx_wake n s"
  using assms(1,3)
proof induction
  case Start
  show ?case by (rule fresh_mutex_inv(3) [OF assms(2)])
next
  case (Step s s')
  have few: "2 * n + x_leaks s < 2 ^ 32" using Step.prems step_leaks [OF Step.hyps(2)] by simp
  show ?case
    by (rule step_wake [OF Step.hyps(2) Step.IH [OF few] reach_count [OF Step.hyps(1) assms(2)]
          reach_inv [OF Step.hyps(1) fresh_mutex_inv(1) [OF assms(2)]] few])
qed

section \<open>A concrete run\<close>

definition thr0 :: thr where
  "thr0 = \<lparr>t_place = Idle, t_state = \<lparr>ss_flags = False, ss_spin = False, ss_valid = False\<rparr>, t_bad = False,
     t_held = False, t_rc = 0, t_irq = False, t_depth = 0, t_ints = True\<rparr>"

lemma thr0_idle [simp]: "t_place thr0 = Idle" "\<not> t_held thr0"
  by (simp_all add: thr0_def)

definition smx0 :: spinmtx where
  "smx0 = \<lparr>x_magic = RTSEMSPINMUTEX_MAGIC, x_flags = 1, x_owner = None, x_lockers = 0,
     x_event = False, x_saved = \<lparr>ss_flags = False, ss_spin = False, ss_valid = False\<rparr>,
     x_thr = (\<lambda>_. thr0), x_leaks = 0\<rparr>"

lemma smx0_fresh: "fresh_mutex 1 (\<lambda>_. thr0) smx0"
  by (simp add: fresh_mutex_def idle_threads_def thr0_def smx0_def RTSemSpinMutexCreate_def
      VINF_SUCCESS_def RT_SUCCESS_def)

lemma reach_run: "smx_reach n s0 s \<Longrightarrow> i < n \<Longrightarrow> smx_reach n s0 ((run_step i ^^ k) s)"
  by (induction k) (auto intro: smx_reach.Step smx_step.Run)

text \<open>Thread 0 takes the mutex, asks for it again, and releases it; thread 1 looks on.\<close>

definition smx1 :: spinmtx where "smx1 = (run_step 0 ^^ 3) (request_start 0 smx0)"
definition smx2 :: spinmtx where "smx2 = (run_step 0 ^^ 3) (request_start 0 smx1)"
definition smx3 :: spinmtx where "smx3 = (run_step 0 ^^ 3) (release_start 0 smx2)"

lemmas smx_run_simps = eval_nat_numeral request_start_def release_start_def try_start_def validate_handle_def
  run_step_def set_thr_def goto_def return_rc_def fail_leave_def rtSemSpinMutexEnter_def
  rtSemSpinMutexLeave_def Let_def

lemma smx1_eq: "smx1 = smx0\<lparr>x_owner := Some 0, x_lockers := 1,
    x_saved := \<lparr>ss_flags = True, ss_spin = False, ss_valid = True\<rparr>,
    x_thr := (\<lambda>_. thr0)(0 := thr0\<lparr>t_state := \<lparr>ss_flags = True, ss_spin = False, ss_valid = True\<rparr>,
      t_held := True, t_depth := 1, t_ints := False\<rparr>)\<rparr>"
  by (simp add: smx1_def smx0_def thr0_def smx_run_simps irq_safe_def preempt_is_enabled_def VINF_SUCCESS_def)

lemma smx2_eq: "smx2 = smx1\<lparr>x_lockers := 2, x_leaks := 1,
    x_thr := (\<lambda>_. thr0)(0 := thr0\<lparr>t_state := \<lparr>ss_flags = False, ss_spin = True, ss_valid = True\<rparr>,
      t_held := True, t_rc := VERR_SEM_NESTED, t_depth := 1, t_ints := False\<rparr>)\<rparr>"
  by (simp add: smx2_def smx1_eq smx0_def thr0_def smx_run_simps irq_safe_def preempt_is_enabled_def VINF_SUCCESS_def)

lemma smx3_eq: "smx3 = smx2\<lparr>x_owner := None, x_lockers := 1, x_event := True,
    x_thr := (\<lambda>_. thr0)(0 := thr0\<lparr>t_state := \<lparr>ss_flags = True, ss_spin = False, ss_valid = True\<rparr>\<rparr>)\<rparr>"
  by (simp add: smx3_def smx2_eq smx1_eq smx0_def thr0_def smx_run_simps VINF_SUCCESS_def VERR_SEM_NESTED_def word_gt_0)

lemma smx_states:
  "t_place (x_thr smx0 0) = Idle" "t_place (x_thr smx1 0) = Idle" "t_held (x_thr smx1 0)"
  "x_owner smx1 = Some 0" "x_magic smx1 = RTSEMSPINMUTEX_MAGIC" "t_place (x_thr smx2 0) = Idle"
  "t_place (x_thr smx1 (Suc 0)) = Idle" "x_thr smx1 (Suc 0) = thr0"
  "t_place (x_thr smx3 0) = Idle" "\<not> t_held (x_thr smx3 0)" "x_leaks smx3 = 1" "x_owner smx3 = None"
  "t_place (x_thr smx3 (Suc 0)) = Idle" "\<not> t_held (x_thr smx3 (Suc 0))"
  by (simp_all add: smx3_eq smx2_eq smx1_eq smx0_def thr0_def)

lemma smx_reachable: "smx_reach 2 smx0 smx1" "smx_reach 2 smx0 smx2" "smx_reach 2 smx0 smx3"
proof -
  have i: "(0::nat) < 2" by simp
  have "smx_reach 2 smx0 (request_start 0 smx0)"
    by (rule smx_reach.Step [OF smx_reach.Start smx_step.Request [OF i smx_states(1)]])
  then show 1: "smx_reach 2 smx0 smx1" unfolding smx1_def by (rule reach_run [OF _ i])
  have "smx_reach 2 smx0 (request_start 0 smx1)"
    by (rule smx_reach.Step [OF 1 smx_step.Request [OF i smx_states(2)]])
  then show 2: "smx_reach 2 smx0 smx2" unfolding smx2_def by (rule reach_run [OF _ i])
  have "smx_reach 2 smx0 (release_start 0 smx2)"
    by (rule smx_reach.Step [OF 2 smx_step.Release [OF i smx_states(6)]])
  then show "smx_reach 2 smx0 smx3" unfolding smx3_def by (rule reach_run [OF _ i])
qed

section \<open>Properties\<close>

text \<open>
  C5: Mutual exclusion: in every interleaving of any number of threads requesting, trying, releasing
  and even destroying the mutex, at most one thread holds it, and the owner field names it.
\<close>

theorem spin_mutual_exclusion:
  assumes "smx_reach n s0 s" "fresh_mutex fl th s0"
    and "t_held (x_thr s i)" "t_held (x_thr s j)"
  shows "i = j \<and> x_owner s = Some i"
proof -
  have "smx_inv fl (\<lambda>i. context_of (th i)) s"
    by (rule reach_inv [OF assms(1) fresh_mutex_inv(1) [OF assms(2)]])
  from smx_inv_thr(1) [OF this, of i] smx_inv_thr(1) [OF this, of j] assms(3,4) show ?thesis
    by (auto simp: owning_def)
qed

theorem spin_mutual_exclusion_witness:
  "x_owner smx1 = Some 0"
  using spin_mutual_exclusion [OF smx_reachable(1) smx0_fresh smx_states(3) smx_states(3)] by simp

text \<open>
  C29: Every operation gives the CPU context back: whenever a thread is outside the operations, its
  preemption depth and interrupt flag are what they were before it first called, with one more
  preemption level, and interrupts off for an IRQ-safe mutex, exactly while it holds the mutex;
  failed requests, nested ones and waits that fail included.
\<close>

theorem spin_context_restored:
  assumes "smx_reach n s0 s" "fresh_mutex fl th s0" "t_place (x_thr s i) = Idle"
  shows "context_of (x_thr s i) =
    (if t_held (x_thr s i) then (Suc (t_depth (th i)), t_ints (th i) \<and> \<not> irq_safe fl)
     else (t_depth (th i), t_ints (th i)))"
proof -
  have "smx_inv fl (\<lambda>i. context_of (th i)) s"
    by (rule reach_inv [OF assms(1) fresh_mutex_inv(1) [OF assms(2)]])
  from smx_inv_thr(3) [OF this, of i] assms(3) show ?thesis
    by (auto simp: ctx_ok_def Let_def entered_def context_of_def split: if_splits)
qed

theorem spin_context_restored_witness:
  "context_of (x_thr smx1 0) = (1, False) \<and> context_of (x_thr smx3 0) = (0, True)"
  using spin_context_restored [OF smx_reachable(1) smx0_fresh smx_states(2)]
    spin_context_restored [OF smx_reachable(3) smx0_fresh smx_states(9)]
  by (simp add: smx_states thr0_def irq_safe_def)

text \<open>
  C26: No wake-up is lost: as long as the mutex is not destroyed and threads and failed requests
  number less than \<open>2 ^ 32\<close>, whenever a thread sleeps on the event, the event is signalled, or the
  mutex is owned, or another thread is on its way to signal or contends for the mutex itself.
\<close>

theorem spin_no_lost_wakeup:
  assumes "smx_reach n s0 s" "fresh_mutex fl th s0" "2 * n + x_leaks s < 2 ^ 32"
    and "x_magic s = RTSEMSPINMUTEX_MAGIC" "i < n" "t_place (x_thr s i) = Req_sleep k"
  shows "x_event s \<or> x_owner s \<noteq> None \<or> (\<exists>u<n. rescuer (t_place (x_thr s u)))"
  using reach_wake [OF assms(1-3)] assms(4-6) unfolding smx_wake_def rescued_def
  by (metis sleepy.simps(2))

text \<open>Thread 1 spins 16 times on the owned mutex and goes to sleep.\<close>

definition smx_asleep :: spinmtx where
  "smx_asleep = run_step 1 (run_step 1 ((run_step 1 ^^ 30) ((run_step 1 ^^ 3) (request_start 1 smx1))))"

definition smx_spins :: "u32 \<Rightarrow> spinmtx" where
  "smx_spins k = smx1\<lparr>x_lockers := 2, x_thr := (x_thr smx1)(1 := thr0\<lparr>
     t_state := \<lparr>ss_flags = True, ss_spin = False, ss_valid = True\<rparr>, t_place := Req_loop k,
     t_depth := 1, t_ints := False\<rparr>)\<rparr>"

lemma smx_spins_start: "(run_step 1 ^^ 3) (request_start 1 smx1) = smx_spins 0"
  by (simp add: smx_spins_def smx1_eq smx0_def thr0_def smx_run_simps irq_safe_def preempt_is_enabled_def
      VINF_SUCCESS_def)

lemma smx_spins_step:
  "k AND 15 \<noteq> 15 \<Longrightarrow> run_step 1 (run_step 1 (smx_spins k)) = smx_spins (k + 1)"
  by (simp add: smx_spins_def smx1_eq smx0_def thr0_def run_step_def set_thr_def goto_def Let_def)

lemma smx_spins_many: "m \<le> 15 \<Longrightarrow> (run_step 1 ^^ (2 * m)) (smx_spins 0) = smx_spins (of_nat m)"
proof (induction m)
  case 0
  then show ?case by simp
next
  case (Suc m)
  have "m \<in> {0, 1, 2, 3, 4, 5, 6, 7, 8, 9, 10, 11, 12, 13, 14}"
    using Suc.prems by (simp only: insert_iff empty_iff) presburger
  then have "(of_nat m :: u32) AND 15 \<noteq> 15" by auto
  then show ?case
    using Suc smx_spins_step [of "of_nat m"] by (simp add: add.commute)
qed

lemma smx_asleep: "t_place (x_thr smx_asleep 1) = Req_sleep 15" "x_magic smx_asleep = RTSEMSPINMUTEX_MAGIC"
    "x_leaks smx_asleep = 0"
proof -
  have "(run_step 1 ^^ 30) ((run_step 1 ^^ 3) (request_start 1 smx1)) = smx_spins 15"
    using smx_spins_many [of 15] unfolding smx_spins_start by simp
  then have eq: "smx_asleep = run_step 1 (run_step 1 (smx_spins 15))"
    by (simp only: smx_asleep_def)
  show "t_place (x_thr smx_asleep 1) = Req_sleep 15" "x_magic smx_asleep = RTSEMSPINMUTEX_MAGIC"
    "x_leaks smx_asleep = 0"
    unfolding eq
    by (simp_all add: smx_spins_def smx1_eq smx0_def thr0_def run_step_def set_thr_def goto_def
        rtSemSpinMutexLeave_def Let_def)
qed

lemma smx_asleep_reach: "smx_reach 2 smx0 smx_asleep"
proof -
  have i: "(1::nat) < 2" and "t_place (x_thr smx1 1) = Idle" by (simp_all add: smx_states)
  then have start: "smx_reach 2 smx0 (request_start 1 smx1)"
    by (intro smx_reach.Step [OF smx_reachable(1)] smx_step.Request)
  show ?thesis unfolding smx_asleep_def
    by (intro smx_reach.Step [OF _ smx_step.Run [OF i]] reach_run start i)
qed

theorem spin_no_lost_wakeup_witness:
  "x_event smx_asleep \<or> x_owner smx_asleep \<noteq> None \<or> (\<exists>u<2. rescuer (t_place (x_thr smx_asleep u)))"
  using spin_no_lost_wakeup [OF smx_asleep_reach smx0_fresh _ smx_asleep(2) _ smx_asleep(1)]
  by (simp add: smx_asleep(3))

text \<open>
  The locker count of an idle mutex is the number of failed requests: when no thread is in an
  operation or holds the mutex, \<open>cLockers\<close> equals the number of requests that returned an error
  after counting themselves in, because none of those paths takes the count back. After one nested
  request it is 1 for ever, and \<open>RTSemSpinMutexDestroy\<close>'s assertion that it is 0 fails.
\<close>

theorem spin_lockers_leak:
  assumes "smx_reach n s0 s" "fresh_mutex fl th s0"
    and "\<forall>i<n. t_place (x_thr s i) = Idle \<and> \<not> t_held (x_thr s i)"
  shows "x_lockers s = of_nat (x_leaks s)"
proof -
  have "(\<Sum>i<n. locker_count (x_thr s i)) = 0"
    using assms(3) by (intro sum.neutral) (auto simp: locker_count_def)
  then show ?thesis using reach_count [OF assms(1,2)] unfolding smx_count_def by simp
qed

theorem spin_lockers_leak_witness:
  "x_lockers smx3 = 1 \<and> x_owner smx3 = None"
proof -
  have "\<forall>i<2. t_place (x_thr smx3 i) = Idle \<and> \<not> t_held (x_thr smx3 i)"
    by (auto simp: less_2_cases_iff smx_states)
  from spin_lockers_leak [OF smx_reachable(3) smx0_fresh this] show ?thesis
    by (simp add: smx_states)
qed

text \<open>
  \<open>RTSemSpinMutexTryRequest\<close> decides by the owner field alone: run undisturbed on a live mutex
  it takes a free one, and on one owned by another thread (or by the caller) it returns
  \<open>VERR_SEM_BUSY\<close> (or \<open>VERR_SEM_NESTED\<close>) with owner, count and saved state untouched and the
  caller's context restored.
\<close>

theorem spin_try_request:
  assumes "x_magic s = RTSEMSPINMUTEX_MAGIC" "t_place (x_thr s i) = Idle"
  shows "case x_owner s of
      None \<Rightarrow> (let s' = (run_step i ^^ 3) (try_start i s) in
        t_place (x_thr s' i) = Idle \<and> t_held (x_thr s' i) \<and> t_rc (x_thr s' i) = VINF_SUCCESS \<and>
        x_owner s' = Some i \<and> x_lockers s' = x_lockers s + 1)
    | Some j \<Rightarrow> (let s' = (run_step i ^^ 2) (try_start i s) in
        t_place (x_thr s' i) = Idle \<and> t_held (x_thr s' i) = t_held (x_thr s i) \<and>
        t_rc (x_thr s' i) = (if j = i then VERR_SEM_NESTED else VERR_SEM_BUSY) \<and>
        x_owner s' = x_owner s \<and> x_lockers s' = x_lockers s \<and> x_saved s' = x_saved s \<and>
        context_of (x_thr s' i) = context_of (x_thr s i))"
  using assms
  by (cases "x_owner s")
    (auto simp: eval_nat_numeral try_start_def validate_handle_def run_step_def set_thr_def goto_def
      return_rc_def fail_leave_def rtSemSpinMutexEnter_def rtSemSpinMutexLeave_def context_of_def Let_def)

theorem spin_try_request_witness:
  "t_rc (x_thr ((run_step 1 ^^ 2) (try_start 1 smx1)) 1) = VERR_SEM_BUSY"
proof -
  have "t_place (x_thr smx1 1) = Idle" by (simp add: smx_states)
  from spin_try_request [OF smx_states(5) this] show ?thesis
    by (simp add: smx_states(4) Let_def)
qed

end
