(* ===== verification/Quad.thy ===== *)
theory Quad
  imports Prelude
begin

text \<open>
  The 64-bit integer routines IPRT carries for compilers that call them on 32-bit hosts
  (\<open>Runtime/common/math/gcc/*.c\<close>): addition, subtraction, negation, the bitwise operations,
  comparison, shifts and multiplication. A \<open>quad_t\<close> or \<open>u_quad_t\<close> is its 64 bits; the two
  views \<open>ul[H]\<close> and \<open>ul[L]\<close> of \<open>union uu\<close> are \<open>ulH\<close> and \<open>ulL\<close>, and \<open>mkq\<close> is a quad from them.
  The theorems show that each routine is the operation on 64-bit words it stands for.
\<close>

section \<open>Halves\<close>

definition ulH :: "u64 \<Rightarrow> u32" where "ulH q = ucast (drop_bit 32 q)"
definition ulL :: "u64 \<Rightarrow> u32" where "ulL q = ucast q"
definition mkq :: "u32 \<Rightarrow> u32 \<Rightarrow> u64" where "mkq h l = push_bit 32 (ucast h) OR ucast l"

definition HHALF :: "u32 \<Rightarrow> u32" where "HHALF x = drop_bit 16 x"
definition LHALF :: "u32 \<Rightarrow> u32" where "LHALF x = x AND 0xffff"
definition LHUP :: "u32 \<Rightarrow> u32" where "LHUP x = push_bit 16 x"

abbreviation of_bool32 :: "bool \<Rightarrow> u32" where "of_bool32 \<equiv> of_bool"

lemma halves_mkq [simp]: "ulH (mkq h l) = h" "ulL (mkq h l) = l"
  unfolding ulH_def ulL_def mkq_def by (rule bit_word_eqI; auto simp: bit_simps dest: bit_imp_le_length)+

lemma mkq_halves [simp]: "mkq (ulH q) (ulL q) = q"
  unfolding ulH_def ulL_def mkq_def by (rule bit_word_eqI) (auto simp: bit_simps)

lemma mkq_inject [simp]: "mkq h l = mkq h' l' \<longleftrightarrow> h = h' \<and> l = l'"
  by (metis halves_mkq)

lemma unat_ucast_32 [simp]: "unat (ucast (x :: u32) :: u64) = unat x"
  using unsigned_less [of x, where 'a = nat] by (simp add: unsigned_ucast_eq take_bit_nat_eq_self)

text \<open>\<open>up x\<close> is \<open>x\<close> as the high half of a quad.\<close>

definition up :: "u32 \<Rightarrow> u64" where "up x = push_bit 32 (ucast x)"

lemma mkq_up: "mkq h l = up h + ucast l"
proof -
  have "push_bit 32 (ucast h :: u64) AND ucast l = 0"
    by (rule bit_word_eqI) (auto simp: bit_simps dest: bit_imp_le_length)
  then show ?thesis
    by (simp add: mkq_def up_def disjunctive_add_eq_or)
qed

lemma up_low: "up (ucast w) = push_bit 32 w"
  unfolding up_def by (rule bit_word_eqI) (auto simp: bit_simps)

lemma low_ring:
  "x + y = ucast (ucast x + ucast y :: u64)" "x - y = ucast (ucast x - ucast y :: u64)"
  "x * y = ucast (ucast x * ucast y :: u64)" for x y :: u32
proof -
  have m: "(a mod 18446744073709551616) mod 4294967296 = a mod 4294967296" for a :: int
    by (rule mod_mod_cancel) simp
  show "x + y = ucast (ucast x + ucast y :: u64)" "x - y = ucast (ucast x - ucast y :: u64)"
    "x * y = ucast (ucast x * ucast y :: u64)"
    by (simp_all add: word_uint_eq_iff unsigned_ucast_eq uint_word_ariths take_bit_eq_mod m mod_simps)
qed

lemma up_ring:
  "up (x + y) = up x + up y" "up (x - y) = up x - up y" "up (x * y) = up x * ucast y"
  "up (- x) = - up x" "up 0 = 0" "up 1 = 4294967296"
proof -
  show d: "up (x - y) = up x - up y" for x y
    unfolding low_ring(2) [of x y] up_low by (simp add: up_def push_bit_eq_mult algebra_simps)
  show "up (x + y) = up x + up y" "up (x * y) = up x * ucast y"
    unfolding low_ring [of x y] up_low by (simp_all add: up_def push_bit_eq_mult algebra_simps)
  show "up 0 = 0" "up 1 = 4294967296" by (simp_all add: up_def push_bit_eq_mult)
  then show "up (- x) = - up x" using d [of 0 x] by simp
qed

lemma up_up [simp]: "up x * up y = 0"
proof -
  have "up x * up y = push_bit 64 (ucast x * ucast y)"
    by (simp add: up_def push_bit_eq_mult)
  also have "\<dots> = 0" by (rule bit_word_eqI) (simp add: bit_simps)
  finally show ?thesis .
qed

lemma quad_halves: "q = up (ulH q) + ucast (ulL q)"
  by (metis mkq_halves mkq_up)

lemma unat_up_bool: "unat (up (of_bool p)) = (if p then 4294967296 else 0)"
  by (simp add: up_ring)

lemma unat_sum_small: "unat x + unat y < 18446744073709551616 \<Longrightarrow> unat (x + y) = unat x + unat y" for x y :: u64
  by (simp add: unat_word_ariths)

lemma carry_eq: "ucast (x + y) + up (of_bool (x + y < y)) = (ucast x + ucast y :: u64)" for x y :: u32
proof (rule word_unat_eq_iff [THEN iffD2])
  have b: "unat x < 4294967296" "unat y < 4294967296" "unat (x + y) < 4294967296"
    using unsigned_less [of x, where 'a = nat] unsigned_less [of y, where 'a = nat]
      unsigned_less [of "x + y", where 'a = nat] by simp_all
  have s: "unat (x + y) = (unat x + unat y) mod 4294967296" by (simp add: unat_word_ariths)
  have "unat (x + y) + (if x + y < y then 4294967296 else 0) = unat x + unat y"
  proof (cases "unat x + unat y < 4294967296")
    case True
    then show ?thesis using s by (simp add: word_less_nat_alt)
  next
    case False
    then have "unat (x + y) = unat x + unat y - 4294967296" using s b by (simp add: le_mod_geq)
    then show ?thesis using False b by (simp add: word_less_nat_alt)
  qed
  then show "unat (ucast (x + y) + up (of_bool (x + y < y))) = unat (ucast x + ucast y :: u64)"
    using b by (simp add: unat_sum_small unat_up_bool split: if_splits)
qed

lemma carry_add:
  "ucast (x + y) = (ucast x + ucast y - up (of_bool (x + y < y)) :: u64)" for x y :: u32
  using carry_eq [of x y] by (simp add: eq_diff_eq)

lemma carry_sym: "x + y < x \<longleftrightarrow> x + y < y" for x y :: u32
proof -
  have "up (of_bool (x + y < x)) = up (of_bool (x + y < y))"
    using carry_add [of x y] carry_add [of y x] by (simp add: add.commute)
  then have "unat (up (of_bool (x + y < x))) = unat (up (of_bool (x + y < y)))" by simp
  then show ?thesis by (simp add: unat_up_bool split: if_splits)
qed

lemma borrow_sub:
  "ucast (x - y) = (ucast x - ucast y + up (of_bool (x - y > x)) :: u64)" for x y :: u32
  using carry_add [of "x - y" y] carry_sym [of "x - y" y] by (simp add: algebra_simps)


section \<open>Addition, subtraction, negation, bitwise operations\<close>

definition adddi3 :: "u64 \<Rightarrow> u64 \<Rightarrow> u64" where
  "adddi3 a b =
     (let l = ulL a + ulL b in mkq (ulH a + ulH b + of_bool (l < ulL b)) l)"

definition subdi3 :: "u64 \<Rightarrow> u64 \<Rightarrow> u64" where
  "subdi3 a b =
     (let l = ulL a - ulL b in mkq (ulH a - ulH b - of_bool (l > ulL a)) l)"

definition negdi2 :: "u64 \<Rightarrow> u64" where
  "negdi2 a = (let l = - ulL a in mkq (- ulH a - of_bool (l > 0)) l)"

definition iordi3 :: "u64 \<Rightarrow> u64 \<Rightarrow> u64" where
  "iordi3 a b = mkq (ulH a OR ulH b) (ulL a OR ulL b)"

definition anddi3 :: "u64 \<Rightarrow> u64 \<Rightarrow> u64" where
  "anddi3 a b = mkq (ulH a AND ulH b) (ulL a AND ulL b)"

definition xordi3 :: "u64 \<Rightarrow> u64 \<Rightarrow> u64" where
  "xordi3 a b = mkq (ulH a XOR ulH b) (ulL a XOR ulL b)"

definition one_cmpldi2 :: "u64 \<Rightarrow> u64" where
  "one_cmpldi2 a = mkq (NOT (ulH a)) (NOT (ulL a))"

lemma adddi3_eq: "adddi3 a b = a + b"
proof -
  have "adddi3 a b = up (ulH a) + ucast (ulL a) + (up (ulH b) + ucast (ulL b))"
    by (simp add: adddi3_def Let_def mkq_up up_ring carry_add)
  then show ?thesis by (simp flip: quad_halves)
qed

lemma subdi3_eq: "subdi3 a b = a - b"
proof -
  have "subdi3 a b = up (ulH a) + ucast (ulL a) - (up (ulH b) + ucast (ulL b))"
    by (simp add: subdi3_def Let_def mkq_up up_ring borrow_sub)
  then show ?thesis by (simp flip: quad_halves)
qed

lemma negdi2_eq: "negdi2 a = - a"
proof -
  have "negdi2 a = subdi3 0 a"
    using halves_mkq [of 0 0] by (simp add: negdi2_def subdi3_def Let_def mkq_def)
  then show ?thesis by (simp add: subdi3_eq)
qed

lemma bitwise_eq:
  "iordi3 a b = a OR b" "anddi3 a b = a AND b" "xordi3 a b = a XOR b" "one_cmpldi2 a = NOT a"
  unfolding iordi3_def anddi3_def xordi3_def one_cmpldi2_def mkq_def ulH_def ulL_def
  by (rule bit_word_eqI; auto simp: bit_simps)+

section \<open>Comparison\<close>

text \<open>The signed high halves \<open>sl[H]\<close> are compared as signed integers.\<close>

definition cmpdi2 :: "u64 \<Rightarrow> u64 \<Rightarrow> int" where
  "cmpdi2 a b =
     (if sint (ulH a) < sint (ulH b) then 0 else if sint (ulH a) > sint (ulH b) then 2
      else if ulL a < ulL b then 0 else if ulL a > ulL b then 2 else 1)"

definition ucmpdi2 :: "u64 \<Rightarrow> u64 \<Rightarrow> int" where
  "ucmpdi2 a b =
     (if ulH a < ulH b then 0 else if ulH a > ulH b then 2
      else if ulL a < ulL b then 0 else if ulL a > ulL b then 2 else 1)"

definition order3 :: "int \<Rightarrow> int \<Rightarrow> int" where
  "order3 x y = (if x < y then 0 else if x > y then 2 else 1)"

lemma uint_halves: "uint q = uint (ulH q) * 4294967296 + uint (ulL q)"
proof -
  have q: "uint q < 18446744073709551616" using unsigned_less [of q, where 'a = int] by simp
  then have "uint q div 4294967296 < 4294967296" by linarith
  then have "uint (ulH q) = uint q div 4294967296" "uint (ulL q) = uint q mod 4294967296"
    using q
    by (simp_all only: ulH_def ulL_def unsigned_ucast_eq take_bit_eq_mod unsigned_drop_bit_eq)
      (simp_all add: drop_bit_eq_div pos_imp_zdiv_nonneg_iff)
  then show ?thesis by simp
qed

lemma sint_sign_bit:
  "sint (x :: u32) = uint x - 4294967296 * of_bool (bit x 31)"
  "sint (q :: u64) = uint q - 18446744073709551616 * of_bool (bit q 63)"
proof -
  have "take_bit 32 (uint x) = uint x" "take_bit 64 (uint q) = uint q"
    using unsigned_less [of x, where 'a = int] unsigned_less [of q, where 'a = int]
    by (simp_all add: take_bit_int_eq_self)
  then show "sint x = uint x - 4294967296 * of_bool (bit x 31)"
    "sint q = uint q - 18446744073709551616 * of_bool (bit q 63)"
    by (simp_all add: sint_uint signed_take_bit_eq_take_bit_minus bit_uint_iff)
qed

lemma sint_halves: "sint q = sint (ulH q) * 4294967296 + uint (ulL q)"
proof -
  have "bit (ulH q) 31 = bit q 63" by (simp add: ulH_def bit_simps)
  then show ?thesis using uint_halves [of q] by (simp add: sint_sign_bit algebra_simps)
qed

lemma compare_halves:
  fixes h h' l l' :: int
  assumes "0 \<le> l" "l < 4294967296" "0 \<le> l'" "l' < 4294967296"
  shows "order3 (h * 4294967296 + l) (h' * 4294967296 + l') =
    (if h < h' then 0 else if h > h' then 2 else if l < l' then 0 else if l > l' then 2 else 1)"
  using assms by (auto simp: order3_def)

lemma ucmpdi2_eq: "ucmpdi2 a b = order3 (uint a) (uint b)"
  using unsigned_less [of "ulL a", where 'a = int] unsigned_less [of "ulL b", where 'a = int]
  unfolding uint_halves [of a] uint_halves [of b] ucmpdi2_def
  by (subst compare_halves) (simp_all add: word_less_def)

lemma cmpdi2_eq: "cmpdi2 a b = order3 (sint a) (sint b)"
  using unsigned_less [of "ulL a", where 'a = int] unsigned_less [of "ulL b", where 'a = int]
  unfolding sint_halves [of a] sint_halves [of b] cmpdi2_def
  by (subst compare_halves) (simp_all add: word_less_def)


section \<open>Shifts\<close>

text \<open>A shift count is a \<open>qshift_t\<close>, of 32 bits; C leaves a shift by the width or more open.\<close>

definition ashldi3 :: "u64 \<Rightarrow> nat \<Rightarrow> u64" where
  "ashldi3 a shift =
     (if shift = 0 then a
      else if shift \<ge> 32 then mkq (push_bit (shift - 32) (ulL a)) 0
      else mkq (push_bit shift (ulH a) OR drop_bit (32 - shift) (ulL a)) (push_bit shift (ulL a)))"

definition lshldi3 :: "u64 \<Rightarrow> nat \<Rightarrow> u64" where
  "lshldi3 a shift =
     (if shift = 0 then a
      else if shift \<ge> 32 then mkq (push_bit (shift - 32) (ulL a)) 0
      else mkq (push_bit shift (ulH a) OR drop_bit (32 - shift) (ulL a)) (push_bit shift (ulL a)))"

definition lshrdi3 :: "u64 \<Rightarrow> nat \<Rightarrow> u64" where
  "lshrdi3 a shift =
     (if shift = 0 then a
      else if shift \<ge> 32 then mkq 0 (drop_bit (shift - 32) (ulH a))
      else mkq (drop_bit shift (ulH a)) (drop_bit shift (ulL a) OR push_bit (32 - shift) (ulH a)))"

definition ashrdi3 :: "u64 \<Rightarrow> nat \<Rightarrow> u64" where
  "ashrdi3 a shift =
     (if shift = 0 then a
      else if shift \<ge> 32 then
        mkq (signed_drop_bit 1 (signed_drop_bit 31 (ulH a))) (signed_drop_bit (shift - 32) (ulH a))
      else mkq (signed_drop_bit shift (ulH a)) (drop_bit shift (ulL a) OR push_bit (32 - shift) (ulH a)))"

lemma bit_less: "bit w n \<Longrightarrow> n < LENGTH('a)" for w :: "'a::len word"
  by (rule bit_imp_le_length)

lemma shift_left_eq: "ashldi3 a n = push_bit n a" "lshldi3 a n = push_bit n a"
proof -
  have "mkq (push_bit (n - 32) (ulL a)) 0 = push_bit n a" if "32 \<le> n"
    unfolding mkq_def ulL_def using that
    by (intro bit_word_eqI) (auto simp: bit_simps)
  moreover have "mkq (push_bit n (ulH a) OR drop_bit (32 - n) (ulL a)) (push_bit n (ulL a)) = push_bit n a"
    if "n < 32" "0 < n"
    unfolding mkq_def ulL_def ulH_def using that
    by (intro bit_word_eqI) (auto simp: bit_simps dest: bit_less)
  ultimately show "ashldi3 a n = push_bit n a" "lshldi3 a n = push_bit n a"
    by (simp_all add: ashldi3_def lshldi3_def)
qed

lemma shift_right_eq: "lshrdi3 a n = drop_bit n a"
proof -
  have "mkq 0 (drop_bit (n - 32) (ulH a)) = drop_bit n a" if "32 \<le> n"
    unfolding mkq_def ulH_def using that
    by (intro bit_word_eqI, rename_tac k, case_tac "k < 32")
      (auto simp: bit_simps add.commute [of _ n] not_less dest: bit_less)
  moreover have "mkq (drop_bit n (ulH a)) (drop_bit n (ulL a) OR push_bit (32 - n) (ulH a)) = drop_bit n a"
    if "n < 32" "0 < n"
    unfolding mkq_def ulL_def ulH_def using that
    by (intro bit_word_eqI, rename_tac k, case_tac "k < 32")
      (auto simp: bit_simps add.commute [of _ n] not_less dest: bit_less)
  ultimately show ?thesis by (simp add: lshrdi3_def)
qed

lemma shift_arith_eq: "n < 64 \<Longrightarrow> ashrdi3 a n = signed_drop_bit n a"
proof -
  have "mkq (signed_drop_bit 1 (signed_drop_bit 31 (ulH a))) (signed_drop_bit (n - 32) (ulH a)) =
      signed_drop_bit n a" if "32 \<le> n" "n < 64"
    unfolding mkq_def ulH_def using that
    by (intro bit_word_eqI, rename_tac k, case_tac "k < 32")
      (auto simp: bit_simps bit_signed_drop_bit_iff add.commute [of _ n] not_less dest: bit_less)
  moreover have "mkq (signed_drop_bit n (ulH a)) (drop_bit n (ulL a) OR push_bit (32 - n) (ulH a)) =
      signed_drop_bit n a" if "n < 32" "0 < n"
    unfolding mkq_def ulL_def ulH_def using that
    by (intro bit_word_eqI, rename_tac k, case_tac "k < 32")
      (auto simp: bit_simps bit_signed_drop_bit_iff add.commute [of _ n] not_less dest: bit_less)
  moreover assume "n < 64"
  ultimately show ?thesis by (simp add: ashrdi3_def)
qed

section \<open>Multiplication\<close>

text \<open>\<open>__lmulq\<close>: two \<open>u_int\<close>s to a quad, Karatsuba on 16-bit halves.\<close>

definition lmulq :: "u32 \<Rightarrow> u32 \<Rightarrow> u64" where
  "lmulq u v =
     (let u1 = HHALF u; u0 = LHALF u; v1 = HHALF v; v0 = LHALF v; low = u0 * v0
      in if u1 = 0 \<and> v1 = 0 then ucast low
         else
           let (udiff, neg) = (if u1 \<ge> u0 then (u1 - u0, False) else (u0 - u1, True));
               (vdiff, neg) = (if v0 \<ge> v1 then (v0 - v1, neg) else (v1 - v0, \<not> neg));
               mid = udiff * vdiff; high = u1 * v1;
               prodh = high + HHALF high; prodl = LHUP high;
               (prodh, prodl) =
                 (if neg then
                    let was = prodl; prodl = prodl - LHUP mid
                    in (prodh - (HHALF mid + of_bool (prodl > was)), prodl)
                  else
                    let was = prodl; prodl = prodl + LHUP mid
                    in (prodh + (HHALF mid + of_bool (prodl < was)), prodl));
               was = prodl; prodl = prodl + LHUP low;
               prodh = prodh + (HHALF low + of_bool (prodl < was));
               prodl = prodl + low;
               prodh = (if prodl < low then prodh + 1 else prodh)
           in mkq prodh prodl)"

definition muldi3 :: "u64 \<Rightarrow> u64 \<Rightarrow> u64" where
  "muldi3 a b =
     (let (u, negall) = (if sint a \<ge> 0 then (a, False) else (- a, True));
          (v, negall) = (if sint b \<ge> 0 then (b, negall) else (- b, \<not> negall));
          u1 = ulH u; u0 = ulL u; v1 = ulH v; v0 = ulL v;
          prod =
            (if u1 = 0 \<and> v1 = 0 then lmulq u0 v0
             else
               let low = lmulq u0 v0;
                   (udiff, negmid) = (if u1 \<ge> u0 then (u1 - u0, False) else (u0 - u1, True));
                   (vdiff, negmid) = (if v0 \<ge> v1 then (v0 - v1, negmid) else (v1 - v0, \<not> negmid));
                   mid = udiff * vdiff; high = u1 * v1
               in mkq (high + (if negmid then - mid else mid) + ulL low + ulH low) (ulL low))
      in if negall then - prod else prod)"


text \<open>The product of differences of halves, as the code forms it from absolute values.\<close>

definition signed_prod :: "u32 \<Rightarrow> u32 \<Rightarrow> u32 \<Rightarrow> u32 \<Rightarrow> bool \<times> u32" where
  "signed_prod a b c d =
     (let (x, neg) = (if a \<ge> b then (a - b, False) else (b - a, True));
          (y, neg) = (if c \<ge> d then (c - d, neg) else (d - c, \<not> neg))
      in (neg, x * y))"

lemma signed_prod_value:
  "(if fst (signed_prod a b c d) then - snd (signed_prod a b c d) else snd (signed_prod a b c d)) =
   (a - b) * (c - d)"
  by (simp add: signed_prod_def algebra_simps)

lemma muldi3_eq: "muldi3 a b = a * b"
  if lmulq: "\<And>u v. lmulq u v = ucast u * ucast v"
proof -
  define prod where "prod u v =
     (if ulH u = 0 \<and> ulH v = 0 then lmulq (ulL u) (ulL v)
      else mkq (ulH u * ulH v + (ulH u - ulL u) * (ulL v - ulH v) +
             ulL (lmulq (ulL u) (ulL v)) + ulH (lmulq (ulL u) (ulL v)))
           (ulL (lmulq (ulL u) (ulL v))))" for u v
  have run: "muldi3 a b =
    (let (u, negall) = (if sint a \<ge> 0 then (a, False) else (- a, True));
         (v, negall) = (if sint b \<ge> 0 then (b, negall) else (- b, \<not> negall))
     in if negall then - prod u v else prod u v)"
    by (simp add: muldi3_def prod_def Let_def algebra_simps split: prod.split)
  have "prod u v = u * v" for u v
  proof (cases "ulH u = 0 \<and> ulH v = 0")
    case True
    then have "u = ucast (ulL u)" "v = ucast (ulL v)"
      using quad_halves [of u] quad_halves [of v] by (simp_all add: up_ring)
    then show ?thesis using True lmulq by (simp add: prod_def)
  next
    case False
    let ?low = "ucast (ulL u) * ucast (ulL v) :: u64"
    have l: "ulL ?low = ulL u * ulL v" by (simp add: ulL_def flip: low_ring(3))
    have m: "prod u v = mkq (ulH u * ulH v + (ulH u - ulL u) * (ulL v - ulH v) + ulL u * ulL v + ulH ?low)
        (ulL ?low)"
      unfolding prod_def if_not_P [OF False] lmulq l ..
    have e: "ulH u * ulH v + (ulH u - ulL u) * (ulL v - ulH v) + ulL u * ulL v = ulH u * ulL v + ulH v * ulL u"
      by (simp add: algebra_simps)
    have "prod u v = up (ulH u * ulL v + ulH v * ulL u) + (up (ulH ?low) + ucast (ulL ?low))"
      unfolding m e by (simp only: mkq_up up_ring(1) add.assoc)
    also have "\<dots> = up (ulH u) * ucast (ulL v) + up (ulH v) * ucast (ulL u) + ?low"
      by (simp only: quad_halves [of ?low, symmetric] up_ring(1,3))
    also have "\<dots> = (up (ulH u) + ucast (ulL u)) * (up (ulH v) + ucast (ulL v))"
      by (simp add: algebra_simps)
    finally show ?thesis by (simp flip: quad_halves)
  qed
  then show ?thesis unfolding run by simp
qed


lemma unat_halves: "unat (HHALF x) = unat x div 65536" "unat (LHALF x) = unat x mod 65536"
proof -
  have "LHALF x = take_bit 16 x" by (simp add: LHALF_def take_bit_eq_mask mask_numeral)
  then show "unat (LHALF x) = unat x mod 65536" by (simp only: unsigned_take_bit_eq) (simp add: take_bit_eq_mod)
  show "unat (HHALF x) = unat x div 65536"
    unfolding HHALF_def by (subst unat_drop_bit_eq) (simp add: drop_bit_eq_div)
qed

lemma half_bound: "HHALF x < 65536" "LHALF x < 65536"
  using unsigned_less [of x, where 'a = nat]
  by (simp_all add: word_less_nat_alt unat_halves less_mult_imp_div_less)

lemma halves_eq: "ucast x = (ucast (HHALF x) * 65536 + ucast (LHALF x) :: u64)"
proof -
  have "unat x = unat (HHALF x) * 65536 + unat (LHALF x)" by (simp add: unat_halves)
  then have "of_nat (unat x) = (of_nat (unat (HHALF x) * 65536 + unat (LHALF x)) :: u64)" by simp
  then show ?thesis by simp
qed

lemma mult_exact:
  "x < 65536 \<Longrightarrow> y < 65536 \<Longrightarrow> ucast (x * y) = (ucast x * ucast y :: u64)" for x y :: u32
proof -
  assume "x < 65536" "y < 65536"
  then have "unat x < 65536" "unat y < 65536" by (simp_all add: word_less_nat_alt)
  then have "unat x * unat y < 65536 * 65536" by (intro mult_strict_mono) auto
  then show ?thesis by (simp add: word_unat_eq_iff unat_word_ariths)
qed

lemma shifted_half: "mkq (HHALF x) (LHUP x) = ucast x * 65536"
proof -
  have "mkq (HHALF x) (LHUP x) = push_bit 16 (ucast x)"
    unfolding mkq_def HHALF_def LHUP_def
    by (rule bit_word_eqI, rename_tac k, case_tac "k < 32") (auto simp: bit_simps not_less dest: bit_less)
  then show ?thesis by (simp add: push_bit_eq_mult)
qed

lemma mkq_add: "mkq (h + (h' + of_bool (l + l' < l))) (l + l') = mkq h l + mkq h' l'"
  using carry_sym [of l l'] by (simp add: mkq_up up_ring carry_add)

lemma mkq_sub: "mkq (h - (h' + of_bool (l - l' > l))) (l - l') = mkq h l - mkq h' l'"
  by (simp add: mkq_up up_ring borrow_sub)

lemma mkq_inc: "mkq (if l + l' < l' then h + 1 else h) (l + l') = mkq h l + ucast l'"
  by (simp add: mkq_up up_ring carry_add)

lemma ucast_diff: "b \<le> a \<Longrightarrow> ucast (a - b) = (ucast a - ucast b :: u64)" for a b :: u32
proof -
  assume "b \<le> a"
  then have "unat (a - b) = unat a - unat b" "unat b \<le> unat a" by (simp_all add: unat_sub word_le_nat_alt)
  then have "of_nat (unat (a - b)) = (of_nat (unat a) - of_nat (unat b) :: u64)" by (simp add: of_nat_diff)
  then show ?thesis by simp
qed

lemma signed_prod_wide:
  assumes "a < 65536" "b < 65536" "c < 65536" "d < 65536" "signed_prod a b c d = (neg, mid)"
  shows "(if neg then - ucast mid else ucast mid) = ((ucast a - ucast b) * (ucast c - ucast d) :: u64)"
proof -
  have s: "x - y < 65536" if "y \<le> x" "x < 65536" for x y :: u32
    using that by (meson le_less_trans word_sub_le)
  define x where "x = (if a \<ge> b then a - b else b - a)"
  define y where "y = (if c \<ge> d then c - d else d - c)"
  have "x < 65536" "y < 65536" using assms s by (auto simp: x_def y_def)
  then have "ucast (x * y) = (ucast x * ucast y :: u64)" by (rule mult_exact)
  moreover have "mid = x * y" "neg = ((a < b) \<noteq> (c < d))"
    using assms(5) by (auto simp: signed_prod_def x_def y_def split: if_splits)
  moreover have "ucast x = (if a < b then - (ucast a - ucast b) else ucast a - ucast b :: u64)"
      "ucast y = (if c < d then - (ucast c - ucast d) else ucast c - ucast d :: u64)"
    by (auto simp: x_def y_def ucast_diff not_le)
  ultimately show ?thesis by (auto simp: algebra_simps)
qed

lemma lmulq_unfold:
  assumes "\<not> (HHALF u = 0 \<and> HHALF v = 0)"
    and "signed_prod (HHALF u) (LHALF u) (LHALF v) (HHALF v) = (neg, mid)"
  shows "lmulq u v =
    (let high = HHALF u * HHALF v; low = LHALF u * LHALF v; prodl = LHUP high;
         (h, l) = (if neg then let l = prodl - LHUP mid in (high + HHALF high - (HHALF mid + of_bool (l > prodl)), l)
                   else let l = prodl + LHUP mid in (high + HHALF high + (HHALF mid + of_bool (l < prodl)), l));
         l' = l + LHUP low; h' = h + (HHALF low + of_bool (l' < l))
     in mkq (if l' + low < low then h' + 1 else h') (l' + low))"
  using assms
  by (cases "LHALF u \<le> HHALF u"; cases "HHALF v \<le> LHALF v")
    (simp_all only: lmulq_def signed_prod_def Let_def if_True if_False prod.case, simp_all)

lemma lmulq_eq: "lmulq u v = ucast u * ucast v"
proof -
  define u1 u0 v1 v0 where d: "u1 = HHALF u" "u0 = LHALF u" "v1 = HHALF v" "v0 = LHALF v"
  have b: "u1 < 65536" "u0 < 65536" "v1 < 65536" "v0 < 65536" by (simp_all add: d half_bound)
  have uv: "ucast u * ucast v = ((ucast u1 * 65536 + ucast u0) * (ucast v1 * 65536 + ucast v0) :: u64)"
    by (simp add: d flip: halves_eq)
  have low: "ucast (u0 * v0) = (ucast u0 * ucast v0 :: u64)" and high: "ucast (u1 * v1) = (ucast u1 * ucast v1 :: u64)"
    using b by (simp_all add: mult_exact)
  show ?thesis
  proof (cases "u1 = 0 \<and> v1 = 0")
    case True
    then show ?thesis using uv low by (simp add: lmulq_def Let_def flip: d)
  next
    case False
    obtain neg mid where mid: "signed_prod u1 u0 v0 v1 = (neg, mid)" by fastforce
    let ?h = "u1 * v1" and ?l = "u0 * v0"
    define h l where "h = (if neg then ?h + HHALF ?h - (HHALF mid + of_bool (LHUP ?h - LHUP mid > LHUP ?h))
        else ?h + HHALF ?h + (HHALF mid + of_bool (LHUP ?h + LHUP mid < LHUP ?h)))"
      and "l = (if neg then LHUP ?h - LHUP mid else LHUP ?h + LHUP mid)"
    have run: "lmulq u v = mkq
        (if l + LHUP ?l + ?l < ?l then h + (HHALF ?l + of_bool (l + LHUP ?l < l)) + 1
         else h + (HHALF ?l + of_bool (l + LHUP ?l < l))) (l + LHUP ?l + ?l)"
      using lmulq_unfold [OF False [unfolded d] mid [unfolded d]]
      by (cases neg) (simp_all add: Let_def h_def l_def flip: d)
    have "mkq h l = mkq (?h + HHALF ?h) (LHUP ?h) + (if neg then - ucast mid else ucast mid) * 65536"
      by (simp add: h_def l_def mkq_add mkq_sub shifted_half)
    also have "mkq (?h + HHALF ?h) (LHUP ?h) = up ?h + ucast ?h * 65536"
      using shifted_half [of ?h] by (simp add: mkq_up up_ring)
    also have "up ?h = ucast ?h * 4294967296" by (simp add: up_def push_bit_eq_mult)
    finally have hl: "mkq h l = ucast ?h * 4294967296 + ucast ?h * 65536 +
        (ucast u1 - ucast u0) * (ucast v0 - ucast v1) * 65536"
      unfolding signed_prod_wide [OF b(1,2,4,3) mid] .
    have "lmulq u v = mkq h l + ucast ?l * 65536 + ucast ?l"
      unfolding run mkq_inc mkq_add by (simp add: shifted_half)
    then show ?thesis
      unfolding hl uv low high by (simp add: algebra_simps)
  qed
qed


end
