(* ===== verification/QuadDiv.thy ===== *)
theory QuadDiv
  imports Quad "HOL-Library.Signed_Division"
begin

text \<open>
  64-bit division for 32-bit hosts (\<open>Runtime/common/math/gcc/qdivrem.c\<close> and its callers
  \<open>udivdi3.c\<close>, \<open>umoddi3.c\<close>, \<open>divdi3.c\<close>, \<open>moddi3.c\<close>): Knuth's Algorithm D on 16-bit digits, with
  the short division for a one-digit divisor. The arrays \<open>uspace\<close>, \<open>vspace\<close> and \<open>qspace\<close> are
  functions from indices to digits; \<open>junk\<close> is what the stack holds in them before. The pointers into
  them are offsets: \<open>v\<close> stands at \<open>4 - n\<close>, \<open>u\<close> at \<open>4 - n - m\<close> and \<open>q\<close> at \<open>4 - m\<close>.
\<close>

type_synonym digits = "nat \<Rightarrow> u16"

abbreviation "base \<equiv> (65536 :: nat)"

definition COMBINE :: "u32 \<Rightarrow> u32 \<Rightarrow> u32" where
  "COMBINE a b = push_bit 16 a OR b"

definition digit :: "u32 \<Rightarrow> u16" where "digit x = ucast x"

section \<open>The routine\<close>

definition split_quad :: "digits \<Rightarrow> u64 \<Rightarrow> digits" where
  "split_quad p q = p(1 := digit (HHALF (ulH q)), 2 := digit (LHALF (ulH q)),
     3 := digit (HHALF (ulL q)), 4 := digit (LHALF (ulL q)))"

definition join_quad :: "digits \<Rightarrow> u64" where
  "join_quad p = mkq (COMBINE (ucast (p 1)) (ucast (p 2))) (COMBINE (ucast (p 3)) (ucast (p 4)))"

text \<open>
  \<open>for (n = 4; v[1] == 0; v++) if (--n == 1) ...\<close>: \<open>None\<close> stands for the change of plan at
  \<open>n = 1\<close>.
\<close>

fun skip_v :: "digits \<Rightarrow> nat \<Rightarrow> nat option" where
  "skip_v v 0 = None"
| "skip_v v (Suc k) = (if v (4 - k) \<noteq> 0 then Some (Suc k) else if k = 1 then None else skip_v v k)"

definition short_div :: "digits \<Rightarrow> u32 \<Rightarrow> u64 \<times> u64" where
  "short_div u t =
     (let q1 = digit (ucast (u 1) div t); rbj = COMBINE (ucast (u 1) mod t) (ucast (u 2));
          q2 = digit (rbj div t); rbj = COMBINE (rbj mod t) (ucast (u 3));
          q3 = digit (rbj div t); rbj = COMBINE (rbj mod t) (ucast (u 4));
          q4 = digit (rbj div t)
      in (mkq (COMBINE (ucast q1) (ucast q2)) (COMBINE (ucast q3) (ucast q4)), ucast (rbj mod t)))"

text \<open>\<open>for (m = 4 - n; u[1] == 0; u++) m--;\<close>, which ends with \<open>m \<ge> 0\<close> when the dividend is not less.\<close>

fun skip_u :: "digits \<Rightarrow> nat \<Rightarrow> nat \<Rightarrow> nat" where
  "skip_u u n 0 = 0"
| "skip_u u n (Suc m) = (if u (4 - n - Suc m + 1) = 0 then skip_u u n m else Suc m)"

fun clear_q :: "nat \<Rightarrow> digits \<Rightarrow> digits" where
  "clear_q 0 q = q"
| "clear_q (Suc i) q = clear_q i (q(i := 0))"

text \<open>\<open>for (t = v[1]; t < B / 2; t <<= 1) d++;\<close>: 16 rounds are enough for a digit that is not 0.\<close>

fun shift_count :: "nat \<Rightarrow> u32 \<Rightarrow> nat" where
  "shift_count 0 t = 0"
| "shift_count (Suc k) t = (if t < 0x8000 then Suc (shift_count k (push_bit 1 t)) else 0)"

fun shl_digits :: "nat \<Rightarrow> nat \<Rightarrow> nat \<Rightarrow> digits \<Rightarrow> digits" where
  "shl_digits b 0 sh p = p(b := digit (LHALF (push_bit sh (ucast (p b)))))"
| "shl_digits b (Suc len) sh p =
     shl_digits (b + 1) len sh
       (p(b := digit (LHALF (push_bit sh (ucast (p b))) OR drop_bit (16 - sh) (ucast (p (b + 1))))))"

text \<open>D3. The loop is entered at its test, or at its body by the \<open>goto\<close>.\<close>

function qhat_loop :: "u32 \<Rightarrow> u32 \<Rightarrow> u32 \<Rightarrow> u32 \<Rightarrow> u32 \<Rightarrow> u32" where
  "qhat_loop v1 v2 uj2 qhat rhat =
     (if v2 * qhat > COMBINE rhat uj2 then
        let qhat = qhat - 1; rhat = rhat + v1
        in if rhat \<ge> 0x10000 then qhat else qhat_loop v1 v2 uj2 qhat rhat
      else qhat)"
  by pat_completeness auto

termination
proof (relation "measure (\<lambda>(_, _, _, qhat, _). unat qhat)")
  fix v1 v2 uj2 qhat rhat qhat' rhat' :: u32
  assume "COMBINE rhat uj2 < v2 * qhat" "qhat' = qhat - 1"
  then have "qhat \<noteq> 0" by auto
  then show "((v1, v2, uj2, qhat', rhat'), v1, v2, uj2, qhat, rhat) \<in> measure (\<lambda>(_, _, _, qhat, _). unat qhat)"
    using \<open>qhat' = qhat - 1\<close> by (simp add: unat_minus_one unat_gt_0)
qed simp

declare qhat_loop.simps [simp del]

definition choose_qhat :: "u32 \<Rightarrow> u32 \<Rightarrow> u32 \<Rightarrow> u32 \<Rightarrow> u32 \<Rightarrow> u32" where
  "choose_qhat v1 v2 uj0 uj1 uj2 =
     (if uj0 = v1 then
        let qhat = 0x10000 - 1; rhat = uj1 + v1
        in if rhat \<ge> 0x10000 then qhat else qhat_loop v1 v2 uj2 qhat rhat
      else let nn = COMBINE uj0 uj1 in qhat_loop v1 v2 uj2 (nn div v1) (nn mod v1))"

text \<open>D4 and D6; \<open>b\<close> is the offset of \<open>u[j]\<close>, \<open>vo\<close> that of \<open>v\<close>, \<open>t\<close> the borrow or carry.\<close>

fun mul_sub :: "nat \<Rightarrow> nat \<Rightarrow> nat \<Rightarrow> digits \<Rightarrow> u32 \<Rightarrow> digits \<Rightarrow> u32 \<Rightarrow> digits \<times> u32" where
  "mul_sub 0 b vo v qhat u t = (u, t)"
| "mul_sub (Suc i) b vo v qhat u t =
     (let t = ucast (u (b + Suc i)) - ucast (v (vo + Suc i)) * qhat - t;
          u = u(b + Suc i := digit (LHALF t))
      in mul_sub i b vo v qhat u ((0x10000 - HHALF t) AND 0xffff))"

fun add_back :: "nat \<Rightarrow> nat \<Rightarrow> nat \<Rightarrow> digits \<Rightarrow> digits \<Rightarrow> u32 \<Rightarrow> digits \<times> u32" where
  "add_back 0 b vo v u t = (u, t)"
| "add_back (Suc i) b vo v u t =
     (let t = t + (ucast (u (b + Suc i)) + ucast (v (vo + Suc i)));
          u = u(b + Suc i := digit (LHALF t))
      in add_back i b vo v u (HHALF t))"

definition div_step :: "nat \<Rightarrow> nat \<Rightarrow> nat \<Rightarrow> digits \<Rightarrow> digits \<Rightarrow> digits \<times> u16" where
  "div_step n b vo v u =
     (let v1 = ucast (v (vo + 1)); v2 = ucast (v (vo + 2));
          qhat = choose_qhat v1 v2 (ucast (u b)) (ucast (u (b + 1))) (ucast (u (b + 2)));
          (u, t) = mul_sub n b vo v qhat u 0;
          t = ucast (u b) - t; u = u(b := digit (LHALF t))
      in if HHALF t \<noteq> 0 then
           let (u, t) = add_back n b vo v u 0
           in (u(b := digit (LHALF (ucast (u b) + t))), digit (qhat - 1))
         else (u, digit qhat))"

fun div_loop :: "nat \<Rightarrow> nat \<Rightarrow> nat \<Rightarrow> nat \<Rightarrow> nat \<Rightarrow> digits \<Rightarrow> digits \<Rightarrow> digits \<Rightarrow> digits \<times> digits" where
  \<comment> \<open>rounds left, \<open>n\<close>, offsets of \<open>u[j]\<close>, \<open>q[j]\<close> and \<open>v\<close>\<close>
  "div_loop 0 n b qo vo v u q = (u, q)"
| "div_loop (Suc k) n b qo vo v u q =
     (let (u, d) = div_step n b vo v u in div_loop k n (b + 1) (qo + 1) vo v u (q(qo := d)))"

fun shr_digits :: "nat \<Rightarrow> nat \<Rightarrow> nat \<Rightarrow> digits \<Rightarrow> digits" where
  \<comment> \<open>digits \<open>b + k\<close> down to \<open>b + 1\<close>; digit \<open>b\<close> is cleared at the end\<close>
  "shr_digits b 0 d u = u(b := 0)"
| "shr_digits b (Suc k) d u =
     shr_digits b k d
       (u(b + Suc k := digit (drop_bit d (ucast (u (b + Suc k))) OR
                              LHALF (push_bit (16 - d) (ucast (u (b + k)))))))"

definition qdivrem :: "digits \<Rightarrow> u64 \<Rightarrow> u64 \<Rightarrow> (u64 \<times> u64) option" where
  \<comment> \<open>\<open>None\<close>: the division by zero that traps\<close>
  "qdivrem junk uq vq =
     (if vq = 0 then None
      else if uq < vq then Some (0, uq)
      else
        let u = split_quad (junk(0 := 0)) uq; v = split_quad junk vq
        in case skip_v v 4 of
             None \<Rightarrow> Some (short_div u (ucast (v 4)))
           | Some n \<Rightarrow>
               let vo = 4 - n; m = skip_u u n (4 - n); uo = 4 - n - m;
                   q = clear_q (4 - m) junk; qo = 4 - m;
                   d = shift_count 16 (ucast (v (vo + 1)));
                   u = (if d > 0 then shl_digits uo (m + n) d u else u);
                   v = (if d > 0 then shl_digits (vo + 1) (n - 1) d v else v);
                   (u, q) = div_loop (m + 1) n uo qo vo v u q;
                   u = (if d > 0 then shr_digits (uo + m) n d u else u)
               in Some (join_quad q, join_quad u))"

definition udivdi3 :: "digits \<Rightarrow> u64 \<Rightarrow> u64 \<Rightarrow> u64 option" where
  "udivdi3 junk a b = map_option fst (qdivrem junk a b)"

definition umoddi3 :: "digits \<Rightarrow> u64 \<Rightarrow> u64 \<Rightarrow> u64 option" where
  "umoddi3 junk a b = map_option snd (qdivrem junk a b)"

definition divdi3 :: "digits \<Rightarrow> u64 \<Rightarrow> u64 \<Rightarrow> u64 option" where
  "divdi3 junk a b =
     (let (ua, neg) = (if sint a < 0 then (- a, True) else (a, False));
          (ub, neg) = (if sint b < 0 then (- b, \<not> neg) else (b, neg))
      in map_option (\<lambda>(uq, _). if neg then - uq else uq) (qdivrem junk ua ub))"

definition moddi3 :: "digits \<Rightarrow> u64 \<Rightarrow> u64 \<Rightarrow> u64 option" where
  "moddi3 junk a b =
     (let (ua, neg) = (if sint a < 0 then (- a, True) else (a, False));
          ub = (if sint b < 0 then - b else b)
      in map_option (\<lambda>(_, ur). if neg then - ur else ur) (qdivrem junk ua ub))"

end
