(* ===== verification/QuadDivCorrect.thy ===== *)
theory QuadDivCorrect
  imports QuadDiv
begin

text \<open>
  Correctness of the 64-bit division: the value of a run of digits, what each loop of Algorithm D
  does to such values, the estimate of a quotient digit, and the theorem that the routine returns
  quotient and remainder for every pair of operands.
\<close>

section \<open>Values of digits\<close>

fun dval :: "digits \<Rightarrow> nat \<Rightarrow> nat \<Rightarrow> nat" where
  \<comment> \<open>the number written by the digits \<open>b\<close> to \<open>b + k - 1\<close>, the most significant first\<close>
  "dval p b 0 = 0"
| "dval p b (Suc k) = dval p b k * base + unat (p (b + k))"

lemma digit_less: "unat (x :: u16) < base"
  using unsigned_less [of x, where 'a = nat] by simp

lemma dval_less: "dval p b k < base ^ k"
proof (induction k)
  case (Suc k)
  have "dval p b k * base + unat (p (b + k)) < (dval p b k + 1) * base"
    using digit_less [of "p (b + k)"] by simp
  also have "\<dots> \<le> base ^ k * base" using Suc by (intro mult_le_mono1) simp
  finally show ?case by (simp add: mult.commute)
qed simp

lemma dval_cong: "(\<And>i. i < k \<Longrightarrow> p (b + i) = p' (b' + i)) \<Longrightarrow> dval p b k = dval p' b' k"
  by (induction k) simp_all

lemma dval_add: "dval p b (k + l) = dval p b k * base ^ l + dval p (b + k) l"
  by (induction l) (simp_all add: algebra_simps)

lemma dval_Cons: "dval p b (Suc k) = unat (p b) * base ^ k + dval p (Suc b) k"
  using dval_add [of p b 1 k] by simp

lemma dval_upd: "j < b \<or> b + k \<le> j \<Longrightarrow> dval (p(j := x)) b k = dval p b k"
  by (rule dval_cong) auto

lemma unat_less_word: "unat (x :: u32) < 4294967296"
  using unsigned_less [of x, where 'a = nat] by simp

lemma unat_digit_word [simp]: "unat (digit x) = unat x mod base"
  by (simp add: digit_def unsigned_ucast_eq take_bit_eq_mod)

lemma unat_ucast_digit [simp]: "unat (ucast (x :: u16) :: u32) = unat x"
  using unsigned_less [of x, where 'a = nat] by (simp add: unsigned_ucast_eq take_bit_nat_eq_self)

lemma low_mask: "x AND 0xffff = LHALF x"
  by (simp add: LHALF_def)

lemma unat_COMBINE:
  assumes "unat a < base" "unat b < base"
  shows "unat (COMBINE a b) = unat a * base + unat b"
proof -
  have "take_bit 16 b = b"
    using assms(2) by (intro word_unat_eq_iff [THEN iffD2]) (simp add: unsigned_take_bit_eq take_bit_nat_eq_self)
  then have b: "bit b n \<Longrightarrow> n < 16" for n by (metis bit_take_bit_iff)
  have "push_bit 16 a AND b = 0" by (rule bit_word_eqI) (auto simp: bit_simps dest: b)
  then have "COMBINE a b = push_bit 16 a + b" by (simp add: COMBINE_def disjunctive_add_eq_or)
  then show ?thesis using assms by (simp add: push_bit_eq_mult unat_word_ariths)
qed

section \<open>Multiply and subtract, add back\<close>

lemma sub_step:
  fixes u v :: u16 and q t :: u32
  assumes "unat q < base" "unat t < base"
  defines "x \<equiv> ucast u - ucast v * q - t"
  shows "unat (digit (LHALF x)) + unat v * unat q + unat t =
      unat u + unat ((0x10000 - HHALF x) AND 0xffff) * base"
proof -
  let ?y = "unat v * unat q + unat t"
  have "unat v * unat q \<le> 65535 * 65535"
    using assms(1) digit_less [of v] by (intro mult_le_mono) simp_all
  then have y: "?y \<le> 65535 * 65536" using assms(2) by simp
  have "unat (ucast v * q + t) = ?y" using y by (simp add: unat_word_ariths)
  moreover have "x = ucast u - (ucast v * q + t)" by (simp add: x_def)
  ultimately have x: "unat x = (if ?y \<le> unat u then unat u - ?y else 4294967296 + unat u - ?y)"
    using y digit_less [of u]
    by (auto simp: unat_sub_if' word_le_nat_alt)
  have h: "HHALF x < 65536" by (rule half_bound)
  then have "unat (0x10000 - HHALF x) = base - unat (HHALF x)"
    by (subst unat_sub) (simp_all add: word_le_nat_alt word_less_nat_alt)
  then have t: "unat ((0x10000 - HHALF x) AND 0xffff) = (base - unat x div base) mod base"
    by (simp add: low_mask unat_halves)
  show ?thesis
  proof (cases "?y \<le> unat u")
    case True
    then have "unat x div base = 0" "unat x mod base = unat x" using x digit_less [of u] by auto
    then show ?thesis using t x True by (simp add: unat_halves)
  next
    case False
    then have n: "unat x = 4294967296 + unat u - ?y" "unat x \<ge> base" "unat x < 4294967296"
      using x y by auto
    then have d: "1 \<le> unat x div base" "unat x div base < base"
      by (simp_all add: Suc_le_eq div_greater_zero_iff less_mult_imp_div_less)
    then have "(base - unat x div base) mod base = base - unat x div base" by simp
    then have "unat ((0x10000 - HHALF x) AND 0xffff) * base = 4294967296 - unat x div base * base"
      using t by (simp add: diff_mult_distrib)
    moreover have "unat x = unat x div base * base + unat x mod base" by simp
    moreover have "unat x + ?y = 4294967296 + unat u" using n(1) y by simp
    moreover have "unat (digit (LHALF x)) = unat x mod base" by (simp add: unat_halves)
    moreover have "unat x div base * base \<le> 4294967296" using n(3) by simp
    ultimately show ?thesis by linarith
  qed
qed

lemma horner_step:
  fixes A :: nat
  assumes "A + V * q + c = U + c' * P" "l + v * q + t = u + c * B"
  shows "A * B + l + (V * B + v) * q + t = U * B + u + c' * (B * P)"
proof -
  have "(A + V * q + c) * B = (U + c' * P) * B" using assms(1) by simp
  then show ?thesis using assms(2) by (simp add: algebra_simps)
qed

lemma mul_sub_value:
  assumes "unat qhat < base"
  shows "unat t < base \<Longrightarrow> mul_sub i b vo v qhat u t = (u', t') \<Longrightarrow>
    dval u' (Suc b) i + dval v (Suc vo) i * unat qhat + unat t = dval u (Suc b) i + unat t' * base ^ i \<and>
    unat t' < base \<and> (\<forall>x. x \<notin> {Suc b..b + i} \<longrightarrow> u' x = u x)"
proof (induction i arbitrary: u t)
  case (Suc i)
  let ?x = "ucast (u (b + Suc i)) - ucast (v (vo + Suc i)) * qhat - t"
  let ?t = "(0x10000 - HHALF ?x) AND 0xffff :: u32"
  define w where "w = u(b + Suc i := digit (LHALF ?x))"
  have t: "unat ?t < base" using half_bound(2) [of "0x10000 - HHALF ?x"] by (simp add: low_mask word_less_nat_alt)
  have "mul_sub i b vo v qhat w ?t = (u', t')" using Suc.prems(2) by (simp add: Let_def w_def)
  note IH = Suc.IH [OF t this]
  have w: "w (Suc (b + i)) = digit (LHALF ?x)" "x \<noteq> Suc (b + i) \<Longrightarrow> w x = u x" for x
    by (simp_all add: w_def)
  have x: "u' (Suc (b + i)) = digit (LHALF ?x)" using IH w(1) by simp
  have u: "dval w (Suc b) i = dval u (Suc b) i" unfolding w_def by (rule dval_upd) simp
  have "dval u' (Suc b) i + dval v (Suc vo) i * unat qhat + unat ?t = dval u (Suc b) i + unat t' * base ^ i"
    using IH u by simp
  from horner_step [OF this sub_step [OF assms Suc.prems(1), of "u (b + Suc i)" "v (vo + Suc i)"]]
  show ?case using IH x w(2) by (auto simp: add.commute [of i])
qed simp

lemma add_step:
  fixes u v :: u16 and t :: u32
  assumes "unat t \<le> 1"
  defines "x \<equiv> t + (ucast u + ucast v)"
  shows "unat (digit (LHALF x)) + unat (HHALF x) * base = unat u + unat v + unat t" "unat (HHALF x) \<le> 1"
proof -
  have "unat x = unat u + unat v + unat t" "unat x < 131072"
    using assms digit_less [of u] digit_less [of v] by (simp_all add: unat_word_ariths)
  then show "unat (digit (LHALF x)) + unat (HHALF x) * base = unat u + unat v + unat t" "unat (HHALF x) \<le> 1"
    by (simp_all add: unat_halves)
qed

lemma add_back_value:
  "unat t \<le> 1 \<Longrightarrow> add_back i b vo v u t = (u', t') \<Longrightarrow>
    dval u' (Suc b) i + unat t' * base ^ i = dval u (Suc b) i + dval v (Suc vo) i + unat t \<and>
    unat t' \<le> 1 \<and> (\<forall>x. x \<notin> {Suc b..b + i} \<longrightarrow> u' x = u x)"
proof (induction i arbitrary: u t)
  case (Suc i)
  let ?x = "t + (ucast (u (b + Suc i)) + ucast (v (vo + Suc i)))"
  let ?t = "HHALF ?x"
  define w where "w = u(b + Suc i := digit (LHALF ?x))"
  note step = add_step [OF Suc.prems(1), of "u (b + Suc i)" "v (vo + Suc i)"]
  have "add_back i b vo v w ?t = (u', t')" using Suc.prems(2) by (simp add: Let_def w_def)
  note IH = Suc.IH [OF step(2) this]
  have w: "w (Suc (b + i)) = digit (LHALF ?x)" "x \<noteq> Suc (b + i) \<Longrightarrow> w x = u x" for x
    by (simp_all add: w_def)
  have x: "u' (Suc (b + i)) = digit (LHALF ?x)" using IH w(1) by simp
  have u: "dval w (Suc b) i = dval u (Suc b) i" unfolding w_def by (rule dval_upd) simp
  have "(dval u' (Suc b) i + unat t' * base ^ i) * base = (dval u (Suc b) i + dval v (Suc vo) i + unat ?t) * base"
    using IH u by simp
  then show ?case using IH x w(2) step(1) by (auto simp: algebra_simps)
qed simp


section \<open>The estimate of a quotient digit\<close>

text \<open>
  \<open>N\<close> is \<open>u[j] * B + u[j+1]\<close>. Whatever \<open>q\<close> is below every digit too large for the three and two
  leading digits, the estimate is at least \<open>q\<close> and not too large for the leading digits.
\<close>

lemma qhat_loop_value:
  assumes d: "unat v1 < base" "unat v2 < base" "unat uj2 < base"
    and small: "\<And>x. N * base + unat uj2 < x * (unat v1 * base + unat v2) \<Longrightarrow> q < x"
  shows "unat qhat * unat v1 + unat rhat = N \<Longrightarrow> unat rhat < base \<Longrightarrow> unat qhat < base \<Longrightarrow>
    q \<le> unat qhat \<Longrightarrow>
    q \<le> unat (qhat_loop v1 v2 uj2 qhat rhat) \<and> unat (qhat_loop v1 v2 uj2 qhat rhat) < base \<and>
    unat (qhat_loop v1 v2 uj2 qhat rhat) * (unat v1 * base + unat v2) \<le> N * base + unat uj2"
  using d small
proof (induction v1 v2 uj2 qhat rhat rule: qhat_loop.induct)
  case (1 v1 v2 uj2 qhat rhat)
  have p: "unat v2 * unat qhat \<le> 65535 * 65535" using 1 by (intro mult_le_mono) simp_all
  then have v2q: "unat (v2 * qhat) = unat v2 * unat qhat" by (simp add: unat_word_ariths)
  have test: "v2 * qhat > COMBINE rhat uj2 \<longleftrightarrow> unat rhat * base + unat uj2 < unat v2 * unat qhat"
    using 1 by (simp add: word_less_nat_alt v2q unat_COMBINE)
  have key: "x * (unat v1 * base + unat v2) + y * base = (x * unat v1 + y) * base + unat v2 * x" for x y
    by (simp add: algebra_simps)
  have N: "unat qhat * (unat v1 * base + unat v2) + unat rhat * base = N * base + unat v2 * unat qhat"
    using key [of "unat qhat" "unat rhat"] 1(2) by simp
  show ?case
  proof (cases "v2 * qhat > COMBINE rhat uj2")
    case False
    then show ?thesis using test N 1 by (subst qhat_loop.simps) (auto simp: qhat_loop.simps)
  next
    case True
    then have "N * base + unat uj2 < unat qhat * (unat v1 * base + unat v2)" using test N by linarith
    then have q: "q < unat qhat" using 1 by blast
    then have q1: "unat (qhat - 1) = unat qhat - 1" by (intro unat_minus_one) auto
    have r1: "unat (rhat + v1) = unat rhat + unat v1" using 1 by (simp add: unat_word_ariths)
    have N1: "unat (qhat - 1) * unat v1 + unat (rhat + v1) = N"
      using 1(2) q q1 r1 by (cases "unat qhat") simp_all
    show ?thesis
    proof (cases "rhat + v1 \<ge> 0x10000")
      case False
      have loop: "qhat_loop v1 v2 uj2 qhat rhat = qhat_loop v1 v2 uj2 (qhat - 1) (rhat + v1)"
        using True False by (subst qhat_loop.simps) simp
      show ?thesis
        unfolding loop
        using False q q1 N1 1(4-9) by (intro 1(1) [OF True refl refl]) (auto simp: word_le_nat_alt)
    next
      case over: True
      then have "qhat_loop v1 v2 uj2 qhat rhat = qhat - 1" using True by (subst qhat_loop.simps) simp
      moreover have "unat v2 * unat (qhat - 1) \<le> base * base" using 1 q1 by (intro mult_le_mono) simp_all
      moreover have "base * base \<le> unat (rhat + v1) * base" using over by (simp add: word_le_nat_alt)
      moreover have "unat (qhat - 1) * (unat v1 * base + unat v2) + unat (rhat + v1) * base =
          N * base + unat v2 * unat (qhat - 1)"
        using key [of "unat (qhat - 1)" "unat (rhat + v1)"] N1 by simp
      ultimately show ?thesis using q q1 1(4) by auto
    qed
  qed
qed

lemma choose_qhat_value:
  assumes d: "unat v1 < base" "unat v2 < base" "unat uj0 \<le> unat v1" "unat uj1 < base" "unat uj2 < base" "0 < unat v1"
    and small: "\<And>x. (unat uj0 * base + unat uj1) * base + unat uj2 < x * (unat v1 * base + unat v2) \<Longrightarrow> q < x"
    and q: "q < base"
  defines "r \<equiv> unat (choose_qhat v1 v2 uj0 uj1 uj2)"
  shows "q \<le> r \<and> r < base \<and>
    r * (unat v1 * base + unat v2) \<le> (unat uj0 * base + unat uj1) * base + unat uj2"
proof (cases "uj0 = v1")
  case True
  let ?N = "unat v1 * base + unat uj1"
  have r1: "unat (uj1 + v1) = unat uj1 + unat v1" using d by (simp add: unat_word_ariths)
  have N1: "unat (0xffff :: u32) * unat v1 + unat (uj1 + v1) = ?N" using r1 by simp
  show ?thesis
  proof (cases "uj1 + v1 \<ge> 0x10000")
    case over: True
    have "r = 65535" using True over by (simp add: r_def choose_qhat_def Let_def)
    moreover have "unat v2 * 65535 \<le> base * base" using d by (intro mult_le_mono) simp_all
    moreover have "base * base \<le> unat (uj1 + v1) * base" using over by (simp add: word_le_nat_alt)
    moreover have "65535 * (unat v1 * base + unat v2) + unat (uj1 + v1) * base = ?N * base + unat v2 * 65535"
      using r1 by (simp add: algebra_simps)
    ultimately show ?thesis using True q by auto
  next
    case False
    then have "r = unat (qhat_loop v1 v2 uj2 0xffff (uj1 + v1))"
      using True by (simp add: r_def choose_qhat_def Let_def)
    then show ?thesis
      using qhat_loop_value [OF d(1,2,5) _ N1, of q] small True False q by (simp add: word_le_nat_alt)
  qed
next
  case False
  define N where "N = unat uj0 * base + unat uj1"
  have nn: "unat (COMBINE uj0 uj1) = N" using d by (simp add: unat_COMBINE N_def)
  have "unat uj0 < unat v1" using False d(3) by (simp add: word_unat_eq_iff)
  then have "(unat uj0 + 1) * base \<le> unat v1 * base" by (intro mult_le_mono1) simp
  then have "N < base * unat v1" using d(4) by (simp add: N_def)
  then have lt: "N div unat v1 < base" by (simp add: less_mult_imp_div_less)
  have "q \<le> N div unat v1"
  proof (rule ccontr)
    assume "\<not> q \<le> N div unat v1"
    define x where "x = Suc (N div unat v1)"
    have "N < x * unat v1" unfolding x_def using d(6) by (metis dividend_less_div_times mult.commute mult_Suc add.commute)
    then have "(N + 1) * base \<le> x * unat v1 * base" by (intro mult_le_mono1) simp
    then have "N * base + unat uj2 < x * (unat v1 * base + unat v2)" using d(5) by (simp add: algebra_simps)
    then have "q < x" using small by (simp add: N_def)
    then show False using \<open>\<not> q \<le> N div unat v1\<close> by (simp add: x_def)
  qed
  moreover have "N mod unat v1 < base" using d(1,6) by (meson less_trans mod_less_divisor)
  moreover have "r = unat (qhat_loop v1 v2 uj2 (COMBINE uj0 uj1 div v1) (COMBINE uj0 uj1 mod v1))"
    using False by (simp add: r_def choose_qhat_def Let_def)
  ultimately show ?thesis
    using qhat_loop_value [OF d(1,2,5), of N q "COMBINE uj0 uj1 div v1" "COMBINE uj0 uj1 mod v1"] small lt
    by (simp add: unat_div unat_mod nn flip: N_def)
qed

text \<open>
  The estimate against the whole divisor \<open>V\<close> and window \<open>U\<close>, whose leading digits these are: it is
  the quotient digit or one more.
\<close>

lemma estimate:
  fixes U V :: nat
  assumes U: "U = T * P + ru" "ru < P" and V: "V = E * P + rv" "rv < P"
    and r: "r < base" "r * E \<le> T" "base \<le> E" and q: "U div V \<le> r"
  shows "r = U div V \<or> r = U div V + 1"
proof -
  have "base * P \<le> V" using r(3) V by (simp add: mult_le_mono1 trans_le_add1)
  have "r * V = r * E * P + r * rv" using V by (simp add: algebra_simps)
  also have "\<dots> \<le> U + r * rv" using r(2) U by (simp add: mult_le_mono1 trans_le_add1)
  also have "r * rv \<le> base * P" using r(1) V(2) by (intro mult_le_mono) simp_all
  finally have "r * V \<le> U + V" using \<open>base * P \<le> V\<close> by simp
  then have "r * V div V \<le> (U + V) div V" by (rule div_le_mono)
  moreover have "0 < V" using \<open>base * P \<le> V\<close> U(2) by (cases P) simp_all
  ultimately have "r \<le> U div V + 1" by (simp add: div_add_self2)
  then show ?thesis using q by linarith
qed

lemma too_large:
  fixes U V :: nat
  assumes U: "U = T * P + ru" "ru < P" and V: "V = E * P + rv" and x: "T < x * E"
  shows "U div V < x"
proof -
  have "U < (T + 1) * P" using U by simp
  also have "\<dots> \<le> x * E * P" using x by (intro mult_le_mono1) simp
  also have "\<dots> \<le> x * V" using V by (simp add: algebra_simps)
  finally show ?thesis by (simp add: less_mult_imp_div_less mult.commute)
qed


lemmas choose_qhat_digits = choose_qhat_value
  [of "ucast (v1 :: u16)" "ucast (v2 :: u16)" "ucast (u0 :: u16)" "ucast (u1 :: u16)" "ucast (u2 :: u16)" for v1 v2 u0 u1 u2,
   unfolded unat_ucast_digit, OF digit_less digit_less _ digit_less digit_less]

section \<open>One step of the division\<close>

lemma lead2: "dval p b (Suc (Suc k)) = (unat (p b) * base + unat (p (b + 1))) * base ^ k + dval p (b + 2) k"
  using dval_add [of p b 2 k] by (simp add: numeral_2_eq_2)

lemma lead3: "dval p b (Suc (Suc (Suc k))) =
  ((unat (p b) * base + unat (p (b + 1))) * base + unat (p (b + 2))) * base ^ k + dval p (b + 3) k"
  using dval_add [of p b 3 k] by (simp add: numeral_3_eq_3)

lemma div_step_estimate:
  assumes n: "n = Suc (Suc k)" and V: "V = dval v (Suc vo) n" and U: "U = dval u b (Suc n)"
    and norm: "0x8000 \<le> unat (v (Suc vo))" and lt: "U < V * base"
  defines "r \<equiv> unat (choose_qhat (ucast (v (Suc vo))) (ucast (v (vo + 2))) (ucast (u b)) (ucast (u (Suc b))) (ucast (u (b + 2))))"
  shows "r < base \<and> (r = U div V \<or> r = U div V + 1)"
proof -
  let ?E = "unat (v (Suc vo)) * base + unat (v (vo + 2))"
  let ?T = "(unat (u b) * base + unat (u (Suc b))) * base + unat (u (b + 2))"
  have V2: "V = ?E * base ^ k + dval v (vo + 3) k" using lead2 [of v "Suc vo" k] V n by (simp add: numeral_3_eq_3)
  have U2: "U = ?T * base ^ k + dval u (b + 3) k" using lead3 [of u b k] U n by simp
  have "unat (u b) * base ^ n \<le> U" unfolding U dval_Cons by simp
  also have "U < (unat (v (Suc vo)) + 1) * base ^ n"
  proof -
    have "V = unat (v (Suc vo)) * base ^ Suc k + dval v (Suc (Suc vo)) (Suc k)"
      unfolding V n by (rule dval_Cons)
    then have "V \<le> (unat (v (Suc vo)) + 1) * base ^ Suc k"
      using dval_less [of v "Suc (Suc vo)" "Suc k"] by simp
    then have "V * base \<le> (unat (v (Suc vo)) + 1) * base ^ Suc k * base" by (intro mult_le_mono1)
    then show ?thesis using lt n by (simp add: mult.assoc)
  qed
  finally have "unat (u b) < unat (v (Suc vo)) + 1" by (rule mult_less_cancel2 [THEN iffD1, THEN conjunct2])
  then have "unat (u b) \<le> unat (v (Suc vo))" by simp
  moreover have q: "U div V < base" using lt by (simp add: less_mult_imp_div_less mult.commute)
  moreover have small: "U div V < x" if "?T < x * ?E" for x
    by (rule too_large [OF U2 dval_less V2 that])
  ultimately have r: "U div V \<le> r \<and> r < base \<and> r * ?E \<le> ?T"
    unfolding r_def using norm
    by (intro choose_qhat_digits) simp_all
  moreover have "base \<le> ?E" using norm by simp
  ultimately show ?thesis using estimate [OF U2 dval_less V2 dval_less, of r] by simp
qed

lemma div_step_value:
  assumes n: "2 \<le> n" and V: "V = dval v (Suc vo) n" and U: "U = dval u b (Suc n)"
    and norm: "0x8000 \<le> unat (v (Suc vo))" and lt: "U < V * base"
    and step: "div_step n b vo v u = (u', d)"
  shows "unat d = U div V \<and> dval u' b (Suc n) = U mod V \<and> (\<forall>x. x \<notin> {b..b + n} \<longrightarrow> u' x = u x)"
proof -
  define qhat where "qhat =
    choose_qhat (ucast (v (Suc vo))) (ucast (v (vo + 2))) (ucast (u b)) (ucast (u (Suc b))) (ucast (u (b + 2)))"
  obtain k where k: "n = Suc (Suc k)" using n by (metis Suc_le_D numeral_2_eq_2 Suc_le_mono)
  have r: "unat qhat < base" "unat qhat = U div V \<or> unat qhat = U div V + 1"
    using div_step_estimate [OF k V U norm lt] by (simp_all add: qhat_def)
  have Vn: "V < base ^ n" unfolding V by (rule dval_less)
  have V0: "0 < V" using lt by (cases V) simp_all
  have qr: "U = U div V * V + U mod V" "U mod V < V" using V0 by simp_all
  obtain ua ta where sub: "mul_sub n b vo v qhat u 0 = (ua, ta)" by fastforce
  have ua: "dval ua (Suc b) n + V * unat qhat = dval u (Suc b) n + unat ta * base ^ n" "unat ta < base"
    "\<And>x. x \<notin> {Suc b..b + n} \<Longrightarrow> ua x = u x"
    using mul_sub_value [OF r(1) _ sub] V by simp_all
  have Uc: "U = unat (u b) * base ^ n + dval u (Suc b) n" unfolding U by (rule dval_Cons)
  have small: "dval ua (Suc b) n < base ^ n" by (rule dval_less)
  define T where "T = ucast (u b) - ta"
  define w where "w = ua(b := digit (LHALF T))"
  have w: "dval w (Suc b) n = dval ua (Suc b) n" unfolding w_def by (rule dval_upd) simp
  have "ua b = u b" using ua(3) by simp
  then have run: "div_step n b vo v u =
      (if HHALF T \<noteq> 0 then let (u, t) = add_back n b vo v w 0
         in (u(b := digit (LHALF (ucast (u b) + t))), digit (qhat - 1))
       else (w, digit qhat))"
    using sub unfolding qhat_def by (simp add: div_step_def T_def w_def)
  show ?thesis
  proof (cases "unat ta \<le> unat (u b)")
    case True
    have T: "unat T = unat (u b) - unat ta" unfolding T_def using True by (subst unat_sub) (simp_all add: word_le_nat_alt)
    then have "unat (HHALF T) = 0" using digit_less [of "u b"] by (simp add: unat_halves)
    then have H: "HHALF T = 0" by (simp only: unat_eq_0)
    have "unat (w b) = unat (u b) - unat ta"
      using T digit_less [of "u b"] by (simp add: w_def unat_halves)
    then have "dval w b (Suc n) + unat ta * base ^ n = unat (u b) * base ^ n + dval ua (Suc b) n"
    proof -
      have "(unat (w b) + unat ta) * base ^ n = unat (u b) * base ^ n"
        using True \<open>unat (w b) = unat (u b) - unat ta\<close> by simp
      then show ?thesis using w dval_Cons [of w b n] by (simp only: add_mult_distrib)
    qed
    then have "dval w b (Suc n) + V * unat qhat = U" using ua(1) Uc by simp
    moreover from this have "unat qhat = U div V"
    proof -
      have "V * unat qhat \<le> U" using \<open>dval w b (Suc n) + V * unat qhat = U\<close> by simp
      then have "unat qhat \<le> U div V" using V0 by (simp add: less_eq_div_iff_mult_less_eq mult.commute)
      then show ?thesis using r(2) by auto
    qed
    ultimately have "dval w b (Suc n) + V * (U div V) = U" by simp
    then have "dval w b (Suc n) = U mod V" using mult_div_mod_eq [of V U] by linarith
    moreover have "(u', d) = (w, digit qhat)"
      using step H unfolding run by simp
    ultimately show ?thesis
      using r(1) \<open>unat qhat = U div V\<close> ua(3) by (auto simp: w_def)
  next
    case False
    have T: "unat T = 4294967296 + unat (u b) - unat ta"
      unfolding T_def using False ua(2) by (simp add: unat_sub_if' word_le_nat_alt)
    then have "unat T div base \<noteq> 0" using ua(2) by (simp add: div_eq_0_iff)
    then have H: "HHALF T \<noteq> 0" by (metis unat_halves(1) unsigned_0)
    have wb: "unat (w b) + unat ta = base + unat (u b)"
    proof -
      define y where "y = base + unat (u b) - unat ta"
      have y: "unat T = y + 65535 * base" "y < base" "y + unat ta = base + unat (u b)"
        using T ua(2) False by (simp_all add: y_def)
      have "unat T mod base = y" unfolding y(1) using y(2) by (simp only: mod_mult_self1 mod_less)
      then show ?thesis using y(3) by (simp add: w_def unat_halves)
    qed
    obtain u2 tc where ab: "add_back n b vo v w 0 = (u2, tc)" by fastforce
    have u2: "dval u2 (Suc b) n + unat tc * base ^ n = dval w (Suc b) n + V" "unat tc \<le> 1"
      "\<And>x. x \<notin> {Suc b..b + n} \<Longrightarrow> u2 x = w x"
      using add_back_value [OF _ ab] V by simp_all
    have "(unat (w b) + unat ta) * base ^ n = (base + unat (u b)) * base ^ n" using wb by simp
    then have wU: "unat (w b) * base ^ n + dval w (Suc b) n + V * unat qhat = U + base * base ^ n"
      using ua(1) Uc w by (simp add: algebra_simps)
    have "unat qhat \<noteq> U div V"
    proof
      assume "unat qhat = U div V"
      then have "V * unat qhat \<le> U" by simp
      then have "base * base ^ n \<le> unat (w b) * base ^ n + dval w (Suc b) n" using wU by linarith
      then have "base ^ Suc n \<le> dval w b (Suc n)" unfolding dval_Cons by simp
      then show False using dval_less [of w b "Suc n"] by simp
    qed
    then have q: "unat qhat = U div V + 1" using r(2) by simp
    have "V * unat qhat + U mod V = U + V" using q by simp
    then have sum: "(unat (w b) + unat tc) * base ^ n + dval u2 (Suc b) n = base * base ^ n + U mod V"
      using wU u2(1) unfolding add_mult_distrib by linarith
    have "unat (w b) + unat tc = base"
    proof (rule ccontr)
      assume "unat (w b) + unat tc \<noteq> base"
      then have "unat (w b) + unat tc + 1 \<le> base" using digit_less [of "w b"] u2(2) by simp
      then have "(unat (w b) + unat tc + 1) * base ^ n \<le> base * base ^ n" by (rule mult_le_mono1)
      then show False using sum dval_less [of u2 "Suc b" n] by (simp add: algebra_simps)
    qed
    then have tb: "unat (w b) + unat tc = base" and R: "dval u2 (Suc b) n = U mod V" using sum by simp_all
    define z where "z = u2(b := digit (LHALF (ucast (u2 b) + tc)))"
    have "unat (ucast (u2 b) + tc) = base" using tb u2(3) by (simp add: unat_word_ariths)
    then have "unat (z b) = 0" by (simp add: z_def unat_halves)
    then have "dval z b (Suc n) = dval z (Suc b) n" unfolding dval_Cons by simp
    also have "\<dots> = U mod V" unfolding z_def using R by (subst dval_upd) simp_all
    finally have z: "dval z b (Suc n) = U mod V" .
    have "(u', d) = (z, digit (qhat - 1))"
      using step H ab unfolding run by (simp add: z_def)
    moreover have "unat (digit (qhat - 1)) = U div V"
    proof -
      have "unat (qhat - 1) = unat qhat - 1" using q by (intro unat_minus_one) auto
      then show ?thesis using q r(1) by simp
    qed
    ultimately show ?thesis using z u2(3) ua(3) by (auto simp: z_def w_def)
  qed
qed


section \<open>The loops\<close>

lemma div_loop_value:
  assumes n: "2 \<le> n" and V: "V = dval v (Suc vo) n" and norm: "0x8000 \<le> unat (v (Suc vo))"
  shows "dval u b (Suc n) < V * base \<Longrightarrow> div_loop (Suc k) n b qo vo v u q = (u', q') \<Longrightarrow>
    dval q' qo (Suc k) = dval u b (Suc n + k) div V \<and>
    dval u' b (Suc n + k) = dval u b (Suc n + k) mod V \<and>
    (\<forall>x. x \<notin> {b..b + n + k} \<longrightarrow> u' x = u x) \<and> (\<forall>x. x \<notin> {qo..qo + k} \<longrightarrow> q' x = q x)"
proof (induction k arbitrary: u b q qo)
  case 0
  obtain w d where w: "div_step n b vo v u = (w, d)" by fastforce
  have "u' = w" "q' = q(qo := d)" using "0.prems"(2) w by simp_all
  then show ?case using div_step_value [OF n V refl norm "0.prems"(1) w] by simp
next
  case (Suc k)
  obtain w d where w: "div_step n b vo v u = (w, d)" by fastforce
  define W where "W = dval u b (Suc n)"
  define L where "L = dval u (b + Suc n) (Suc k)"
  have W: "unat d = W div V" "dval w b (Suc n) = W mod V" "\<And>x. x \<notin> {b..b + n} \<Longrightarrow> w x = u x"
    using div_step_value [OF n V W_def norm _ w] Suc.prems(1) by (simp_all add: W_def)
  have V0: "0 < V" using Suc.prems(1) by (cases V) simp_all
  have "V < base ^ n" unfolding V by (rule dval_less)
  then have "dval w b (Suc n) < base ^ n" unfolding W(2) using mod_less_divisor [OF V0, of W] by linarith
  then have "unat (w b) * base ^ n + dval w (Suc b) n < base ^ n" unfolding dval_Cons .
  then have "unat (w b) * base ^ n < 1 * base ^ n" by linarith
  then have wb: "unat (w b) = 0" unfolding mult_less_cancel2 by simp
  then have w1: "dval w (Suc b) n = W mod V" using W(2) unfolding dval_Cons by simp
  have L: "dval w (Suc b + n) (Suc k) = L" unfolding L_def by (rule dval_cong) (simp add: W(3))
  have N: "dval u b (Suc n + Suc k) = W * base ^ Suc k + L" unfolding W_def L_def by (rule dval_add)
  define N1 where "N1 = dval w (Suc b) (Suc n + k)"
  have N1: "N1 = (W mod V) * base ^ Suc k + L"
    using dval_add [of w "Suc b" n "Suc k"] w1 L by (simp add: N1_def)
  have "(W mod V + 1) * base \<le> V * base" using V0 by (intro mult_le_mono1) (simp add: Suc_le_eq)
  then have lt: "dval w (Suc b) (Suc n) < V * base" using w1 digit_less [of "w (Suc b + n)"] by simp
  have "div_loop (Suc k) n (Suc b) (Suc qo) vo v w (q(qo := d)) = (u', q')" using Suc.prems(2) w by simp
  note IH = Suc.IH [OF lt this, folded N1_def]
  have q: "q' qo = d" and u: "u' b = w b" using IH by simp_all
  have "W * base ^ Suc k + L = (W div V * base ^ Suc k) * V + N1"
  proof -
    have "W * base ^ Suc k = (W div V * V + W mod V) * base ^ Suc k" by simp
    then show ?thesis unfolding N1 by (simp only: algebra_simps)
  qed
  then have N2: "dval u b (Suc n + Suc k) = (W div V * base ^ Suc k) * V + N1" using N by simp
  have "dval q' qo (Suc (Suc k)) = unat d * base ^ Suc k + N1 div V"
    using IH q unfolding dval_Cons [of q' qo "Suc k"] by simp
  also have "\<dots> = dval u b (Suc n + Suc k) div V" unfolding N2 W(1) using V0 by (simp add: add.commute)
  finally have "dval q' qo (Suc (Suc k)) = dval u b (Suc n + Suc k) div V" .
  moreover have "dval u' b (Suc n + Suc k) = N1 mod V"
    using IH u wb dval_Cons [of u' b "Suc n + k"] by simp
  moreover have "N1 mod V = dval u b (Suc n + Suc k) mod V" unfolding N2 by simp
  ultimately show ?case using IH W(3) by (intro conjI allI impI) auto
qed

lemma LHALF_take: "LHALF x = take_bit 16 x"
  by (simp add: LHALF_def take_bit_eq_mask mask_numeral)

lemma unat_push_digit: "k \<le> 16 \<Longrightarrow> unat (push_bit k (ucast (x :: u16)) :: u32) = unat x * 2 ^ k"
proof -
  assume "k \<le> 16"
  then have "unat x * 2 ^ k < base * 2 ^ 16"
    using digit_less [of x] by (intro mult_less_le_imp_less power_increasing) simp_all
  then show ?thesis
    by (subst unsigned_push_bit_eq) (simp add: push_bit_eq_mult take_bit_nat_eq_self)
qed

lemma unat_drop_digit: "unat (drop_bit k (ucast (x :: u16)) :: u32) = unat x div 2 ^ k"
  by (subst unat_drop_bit_eq) (simp add: drop_bit_eq_div)

lemma join_digit:
  fixes x y :: u32
  assumes "\<And>n. bit x n \<Longrightarrow> k \<le> n \<and> n < 16" "\<And>n. bit y n \<Longrightarrow> n < k" "k \<le> 16"
  shows "unat (digit (x OR y)) = unat x + unat y"
proof -
  have "x AND y = 0" using assms(1,2) by (intro bit_word_eqI) (auto simp: bit_simps dest: leD)
  then have "x OR y = x + y" by (simp add: disjunctive_add_eq_or)
  have b: "bit x n \<Longrightarrow> n < 16" "bit y n \<Longrightarrow> n < 16" for n
    using assms(1) [of n] less_le_trans [OF assms(2) [of n] assms(3)] by simp_all
  have t: "take_bit 16 (x OR y) = x OR y" "take_bit 16 x = x" "take_bit 16 y = y"
    using b by (auto intro!: bit_word_eqI simp: bit_simps)
  then have "unat (x OR y) mod base = unat (x OR y)" "unat x < base" "unat y < base"
    using unat_halves(2) [of "x OR y"] half_bound(2) [of x] half_bound(2) [of y]
    by (simp_all add: LHALF_take word_less_nat_alt)
  then show ?thesis using \<open>x OR y = x + y\<close> by (simp add: unat_word_ariths)
qed

lemma bit_digit32: "bit (ucast (x :: u16) :: u32) n \<Longrightarrow> n < 16"
  by (auto simp: bit_simps dest: bit_imp_le_length)

lemma shl_digit:
  assumes "sh < 16"
  shows "unat (digit (LHALF (push_bit sh (ucast (x :: u16))) OR drop_bit (16 - sh) (ucast (y :: u16)))) =
    unat x * 2 ^ sh mod base + unat y div 2 ^ (16 - sh)"
proof -
  have "unat (digit (LHALF (push_bit sh (ucast x)) OR drop_bit (16 - sh) (ucast y))) =
      unat (LHALF (push_bit sh (ucast x))) + unat (drop_bit (16 - sh) (ucast y) :: u32)"
  proof (rule join_digit [where k = sh])
    show "sh \<le> n \<and> n < 16" if "bit (LHALF (push_bit sh (ucast x))) n" for n
      using that by (auto simp: LHALF_take bit_simps)
    show "n < sh" if "bit (drop_bit (16 - sh) (ucast y) :: u32) n" for n
      using that assms bit_digit32 [of y "16 - sh + n"] by (simp add: bit_simps)
  qed (use assms in simp)
  then show ?thesis using assms by (simp add: unat_halves unat_push_digit unat_drop_digit)
qed

lemma shr_digit:
  assumes "0 < d" "d < 16"
  shows "unat (digit (drop_bit d (ucast (x :: u16)) OR LHALF (push_bit (16 - d) (ucast (y :: u16))))) =
    unat x div 2 ^ d + unat y * 2 ^ (16 - d) mod base"
proof -
  have "unat (digit (LHALF (push_bit (16 - d) (ucast y)) OR drop_bit d (ucast x))) =
      unat y * 2 ^ (16 - d) mod base + unat x div 2 ^ d"
    using shl_digit [of "16 - d" y x] assms by simp
  then show ?thesis by (simp add: or.commute add.commute)
qed


text \<open>Shifting left: as long as nothing falls out on the left, the value is multiplied.\<close>

lemma shl_digits_frame: "x \<notin> {b..b + len} \<Longrightarrow> shl_digits b len sh p x = p x"
  by (induction b len sh p rule: shl_digits.induct) auto

lemma shifted_mod:
  fixes x D s P K :: nat
  assumes "x * s mod K + D * s div P < K"
  shows "(x * P + D) * s mod (K * P) = (x * s mod K + D * s div P) * P + D * s mod P"
proof -
  have "(x * P + D) * s = D * s mod P + P * (x * s + D * s div P)"
    by (simp add: algebra_simps)
  then have "(x * P + D) * s mod (P * K) = P * ((x * s + D * s div P) mod K) + D * s mod P"
    by (cases "P = 0") (simp_all add: mod_mult2_eq)
  moreover have "(x * s + D * s div P) mod K = x * s mod K + D * s div P"
    using assms by (metis mod_add_left_eq mod_less)
  ultimately show ?thesis by (simp add: mult.commute)
qed

lemma shl_digits_value:
  "0 < sh \<Longrightarrow> sh < 16 \<Longrightarrow>
   dval (shl_digits b len sh p) b (Suc len) = dval p b (Suc len) * 2 ^ sh mod base ^ Suc len"
proof (induction b len sh p rule: shl_digits.induct)
  case (1 b sh p)
  then show ?case by (simp add: unat_halves unat_push_digit)
next
  case (2 b len sh p)
  define w where "w = p(b := digit (LHALF (push_bit sh (ucast (p b))) OR drop_bit (16 - sh) (ucast (p (b + 1)))))"
  let ?s = "shl_digits (Suc b) len sh w"
  have run: "shl_digits b (Suc len) sh p = ?s" by (simp add: w_def)
  have "?s b = w b" by (rule shl_digits_frame) simp
  then have sb: "unat (?s b) = unat (p b) * 2 ^ sh mod base + unat (p (Suc b)) div 2 ^ (16 - sh)"
    using shl_digit [of sh "p b" "p (Suc b)"] 2 by (simp add: w_def)
  have w: "dval w (Suc b) (Suc len) = dval p (Suc b) (Suc len)" unfolding w_def by (rule dval_upd) simp
  have IH: "dval ?s (Suc b) (Suc len) = dval p (Suc b) (Suc len) * 2 ^ sh mod base ^ Suc len"
    using 2(1) [OF 2(2,3), folded w_def] w by (simp del: dval.simps)
  define D where "D = dval p (Suc b) (Suc len)"
  have "D * 2 ^ sh div base ^ Suc len = unat (p (Suc b)) div 2 ^ (16 - sh)"
  proof -
    have b: "base = 2 ^ sh * 2 ^ (16 - sh)" using 2(3) by (simp flip: power_add)
    have e: "base ^ Suc len = 2 ^ sh * (base ^ len * 2 ^ (16 - sh))"
      unfolding power_Suc by (subst b) (simp only: mult_ac)
    have "D * 2 ^ sh div base ^ Suc len = D div (base ^ len * 2 ^ (16 - sh))"
      unfolding e mult.commute [of D] by (rule div_mult_mult1) simp
    also have "\<dots> = D div base ^ len div 2 ^ (16 - sh)" by (rule div_mult2_eq)
    also have "D div base ^ len = unat (p (Suc b))"
      unfolding D_def dval_Cons using dval_less [of p "Suc (Suc b)" len] by simp
    finally show ?thesis .
  qed
  moreover from this have "dval p b (Suc (Suc len)) * 2 ^ sh mod base ^ Suc (Suc len) =
      (unat (p b) * 2 ^ sh mod base + D * 2 ^ sh div base ^ Suc len) * base ^ Suc len + D * 2 ^ sh mod base ^ Suc len"
    using sb digit_less [of "?s b"] unfolding dval_Cons [of p b] D_def [symmetric] power_Suc [of base "Suc len"]
    by (intro shifted_mod) simp
  ultimately show ?case
    unfolding run dval_Cons [of ?s b] sb IH D_def by simp
qed


lemma shr_digits_frame: "x \<notin> {b..b + k} \<Longrightarrow> shr_digits b k d u x = u x"
  by (induction b k d u rule: shr_digits.induct) auto

lemma div_swap: "a div b div c = a div c div (b :: nat)"
  by (metis div_mult2_eq mult.commute)

lemma shifted_right:
  fixes Y x :: nat
  assumes "d \<le> 16"
  shows "(Y * base + x) div 2 ^ d = Y * 2 ^ (16 - d) + x div 2 ^ d"
    "(Y * base + x) div 2 ^ d div base = (Y * base + x) div base div 2 ^ d"
proof -
  have "(2 :: nat) ^ (16 - d) * 2 ^ d = 2 ^ 16" using assms by (simp flip: power_add)
  then have b: "2 ^ (16 - d) * 2 ^ d = base" by simp
  have e: "Y * base + x = x + Y * 2 ^ (16 - d) * 2 ^ d"
    unfolding mult.assoc [of Y] b by (rule add.commute)
  show "(Y * base + x) div 2 ^ d = Y * 2 ^ (16 - d) + x div 2 ^ d" unfolding e by (rule div_mult_self1) simp
  show "(Y * base + x) div 2 ^ d div base = (Y * base + x) div base div 2 ^ d"
    by (rule div_swap)
qed

lemma shr_digits_value:
  assumes d: "0 < d" "d < 16"
  shows "dval (shr_digits b k d u) b (Suc k) = dval u b (Suc k) div 2 ^ d mod base ^ k"
proof (induction k arbitrary: u)
  case 0
  then show ?case by simp
next
  case (Suc k)
  let ?x = "u (b + Suc k)" and ?y = "u (b + k)"
  define w where "w = u(b + Suc k := digit (drop_bit d (ucast ?x) OR LHALF (push_bit (16 - d) (ucast ?y))))"
  define Y where "Y = dval u b (Suc k)"
  have run: "shr_digits b (Suc k) d u = shr_digits b k d w" by (simp add: w_def)
  have "shr_digits b k d w (b + Suc k) = w (b + Suc k)" by (rule shr_digits_frame) simp
  then have last: "unat (shr_digits b k d w (b + Suc k)) = unat ?x div 2 ^ d + unat ?y * 2 ^ (16 - d) mod base"
    using shr_digit [OF d, of ?x ?y] by (simp add: w_def)
  have "dval w b (Suc k) = Y" unfolding w_def Y_def by (rule dval_upd) simp
  then have IH: "dval (shr_digits b k d w) b (Suc k) = Y div 2 ^ d mod base ^ k" using Suc.IH [of w] by simp
  define Z where "Z = (Y * base + unat ?x) div 2 ^ d"
  have "Z div base = Y div 2 ^ d"
    using shifted_right(2) [of d Y "unat ?x"] d digit_less [of ?x] by (simp add: Z_def)
  moreover have "Z mod base = unat ?x div 2 ^ d + unat ?y * 2 ^ (16 - d) mod base"
  proof -
    have "Y mod base = unat ?y" using digit_less [of ?y] by (simp add: Y_def)
    then have y: "Y * 2 ^ (16 - d) mod base = unat ?y * 2 ^ (16 - d) mod base" by (metis mod_mult_left_eq)
    have "Z = Y * 2 ^ (16 - d) + unat ?x div 2 ^ d"
      using shifted_right(1) [of d Y "unat ?x"] d by (simp add: Z_def)
    then have "Z mod base = (Y * 2 ^ (16 - d) mod base + unat ?x div 2 ^ d) mod base"
      by (simp only: mod_add_left_eq)
    then have "Z mod base = (unat ?x div 2 ^ d + unat ?y * 2 ^ (16 - d) mod base) mod base"
      unfolding y by (simp only: add.commute)
    then show ?thesis using digit_less [of "shr_digits b k d w (b + Suc k)"] unfolding last by simp
  qed
  moreover have "Z mod base ^ Suc k = (Z div base mod base ^ k) * base + Z mod base"
    by (simp add: mod_mult2_eq mult.commute)
  ultimately have "Z mod base ^ Suc k = dval (shr_digits b k d w) b (Suc k) * base +
      unat (shr_digits b k d w (b + Suc k))"
    unfolding IH last by simp
  then show ?case
    unfolding run by (simp only: dval.simps(2) [of _ _ "Suc k"] Z_def Y_def)
qed


section \<open>Preparation and results\<close>

lemma dval_0_iff: "dval p b k = 0 \<longleftrightarrow> (\<forall>i. b \<le> i \<longrightarrow> i < b + k \<longrightarrow> p i = 0)"
proof (induction k)
  case (Suc k)
  have "unat (p (b + k)) = 0 \<longleftrightarrow> p (b + k) = 0" by (simp add: unat_eq_0)
  then show ?case using Suc by (auto simp: less_Suc_eq dest: spec [of _ "b + k"])
qed simp

lemma dval_skip: "dval p b j = 0 \<Longrightarrow> dval p b (j + k) = dval p (b + j) k"
  by (simp add: dval_add)

lemma unat_mkq: "unat (mkq h l) = unat h * 4294967296 + unat l"
proof -
  have "unat (up h) = unat h * 4294967296"
    using unat_less_word [of h] unfolding up_def
    by (subst unsigned_push_bit_eq) (simp add: push_bit_eq_mult take_bit_nat_eq_self)
  then show ?thesis
    using unat_less_word [of h] unat_less_word [of l] by (simp add: mkq_up unat_word_ariths)
qed

lemma four: "(4 :: nat) = Suc (Suc (Suc (Suc 0)))"
  by simp

lemmas small_nums = numeral_2_eq_2 numeral_3_eq_3 four

lemma dval_4: "dval p (Suc 0) 4 = ((unat (p 1) * base + unat (p 2)) * base + unat (p 3)) * base + unat (p 4)"
  by (simp add: small_nums)

lemma split_quad_value: "dval (split_quad p q) (Suc 0) 4 = unat q"
proof -
  have h: "unat (digit (HHALF x)) * base + unat (digit (LHALF x)) = unat x" for x
    using unat_less_word [of x] by (simp add: unat_halves)
  have "unat q = unat (ulH q) * 4294967296 + unat (ulL q)" using unat_mkq [of "ulH q" "ulL q"] by simp
  then show ?thesis
    using h [of "ulH q"] h [of "ulL q"] unfolding dval_4 by (simp add: split_quad_def)
qed

lemma join_quad_value: "unat (join_quad p) = dval p (Suc 0) 4"
  unfolding dval_4 by (simp add: join_quad_def unat_mkq unat_COMBINE digit_less)

lemma skip_v_value:
  "skip_v v 4 = (if v 1 \<noteq> 0 then Some 4 else if v 2 \<noteq> 0 then Some 3 else if v 3 \<noteq> 0 then Some 2 else None)"
  by (simp add: small_nums)

lemma skip_v_SomeD:
  "skip_v v 4 = Some n \<Longrightarrow> n \<in> {2, 3, 4} \<and> v (5 - n) \<noteq> 0 \<and> dval v (Suc 0) (4 - n) = 0"
  unfolding skip_v_value by (auto simp: small_nums split: if_splits)

lemma skip_u_value:
  assumes "n \<in> {2, 3, 4}"
  shows "skip_u u n (4 - n) \<le> 4 - n \<and> dval u (Suc 0) (4 - n - skip_u u n (4 - n)) = 0"
  using assms by (auto simp: small_nums)

lemma clear_q_zero: "i < k \<Longrightarrow> clear_q k q i = 0"
proof (induction k arbitrary: q)
  case (Suc k)
  have frame: "k \<le> i \<Longrightarrow> clear_q k q i = q i" for k i and q :: digits
    by (induction k arbitrary: q) auto
  show ?case using Suc frame [of k i "q(k := 0)"] by (cases "i = k") auto
qed simp

lemma shift_count_value:
  "0x8000 \<le> unat t * 2 ^ k \<Longrightarrow> k < j \<Longrightarrow> unat t < base \<Longrightarrow>
   shift_count j t \<le> k \<and> 0x8000 \<le> unat t * 2 ^ shift_count j t \<and> unat t * 2 ^ shift_count j t < base"
proof (induction j arbitrary: t k)
  case (Suc j)
  show ?case
  proof (cases "t < 0x8000")
    case True
    then have "unat t < 0x8000" by (simp add: word_less_nat_alt)
    then have t: "unat (push_bit 1 t) = unat t * 2" by (subst unsigned_push_bit_eq) (simp add: take_bit_nat_eq_self)
    obtain k' where k: "k = Suc k'" using Suc.prems(1) \<open>unat t < 0x8000\<close> by (cases k) auto
    have "shift_count j (push_bit 1 t) \<le> k' \<and> 0x8000 \<le> unat (push_bit 1 t) * 2 ^ shift_count j (push_bit 1 t) \<and>
        unat (push_bit 1 t) * 2 ^ shift_count j (push_bit 1 t) < base"
      using Suc.prems k t \<open>unat t < 0x8000\<close> by (intro Suc.IH) simp_all
    then show ?thesis using True k t by simp
  next
    case False
    then show ?thesis using Suc.prems by (simp add: word_less_nat_alt not_less)
  qed
qed simp

lemma div_horner:
  fixes A x t K :: nat
  assumes "0 < t"
  shows "(A * K + x) div t = A div t * K + (A mod t * K + x) div t" "(A * K + x) mod t = (A mod t * K + x) mod t"
proof -
  have "A = A mod t + A div t * t" by simp
  then have "A * K + x = (A mod t + A div t * t) * K + x" by (rule arg_cong)
  also have "\<dots> = A mod t * K + x + A div t * K * t" by (simp only: algebra_simps)
  finally have e: "A * K + x = A mod t * K + x + A div t * K * t" .
  have t: "t \<noteq> 0" using assms by simp
  show "(A * K + x) div t = A div t * K + (A mod t * K + x) div t" unfolding e div_mult_self1 [OF t] ..
  show "(A * K + x) mod t = (A mod t * K + x) mod t" unfolding e mod_mult_self1 ..
qed

lemma short_step:
  fixes x :: u16 and r t :: u32
  assumes "unat r < unat t" "unat t < base"
  shows "unat (COMBINE r (ucast x)) = unat r * base + unat x"
    "unat (digit (COMBINE r (ucast x) div t)) = (unat r * base + unat x) div unat t"
    "unat (COMBINE r (ucast x) mod t) = (unat r * base + unat x) mod unat t"
proof -
  show c: "unat (COMBINE r (ucast x)) = unat r * base + unat x"
    using assms digit_less [of x] by (simp add: unat_COMBINE)
  have "(unat r + 1) * base \<le> unat t * base" using assms(1) by (intro mult_le_mono1) simp
  then have "unat r * base + unat x < base * unat t" using digit_less [of x] by simp
  then have "(unat r * base + unat x) div unat t < base" by (simp add: less_mult_imp_div_less)
  then show "unat (digit (COMBINE r (ucast x) div t)) = (unat r * base + unat x) div unat t"
    by (simp add: unat_div c)
  show "unat (COMBINE r (ucast x) mod t) = (unat r * base + unat x) mod unat t" by (simp add: unat_mod c)
qed

lemma short_div_value:
  assumes t: "0 < unat t" "unat t < base" and u: "dval u (Suc 0) 4 = U"
  shows "unat (fst (short_div u t)) = U div unat t \<and> unat (snd (short_div u t)) = U mod unat t"
proof -
  define r1 where "r1 = ucast (u 1) mod t"
  define r2 where "r2 = COMBINE r1 (ucast (u 2)) mod t"
  define r3 where "r3 = COMBINE r2 (ucast (u 3)) mod t"
  define r4 where "r4 = COMBINE r3 (ucast (u 4)) mod t"
  have r: "unat (x mod t) < unat t" for x using t(1) by (simp add: unat_mod)
  note step = short_step [OF r t(2), folded r1_def] short_step [OF r t(2)]
  have q1: "unat (digit (ucast (u 1) div t)) = unat (u 1) div unat t"
  proof -
    have "unat (u 1) div unat t < base" by (rule le_less_trans [OF div_le_dividend digit_less])
    then show ?thesis by (simp add: unat_div)
  qed
  have v1: "unat r1 = unat (u 1) mod unat t" by (simp add: r1_def unat_mod)
  have v2: "unat r2 = (unat r1 * base + unat (u 2)) mod unat t" unfolding r2_def r1_def by (rule step)
  have v3: "unat r3 = (unat r2 * base + unat (u 3)) mod unat t" unfolding r3_def r2_def by (rule step)
  have v4: "unat r4 = (unat r3 * base + unat (u 4)) mod unat t" unfolding r4_def r3_def by (rule step)
  have q2: "unat (digit (COMBINE r1 (ucast (u 2)) div t)) = (unat r1 * base + unat (u 2)) div unat t"
    unfolding r1_def by (rule step)
  have q3: "unat (digit (COMBINE r2 (ucast (u 3)) div t)) = (unat r2 * base + unat (u 3)) div unat t"
    unfolding r2_def by (rule step)
  have q4: "unat (digit (COMBINE r3 (ucast (u 4)) div t)) = (unat r3 * base + unat (u 4)) div unat t"
    unfolding r3_def by (rule step)
  have run: "short_div u t =
      (mkq (COMBINE (ucast (digit (ucast (u 1) div t))) (ucast (digit (COMBINE r1 (ucast (u 2)) div t))))
           (COMBINE (ucast (digit (COMBINE r2 (ucast (u 3)) div t))) (ucast (digit (COMBINE r3 (ucast (u 4)) div t)))),
       ucast r4)"
    unfolding short_div_def Let_def r1_def r2_def r3_def r4_def ..
  have c: "unat (COMBINE (ucast (x :: u16)) (ucast (y :: u16))) = unat x * base + unat y" for x y
    by (simp add: unat_COMBINE digit_less)
  have "unat (fst (short_div u t)) =
      (((unat (u 1) div unat t) * base + (unat r1 * base + unat (u 2)) div unat t) * base +
       (unat r2 * base + unat (u 3)) div unat t) * base + (unat r3 * base + unat (u 4)) div unat t"
    unfolding run fst_conv unat_mkq c q1 q2 q3 q4 by simp
  moreover have "unat (snd (short_div u t)) = unat r4" unfolding run by simp
  moreover have "U div unat t = (((unat (u 1) div unat t) * base + (unat r1 * base + unat (u 2)) div unat t) * base +
       (unat r2 * base + unat (u 3)) div unat t) * base + (unat r3 * base + unat (u 4)) div unat t"
    "U mod unat t = unat r4"
  proof -
    define U2 where "U2 = unat (u 1) * base + unat (u 2)"
    define U3 where "U3 = U2 * base + unat (u 3)"
    have U: "U = U3 * base + unat (u 4)" using u unfolding dval_4 U3_def U2_def by simp
    have m: "unat r2 = U2 mod unat t" "unat r3 = U3 mod unat t"
      unfolding v3 v2 v1 U3_def U2_def using div_horner(2) [OF t(1)] by simp_all
    show "U mod unat t = unat r4" unfolding v4 m U by (rule div_horner(2) [OF t(1)])
    have "U2 div unat t = unat (u 1) div unat t * base + (unat r1 * base + unat (u 2)) div unat t"
      unfolding v1 U2_def by (rule div_horner(1) [OF t(1)])
    moreover have "U3 div unat t = U2 div unat t * base + (unat r2 * base + unat (u 3)) div unat t"
      unfolding m U3_def by (rule div_horner(1) [OF t(1)])
    moreover have "U div unat t = U3 div unat t * base + (unat r3 * base + unat (u 4)) div unat t"
      unfolding m U by (rule div_horner(1) [OF t(1)])
    ultimately show "U div unat t = (((unat (u 1) div unat t) * base + (unat r1 * base + unat (u 2)) div unat t) * base +
       (unat r2 * base + unat (u 3)) div unat t) * base + (unat r3 * base + unat (u 4)) div unat t"
      by (simp only:)
  qed
  ultimately show ?thesis by (simp only:)
qed


section \<open>The whole division\<close>

lemma normalise:
  assumes "0 < unat (v (Suc vo))" and n: "n = Suc k"
  defines "d \<equiv> shift_count 16 (ucast (v (Suc vo)))"
  defines "w \<equiv> (if 0 < d then shl_digits (Suc vo) k d v else v)"
  shows "d < 16 \<and> dval w (Suc vo) n = dval v (Suc vo) n * 2 ^ d \<and> 0x8000 \<le> unat (w (Suc vo)) \<and>
    base ^ k \<le> dval v (Suc vo) n"
proof -
  let ?l = "unat (v (Suc vo))" and ?V = "dval v (Suc vo) n"
  have d: "d < 16" "0x8000 \<le> ?l * 2 ^ d" "?l * 2 ^ d < base"
    using shift_count_value [of "ucast (v (Suc vo))" 15 16] assms(1) digit_less [of "v (Suc vo)"]
    by (simp_all add: d_def)
  have V: "?V = ?l * base ^ k + dval v (Suc (Suc vo)) k" unfolding n by (rule dval_Cons)
  have rest: "dval v (Suc (Suc vo)) k < base ^ k" by (rule dval_less)
  have "(?l + 1) * 2 ^ d \<le> base"
  proof -
    have b: "2 ^ d * 2 ^ (16 - d) = base"
    proof -
      have "(2 :: nat) ^ d * 2 ^ (16 - d) = 2 ^ 16" using d(1) by (simp flip: power_add)
      then show ?thesis by simp
    qed
    have "2 ^ d * ?l < 2 ^ d * 2 ^ (16 - d)" using d(3) b by (simp add: mult.commute)
    then have "?l + 1 \<le> 2 ^ (16 - d)" by simp
    then have "(?l + 1) * 2 ^ d \<le> 2 ^ (16 - d) * 2 ^ d" by (rule mult_le_mono1)
    then show ?thesis using b by (simp add: mult.commute)
  qed
  then have le: "(?l + 1) * 2 ^ d * base ^ k \<le> base * base ^ k" by (rule mult_le_mono1)
  have "?V < (?l + 1) * base ^ k" using V rest by simp
  then have "?V * 2 ^ d < (?l + 1) * base ^ k * 2 ^ d" by simp
  also have "\<dots> = (?l + 1) * 2 ^ d * base ^ k" by (simp only: mult_ac)
  also have "\<dots> \<le> base ^ n" using le unfolding n power_Suc .
  finally have lt: "?V * 2 ^ d < base ^ n" .
  have w: "dval w (Suc vo) n = ?V * 2 ^ d"
  proof (cases "0 < d")
    case True
    then show ?thesis
      using shl_digits_value [OF True d(1), of "Suc vo" k v] lt unfolding w_def n by simp
  qed (simp add: w_def)
  have "0x8000 * base ^ k \<le> ?l * 2 ^ d * base ^ k" using d(2) by (rule mult_le_mono1)
  also have "\<dots> \<le> ?V * 2 ^ d" unfolding V by (simp add: algebra_simps)
  also have "\<dots> = unat (w (Suc vo)) * base ^ k + dval w (Suc (Suc vo)) k" unfolding w [symmetric] by (subst n, rule dval_Cons)
  also have "\<dots> < (unat (w (Suc vo)) + 1) * base ^ k" using dval_less [of w "Suc (Suc vo)" k] by simp
  finally have "0x8000 < unat (w (Suc vo)) + 1" unfolding mult_less_cancel2 by simp
  moreover have "base ^ k \<le> ?l * base ^ k" using assms(1) by (cases ?l) simp_all
  ultimately show ?thesis using d(1) w V by (simp add: trans_le_add1 del: dval.simps)
qed

lemma window:
  assumes U: "dval u b (Suc n + m) = U * 2 ^ d" "U < base ^ (n + m)" and V: "base ^ k \<le> V" "n = Suc k"
  shows "dval u b (Suc n) < V * 2 ^ d * base"
proof -
  have "dval u b (Suc n) * base ^ m \<le> U * 2 ^ d" unfolding U(1) [symmetric] dval_add by simp
  also have "\<dots> < base ^ (n + m) * 2 ^ d" using U(2) by simp
  also have "\<dots> = base ^ k * 2 ^ d * base * base ^ m" unfolding V(2) by (simp add: power_add)
  also have "\<dots> \<le> V * 2 ^ d * base * base ^ m" using V(1) by simp
  finally show ?thesis unfolding mult_less_cancel2 by simp
qed

lemma long_division:
  assumes n: "n \<in> {2, 3, 4}" and v: "0 < unat (v (Suc vo))" "vo = 4 - n" and u0: "u 0 = 0"
    and m: "m \<le> 4 - n" "dval u (Suc 0) (4 - n - m) = 0"
    and V: "V = dval v (Suc vo) n" and U: "U = dval u (Suc 0) 4"
  defines "uo \<equiv> 4 - n - m" and "qo \<equiv> 4 - m"
  defines "d \<equiv> shift_count 16 (ucast (v (vo + 1)))"
  defines "u1 \<equiv> (if d > 0 then shl_digits uo (m + n) d u else u)"
  defines "v1 \<equiv> (if d > 0 then shl_digits (vo + 1) (n - 1) d v else v)"
  assumes loop: "div_loop (m + 1) n uo qo vo v1 u1 (clear_q (4 - m) junk) = (u2, q)"
  defines "u3 \<equiv> (if d > 0 then shr_digits (uo + m) n d u2 else u2)"
  shows "dval q (Suc 0) 4 = U div V \<and> dval u3 (Suc 0) 4 = U mod V"
proof -
  obtain k where k: "n = Suc k" "2 \<le> n" "n \<le> 4" using n by auto
  have nm: "uo + m = vo" "uo + (m + n) = 4" "vo + n = 4" "qo + m = 4" "m \<le> 2" "2 \<le> qo"
    using k m(1) n by (auto simp: uo_def v(2) qo_def)
  have norm: "d < 16" "dval v1 (Suc vo) n = V * 2 ^ d" "0x8000 \<le> unat (v1 (Suc vo))" "base ^ k \<le> V"
  proof -
    have d': "shift_count 16 (ucast (v (Suc vo))) = d" by (simp add: d_def)
    have v': "(if 0 < d then shl_digits (Suc vo) k d v else v) = v1" by (simp add: v1_def k(1))
    show "d < 16" "dval v1 (Suc vo) n = V * 2 ^ d" "0x8000 \<le> unat (v1 (Suc vo))" "base ^ k \<le> V"
      using normalise [of v vo, OF v(1) k(1)] unfolding d' v' V by simp_all
  qed
  have V0: "0 < V" using norm(4) by (meson less_le_trans zero_less_numeral zero_less_power)
  \<comment> \<open>the dividend, without its leading zero digits\<close>
  have zero: "dval u (Suc 0) uo = 0" using m(2) by (simp only: uo_def)
  then have Ud: "U = dval u (Suc uo) (m + n)"
    using dval_skip [of u "Suc 0" uo "m + n"] nm(2) U by simp
  then have Ub: "U < base ^ (n + m)" using dval_less [of u "Suc uo" "m + n"] by (simp add: add.commute)
  have "u uo = 0" using u0 zero dval_0_iff [of u "Suc 0" uo] by (cases uo) auto
  then have Uo: "dval u uo (Suc (m + n)) = U" unfolding dval_Cons using Ud by simp
  have u1: "dval u1 uo (Suc n + m) = U * 2 ^ d"
  proof (cases "0 < d")
    case True
    have "2 ^ d \<le> (2 :: nat) ^ 16" using norm(1) by (intro power_increasing) simp_all
    then have "U * 2 ^ d < base ^ (n + m) * base" using Ub by (intro mult_less_le_imp_less) simp_all
    then have "U * 2 ^ d mod base ^ Suc (m + n) = U * 2 ^ d" by (simp add: mult.commute add.commute)
    then show ?thesis
      using shl_digits_value [OF True norm(1), of uo "m + n" u] True Uo by (simp add: u1_def add.commute del: dval.simps)
  qed (use Uo in \<open>simp add: u1_def add.commute del: dval.simps\<close>)
  \<comment> \<open>the loop\<close>
  have "dval u1 uo (Suc n) < V * 2 ^ d * base" by (rule window [OF u1 Ub norm(4) k(1)])
  then have "dval u1 uo (Suc n) < dval v1 (Suc vo) n * base" unfolding norm(2) .
  note L = div_loop_value [OF k(2) refl norm(3) this loop [unfolded Suc_eq_plus1 [symmetric]], unfolded norm(2) u1]
  have q: "dval q qo (Suc m) = U div V" and R: "dval u2 uo (Suc n + m) = (U mod V) * 2 ^ d"
    using L by (simp_all add: mult_mod_left [symmetric])
  \<comment> \<open>the quotient\<close>
  have "q i = 0" if "Suc 0 \<le> i" "i < Suc 0 + (3 - m)" for i
  proof -
    have "i < 4 - m" using that nm(5) by simp
    then show ?thesis using L clear_q_zero [of i "4 - m" junk] by (simp add: qo_def)
  qed
  then have "dval q (Suc 0) (3 - m) = 0" using dval_0_iff by blast
  moreover have e: "3 - m + Suc m = 4" "Suc 0 + (3 - m) = qo" using nm(5) by (simp_all add: qo_def)
  ultimately have Q: "dval q (Suc 0) 4 = U div V"
    using dval_skip [of q "Suc 0" "3 - m" "Suc m"] q unfolding e by (simp only:)
  \<comment> \<open>the remainder\<close>
  define r where "r = U mod V"
  have "r * 2 ^ d < V * 2 ^ d" using V0 by (simp add: r_def)
  also have "V * 2 ^ d < base ^ n" unfolding norm(2) [symmetric] by (rule dval_less)
  finally have small: "r * 2 ^ d < base ^ n" .
  have "dval u2 uo (Suc m) * base ^ n + dval u2 (uo + Suc m) n = r * 2 ^ d"
    using R dval_add [of u2 uo "Suc m" n] by (simp add: r_def add.commute del: dval.simps)
  moreover from this have "dval u2 uo (Suc m) * base ^ n < 1 * base ^ n" using small by linarith
  then have z2: "dval u2 uo (Suc m) = 0" unfolding mult_less_cancel2 by simp
  ultimately have r2: "dval u2 (Suc vo) n = r * 2 ^ d" using nm(1) by simp
  have "u2 i = 0" if "Suc 0 \<le> i" "i < Suc 0 + vo" for i
  proof (cases "i < uo")
    case True
    have "u2 i = u1 i" using L True by simp
    also have "u1 i = u i" using True by (simp add: u1_def shl_digits_frame)
    also have "\<dots> = 0" using zero True that(1) dval_0_iff [of u "Suc 0" uo] by simp
    finally show ?thesis .
  next
    case False
    then show ?thesis using z2 that nm(1) dval_0_iff [of u2 uo "Suc m"] by simp
  qed
  note u2 = this
  have u2v: "u2 vo = 0" using z2 nm(1) dval_0_iff [of u2 uo "Suc m"] by simp
  then have "dval u2 vo (Suc n) = r * 2 ^ d" using r2 unfolding dval_Cons by simp
  moreover have "r \<le> r * 2 ^ d" by simp
  then have "r < base ^ n" using small by linarith
  ultimately have u3: "dval u3 vo (Suc n) = r"
    using shr_digits_value [of d vo n u2] norm(1) nm(1) by (simp add: u3_def del: dval.simps)
  then have "unat (u3 vo) * base ^ n < 1 * base ^ n" using \<open>r < base ^ n\<close> unfolding dval_Cons by linarith
  then have u3v: "u3 vo = 0" unfolding mult_less_cancel2 by (simp add: unat_eq_0)
  have "u3 i = 0" if "Suc 0 \<le> i" "i < Suc 0 + vo" for i
    using u2 [OF that] u3v that nm(1) by (cases "i = vo") (simp_all add: u3_def shr_digits_frame)
  then have "dval u3 (Suc 0) vo = 0" using dval_0_iff by blast
  from dval_skip [OF this, of n] have "dval u3 (Suc 0) 4 = r"
    using nm(3) u3 u3v unfolding dval_Cons by simp
  then show ?thesis using Q by (simp add: r_def)
qed


lemma qdivrem_value:
  assumes "vq \<noteq> 0"
  shows "qdivrem junk uq vq = Some (uq div vq, uq mod vq)"
proof (cases "uq < vq")
  case True
  then have "uq div vq = 0" "uq mod vq = uq"
    by (simp_all add: word_unat_eq_iff unat_div unat_mod word_less_nat_alt)
  then show ?thesis using True assms by (simp add: qdivrem_def)
next
  case False
  define u where "u = split_quad (junk(0 := 0)) uq"
  define v where "v = split_quad junk vq"
  have u: "unat uq = dval u (Suc 0) 4" "u 0 = 0" and v: "unat vq = dval v (Suc 0) 4"
    by (simp_all add: u_def v_def split_quad_value) (simp add: split_quad_def)
  have "\<exists>q r. qdivrem junk uq vq = Some (q, r) \<and> unat q = unat uq div unat vq \<and> unat r = unat uq mod unat vq"
  proof (cases "skip_v v 4")
    case None
    then have "v 1 = 0" "v 2 = 0" "v 3 = 0" unfolding skip_v_value by (simp_all split: if_splits)
    then have t: "unat vq = unat (v 4)" unfolding v dval_4 by simp
    moreover have "unat vq \<noteq> 0" using assms by (simp add: unat_eq_0)
    ultimately have "0 < unat (ucast (v 4) :: u32)" by simp
    then have "unat (fst (short_div u (ucast (v 4)))) = unat uq div unat vq \<and>
        unat (snd (short_div u (ucast (v 4)))) = unat uq mod unat vq"
      using short_div_value [of "ucast (v 4)" u "unat uq"] t u(1) digit_less [of "v 4"] by simp
    moreover have "qdivrem junk uq vq = Some (short_div u (ucast (v 4)))"
      using None False assms by (simp add: qdivrem_def u_def [symmetric] v_def [symmetric])
    ultimately show ?thesis by (metis prod.collapse)
  next
    case (Some n)
    note n = skip_v_SomeD [OF Some]
    define m where "m = skip_u u n (4 - n)"
    define d where "d = shift_count 16 (ucast (v (4 - n + 1)))"
    define u1 where "u1 = (if d > 0 then shl_digits (4 - n - m) (m + n) d u else u)"
    define v1 where "v1 = (if d > 0 then shl_digits (4 - n + 1) (n - 1) d v else v)"
    obtain u2 q where loop: "div_loop (m + 1) n (4 - n - m) (4 - m) (4 - n) v1 u1 (clear_q (4 - m) junk) = (u2, q)"
      by fastforce
    define u3 where "u3 = (if d > 0 then shr_digits (4 - n - m + m) n d u2 else u2)"
    have run: "qdivrem junk uq vq = Some (join_quad q, join_quad u3)"
      unfolding qdivrem_def using Some False assms loop
      by (simp only: Let_def u_def [symmetric] v_def [symmetric] m_def [symmetric] d_def [symmetric]
          u1_def [symmetric] v1_def [symmetric] option.case prod.case if_False u3_def)
    have m: "m \<le> 4 - n" "dval u (Suc 0) (4 - n - m) = 0"
      using skip_u_value [of n u] n by (simp_all add: m_def)
    have "4 - n + 1 = 5 - n" using n by auto
    then have v0: "0 < unat (v (Suc (4 - n)))" using n by (simp add: unat_gt_0)
    have "unat vq = dval v (Suc (4 - n)) n"
      using dval_skip [of v "Suc 0" "4 - n" n] n v by auto
    then have "dval q (Suc 0) 4 = unat uq div unat vq \<and> dval u3 (Suc 0) 4 = unat uq mod unat vq"
      using long_division [of n v "4 - n" u m "unat vq" "unat uq" junk u2 q] n v0 u m loop
      unfolding u3_def u1_def v1_def d_def by simp
    then show ?thesis unfolding run by (simp add: join_quad_value)
  qed
  then show ?thesis by (auto simp: word_unat_eq_iff unat_div unat_mod)
qed


section \<open>Signed and unsigned division\<close>

lemma magnitude: "uint (if sint a < 0 then - a else a) = \<bar>sint a\<bar>" for a :: u64
proof -
  have u: "uint a < 18446744073709551616" using unsigned_less [of a, where 'a = int] by simp
  then have b: "bit a 63 \<longleftrightarrow> sint a < 0" using sint_sign_bit(2) [of a] by (cases "bit a 63") simp_all
  show ?thesis
  proof (cases "sint a < 0")
    case True
    then have "bit a 63" using b by simp
    then have s: "sint a = uint a - 18446744073709551616" unfolding sint_sign_bit(2) [of a] by simp
    have "a \<noteq> 0" using True by auto
    then have "uint a \<noteq> 0" by (simp add: unsigned_eq_0_iff)
    then have "0 < uint a" using unsigned_greater_eq [of a, where 'a = int] by linarith
    have "uint (- a) = (- uint a) mod 18446744073709551616" by (simp add: uint_word_ariths)
    also have "\<dots> = (18446744073709551616 - uint a) mod 18446744073709551616" by (simp add: mod_simps)
    also have "\<dots> = 18446744073709551616 - uint a" using u \<open>0 < uint a\<close> by (intro mod_pos_pos_trivial) simp_all
    finally show ?thesis using True s by simp
  next
    case False
    then have "\<not> bit a 63" using b by simp
    then have "sint a = uint a" unfolding sint_sign_bit(2) [of a] by simp
    then show ?thesis using False by simp
  qed
qed

text \<open>
  C14: The 64-bit division of 32-bit hosts is exact for every dividend and every divisor but 0: the
  unsigned routines return the quotient and the remainder, the signed ones the quotient rounded
  towards 0 and the remainder with the sign of the dividend (in 64 bits, so that the one quotient
  that does not fit wraps round), whatever the stack held before; a divisor of 0 traps.
\<close>

theorem quad_division:
  "qdivrem junk ua ub = (if ub = 0 then None else Some (ua div ub, ua mod ub)) \<and>
   udivdi3 junk ua ub = (if ub = 0 then None else Some (ua div ub)) \<and>
   umoddi3 junk ua ub = (if ub = 0 then None else Some (ua mod ub)) \<and>
   divdi3 junk a b = (if b = 0 then None else Some (of_int (sint a sdiv sint b))) \<and>
   moddi3 junk a b = (if b = 0 then None else Some (of_int (sint a smod sint b)))"
proof -
  have q: "qdivrem junk x y = (if y = 0 then None else Some (x div y, x mod y))" for x y
    using qdivrem_value [of y junk x] by (simp add: qdivrem_def)
  let ?u = "\<lambda>x :: u64. if sint x < 0 then - x else x"
  have dm: "?u a div ?u b = of_int (\<bar>sint a\<bar> div \<bar>sint b\<bar>)" "?u a mod ?u b = of_int (\<bar>sint a\<bar> mod \<bar>sint b\<bar>)"
    unfolding magnitude [symmetric] by (simp_all only: word_div_def word_mod_def)
  have z: "?u b = 0 \<longleftrightarrow> b = 0" by simp
  have s: "sint a sdiv sint b = (if (sint a < 0) = (sint b < 0) then \<bar>sint a\<bar> div \<bar>sint b\<bar> else - (\<bar>sint a\<bar> div \<bar>sint b\<bar>))"
    if "b \<noteq> 0"
    using that by (auto simp: signed_divide_int_def sgn_if)
  have sm: "sint a smod sint b = (if sint a < 0 then - (\<bar>sint a\<bar> mod \<bar>sint b\<bar>) else \<bar>sint a\<bar> mod \<bar>sint b\<bar>)"
    by (simp add: signed_modulo_int_def sgn_if)
  have "divdi3 junk a b = (if b = 0 then None else Some (of_int (sint a sdiv sint b)))"
    using dm(1) z s by (auto simp: divdi3_def q Let_def)
  moreover have "moddi3 junk a b = (if b = 0 then None else Some (of_int (sint a smod sint b)))"
    using dm(2) z sm by (auto simp: moddi3_def q Let_def)
  ultimately show ?thesis by (simp add: q udivdi3_def umoddi3_def)
qed

end
