(* ===== verification/PollMgr.thy ===== *)
theory PollMgr
  imports Prelude
begin

text \<open>
  The poll manager of the NAT network service (\<open>NetworkServices/NAT/proxy_pollmgr.c\<close>): the arrays
  \<open>fds\<close> and \<open>handlers\<close>, registration, the deletion of slots, a round of the poll loop, and the
  compaction that ends it. A handler is a number; \<open>pm_slot\<close> is its \<open>slot\<close> field, and its callback
  is part of the environment \<open>cb\<close>. Sockets and event masks are integers, \<open>INVALID_SOCKET\<close> is -1.

  \<open>None\<close> stands for what the C code does not survive: a failed assertion, an access outside the
  arrays, a null handler, or a store through a pointer into an array that has been reallocated. For
  the last, \<open>pm_gen\<close> counts the allocations of \<open>fds\<close>.
\<close>

section \<open>State\<close>

record pollfd =
  p_fd :: int
  p_events :: int
  p_revents :: int

record pollmgr =
  pm_fds :: "pollfd list"
  pm_hdls :: "nat option list"
  pm_capacity :: nat
  pm_nfds :: nat
  pm_slot :: "nat \<Rightarrow> int"
  pm_gen :: nat

definition INVALID_SOCKET :: int where "INVALID_SOCKET = -1"
definition POLLMGR_GARBAGE :: int where "POLLMGR_GARBAGE = -1"
definition SLOT_FIRST_DYNAMIC :: nat where "SLOT_FIRST_DYNAMIC = 1"

definition no_fd :: pollfd where
  "no_fd = \<lparr>p_fd = INVALID_SOCKET, p_events = 0, p_revents = 0\<rparr>"

definition set_fd :: "nat \<Rightarrow> pollfd \<Rightarrow> pollmgr \<Rightarrow> pollmgr" where
  "set_fd i f pm = pm\<lparr>pm_fds := (pm_fds pm)[i := f]\<rparr>"

definition set_hdl :: "nat \<Rightarrow> nat option \<Rightarrow> pollmgr \<Rightarrow> pollmgr" where
  "set_hdl i h pm = pm\<lparr>pm_hdls := (pm_hdls pm)[i := h]\<rparr>"

definition set_slot :: "nat \<Rightarrow> int \<Rightarrow> pollmgr \<Rightarrow> pollmgr" where
  "set_slot h v pm = pm\<lparr>pm_slot := (pm_slot pm)(h := v)\<rparr>"

section \<open>Registration\<close>

definition pollmgr_add_at :: "nat \<Rightarrow> nat \<Rightarrow> int \<Rightarrow> int \<Rightarrow> pollmgr \<Rightarrow> pollmgr" where
  "pollmgr_add_at slot handler fd events pm =
     (let pm = set_fd slot \<lparr>p_fd = fd, p_events = events, p_revents = 0\<rparr> pm;
          pm = set_hdl slot (Some handler) pm
      in set_slot handler (int slot) pm)"

definition pollmgr_init :: "nat option list \<Rightarrow> int \<Rightarrow> nat \<Rightarrow> (nat \<Rightarrow> int) \<Rightarrow> pollmgr" where
  \<comment> \<open>\<open>junk\<close>: the uninitialised array of handlers; \<open>chan\<close>: the read end of the queue's socket pair\<close>
  "pollmgr_init junk chan queue_handler slots =
     (let newcap = 16;
          pm = \<lparr>pm_fds = replicate newcap no_fd, pm_hdls = take newcap (junk @ replicate newcap None),
                pm_capacity = newcap, pm_nfds = 1, pm_slot = slots, pm_gen = 0\<rparr>;
          pm = set_slot queue_handler (-1) pm
      in pollmgr_add_at 0 queue_handler chan 1 pm)"

definition pollmgr_grow :: "bool \<Rightarrow> bool \<Rightarrow> pollmgr \<Rightarrow> bool \<times> pollmgr" where
  \<comment> \<open>\<open>mem1\<close>, \<open>mem2\<close>: whether the reallocations of \<open>fds\<close> and \<open>handlers\<close> succeed; the first moves \<open>fds\<close>\<close>
  "pollmgr_grow mem1 mem2 pm =
     (if pm_nfds pm = pm_capacity pm then
        let newcap = pm_capacity pm * 2 in
        if \<not> mem1 then (False, pm)
        else
          let pm = pm\<lparr>pm_gen := Suc (pm_gen pm)\<rparr> in
          if \<not> mem2 then (False, pm)
          else (True, pm\<lparr>pm_capacity := newcap,
                 pm_fds := take (pm_nfds pm) (pm_fds pm) @ replicate (newcap - pm_nfds pm) no_fd,
                 pm_hdls := take (pm_nfds pm) (pm_hdls pm) @ replicate (newcap - pm_nfds pm) None\<rparr>)
      else (True, pm))"

definition pollmgr_add :: "bool \<Rightarrow> bool \<Rightarrow> nat \<Rightarrow> int \<Rightarrow> int \<Rightarrow> pollmgr \<Rightarrow> int \<times> pollmgr" where
  "pollmgr_add mem1 mem2 handler fd events pm =
     (case pollmgr_grow mem1 mem2 pm of
        (False, pm) \<Rightarrow> (-1, set_slot handler (-1) pm)
      | (True, pm) \<Rightarrow>
          let slot = pm_nfds pm; pm = pm\<lparr>pm_nfds := slot + 1\<rparr>
          in (int slot, pollmgr_add_at slot handler fd events pm))"

definition pollmgr_update_events :: "int \<Rightarrow> int \<Rightarrow> pollmgr \<Rightarrow> pollmgr option" where
  "pollmgr_update_events slot events pm =
     (if slot \<ge> int SLOT_FIRST_DYNAMIC \<and> slot < int (pm_nfds pm)
      then let i = nat slot in Some (set_fd i ((pm_fds pm ! i)\<lparr>p_events := events\<rparr>) pm)
      else None)"

definition pollmgr_del_slot :: "int \<Rightarrow> pollmgr \<Rightarrow> pollmgr option" where
  "pollmgr_del_slot slot pm =
     (if slot \<ge> int SLOT_FIRST_DYNAMIC \<and> slot < int (length (pm_fds pm))
      then let i = nat slot in Some (set_fd i ((pm_fds pm ! i)\<lparr>p_fd := INVALID_SOCKET\<rparr>) pm)
      else None)"

section \<open>What a callback may do\<close>

text \<open>
  A callback sees the poll manager, calls its functions, may reset the \<open>slot\<close> field of a handler of
  its own, and returns the events to poll for next, or a negative number to be deleted. The rest of
  what it does is the world \<open>'w\<close>.
\<close>

datatype pm_op =
    Op_add bool bool nat int int
  | Op_del int
  | Op_update int int
  | Op_forget nat   \<comment> \<open>\<open>handler->slot = -1\<close>\<close>

fun run_op :: "pm_op \<Rightarrow> pollmgr \<Rightarrow> pollmgr option" where
  "run_op (Op_add mem1 mem2 h fd ev) pm = Some (snd (pollmgr_add mem1 mem2 h fd ev pm))"
| "run_op (Op_del slot) pm = pollmgr_del_slot slot pm"
| "run_op (Op_update slot ev) pm = pollmgr_update_events slot ev pm"
| "run_op (Op_forget h) pm = Some (set_slot h (-1) pm)"

fun run_ops :: "pm_op list \<Rightarrow> pollmgr \<Rightarrow> pollmgr option" where
  "run_ops [] pm = Some pm"
| "run_ops (x # xs) pm = (case run_op x pm of None \<Rightarrow> None | Some pm \<Rightarrow> run_ops xs pm)"

type_synonym 'w callback = "nat \<Rightarrow> int \<Rightarrow> int \<Rightarrow> 'w \<Rightarrow> pollmgr \<Rightarrow> pm_op list \<times> int \<times> 'w"

section \<open>A round of the loop\<close>

text \<open>\<open>pdelprev\<close>: the address of \<open>delfirst\<close>, or of \<open>fds[i].fd\<close> in an allocation of the array.\<close>

datatype delprev = At_delfirst | At_fd nat nat

record gc_list =
  gc_first :: int      \<comment> \<open>\<open>delfirst\<close>\<close>
  gc_prev :: delprev   \<comment> \<open>\<open>pdelprev\<close>\<close>

definition store_delprev :: "int \<Rightarrow> gc_list \<Rightarrow> pollmgr \<Rightarrow> (gc_list \<times> pollmgr) option" where
  \<comment> \<open>\<open>*pdelprev = i\<close>\<close>
  "store_delprev v g pm =
     (case gc_prev g of
        At_delfirst \<Rightarrow> Some (g\<lparr>gc_first := v\<rparr>, pm)
      | At_fd gen j \<Rightarrow>
          if gen = pm_gen pm then Some (g, set_fd j ((pm_fds pm ! j)\<lparr>p_fd := v\<rparr>) pm) else None)"

definition update_slot :: "nat \<Rightarrow> int \<Rightarrow> gc_list \<Rightarrow> pollmgr \<Rightarrow> (gc_list \<times> pollmgr) option" where
  \<comment> \<open>\<open>update_events:\<close>\<close>
  "update_slot i nevents g pm =
     (if nevents \<ge> 0 then Some (g, set_fd i ((pm_fds pm ! i)\<lparr>p_events := nevents\<rparr>) pm)
      else if i < SLOT_FIRST_DYNAMIC then Some (g, set_hdl i None (set_fd i no_fd pm))
      else
        (case store_delprev (int i) g pm of
           None \<Rightarrow> None
         | Some (g, pm) \<Rightarrow>
             let g = g\<lparr>gc_prev := At_fd (pm_gen pm) i\<rparr>;
                 pm = set_fd i \<lparr>p_fd = INVALID_SOCKET, p_events = POLLMGR_GARBAGE, p_revents = 0\<rparr> pm
             in Some (g, set_hdl i None pm)))"

definition call_handler ::
  "'w callback \<Rightarrow> nat \<Rightarrow> int \<Rightarrow> int \<Rightarrow> 'w \<Rightarrow> pollmgr \<Rightarrow> (int \<times> 'w \<times> pollmgr) option" where
  "call_handler cb i fd revents w pm =
     (case pm_hdls pm ! i of
        None \<Rightarrow> Some (-1, w, pm)
      | Some h \<Rightarrow>
          (case cb h fd revents w pm of (ops, nevents, w) \<Rightarrow>
             map_option (\<lambda>pm. (nevents, w, pm)) (run_ops ops pm)))"

lemma update_slot_nfds: "update_slot i nevents g pm = Some (g', pm') \<Longrightarrow> pm_nfds pm' = pm_nfds pm"
  by (auto simp: update_slot_def store_delprev_def set_fd_def set_hdl_def Let_def
      split: if_splits option.splits delprev.splits)

function process ::
  "'w callback \<Rightarrow> nat \<Rightarrow> nat \<Rightarrow> gc_list \<Rightarrow> 'w \<Rightarrow> pollmgr \<Rightarrow> (gc_list \<times> 'w \<times> pollmgr) option" where
  "process cb i nready g w pm =
     (if i < pm_nfds pm \<and> nready > 0 then
        let fd = p_fd (pm_fds pm ! i); revents = p_revents (pm_fds pm ! i) in
        if fd = INVALID_SOCKET \<and> i \<ge> SLOT_FIRST_DYNAMIC then
          (case update_slot i (-1) g pm of
             None \<Rightarrow> None
           | Some (g, pm') \<Rightarrow>
               process cb (i + 1) (if revents \<noteq> 0 then nready - 1 else nready) g w pm')
        else if revents = 0 then process cb (i + 1) nready g w pm
        else
          (case call_handler cb i fd revents w pm of
             None \<Rightarrow> None
           | Some (nevents, w, pm) \<Rightarrow>
               (case update_slot i nevents g pm of
                  None \<Rightarrow> None
                | Some (g, pm) \<Rightarrow> process cb (i + 1) (nready - 1) g w pm))
      else Some (g, w, pm))"
  by pat_completeness auto

termination
  by (relation "measures [\<lambda>(_, _, nready, _). nready, \<lambda>(_, i, _, _, _, pm). pm_nfds pm - i]")
    (auto dest!: update_slot_nfds)

declare process.simps [simp del]

section \<open>Compaction\<close>

definition drop_last :: "pollmgr \<Rightarrow> pollmgr" where
  \<comment> \<open>the end of the loop body: \<open>last\<close> is the slot that is no longer in use\<close>
  "drop_last pm = (let last = pm_nfds pm in set_hdl last None (set_fd last no_fd pm))"

definition move_last :: "nat \<Rightarrow> pollmgr \<Rightarrow> pollmgr option" where
  \<comment> \<open>copy the live entry at the end to slot \<open>d\<close>\<close>
  "move_last d pm =
     (let last = pm_nfds pm - 1 in
      case pm_hdls pm ! last of
        None \<Rightarrow> None
      | Some h \<Rightarrow> Some (set_slot h (int d) (set_hdl d (Some h) (set_fd d (pm_fds pm ! last) pm))))"

lemma move_last_nfds: "move_last d pm = Some pm' \<Longrightarrow> pm_nfds pm' = pm_nfds pm"
  by (auto simp: move_last_def set_slot_def set_hdl_def set_fd_def Let_def split: option.splits)

function compact :: "int \<Rightarrow> pollmgr \<Rightarrow> pollmgr option" where
  "compact delfirst pm =
     (if delfirst = INVALID_SOCKET then Some pm
      else if pm_nfds pm = 0 \<or> delfirst < 0 \<or> delfirst \<ge> int (length (pm_fds pm)) then None
      else
        let last = pm_nfds pm - 1; f = pm_fds pm ! last in
        if p_events f = POLLMGR_GARBAGE \<or> p_fd f = INVALID_SOCKET then
          compact (if delfirst = int last then INVALID_SOCKET else delfirst)
            (drop_last (pm\<lparr>pm_nfds := last\<rparr>))
        else
          let delnext = p_fd (pm_fds pm ! nat delfirst) in
          case move_last (nat delfirst) pm of
            None \<Rightarrow> None
          | Some pm \<Rightarrow>
              \<comment> \<open>\<open>(nfds_t)delnext >= pollmgr.nfds\<close>: a negative number is a large one\<close>
              compact (if delnext < 0 \<or> delnext \<ge> int last then INVALID_SOCKET else delnext)
                (drop_last (pm\<lparr>pm_nfds := last\<rparr>)))"
  by pat_completeness auto

termination
  by (relation "measure (\<lambda>(_, pm). pm_nfds pm)")
    (auto simp: drop_last_def set_hdl_def set_fd_def Let_def)

declare compact.simps [simp del]

text \<open>What \<open>poll\<close> reported: the events of the slots in use.\<close>

definition poll_reports :: "int list \<Rightarrow> pollmgr \<Rightarrow> pollmgr" where
  "poll_reports rs pm =
     pm\<lparr>pm_fds := map (\<lambda>(i, f). if i < length rs then f\<lparr>p_revents := rs ! i\<rparr> else f)
       (enumerate 0 (pm_fds pm))\<rparr>"

definition poll_round :: "'w callback \<Rightarrow> int list \<Rightarrow> nat \<Rightarrow> 'w \<Rightarrow> pollmgr \<Rightarrow> ('w \<times> pollmgr) option" where
  \<comment> \<open>one iteration of \<open>pollmgr_loop\<close> after \<open>poll\<close> returned \<open>nready\<close>, positive\<close>
  "poll_round cb rs nready w pm =
     (case process cb 0 nready \<lparr>gc_first = INVALID_SOCKET, gc_prev = At_delfirst\<rparr> w (poll_reports rs pm) of
        None \<Rightarrow> None
      | Some (g, w, pm) \<Rightarrow> map_option (Pair w) (compact (gc_first g) pm))"

end
