(* ===== verification/PollMgrRounds.thy ===== *)
theory PollMgrRounds
  imports PollMgr
begin

text \<open>
  What the poll manager keeps: the arrays have room, every dynamic slot in use is that of exactly
  the handler whose \<open>slot\<close> field names it or has been given up, and a round of the loop, whatever its callbacks
  register and delete, ends with a compact array of that kind.
\<close>

section \<open>Slots\<close>

definition pm_shape :: "pollmgr \<Rightarrow> bool" where
  "pm_shape pm \<longleftrightarrow> length (pm_fds pm) = pm_capacity pm \<and> length (pm_hdls pm) = pm_capacity pm \<and>
     1 \<le> pm_nfds pm \<and> pm_nfds pm \<le> pm_capacity pm"

definition live :: "pollmgr \<Rightarrow> nat \<Rightarrow> bool" where
  "live pm i \<longleftrightarrow> p_fd (pm_fds pm ! i) \<noteq> INVALID_SOCKET \<and> 0 \<le> p_events (pm_fds pm ! i) \<and>
     (\<exists>h. pm_hdls pm ! i = Some h \<and> pm_slot pm h = int i)"

definition killed :: "pollmgr \<Rightarrow> nat \<Rightarrow> bool" where
  "killed pm i \<longleftrightarrow> p_fd (pm_fds pm ! i) = INVALID_SOCKET \<and> 0 \<le> p_events (pm_fds pm ! i)"

definition garbage :: "pollmgr \<Rightarrow> nat \<Rightarrow> bool" where
  "garbage pm i \<longleftrightarrow> p_events (pm_fds pm ! i) = POLLMGR_GARBAGE \<and> pm_hdls pm ! i = None"

definition pm_ok :: "pollmgr \<Rightarrow> bool" where
  "pm_ok pm \<longleftrightarrow> pm_shape pm \<and> (\<forall>i \<in> {1..<pm_nfds pm}. live pm i \<or> killed pm i)"

text \<open>The socket and events a handler is registered with.\<close>

definition registered :: "pollmgr \<Rightarrow> nat \<Rightarrow> (int \<times> int) option" where
  "registered pm h =
     (let i = nat (pm_slot pm h) in
      if 1 \<le> pm_slot pm h \<and> pm_slot pm h < int (pm_nfds pm) \<and> pm_hdls pm ! i = Some h \<and>
         p_fd (pm_fds pm ! i) \<noteq> INVALID_SOCKET \<and> 0 \<le> p_events (pm_fds pm ! i)
      then Some (p_fd (pm_fds pm ! i), p_events (pm_fds pm ! i)) else None)"

lemma registered_at:
  "pm_slot pm h = int i \<Longrightarrow> registered pm h =
    (if 1 \<le> i \<and> i < pm_nfds pm \<and> pm_hdls pm ! i = Some h \<and> p_fd (pm_fds pm ! i) \<noteq> INVALID_SOCKET \<and>
        0 \<le> p_events (pm_fds pm ! i)
     then Some (p_fd (pm_fds pm ! i), p_events (pm_fds pm ! i)) else None)"
  by (simp add: registered_def)

lemma registered_none: "pm_slot pm h < 0 \<Longrightarrow> registered pm h = None"
  by (simp add: registered_def)

lemmas pm_defs = set_fd_def set_hdl_def set_slot_def INVALID_SOCKET_def POLLMGR_GARBAGE_def
  SLOT_FIRST_DYNAMIC_def

lemma slot_states: "\<not> (live pm i \<and> garbage pm i)" "\<not> (killed pm i \<and> garbage pm i)" "\<not> (live pm i \<and> killed pm i)"
  by (auto simp: live_def killed_def garbage_def pm_defs)

lemma slot_cong:
  assumes "pm_fds pm' ! i = pm_fds pm ! i" "pm_hdls pm' ! i = pm_hdls pm ! i"
  shows "killed pm' i = killed pm i" "garbage pm' i = garbage pm i"
    "(\<And>h. pm_hdls pm ! i = Some h \<Longrightarrow> pm_slot pm h = int i \<Longrightarrow> pm_slot pm' h = int i) \<Longrightarrow> live pm i \<Longrightarrow> live pm' i"
  using assms by (auto simp: live_def killed_def garbage_def)

section \<open>The garbage list\<close>

fun links :: "pollmgr \<Rightarrow> int \<Rightarrow> nat list \<Rightarrow> int \<Rightarrow> bool" where
  "links pm v [] e \<longleftrightarrow> v = e"
| "links pm v (d # ds) e \<longleftrightarrow> v = int d \<and> links pm (p_fd (pm_fds pm ! d)) ds e"

lemma links_cong:
  "(\<And>d. d \<in> set ds \<Longrightarrow> p_fd (pm_fds pm' ! d) = p_fd (pm_fds pm ! d)) \<Longrightarrow> links pm' v ds e = links pm v ds e"
  by (induction ds arbitrary: v) auto

lemma links_append:
  "links pm v (ds @ [d]) e \<longleftrightarrow> links pm v ds (int d) \<and> p_fd (pm_fds pm ! d) = e"
  by (induction ds arbitrary: v) auto

text \<open>The array while \<open>ds\<close> is still to be freed; the list ends outside the slots in use.\<close>

definition gc_slots :: "pollmgr \<Rightarrow> nat list \<Rightarrow> bool" where
  "gc_slots pm ds \<longleftrightarrow> pm_shape pm \<and> sorted_wrt (<) ds \<and> set ds \<subseteq> {1..<pm_nfds pm} \<and>
     (\<forall>i \<in> {1..<pm_nfds pm}. if i \<in> set ds then garbage pm i else live pm i \<or> killed pm i)"

definition gc_inv :: "pollmgr \<Rightarrow> nat list \<Rightarrow> int \<Rightarrow> bool" where
  "gc_inv pm ds v \<longleftrightarrow> gc_slots pm ds \<and>
     (if ds = [] then v = INVALID_SOCKET
      else \<exists>e. links pm v ds e \<and> (e < 0 \<or> int (pm_nfds pm) \<le> e))"

lemma drop_last_fields [simp]:
  "pm_nfds (drop_last pm) = pm_nfds pm" "pm_slot (drop_last pm) = pm_slot pm"
  "pm_capacity (drop_last pm) = pm_capacity pm"
  "i < pm_nfds pm \<Longrightarrow> pm_fds (drop_last pm) ! i = pm_fds pm ! i"
  "i < pm_nfds pm \<Longrightarrow> pm_hdls (drop_last pm) ! i = pm_hdls pm ! i"
  "length (pm_fds (drop_last pm)) = length (pm_fds pm)"
  "length (pm_hdls (drop_last pm)) = length (pm_hdls pm)"
  by (simp_all add: drop_last_def pm_defs Let_def)

text \<open>Giving up the last slot.\<close>

lemma drop_slots:
  assumes "pm_shape pm" "2 \<le> pm_nfds pm"
  defines "pm' \<equiv> drop_last (pm\<lparr>pm_nfds := pm_nfds pm - 1\<rparr>)"
  shows "pm_shape pm'" "i < pm_nfds pm - 1 \<Longrightarrow> live pm' i = live pm i"
    "i < pm_nfds pm - 1 \<Longrightarrow> killed pm' i = killed pm i"
    "i < pm_nfds pm - 1 \<Longrightarrow> garbage pm' i = garbage pm i"
    "\<not> live pm (pm_nfds pm - 1) \<Longrightarrow> registered pm' = registered pm"
proof -
  show "pm_shape pm'" using assms by (auto simp: pm_shape_def)
  show "i < pm_nfds pm - 1 \<Longrightarrow> live pm' i = live pm i" "i < pm_nfds pm - 1 \<Longrightarrow> killed pm' i = killed pm i"
    "i < pm_nfds pm - 1 \<Longrightarrow> garbage pm' i = garbage pm i"
    by (simp_all add: pm'_def live_def killed_def garbage_def)
  show "registered pm' = registered pm" if "\<not> live pm (pm_nfds pm - 1)"
  proof
    fix h
    show "registered pm' h = registered pm h"
    proof (cases "pm_slot pm h = int (pm_nfds pm - 1)")
      case True
      then show ?thesis using that assms(2) by (auto simp: registered_def pm'_def live_def Let_def nat_diff_distrib)
    next
      case False
      then have "pm_slot pm h < int (pm_nfds pm - 1) \<longleftrightarrow> pm_slot pm h < int (pm_nfds pm)" using assms(2) by auto
      moreover have "nat (pm_slot pm h) < pm_nfds pm - 1"
        if "1 \<le> pm_slot pm h" "pm_slot pm h < int (pm_nfds pm - 1)" using that by linarith
      ultimately show ?thesis by (auto simp: registered_def pm'_def Let_def)
    qed
  qed
qed

lemma gc_drop:
  assumes gc: "gc_inv pm ds v" and ds: "ds \<noteq> []" and last: "\<not> live pm (pm_nfds pm - 1)"
  defines "pm' \<equiv> drop_last (pm\<lparr>pm_nfds := pm_nfds pm - 1\<rparr>)"
    and "v' \<equiv> if v = int (pm_nfds pm - 1) then INVALID_SOCKET else v"
  shows "\<exists>ds'. gc_inv pm' ds' v'" "registered pm' = registered pm"
proof -
  define l where "l = pm_nfds pm - 1"
  have shape: "pm_shape pm" and sorted: "sorted_wrt (<) ds" and range: "set ds \<subseteq> {1..<pm_nfds pm}"
    and slots: "\<And>i. i \<in> {1..<pm_nfds pm} \<Longrightarrow> if i \<in> set ds then garbage pm i else live pm i \<or> killed pm i"
    using gc by (auto simp: gc_inv_def gc_slots_def)
  obtain e where e: "links pm v ds e" "e < 0 \<or> int (pm_nfds pm) \<le> e"
    using gc ds by (auto simp: gc_inv_def)
  have two: "2 \<le> pm_nfds pm" using range ds by (cases ds) auto
  note drop = drop_slots [OF shape two, folded pm'_def]
  show "registered pm' = registered pm" using drop(5) last by simp
  define ds' where "ds' = filter (\<lambda>i. i \<noteq> l) ds"
  have sub: "set ds' \<subseteq> {1..<l}"
  proof
    fix x assume "x \<in> set ds'"
    then have "x \<in> {1..<pm_nfds pm}" "x \<noteq> l" using range by (auto simp: ds'_def)
    then show "x \<in> {1..<l}" by (auto simp: l_def)
  qed
  have "gc_slots pm' ds'"
    unfolding gc_slots_def
  proof (intro conjI ballI)
    show "pm_shape pm'" by (rule drop(1))
    show "sorted_wrt (<) ds'" using sorted by (simp add: ds'_def sorted_wrt_filter)
    show "set ds' \<subseteq> {1..<pm_nfds pm'}" using sub by (simp add: pm'_def l_def)
    fix i assume "i \<in> {1..<pm_nfds pm'}"
    then have "i \<in> {1..<pm_nfds pm}" "i < pm_nfds pm - 1" "i \<in> set ds' \<longleftrightarrow> i \<in> set ds"
      by (auto simp: pm'_def ds'_def l_def)
    then show "if i \<in> set ds' then garbage pm' i else live pm' i \<or> killed pm' i"
      using slots [of i] drop(2-4) [of i] by simp
  qed
  moreover have "if ds' = [] then v' = INVALID_SOCKET
      else \<exists>e. links pm' v' ds' e \<and> (e < 0 \<or> int (pm_nfds pm') \<le> e)"
  proof (cases "l \<in> set ds")
    case False
    then have same: "ds' = ds" by (auto simp: ds'_def filter_id_conv)
    have "v' = v" using False e(1) ds by (cases ds) (auto simp: v'_def l_def)
    moreover have "links pm' v ds e"
      using e(1) by (subst links_cong) (use sub same in \<open>auto simp: pm'_def l_def\<close>)
    ultimately show ?thesis using same ds e(2) by (auto simp: pm'_def)
  next
    case True
    obtain xs where xs: "ds = xs @ [l]"
    proof -
      obtain xs x where x: "ds = xs @ [x]" using ds by (cases ds rule: rev_cases) auto
      then have "x = l"
        using True sorted range by (fastforce simp: sorted_wrt_append l_def)
      then show thesis using that x by simp
    qed
    have l_fresh: "l \<notin> set xs" using sorted by (auto simp: xs sorted_wrt_append)
    then have ds'_xs: "ds' = xs" by (auto simp: ds'_def xs filter_id_conv)
    have xs_links: "links pm v xs (int l)" using e(1) by (simp add: xs links_append)
    show ?thesis
    proof (cases xs)
      case Nil
      then show ?thesis using xs_links ds'_xs by (simp add: v'_def l_def)
    next
      case (Cons a ys)
      then have "v = int a" "a \<noteq> l" using xs_links l_fresh by auto
      then have "v' = v" by (simp add: v'_def l_def)
      moreover have "links pm' v xs (int l)"
        using xs_links by (subst links_cong) (use sub ds'_xs in \<open>auto simp: pm'_def l_def\<close>)
      ultimately show ?thesis using ds'_xs Cons by (auto simp: pm'_def l_def)
    qed
  qed
  ultimately show "\<exists>ds'. gc_inv pm' ds' v'" unfolding gc_inv_def by blast
qed

lemma gc_move:
  assumes gc: "gc_inv pm (d # ds) v" and last: "live pm (pm_nfds pm - 1)"
  obtains pm1 where "move_last d pm = Some pm1"
    "gc_inv (drop_last (pm1\<lparr>pm_nfds := pm_nfds pm - 1\<rparr>)) ds
      (let n = p_fd (pm_fds pm ! d) in if n < 0 \<or> n \<ge> int (pm_nfds pm - 1) then INVALID_SOCKET else n)"
    "registered (drop_last (pm1\<lparr>pm_nfds := pm_nfds pm - 1\<rparr>)) = registered pm"
proof -
  define l where "l = pm_nfds pm - 1"
  have shape: "pm_shape pm" and sorted: "sorted_wrt (<) (d # ds)" and range: "set (d # ds) \<subseteq> {1..<pm_nfds pm}"
    and slots: "\<And>i. i \<in> {1..<pm_nfds pm} \<Longrightarrow> if i \<in> set (d # ds) then garbage pm i else live pm i \<or> killed pm i"
    using gc by (auto simp: gc_inv_def gc_slots_def)
  obtain e where e: "links pm (p_fd (pm_fds pm ! d)) ds e" "e < 0 \<or> int (pm_nfds pm) \<le> e"
    using gc by (auto simp: gc_inv_def)
  have d: "1 \<le> d" "d < pm_nfds pm" "garbage pm d" using range slots [of d] by auto
  have "d \<noteq> l" using d(3) last slot_states(1) [of pm l] by (auto simp: l_def)
  then have dl: "d < l" "2 \<le> pm_nfds pm" using d by (auto simp: l_def)
  obtain h where h: "pm_hdls pm ! l = Some h" "pm_slot pm h = int l" using last by (auto simp: live_def l_def)
  define pm1 where "pm1 = set_slot h (int d) (set_hdl d (Some h) (set_fd d (pm_fds pm ! l) pm))"
  define pm2 where "pm2 = pm1\<lparr>pm_nfds := pm_nfds pm - 1\<rparr>"
  have len: "d < length (pm_fds pm)" "d < length (pm_hdls pm)" using shape d by (auto simp: pm_shape_def)
  have at_d: "pm_fds pm1 ! d = pm_fds pm ! l" "pm_hdls pm1 ! d = Some h" "pm_slot pm1 h = int d"
    using len by (simp_all add: pm1_def pm_defs)
  have at_other: "pm_fds pm1 ! i = pm_fds pm ! i" "pm_hdls pm1 ! i = pm_hdls pm ! i" if "i \<noteq> d" for i
    using that by (simp_all add: pm1_def pm_defs)
  have slot_other: "pm_slot pm1 g = pm_slot pm g" if "g \<noteq> h" for g using that by (simp add: pm1_def pm_defs)
  have shape1: "pm_shape (drop_last pm2)"
    using shape dl by (auto simp: pm2_def pm1_def pm_shape_def pm_defs)
  have same: "live (drop_last pm2) i = live pm1 i" "killed (drop_last pm2) i = killed pm1 i"
    "garbage (drop_last pm2) i = garbage pm1 i" if "i < l" for i
    using that by (simp_all add: pm2_def live_def killed_def garbage_def l_def)
  have live_d: "live pm1 d" using last at_d by (simp add: live_def l_def)
  have fds2: "pm_fds (drop_last pm2) ! i = pm_fds pm1 ! i" if "i < l" for i using that by (simp add: pm2_def l_def)
  have "gc_slots (drop_last pm2) ds"
    unfolding gc_slots_def
  proof (intro conjI ballI)
    show "pm_shape (drop_last pm2)" by (rule shape1)
    show "sorted_wrt (<) ds" using sorted by simp
    have l_out: "l \<notin> set ds" using slots [of l] last dl slot_states(1) [of pm l] by (auto simp: l_def)
    show "set ds \<subseteq> {1..<pm_nfds (drop_last pm2)}"
    proof
      fix x assume "x \<in> set ds"
      then have "x \<in> {1..<pm_nfds pm}" "x \<noteq> l" using range l_out by auto
      then show "x \<in> {1..<pm_nfds (drop_last pm2)}" by (auto simp: pm2_def l_def)
    qed
    fix i assume "i \<in> {1..<pm_nfds (drop_last pm2)}"
    then have i: "i \<in> {1..<pm_nfds pm}" "i < l" by (auto simp: pm2_def l_def)
    show "if i \<in> set ds then garbage (drop_last pm2) i else live (drop_last pm2) i \<or> killed (drop_last pm2) i"
    proof (cases "i = d")
      case True
      then have "i \<notin> set ds" using sorted by auto
      then show ?thesis using True live_d same [of i] i by simp
    next
      case False
      have "live pm1 i" if alive: "live pm i"
      proof -
        obtain h' where h': "pm_hdls pm ! i = Some h'" "pm_slot pm h' = int i" using alive by (auto simp: live_def)
        then have "h' \<noteq> h" using h i by auto
        then show ?thesis using alive h' False at_other slot_other by (auto simp: live_def)
      qed
      moreover have "killed pm1 i = killed pm i" "garbage pm1 i = garbage pm i"
        using False at_other by (simp_all add: killed_def garbage_def)
      ultimately show ?thesis using slots [of i] i False same [of i] by (auto split: if_splits)
    qed
  qed
  moreover define n where "n = p_fd (pm_fds pm ! d)"
  have "if ds = [] then (if n < 0 \<or> n \<ge> int l then INVALID_SOCKET else n) = INVALID_SOCKET
      else \<exists>e. links (drop_last pm2) (if n < 0 \<or> n \<ge> int l then INVALID_SOCKET else n) ds e \<and>
        (e < 0 \<or> int (pm_nfds (drop_last pm2)) \<le> e)"
  proof (cases ds)
    case Nil
    then show ?thesis using e dl by (auto simp: n_def l_def)
  next
    case (Cons a ys)
    have a: "a \<in> set ds" "n = int a" using e(1) Cons by (auto simp: n_def)
    then have "garbage pm a" "a < pm_nfds pm" using slots [of a] range by auto
    moreover from this have "a \<noteq> l" using last slot_states(1) [of pm l] by (auto simp: l_def)
    ultimately have "a < l" by (simp add: l_def)
    moreover have "links (drop_last pm2) n ds e"
    proof (subst links_cong)
      fix x assume x: "x \<in> set ds"
      then have "garbage pm x" "x \<noteq> d" "x < pm_nfds pm" using slots [of x] range sorted by auto
      then have "x < l" using last slot_states(1) [of pm l] by (cases "x = l") (auto simp: l_def)
      then show "p_fd (pm_fds (drop_last pm2) ! x) = p_fd (pm_fds pm ! x)"
        using fds2 [of x] at_other(1) [of x] \<open>x \<noteq> d\<close> by simp
    qed (use e(1) in \<open>simp add: n_def\<close>)
    ultimately show ?thesis using Cons e(2) a by (auto simp: pm2_def)
  qed
  ultimately have inv: "gc_inv (drop_last pm2) ds (if n < 0 \<or> n \<ge> int l then INVALID_SOCKET else n)"
    unfolding gc_inv_def by blast
  have reg: "registered (drop_last pm2) = registered pm"
  proof
    fix g
    have n: "pm_nfds pm = Suc l" "pm_nfds pm2 = l" using dl by (simp_all add: l_def pm2_def)
    have slot2: "pm_slot (drop_last pm2) g = pm_slot pm1 g" by (simp add: pm2_def)
    have hdls2: "pm_hdls (drop_last pm2) ! i = pm_hdls pm1 ! i" if "i < l" for i using that n by (simp add: pm2_def)
    show "registered (drop_last pm2) g = registered pm g"
    proof (cases "g = h")
      case True
      have "registered (drop_last pm2) h = Some (p_fd (pm_fds pm ! l), p_events (pm_fds pm ! l))"
        using True at_d slot2 d(1) dl n last fds2 [of d] hdls2 [of d]
        by (subst registered_at [of _ _ d]) (auto simp: live_def)
      moreover have "registered pm h = Some (p_fd (pm_fds pm ! l), p_events (pm_fds pm ! l))"
        using h d(1) dl n last by (subst registered_at [of _ _ l]) (auto simp: live_def)
      ultimately show ?thesis using True by simp
    next
      case False
      then have slot: "pm_slot pm1 g = pm_slot pm g" by (rule slot_other)
      show ?thesis
      proof (cases "pm_slot pm g < 0")
        case True
        then show ?thesis using slot slot2 by (simp add: registered_none)
      next
        case nonneg: False
        then obtain i where i: "pm_slot pm g = int i" by (metis nonneg_int_cases not_le)
        have l: "\<not> pm_hdls pm ! l = Some g" "\<not> pm_hdls pm ! d = Some g" "\<not> pm_hdls pm1 ! d = Some g"
          using h False d(3) at_d by (auto simp: garbage_def)
        have "i < l \<or> i = l \<or> l < i" by linarith
        then show ?thesis
          using i l n slot slot2 fds2 [of i] hdls2 [of i] at_other [of i]
          by (cases "i = d") (auto simp: registered_at [OF i] registered_at [of "drop_last pm2" g i])
      qed
    qed
  qed
  have "move_last d pm = Some pm1" using h(1) by (simp add: move_last_def pm1_def l_def Let_def)
  then show thesis
    by (rule that) (use inv reg in \<open>simp_all only: pm2_def l_def n_def Let_def\<close>)
qed

lemma compact_ok:
  assumes "gc_inv pm ds v"
  shows "\<exists>pm'. compact v pm = Some pm' \<and> pm_ok pm' \<and> registered pm' = registered pm"
  using assms
proof (induction "pm_nfds pm" arbitrary: pm ds v rule: less_induct)
  case less
  show ?case
  proof (cases ds)
    case Nil
    then have "compact v pm = Some pm" "pm_ok pm"
      using less.prems by (auto simp: gc_inv_def gc_slots_def pm_ok_def compact.simps)
    then show ?thesis by simp
  next
    case (Cons d ds')
    have d: "v = int d" "1 \<le> d" "d < pm_nfds pm" "pm_nfds pm \<le> length (pm_fds pm)"
      using less.prems Cons by (auto simp: gc_inv_def gc_slots_def pm_shape_def)
    let ?last = "pm_nfds pm - 1"
    have v: "v \<noteq> INVALID_SOCKET" "\<not> (pm_nfds pm = 0 \<or> v < 0 \<or> v \<ge> int (length (pm_fds pm)))"
      using d by (auto simp: pm_defs)
    have last_range: "?last \<in> {1..<pm_nfds pm}" using d by auto
    show ?thesis
    proof (cases "live pm ?last")
      case False
      have "p_events (pm_fds pm ! ?last) = POLLMGR_GARBAGE \<or> p_fd (pm_fds pm ! ?last) = INVALID_SOCKET"
        using less.prems last_range False
        by (force simp: gc_inv_def gc_slots_def garbage_def killed_def split: if_splits)
      then have step: "compact v pm = compact (if v = int ?last then INVALID_SOCKET else v)
          (drop_last (pm\<lparr>pm_nfds := ?last\<rparr>))"
        using v by (simp add: compact.simps [of v pm] Let_def)
      obtain ds'' where "gc_inv (drop_last (pm\<lparr>pm_nfds := ?last\<rparr>)) ds'' (if v = int ?last then INVALID_SOCKET else v)"
        using gc_drop(1) [OF less.prems _ False] Cons by auto
      from less.hyps [OF _ this] show ?thesis
        using d(2,3) gc_drop(2) [OF less.prems _ False] Cons unfolding step by simp
    next
      case True
      then have live: "\<not> (p_events (pm_fds pm ! ?last) = POLLMGR_GARBAGE \<or> p_fd (pm_fds pm ! ?last) = INVALID_SOCKET)"
        by (auto simp: live_def pm_defs)
      obtain pm1 where pm1: "move_last d pm = Some pm1"
        "gc_inv (drop_last (pm1\<lparr>pm_nfds := ?last\<rparr>)) ds'
          (let n = p_fd (pm_fds pm ! d) in if n < 0 \<or> n \<ge> int ?last then INVALID_SOCKET else n)"
        "registered (drop_last (pm1\<lparr>pm_nfds := ?last\<rparr>)) = registered pm"
        using gc_move [OF less.prems [unfolded Cons] True] by blast
      have step: "compact v pm = compact
          (let n = p_fd (pm_fds pm ! d) in if n < 0 \<or> n \<ge> int ?last then INVALID_SOCKET else n)
          (drop_last (pm1\<lparr>pm_nfds := ?last\<rparr>))"
        using v live by (simp add: compact.simps [of "int d" pm] Let_def pm1(1) d(1))
      show ?thesis
        using less.hyps [OF _ pm1(2)] d(2,3) pm1(3) unfolding step by simp
    qed
  qed
qed

section \<open>What callbacks must keep to\<close>

text \<open>
  A callback running for slot \<open>i\<close>: it registers a handler only while that is in no live slot, it
  deletes and updates live slots only, and resets the \<open>slot\<close> field of a handler only once its slot is
  deleted, or of its own when it is about to ask for its deletion (\<open>neg\<close>). The callback of slot 0
  may register handlers at any time, the others only while the arrays have room. The callback of a
  listening socket (\<open>fwtcp_pmgr_listen\<close>) does not keep to that: see \<open>pollmgr_add_dangles\<close>.
\<close>

fun op_ok :: "bool \<Rightarrow> nat \<Rightarrow> pm_op \<Rightarrow> pollmgr \<Rightarrow> bool" where
  "op_ok neg i (Op_add mem1 mem2 h fd ev) pm \<longleftrightarrow>
     (\<forall>j \<in> {1..<pm_nfds pm}. live pm j \<longrightarrow> pm_hdls pm ! j \<noteq> Some h) \<and>
     fd \<noteq> INVALID_SOCKET \<and> 0 \<le> ev \<and> (i = 0 \<or> pm_nfds pm < pm_capacity pm)"
| "op_ok neg i (Op_del s) pm \<longleftrightarrow> 1 \<le> s \<and> s < int (pm_nfds pm) \<and> live pm (nat s)"
| "op_ok neg i (Op_update s ev) pm \<longleftrightarrow> 1 \<le> s \<and> s < int (pm_nfds pm) \<and> live pm (nat s) \<and> 0 \<le> ev"
| "op_ok neg i (Op_forget h) pm \<longleftrightarrow>
     (\<forall>j \<in> {1..<pm_nfds pm}. live pm j \<longrightarrow> pm_hdls pm ! j = Some h \<longrightarrow> neg \<and> j = i)"

fun ops_ok :: "bool \<Rightarrow> nat \<Rightarrow> pm_op list \<Rightarrow> pollmgr \<Rightarrow> bool" where
  "ops_ok neg i [] pm = True"
| "ops_ok neg i (x # xs) pm \<longleftrightarrow>
     op_ok neg i x pm \<and> (case run_op x pm of None \<Rightarrow> False | Some pm \<Rightarrow> ops_ok neg i xs pm)"

definition callbacks_ok :: "'w callback \<Rightarrow> bool" where
  "callbacks_ok cb \<longleftrightarrow>
     (\<forall>i h fd revents w pm ds. gc_slots pm ds \<longrightarrow> i < pm_nfds pm \<longrightarrow> pm_hdls pm ! i = Some h \<longrightarrow>
        (i = 0 \<or> live pm i) \<longrightarrow>
        (case cb h fd revents w pm of (ops, nevents, w') \<Rightarrow> ops_ok (nevents < 0) i ops pm))"

section \<open>A round\<close>

text \<open>The array while slot \<open>i\<close>'s callback runs, and the list built so far.\<close>

definition slots_but :: "bool \<Rightarrow> nat \<Rightarrow> pollmgr \<Rightarrow> nat list \<Rightarrow> bool" where
  "slots_but neg i pm ds \<longleftrightarrow> pm_shape pm \<and> sorted_wrt (<) ds \<and> set ds \<subseteq> {1..<pm_nfds pm} \<and>
     (\<forall>j \<in> {1..<pm_nfds pm}. if j \<in> set ds then garbage pm j else live pm j \<or> killed pm j \<or> neg \<and> j = i)"

lemma slots_butD:
  assumes "slots_but neg i pm ds"
  shows "pm_shape pm" "sorted_wrt (<) ds" "set ds \<subseteq> {1..<pm_nfds pm}"
    "j \<in> {1..<pm_nfds pm} \<Longrightarrow> if j \<in> set ds then garbage pm j else live pm j \<or> killed pm j \<or> neg \<and> j = i"
  using assms unfolding slots_but_def by blast+

lemma slots_but_False: "slots_but False i pm ds = gc_slots pm ds"
  by (simp add: slots_but_def gc_slots_def)

definition list_built :: "pollmgr \<Rightarrow> nat list \<Rightarrow> gc_list \<Rightarrow> nat \<Rightarrow> bool" where
  "list_built pm ds g i \<longleftrightarrow> (\<forall>d \<in> set ds. d < i) \<and> links pm (gc_first g) ds INVALID_SOCKET \<and>
     gc_prev g = (if ds = [] then At_delfirst else At_fd (pm_gen pm) (last ds))"

lemma add_fields:
  assumes "pm_shape pm" "pollmgr_add mem1 mem2 h fd ev pm = (v, pm')"
  shows "pm_shape pm'" "pm_nfds pm \<le> pm_nfds pm'"
    "i < pm_nfds pm \<Longrightarrow> pm_fds pm' ! i = pm_fds pm ! i" "i < pm_nfds pm \<Longrightarrow> pm_hdls pm' ! i = pm_hdls pm ! i"
    "g \<noteq> h \<Longrightarrow> pm_slot pm' g = pm_slot pm g"
    "pm_nfds pm < pm_capacity pm \<Longrightarrow> pm_gen pm' = pm_gen pm"
    "pm_nfds pm' \<noteq> pm_nfds pm \<Longrightarrow> pm_nfds pm' = Suc (pm_nfds pm) \<and> pm_hdls pm' ! pm_nfds pm = Some h \<and>
       pm_fds pm' ! pm_nfds pm = \<lparr>p_fd = fd, p_events = ev, p_revents = 0\<rparr> \<and> pm_slot pm' h = int (pm_nfds pm)"
  using assms
  by (auto simp: pollmgr_add_def pollmgr_grow_def pollmgr_add_at_def pm_shape_def pm_defs Let_def
      nth_append split: if_splits)

lemma add_ok:
  assumes "slots_but neg i pm ds" "op_ok neg i (Op_add mem1 mem2 h fd ev) pm"
    and "pollmgr_add mem1 mem2 h fd ev pm = (v, pm')"
  shows "slots_but neg i pm' ds"
  unfolding slots_but_def
proof (intro conjI ballI)
  have shape: "pm_shape pm" using assms(1) by (simp add: slots_but_def)
  note add = add_fields [OF shape assms(3)]
  show "pm_shape pm'" "sorted_wrt (<) ds" using add(1) assms(1) by (simp_all add: slots_but_def)
  show "set ds \<subseteq> {1..<pm_nfds pm'}" using assms(1) add(2) by (fastforce simp: slots_but_def)
  fix j assume j: "j \<in> {1..<pm_nfds pm'}"
  show "if j \<in> set ds then garbage pm' j else live pm' j \<or> killed pm' j \<or> neg \<and> j = i"
  proof (cases "j < pm_nfds pm")
    case True
    have "live pm' j" if alive: "live pm j"
      using alive assms(2) j True add(3-5) [of j] add(5) by (auto simp: live_def)
    moreover have "killed pm' j = killed pm j" "garbage pm' j = garbage pm j"
      using add(3,4) [OF True] by (simp_all add: killed_def garbage_def)
    moreover have "if j \<in> set ds then garbage pm j else live pm j \<or> killed pm j \<or> neg \<and> j = i"
      using assms(1) j True by (simp add: slots_but_def)
    ultimately show ?thesis by (auto split: if_splits)
  next
    case False
    then have "pm_nfds pm' \<noteq> pm_nfds pm" "j = pm_nfds pm" using j add(7) by auto
    then have "live pm' j" using add(7) assms(2) by (auto simp: live_def)
    moreover have "j \<notin> set ds" using assms(1) False by (auto simp: slots_but_def)
    ultimately show ?thesis by simp
  qed
qed

lemma set_fd_slots:
  assumes "pm_shape pm" "k < pm_nfds pm" "j < pm_nfds pm"
  shows "j \<noteq> k \<Longrightarrow> live (set_fd k f pm) j = live pm j" "j \<noteq> k \<Longrightarrow> killed (set_fd k f pm) j = killed pm j"
    "j \<noteq> k \<Longrightarrow> garbage (set_fd k f pm) j = garbage pm j"
    "live (set_fd k f pm) k \<longleftrightarrow> p_fd f \<noteq> INVALID_SOCKET \<and> 0 \<le> p_events f \<and>
       (\<exists>h. pm_hdls pm ! k = Some h \<and> pm_slot pm h = int k)"
    "killed (set_fd k f pm) k \<longleftrightarrow> p_fd f = INVALID_SOCKET \<and> 0 \<le> p_events f"
  using assms by (auto simp: live_def killed_def garbage_def set_fd_def pm_shape_def)

lemma set_fd_ok:
  assumes ok: "slots_but neg i pm ds" and k: "1 \<le> k" "k < pm_nfds pm" "live pm k"
    and f: "p_fd f = INVALID_SOCKET \<or> p_fd f = p_fd (pm_fds pm ! k)" "0 \<le> p_events f"
  shows "slots_but neg i (set_fd k f pm) ds" "k \<notin> set ds"
proof -
  have shape: "pm_shape pm" using ok by (simp add: slots_but_def)
  note states = set_fd_slots [OF shape k(2), of _ f]
  show k_out: "k \<notin> set ds" using ok k slot_states(1) [of pm k] by (auto simp: slots_but_def)
  have at_k: "live (set_fd k f pm) k \<or> killed (set_fd k f pm) k"
    using k(3) f states(4,5) [OF k(2)] by (auto simp: live_def)
  show "slots_but neg i (set_fd k f pm) ds"
    unfolding slots_but_def
  proof (intro conjI ballI)
    show "pm_shape (set_fd k f pm)" using shape by (simp add: pm_shape_def set_fd_def)
    show "sorted_wrt (<) ds" "set ds \<subseteq> {1..<pm_nfds (set_fd k f pm)}"
      using ok by (simp_all add: slots_but_def set_fd_def)
    fix j assume "j \<in> {1..<pm_nfds (set_fd k f pm)}"
    then have j: "j \<in> {1..<pm_nfds pm}" "j < pm_nfds pm" by (simp_all add: set_fd_def)
    show "if j \<in> set ds then garbage (set_fd k f pm) j
        else live (set_fd k f pm) j \<or> killed (set_fd k f pm) j \<or> neg \<and> j = i"
    proof (cases "j = k")
      case True
      then show ?thesis using k_out at_k by auto
    next
      case False
      then show ?thesis using states(1-3) [OF j(2) False] ok j(1) by (simp add: slots_but_def)
    qed
  qed
qed

lemma listed_upd:
  assumes "slots_but neg i pm ds" "k < pm_nfds pm" "1 \<le> k" "live pm k" "d \<in> set ds"
  shows "(pm_fds pm)[k := f] ! d = pm_fds pm ! d"
proof -
  have "k \<notin> set ds" using assms(1-4) slot_states(1) [of pm k] by (auto simp: slots_but_def)
  then have "k \<noteq> d" using assms(5) by blast
  then show ?thesis by simp
qed

lemma run_op_ok:
  assumes ok: "slots_but neg i pm ds" and op: "op_ok neg i x pm"
  obtains pm' where "run_op x pm = Some pm'" "slots_but neg i pm' ds" "pm_nfds pm \<le> pm_nfds pm'"
    "\<And>d. d \<in> set ds \<Longrightarrow> pm_fds pm' ! d = pm_fds pm ! d" "i \<noteq> 0 \<Longrightarrow> pm_gen pm' = pm_gen pm"
proof (cases x)
  case (Op_add mem1 mem2 h fd ev)
  obtain v pm' where add: "pollmgr_add mem1 mem2 h fd ev pm = (v, pm')" by (cases "pollmgr_add mem1 mem2 h fd ev pm")
  have shape: "pm_shape pm" and ds: "set ds \<subseteq> {1..<pm_nfds pm}" using ok by (simp_all add: slots_but_def)
  note fields = add_fields [OF shape add]
  show thesis
  proof (rule that [of pm'])
    show "run_op x pm = Some pm'" using add Op_add by simp
    show "slots_but neg i pm' ds" using add_ok [OF ok _ add] op Op_add by simp
    show "pm_nfds pm \<le> pm_nfds pm'" by (rule fields(2))
    show "pm_fds pm' ! d = pm_fds pm ! d" if "d \<in> set ds" for d using fields(3) that ds by auto
    show "pm_gen pm' = pm_gen pm" if "i \<noteq> 0" using fields(6) that op Op_add by simp
  qed
next
  case (Op_del s)
  define k where "k = nat s"
  have k: "1 \<le> k" "k < pm_nfds pm" "live pm k" "s = int k" using op Op_del by (auto simp: k_def)
  have f: "0 \<le> p_events ((pm_fds pm ! k)\<lparr>p_fd := INVALID_SOCKET\<rparr>)" using k(3) by (simp add: live_def)
  note set = set_fd_ok [OF ok k(1-3) _ f]
  have "k < length (pm_fds pm)" using ok k(2) by (simp add: slots_but_def pm_shape_def)
  then have "run_op x pm = Some (set_fd k ((pm_fds pm ! k)\<lparr>p_fd := INVALID_SOCKET\<rparr>) pm)"
    using k Op_del by (simp add: pollmgr_del_slot_def SLOT_FIRST_DYNAMIC_def)
  moreover have "slots_but neg i (set_fd k ((pm_fds pm ! k)\<lparr>p_fd := INVALID_SOCKET\<rparr>) pm) ds"
    using set(1) by simp
  ultimately show thesis
    by (rule that) (simp_all add: set_fd_def listed_upd [OF ok k(2,1,3)])
next
  case (Op_update s ev)
  define k where "k = nat s"
  have k: "1 \<le> k" "k < pm_nfds pm" "live pm k" "s = int k" "0 \<le> ev" using op Op_update by (auto simp: k_def)
  note set = set_fd_ok [OF ok k(1-3), of "(pm_fds pm ! k)\<lparr>p_events := ev\<rparr>"]
  have "run_op x pm = Some (set_fd k ((pm_fds pm ! k)\<lparr>p_events := ev\<rparr>) pm)"
    using k Op_update by (simp add: pollmgr_update_events_def SLOT_FIRST_DYNAMIC_def)
  moreover have "slots_but neg i (set_fd k ((pm_fds pm ! k)\<lparr>p_events := ev\<rparr>) pm) ds"
    using set(1) k(5) by simp
  ultimately show thesis
    by (rule that) (simp_all add: set_fd_def listed_upd [OF ok k(2,1,3)])
next
  case (Op_forget h)
  have same: "garbage (set_slot h (- 1) pm) j = garbage pm j" "killed (set_slot h (- 1) pm) j = killed pm j" for j
    by (simp_all add: garbage_def killed_def set_slot_def)
  have "live (set_slot h (- 1) pm) j \<or> neg \<and> j = i" if "j \<in> {1..<pm_nfds pm}" "live pm j" for j
    using that op Op_forget by (force simp: live_def set_slot_def)
  then have "slots_but neg i (set_slot h (- 1) pm) ds"
    using ok same by (fastforce simp: slots_but_def pm_shape_def set_slot_def)
  then show thesis
    by (intro that [of "set_slot h (- 1) pm"]) (use Op_forget in \<open>auto simp: set_slot_def\<close>)
qed

lemma run_ops_ok:
  assumes "slots_but neg i pm ds" "ops_ok neg i xs pm"
  shows "\<exists>pm'. run_ops xs pm = Some pm' \<and> slots_but neg i pm' ds \<and> pm_nfds pm \<le> pm_nfds pm' \<and>
    (\<forall>d \<in> set ds. pm_fds pm' ! d = pm_fds pm ! d) \<and> (i \<noteq> 0 \<longrightarrow> pm_gen pm' = pm_gen pm)"
  using assms
proof (induction xs arbitrary: pm)
  case (Cons x xs)
  obtain pm1 where pm1: "run_op x pm = Some pm1" "slots_but neg i pm1 ds" "pm_nfds pm \<le> pm_nfds pm1"
    "\<And>d. d \<in> set ds \<Longrightarrow> pm_fds pm1 ! d = pm_fds pm ! d" "i \<noteq> 0 \<Longrightarrow> pm_gen pm1 = pm_gen pm"
    using run_op_ok [OF Cons.prems(1)] Cons.prems(2) by auto
  then obtain pm' where "run_ops xs pm1 = Some pm'" "slots_but neg i pm' ds" "pm_nfds pm1 \<le> pm_nfds pm'"
    "\<forall>d \<in> set ds. pm_fds pm' ! d = pm_fds pm1 ! d" "i \<noteq> 0 \<longrightarrow> pm_gen pm' = pm_gen pm1"
    using Cons.IH [OF pm1(2)] Cons.prems(2) by auto
  then show ?case using pm1 by auto
qed simp

lemma set_fd_other: "j \<noteq> i \<Longrightarrow> pm_fds (set_fd i f pm) ! j = pm_fds pm ! j"
  by (simp add: set_fd_def)

lemma slot_set_hdl:
  assumes "j \<noteq> i"
  shows "live (set_hdl i h pm) j = live pm j" "killed (set_hdl i h pm) j = killed pm j"
    "garbage (set_hdl i h pm) j = garbage pm j"
  using assms by (simp_all add: live_def killed_def garbage_def set_hdl_def)

lemma keep_slot:
  assumes ok: "slots_but neg i pm ds" "\<not> neg" and i: "i < pm_nfds pm" "0 \<le> nevents"
    and built: "list_built pm ds g i"
  shows "gc_slots (set_fd i ((pm_fds pm ! i)\<lparr>p_events := nevents\<rparr>) pm) ds"
    "list_built (set_fd i ((pm_fds pm ! i)\<lparr>p_events := nevents\<rparr>) pm) ds g (i + 1)"
proof -
  let ?pm = "set_fd i ((pm_fds pm ! i)\<lparr>p_events := nevents\<rparr>) pm"
  have shape: "pm_shape pm" using ok by (simp add: slots_but_def)
  note states = set_fd_slots [OF shape i(1), of _ "(pm_fds pm ! i)\<lparr>p_events := nevents\<rparr>"]
  have i_out: "i \<notin> set ds" using built by (auto simp: list_built_def)
  show "gc_slots ?pm ds"
    unfolding gc_slots_def
  proof (intro conjI ballI)
    show "pm_shape ?pm" using shape by (simp add: pm_shape_def set_fd_def)
    show "sorted_wrt (<) ds" "set ds \<subseteq> {1..<pm_nfds ?pm}" using ok by (simp_all add: slots_but_def set_fd_def)
    fix j assume "j \<in> {1..<pm_nfds ?pm}"
    then have j: "j \<in> {1..<pm_nfds pm}" "j < pm_nfds pm" by (simp_all add: set_fd_def)
    have old: "if j \<in> set ds then garbage pm j else live pm j \<or> killed pm j"
      using slots_butD(4) [OF ok(1) j(1)] ok(2) by (auto split: if_splits)
    show "if j \<in> set ds then garbage ?pm j else live ?pm j \<or> killed ?pm j"
    proof (cases "j = i")
      case True
      then show ?thesis using old i_out states(4,5) [OF i(1)] i(2) by (auto simp: live_def killed_def)
    next
      case False
      then show ?thesis using old states(1-3) [OF j(2)] by simp
    qed
  qed
  have "p_fd (pm_fds ?pm ! d) = p_fd (pm_fds pm ! d)" if "d \<in> set ds" for d
    using that i_out set_fd_other by metis
  then have "links ?pm v ds e = links pm v ds e" for v e by (rule links_cong)
  then show "list_built ?pm ds g (i + 1)"
    using built by (auto simp: list_built_def set_fd_def)
qed

lemma free_slot:
  assumes ok: "slots_but True i pm ds" and i: "1 \<le> i" "i < pm_nfds pm" and built: "list_built pm ds g i"
  obtains g' pm' where "update_slot i (- 1) g pm = Some (g', pm')" "gc_slots pm' (ds @ [i])"
    "list_built pm' (ds @ [i]) g' (i + 1)"
proof -
  have shape: "pm_shape pm" and sorted: "sorted_wrt (<) ds" and range: "set ds \<subseteq> {1..<pm_nfds pm}"
    using slots_butD [OF ok] by simp_all
  have slots: "if j \<in> set ds then garbage pm j else live pm j \<or> killed pm j \<or> j = i"
    if "j \<in> {1..<pm_nfds pm}" for j using slots_butD(4) [OF ok that] by (auto split: if_splits)
  have below: "\<And>d. d \<in> set ds \<Longrightarrow> d < i" and links: "links pm (gc_first g) ds INVALID_SOCKET"
    and prev: "gc_prev g = (if ds = [] then At_delfirst else At_fd (pm_gen pm) (last ds))"
    using built by (auto simp: list_built_def)
  have len: "i < length (pm_fds pm)" "i < length (pm_hdls pm)" "length (pm_fds pm) = length (pm_hdls pm)"
    using shape i by (auto simp: pm_shape_def)
  obtain g1 pm1 where store: "store_delprev (int i) g pm = Some (g1, pm1)" and pm1: "links pm1 (gc_first g1) ds (int i)"
    "pm_shape pm1" "pm_nfds pm1 = pm_nfds pm" "pm_gen pm1 = pm_gen pm" "pm_slot pm1 = pm_slot pm"
    "pm_hdls pm1 = pm_hdls pm" "\<And>j. j \<notin> set ds \<Longrightarrow> pm_fds pm1 ! j = pm_fds pm ! j"
    "\<And>j. p_events (pm_fds pm1 ! j) = p_events (pm_fds pm ! j)"
  proof (cases ds rule: rev_cases)
    case Nil
    then show thesis
      by (intro that [of "g\<lparr>gc_first := int i\<rparr>" pm]) (use prev shape in \<open>simp_all add: store_delprev_def\<close>)
  next
    case (snoc xs l)
    let ?pm = "set_fd l ((pm_fds pm ! l)\<lparr>p_fd := int i\<rparr>) pm"
    have l: "l < length (pm_fds pm)" "l \<notin> set xs"
      using range shape snoc sorted by (auto simp: pm_shape_def sorted_wrt_append)
    have "links ?pm (gc_first g) xs (int l) = links pm (gc_first g) xs (int l)"
      by (rule links_cong) (metis set_fd_other l(2))
    then have "links ?pm (gc_first g) ds (int i)"
      using links snoc l(1) by (simp add: links_append set_fd_def)
    then show thesis
      by (intro that [of g ?pm]) (use prev shape snoc l in
        \<open>auto simp: store_delprev_def pm_shape_def set_fd_def nth_list_update\<close>)
  qed
  define pm' where "pm' = set_hdl i None
    (set_fd i \<lparr>p_fd = INVALID_SOCKET, p_events = POLLMGR_GARBAGE, p_revents = 0\<rparr> pm1)"
  define g' where "g' = g1\<lparr>gc_prev := At_fd (pm_gen pm1) i\<rparr>"
  have i_out: "i \<notin> set ds" using below by blast
  have len1: "i < length (pm_fds pm1)" "i < length (pm_hdls pm1)" using pm1(2,3) i by (auto simp: pm_shape_def)
  have run: "update_slot i (- 1) g pm = Some (g', pm')"
    using i(1) store by (simp add: update_slot_def SLOT_FIRST_DYNAMIC_def pm'_def g'_def Let_def)
  have at_i: "pm_fds pm' ! i = \<lparr>p_fd = INVALID_SOCKET, p_events = POLLMGR_GARBAGE, p_revents = 0\<rparr>"
    "pm_hdls pm' ! i = None"
    using len1 by (simp_all add: pm'_def set_hdl_def set_fd_def)
  have at_j: "pm_fds pm' ! j = pm_fds pm1 ! j" "pm_hdls pm' ! j = pm_hdls pm ! j" if "j \<noteq> i" for j
    using that pm1(6) by (simp_all add: pm'_def set_hdl_def set_fd_def)
  have fields: "pm_slot pm' = pm_slot pm" "pm_nfds pm' = pm_nfds pm" "pm_gen pm' = pm_gen pm1"
    using pm1 by (simp_all add: pm'_def set_hdl_def set_fd_def)
  have "gc_slots pm' (ds @ [i])"
    unfolding gc_slots_def
  proof (intro conjI ballI)
    show "pm_shape pm'" using pm1(2) by (simp add: pm_shape_def pm'_def set_hdl_def set_fd_def)
    show "sorted_wrt (<) (ds @ [i])" using sorted below by (simp add: sorted_wrt_append)
    show "set (ds @ [i]) \<subseteq> {1..<pm_nfds pm'}" using range i fields by simp
    fix j assume "j \<in> {1..<pm_nfds pm'}"
    then have j: "j \<in> {1..<pm_nfds pm}" using fields by simp
    show "if j \<in> set (ds @ [i]) then garbage pm' j else live pm' j \<or> killed pm' j"
    proof (cases "j = i")
      case True
      then show ?thesis using at_i by (simp add: garbage_def)
    next
      case False
      have "garbage pm' j = garbage pm j" using at_j [OF False] pm1(8) by (simp add: garbage_def)
      moreover have "live pm' j = live pm j" "killed pm' j = killed pm j" if "j \<notin> set ds"
        using at_j [OF False] pm1(7) [OF that] fields by (simp_all add: live_def killed_def)
      ultimately show ?thesis using slots [OF j] False by (auto split: if_splits)
    qed
  qed
  moreover have "links pm' (gc_first g') (ds @ [i]) INVALID_SOCKET"
  proof -
    have "links pm' (gc_first g1) ds (int i) = links pm1 (gc_first g1) ds (int i)"
      by (rule links_cong) (metis at_j(1) i_out)
    then show ?thesis using pm1(1) at_i by (simp add: links_append g'_def)
  qed
  then have "list_built pm' (ds @ [i]) g' (i + 1)"
    using below fields by (auto simp: list_built_def g'_def intro: less_SucI)
  ultimately show thesis using that run by blast
qed

text \<open>A channel that asks for its deletion is closed, and stays where it is.\<close>

lemma free_channel:
  assumes ok: "slots_but neg 0 pm ds" and built: "list_built pm ds g 0"
  obtains pm' where "update_slot 0 (- 1) g pm = Some (g, pm')" "gc_slots pm' ds" "list_built pm' ds g 1"
proof -
  let ?pm = "set_hdl 0 None (set_fd 0 no_fd pm)"
  have ds: "ds = []" using built by (cases ds) (auto simp: list_built_def)
  have shape: "pm_shape pm" by (rule slots_butD(1) [OF ok])
  have "live ?pm j \<or> killed ?pm j" if j: "j \<in> {1..<pm_nfds pm}" for j
  proof -
    have "live ?pm j = live (set_fd 0 no_fd pm) j" "killed ?pm j = killed (set_fd 0 no_fd pm) j"
      using slot_set_hdl [of j 0] j by auto
    moreover have "live (set_fd 0 no_fd pm) j = live pm j" "killed (set_fd 0 no_fd pm) j = killed pm j"
      using set_fd_slots(1,2) [OF shape, of 0 j] shape j by (auto simp: pm_shape_def)
    ultimately show ?thesis using slots_butD(4) [OF ok j] ds j by auto
  qed
  then have "gc_slots ?pm ds"
    using shape ds by (simp add: gc_slots_def pm_shape_def set_hdl_def set_fd_def)
  moreover have "list_built ?pm ds g 1" using built ds by (simp add: list_built_def)
  ultimately show thesis
    by (intro that [of ?pm]) (simp_all add: update_slot_def SLOT_FIRST_DYNAMIC_def)
qed

lemma update_slot_neg: "nevents < 0 \<Longrightarrow> update_slot i nevents g pm = update_slot i (- 1) g pm"
  by (simp add: update_slot_def)

lemma slots_but_mono: "gc_slots pm ds \<Longrightarrow> slots_but neg i pm ds"
  by (auto simp: slots_but_def gc_slots_def)

lemma list_built_next: "list_built pm ds g i \<Longrightarrow> list_built pm ds g (i + 1)"
  by (auto simp: list_built_def)

text \<open>Whatever the callback of slot \<open>i\<close> does and asks for, the array and the list are ready for the next slot.\<close>

lemma served_slot:
  assumes cbs: "callbacks_ok cb" and ok: "gc_slots pm ds" and built: "list_built pm ds g i"
    and i: "i < pm_nfds pm" "i = 0 \<or> p_fd (pm_fds pm ! i) \<noteq> INVALID_SOCKET"
  obtains nevents w' pm1 g' pm' where "call_handler cb i fd revents w pm = Some (nevents, w', pm1)"
    "update_slot i nevents g pm1 = Some (g', pm')" "\<exists>ds'. gc_slots pm' ds' \<and> list_built pm' ds' g' (i + 1)"
proof -
  have i_out: "i \<notin> set ds" using built by (auto simp: list_built_def)
  have alive: "live pm i" if "i \<noteq> 0"
  proof -
    have "i \<in> {1..<pm_nfds pm}" using that i by auto
    then have "live pm i \<or> killed pm i" using ok i_out by (auto simp: gc_slots_def)
    then show ?thesis using i that by (auto simp: killed_def)
  qed
  show thesis
  proof (cases "pm_hdls pm ! i")
    case None
    then have "i = 0" using alive by (auto simp: live_def)
    then obtain pm' where "update_slot i (- 1) g pm = Some (g, pm')" "gc_slots pm' ds" "list_built pm' ds g (i + 1)"
      using free_channel [OF slots_but_mono [OF ok]] built by auto
    moreover have "call_handler cb i fd revents w pm = Some (- 1, w, pm)" using None by (simp add: call_handler_def)
    ultimately show thesis using that by blast
  next
    case (Some h)
    obtain ops nevents w' where cb: "cb h fd revents w pm = (ops, nevents, w')" by (cases "cb h fd revents w pm")
    have "i = 0 \<or> live pm i" using alive by auto
    from cbs [unfolded callbacks_ok_def, rule_format, OF ok i(1) Some this, of fd revents w]
    have ops: "ops_ok (nevents < 0) i ops pm" by (simp add: cb)
    obtain pm1 where pm1: "run_ops ops pm = Some pm1" "slots_but (nevents < 0) i pm1 ds" "pm_nfds pm \<le> pm_nfds pm1"
      "\<forall>d \<in> set ds. pm_fds pm1 ! d = pm_fds pm ! d" "i \<noteq> 0 \<longrightarrow> pm_gen pm1 = pm_gen pm"
      using run_ops_ok [OF slots_but_mono [OF ok] ops] by blast
    have call: "call_handler cb i fd revents w pm = Some (nevents, w', pm1)"
      using Some cb pm1(1) by (simp add: call_handler_def)
    have "links pm1 (gc_first g) ds INVALID_SOCKET = links pm (gc_first g) ds INVALID_SOCKET"
      using pm1(4) by (intro links_cong) simp
    moreover have "i \<noteq> 0" if "ds \<noteq> []" using that built by (cases ds) (auto simp: list_built_def)
    ultimately have built1: "list_built pm1 ds g i" using built pm1(5) by (auto simp: list_built_def)
    consider "0 \<le> nevents" | "nevents < 0" "i = 0" | "nevents < 0" "1 \<le> i" by linarith
    then show thesis
    proof cases
      case 1
      then have "update_slot i nevents g pm1 = Some (g, set_fd i ((pm_fds pm1 ! i)\<lparr>p_events := nevents\<rparr>) pm1)"
        by (simp add: update_slot_def)
      moreover note keep_slot [OF pm1(2) _ _ 1 built1]
      ultimately show thesis using that [OF call] 1 i(1) pm1(3) by auto
    next
      case 2
      then have "slots_but True 0 pm1 ds" "list_built pm1 ds g 0" using pm1(2) built1 by simp_all
      then obtain pm' where upd: "update_slot 0 (- 1) g pm1 = Some (g, pm')" "gc_slots pm' ds" "list_built pm' ds g 1"
        using free_channel by blast
      show thesis using that [OF call, of g pm'] upd update_slot_neg [OF 2(1)] 2(2) by auto
    next
      case 3
      then have "slots_but True i pm1 ds" "i < pm_nfds pm1" using pm1(2,3) i(1) by simp_all
      then obtain g' pm' where upd: "update_slot i (- 1) g pm1 = Some (g', pm')" "gc_slots pm' (ds @ [i])"
        "list_built pm' (ds @ [i]) g' (i + 1)"
        using free_slot [OF _ 3(2) _ built1] by blast
      show thesis using that [OF call] upd update_slot_neg [OF 3(1)] by metis
    qed
  qed
qed

lemma process_ok:
  assumes "callbacks_ok cb" "gc_slots pm ds" "list_built pm ds g i"
  shows "\<exists>g' w' pm' ds'. process cb i nready g w pm = Some (g', w', pm') \<and> gc_inv pm' ds' (gc_first g')"
  using assms
proof (induction cb i nready g w pm arbitrary: ds rule: process.induct)
  case (1 cb i nready g w pm)
  note cbs = "1.prems"(1) and ok = "1.prems"(2) and built = "1.prems"(3)
  let ?f = "pm_fds pm ! i"
  show ?case
  proof (cases "i < pm_nfds pm \<and> nready > 0")
    case False
    have "gc_inv pm ds (gc_first g)"
      using ok built by (auto simp: gc_inv_def list_built_def INVALID_SOCKET_def)
    then show ?thesis using False by (auto simp: process.simps [of cb i])
  next
    case more: True
    show ?thesis
    proof (cases "p_fd ?f = INVALID_SOCKET \<and> i \<ge> SLOT_FIRST_DYNAMIC")
      case True
      then have "1 \<le> i" by (simp add: SLOT_FIRST_DYNAMIC_def)
      then obtain g' pm' where upd: "update_slot i (- 1) g pm = Some (g', pm')" "gc_slots pm' (ds @ [i])"
        "list_built pm' (ds @ [i]) g' (i + 1)"
        using free_slot [OF slots_but_mono [OF ok] _ _ built] more by blast
      show ?thesis
        using "1.IH"(1) [OF more refl refl True upd(1) refl cbs upd(2,3)] more True upd(1)
        by (subst process.simps) (simp add: Let_def)
    next
      case open_slot: False
      show ?thesis
      proof (cases "p_revents ?f = 0")
        case True
        show ?thesis
          using "1.IH"(2) [OF more refl refl open_slot True cbs ok list_built_next [OF built]] more True open_slot
          by (subst process.simps) (auto simp: Let_def)
      next
        case False
        have "i = 0 \<or> p_fd ?f \<noteq> INVALID_SOCKET" using open_slot by (auto simp: SLOT_FIRST_DYNAMIC_def)
        then obtain nevents w' pm1 g' pm' ds' where
          run: "call_handler cb i (p_fd ?f) (p_revents ?f) w pm = Some (nevents, w', pm1)"
            "update_slot i nevents g pm1 = Some (g', pm')" "gc_slots pm' ds'" "list_built pm' ds' g' (i + 1)"
          using served_slot [OF cbs ok built conjunct1 [OF more], of "p_fd ?f" "p_revents ?f" w] by metis
        have "\<not> (p_fd ?f = INVALID_SOCKET \<and> SLOT_FIRST_DYNAMIC \<le> i)" using open_slot by simp
        then have "process cb i nready g w pm = process cb (i + 1) (nready - 1) g' w' pm'"
          using more False run(1,2) by (subst process.simps) (simp only: Let_def if_True if_False prod.case option.case simp_thms)
        then show ?thesis
          using "1.IH"(3) [OF more refl refl open_slot False run(1) refl refl run(2) refl cbs run(3,4)] by simp
      qed
    qed
  qed
qed

lemma poll_reports_ok:
  assumes "pm_ok pm"
  shows "gc_slots (poll_reports rs pm) []"
proof -
  have "p_fd (pm_fds (poll_reports rs pm) ! i) = p_fd (pm_fds pm ! i) \<and>
      p_events (pm_fds (poll_reports rs pm) ! i) = p_events (pm_fds pm ! i)" if "i < pm_nfds pm" for i
    using that assms by (simp add: poll_reports_def pm_ok_def pm_shape_def nth_enumerate_eq)
  then show ?thesis using assms
    by (auto simp: gc_slots_def pm_ok_def pm_shape_def live_def killed_def poll_reports_def)
qed

text \<open>
  C15: whatever its callbacks register, update, delete and forget, within their contract
  \<open>callbacks_ok\<close>, and whatever \<open>poll\<close> reported, a round of \<open>pollmgr_loop\<close> comes to its end: no access
  outside the arrays, no null handler moved, no store through a dangling \<open>pdelprev\<close>, no failed
  assertion. It ends with a compact array in which each slot in use is that of the handler whose
  \<open>slot\<close> field names it, or has been deleted by \<open>pollmgr_del_slot\<close>.
\<close>

theorem poll_round_keeps:
  assumes "pm_ok pm" "callbacks_ok cb"
  shows "\<exists>w' pm'. poll_round cb rs nready w pm = Some (w', pm') \<and> pm_ok pm'"
proof -
  let ?g = "\<lparr>gc_first = INVALID_SOCKET, gc_prev = At_delfirst\<rparr>"
  have "list_built (poll_reports rs pm) [] ?g 0" by (simp add: list_built_def)
  from process_ok [OF assms(2) poll_reports_ok [OF assms(1)] this]
  obtain g' w' pm' ds' where run: "process cb 0 nready ?g w (poll_reports rs pm) = Some (g', w', pm')"
    "gc_inv pm' ds' (gc_first g')" by blast
  then show ?thesis using compact_ok [OF run(2)] by (auto simp: poll_round_def)
qed


definition pm_full :: pollmgr where
  \<comment> \<open>the queue, two open slots, and slot 2 deleted by \<open>pollmgr_del_slot\<close>; no room left\<close>
  "pm_full =
     \<lparr>pm_fds = [\<lparr>p_fd = 3, p_events = 1, p_revents = 0\<rparr>, \<lparr>p_fd = 10, p_events = 1, p_revents = 0\<rparr>,
       \<lparr>p_fd = INVALID_SOCKET, p_events = 1, p_revents = 0\<rparr>, \<lparr>p_fd = 12, p_events = 1, p_revents = 0\<rparr>],
      pm_hdls = [Some 0, Some 21, Some 22, Some 23], pm_capacity = 4, pm_nfds = 4,
      pm_slot = (\<lambda>h. if h = 22 then - 1 else if 21 \<le> h \<and> h \<le> 23 then int h - 20 else 0), pm_gen = 0\<rparr>"

lemma pm_full_ok: "pm_ok pm_full"
proof -
  have "{1..<pm_nfds pm_full} = {1, 2, 3}" by (auto simp: pm_full_def)
  then show ?thesis by (auto simp: pm_ok_def pm_shape_def live_def killed_def pm_full_def INVALID_SOCKET_def)
qed

definition accepting :: "nat callback" where
  \<comment> \<open>slot 0 registers a fresh handler on each call; the others forget and delete themselves on event 8\<close>
  "accepting h fd revents w pm =
     (if pm_slot pm h = 0 then
        (if list_all (\<lambda>j. pm_hdls pm ! j \<noteq> Some w) [1..<pm_nfds pm]
         then ([Op_add True True w (int w + 100) 1], 1, w + 1) else ([], 1, w + 1))
      else if pm_hdls pm ! 0 \<noteq> Some h \<and> revents = 8 then ([Op_forget h], - 1, w)
      else ([], 1, w))"

lemma accepting_ok: "callbacks_ok accepting"
  by (auto simp: callbacks_ok_def accepting_def live_def list_all_iff INVALID_SOCKET_def)

theorem poll_round_keeps_witness:
  "\<exists>w' pm'. poll_round accepting [1, 8, 0, 1] 3 30 pm_full = Some (w', pm') \<and> pm_ok pm'"
  by (rule poll_round_keeps [OF pm_full_ok accepting_ok])

end
