(* ===== verification/PollMgrServes.thy ===== *)
theory PollMgrServes
  imports PollMgrRounds
begin

text \<open>
  What a round of the poll loop delivers: callbacks that register and delete nothing are called for
  the slots with events, once each and in slot order, and afterwards every handler is registered for
  the events its callback asked for, or no longer registered when it asked to be deleted.
\<close>

definition recording :: "(nat \<Rightarrow> int \<Rightarrow> int \<Rightarrow> int) \<Rightarrow> (nat \<times> int \<times> int) list callback" where
  \<comment> \<open>the callbacks answer by \<open>f\<close>, and the world is the list of calls\<close>
  "recording f h fd revents w pm = ([], f h fd revents, w @ [(h, fd, revents)])"

definition delivery :: "pollmgr \<Rightarrow> nat \<Rightarrow> (nat \<times> int \<times> int) list" where
  "delivery pm i =
     (let f = pm_fds pm ! i in
      if p_revents f \<noteq> 0 \<and> (i = 0 \<or> p_fd f \<noteq> INVALID_SOCKET)
      then (case pm_hdls pm ! i of None \<Rightarrow> [] | Some h \<Rightarrow> [(h, p_fd f, p_revents f)]) else [])"

definition deliveries :: "pollmgr \<Rightarrow> nat \<Rightarrow> (nat \<times> int \<times> int) list" where
  "deliveries pm i = concat (map (delivery pm) [i..<pm_nfds pm])"

definition answered :: "(nat \<Rightarrow> int \<Rightarrow> int \<Rightarrow> int) \<Rightarrow> pollmgr \<Rightarrow> nat \<Rightarrow> nat \<Rightarrow> (int \<times> int) option" where
  \<comment> \<open>what handler \<open>h\<close> is registered with once the slots from \<open>i\<close> on have been served\<close>
  "answered f pm i h =
     (case registered pm h of
        None \<Rightarrow> None
      | Some (fd, ev) \<Rightarrow>
          let s = nat (pm_slot pm h); r = p_revents (pm_fds pm ! s) in
          if s < i \<or> r = 0 then Some (fd, ev)
          else if f h fd r < 0 then None
          else Some (fd, f h fd r))"

definition with_events :: "pollmgr \<Rightarrow> nat \<Rightarrow> nat list" where
  "with_events pm i = filter (\<lambda>j. p_revents (pm_fds pm ! j) \<noteq> 0) [i..<pm_nfds pm]"

lemma recording_ok: "callbacks_ok (recording f)"
  by (simp add: callbacks_ok_def recording_def)

section \<open>One slot\<close>

text \<open>Serving slot \<open>i\<close> leaves every other slot that is not garbage.\<close>

lemma update_slot_others:
  assumes upd: "update_slot i nevents g pm = Some (g', pm')" and ok: "gc_slots pm ds" and built: "list_built pm ds g i"
  shows "pm_slot pm' = pm_slot pm" "pm_nfds pm' = pm_nfds pm"
    "j \<noteq> i \<Longrightarrow> pm_hdls pm' ! j = pm_hdls pm ! j"
    "j \<noteq> i \<Longrightarrow> j \<notin> set ds \<Longrightarrow> pm_fds pm' ! j = pm_fds pm ! j"
proof -
  have "gc_prev g = At_delfirst \<or> (\<exists>l \<in> set ds. gc_prev g = At_fd (pm_gen pm) l)"
    using built by (auto simp: list_built_def)
  then show "pm_slot pm' = pm_slot pm" "pm_nfds pm' = pm_nfds pm"
    "j \<noteq> i \<Longrightarrow> pm_hdls pm' ! j = pm_hdls pm ! j"
    "j \<noteq> i \<Longrightarrow> j \<notin> set ds \<Longrightarrow> pm_fds pm' ! j = pm_fds pm ! j"
    using upd
    by (auto simp: update_slot_def store_delprev_def set_fd_def set_hdl_def Let_def split: if_splits)
      (metis nth_list_update_neq)+
qed

lemma update_slot_self:
  assumes "update_slot i nevents g pm = Some (g', pm')" "pm_shape pm" "i < pm_nfds pm"
  shows "0 \<le> nevents \<Longrightarrow> pm_hdls pm' ! i = pm_hdls pm ! i \<and> pm_fds pm' ! i = (pm_fds pm ! i)\<lparr>p_events := nevents\<rparr>"
    "nevents < 0 \<Longrightarrow> pm_hdls pm' ! i = None"
  using assms
  by (auto simp: update_slot_def store_delprev_def set_fd_def set_hdl_def pm_shape_def Let_def
      split: if_splits option.splits delprev.splits)

lemma with_events_step:
  "i < pm_nfds pm \<Longrightarrow>
    with_events pm i = (if p_revents (pm_fds pm ! i) \<noteq> 0 then [i] else []) @ with_events pm (i + 1)"
  by (simp add: with_events_def upt_conv_Cons)

lemma deliveries_step:
  "i < pm_nfds pm \<Longrightarrow> deliveries pm i = delivery pm i @ deliveries pm (i + 1)"
  by (simp add: deliveries_def upt_conv_Cons)

lemma later_slots:
  assumes "pm_nfds pm' = pm_nfds pm"
    "\<And>j. i < j \<Longrightarrow> pm_fds pm' ! j = pm_fds pm ! j \<and> pm_hdls pm' ! j = pm_hdls pm ! j"
  shows "with_events pm' (i + 1) = with_events pm (i + 1)" "deliveries pm' (i + 1) = deliveries pm (i + 1)"
proof -
  show "with_events pm' (i + 1) = with_events pm (i + 1)"
    using assms by (auto simp: with_events_def intro!: filter_cong)
  have "delivery pm' j = delivery pm j" if "i < j" for j using assms(2) [OF that] by (simp add: delivery_def cong: if_cong)
  then show "deliveries pm' (i + 1) = deliveries pm (i + 1)"
    using assms(1) by (auto simp: deliveries_def intro!: arg_cong [of _ _ concat] map_cong)
qed

text \<open>What serving slot \<open>i\<close> contributes, given what is left there.\<close>

lemma answered_step:
  assumes upd: "update_slot i nevents g pm = Some (g', pm')" and ok: "gc_slots pm ds" and built: "list_built pm ds g i"
    and i: "i < pm_nfds pm"
    and self: "\<And>h. pm_hdls pm ! i = Some h \<Longrightarrow> registered pm h \<noteq> None \<Longrightarrow> pm_slot pm h = int i \<Longrightarrow>
      p_revents (pm_fds pm ! i) \<noteq> 0 \<and> nevents = f h (p_fd (pm_fds pm ! i)) (p_revents (pm_fds pm ! i))"
  shows "answered f pm' (i + 1) = answered f pm i"
proof
  fix h
  note others = update_slot_others [OF upd ok built]
  have shape: "pm_shape pm" using ok by (simp add: gc_slots_def)
  note here = update_slot_self [OF upd shape i]
  show "answered f pm' (i + 1) h = answered f pm i h"
  proof (cases "1 \<le> pm_slot pm h \<and> pm_slot pm h < int (pm_nfds pm)")
    case False
    then have "registered pm h = None" "registered pm' h = None" using others(1,2) by (auto simp: registered_def Let_def)
    then show ?thesis by (simp add: answered_def)
  next
    case True
    define s where "s = nat (pm_slot pm h)"
    have s: "pm_slot pm h = int s" "1 \<le> s" "s < pm_nfds pm" "pm_slot pm' h = int s" using True others(1) by (auto simp: s_def)
    note reg = registered_at [OF s(1)] registered_at [OF s(4)]
    show ?thesis
    proof (cases "s = i")
      case False
      show ?thesis
      proof (cases "s \<in> set ds")
        case True
        then have "garbage pm s" using ok s by (auto simp: gc_slots_def)
        then have "registered pm h = None" "registered pm' h = None"
          using reg others(3) False by (auto simp: garbage_def)
        then show ?thesis by (simp add: answered_def)
      next
        case fresh: False
        then have "registered pm' h = registered pm h" "pm_fds pm' ! s = pm_fds pm ! s"
          using reg others(2-4) False by simp_all
        moreover have "s < i + 1 \<longleftrightarrow> s < i" using False by auto
        ultimately show ?thesis using s by (simp add: answered_def split: option.splits prod.splits)
      qed
    next
      case same: True
      show ?thesis
      proof (cases "registered pm h")
        case None
        have "registered pm' h = None"
        proof (cases "0 \<le> nevents")
          case True
          have "i \<notin> set ds" using built by (auto simp: list_built_def)
          then have "live pm i \<or> killed pm i" using ok s same by (auto simp: gc_slots_def split: if_splits)
          then have "\<not> (pm_hdls pm ! i = Some h \<and> p_fd (pm_fds pm ! i) \<noteq> INVALID_SOCKET)"
            using None reg(1) s same by (auto simp: live_def killed_def)
          then show ?thesis using reg(2) here(1) [OF True] same by auto
        next
          case False
          then show ?thesis using reg here(2) same by simp
        qed
        then show ?thesis using None by (simp add: answered_def)
      next
        case (Some p)
        then have h: "pm_hdls pm ! i = Some h" and p: "p = (p_fd (pm_fds pm ! i), p_events (pm_fds pm ! i))"
          using reg same by (auto split: if_splits)
        have r: "p_revents (pm_fds pm ! i) \<noteq> 0" "nevents = f h (p_fd (pm_fds pm ! i)) (p_revents (pm_fds pm ! i))"
          using self [OF h] Some s(1) same by auto
        have old: "p_fd (pm_fds pm ! i) \<noteq> INVALID_SOCKET" using Some reg same by (auto split: if_splits)
        show ?thesis
        proof (cases "0 \<le> nevents")
          case True
          then have "registered pm' h = Some (p_fd (pm_fds pm ! i), nevents)"
            using reg here(1) same others(2) h s old by simp
          then show ?thesis using Some p r True s same by (simp add: answered_def)
        next
          case False
          then have "registered pm' h = None" using reg here(2) same by simp
          then show ?thesis using Some p r False s same by (simp add: answered_def)
        qed
      qed
    qed
  qed
qed

lemma answered_quiet:
  assumes "\<And>j. i \<le> j \<Longrightarrow> j < pm_nfds pm \<Longrightarrow> p_revents (pm_fds pm ! j) = 0"
  shows "answered f pm i = registered pm"
proof
  fix h
  have "p_revents (pm_fds pm ! nat (pm_slot pm h)) = 0" if "registered pm h \<noteq> None" "\<not> nat (pm_slot pm h) < i"
    using that assms by (auto simp: registered_def Let_def split: if_splits)
  then show "answered f pm i h = registered pm h"
    by (auto simp: answered_def Let_def split: option.splits)
qed

lemma answered_idle:
  assumes "p_revents (pm_fds pm ! i) = 0"
  shows "answered f pm (i + 1) = answered f pm i"
  using assms by (auto simp: answered_def fun_eq_iff Let_def less_Suc_eq split: option.splits)

section \<open>A round\<close>

lemma process_serves:
  assumes "gc_slots pm ds" "list_built pm ds g i" "length (with_events pm i) \<le> nready"
    and "process (recording f) i nready g w pm = Some (g', w', pm')"
  shows "w' = w @ deliveries pm i \<and> registered pm' = answered f pm i"
  using assms
proof (induction "pm_nfds pm - i" arbitrary: i nready g w pm ds)
  case 0
  then have "answered f pm i = registered pm"
    by (auto simp: answered_def registered_def fun_eq_iff Let_def split: option.splits)
  then show ?case using 0 by (simp add: process.simps deliveries_def)
next
  case (Suc n)
  note ok = Suc.prems(1) and built = Suc.prems(2) and enough = Suc.prems(3) and run = Suc.prems(4)
  let ?f = "pm_fds pm ! i"
  have i: "i < pm_nfds pm" using Suc.hyps(2) by simp
  note steps = with_events_step [OF i] deliveries_step [OF i]
  have i_out: "i \<notin> set ds" using built by (auto simp: list_built_def)
  \<comment> \<open>the two ways a slot is updated\<close>
  have served: ?case
    if upd: "update_slot i nevents g pm = Some (g1, pm1)" and ok1: "gc_slots pm1 ds1" "list_built pm1 ds1 g1 (i + 1)"
      and w1: "w1 = w @ delivery pm i" and n1: "length (with_events pm (i + 1)) \<le> nready1"
      and run1: "process (recording f) (i + 1) nready1 g1 w1 pm1 = Some (g', w', pm')"
      and self: "\<And>h. pm_hdls pm ! i = Some h \<Longrightarrow> registered pm h \<noteq> None \<Longrightarrow> pm_slot pm h = int i \<Longrightarrow>
        p_revents ?f \<noteq> 0 \<and> nevents = f h (p_fd ?f) (p_revents ?f)"
    for nevents g1 pm1 ds1 w1 nready1
  proof -
    note others = update_slot_others [OF upd ok built]
    have later: "pm_fds pm1 ! j = pm_fds pm ! j \<and> pm_hdls pm1 ! j = pm_hdls pm ! j" if "i < j" for j
      using others(3,4) [of j] that built by (force simp: list_built_def)
    note keep = later_slots [OF others(2) later]
    have "w' = w1 @ deliveries pm1 (i + 1) \<and> registered pm' = answered f pm1 (i + 1)"
      by (rule Suc.hyps(1) [OF _ ok1 _ run1]) (use Suc.hyps(2) others(2) keep n1 in auto)
    moreover have "answered f pm1 (i + 1) = answered f pm i" using upd ok built i self by (rule answered_step)
    ultimately show ?thesis using steps(2) keep(2) w1 by (simp only: append_assoc)
  qed
  show ?case
  proof (cases "nready = 0")
    case True
    have none: "p_revents (pm_fds pm ! j) = 0" if "i \<le> j" "j < pm_nfds pm" for j
      using True that enough by (auto simp: with_events_def filter_empty_conv)
    then have "deliveries pm i = []" by (simp add: deliveries_def delivery_def)
    moreover have "answered f pm i = registered pm" using none by (auto intro!: answered_quiet)
    ultimately show ?thesis using run True by (simp add: process.simps)
  next
    case more: False
    consider (killed) "p_fd ?f = INVALID_SOCKET" "1 \<le> i"
      | (idle) "\<not> (p_fd ?f = INVALID_SOCKET \<and> SLOT_FIRST_DYNAMIC \<le> i)" "p_revents ?f = 0"
      | (ready) "\<not> (p_fd ?f = INVALID_SOCKET \<and> SLOT_FIRST_DYNAMIC \<le> i)" "p_revents ?f \<noteq> 0"
      by (auto simp: SLOT_FIRST_DYNAMIC_def)
    then show ?thesis
    proof cases
      case killed
      obtain g1 pm1 where upd: "update_slot i (- 1) g pm = Some (g1, pm1)" "gc_slots pm1 (ds @ [i])"
        "list_built pm1 (ds @ [i]) g1 (i + 1)"
        using free_slot [OF slots_but_mono [OF ok] killed(2) i built] by blast
      have "process (recording f) i nready g w pm =
          process (recording f) (i + 1) (if p_revents ?f \<noteq> 0 then nready - 1 else nready) g1 w pm1"
        using more i killed upd(1) by (subst process.simps) (simp add: SLOT_FIRST_DYNAMIC_def Let_def)
      then show ?thesis
        by (intro served [OF upd]) (use run enough steps killed in \<open>auto simp: delivery_def registered_def\<close>)
    next
      case idle
      have "process (recording f) i nready g w pm = process (recording f) (i + 1) nready g w pm"
        using more i idle by (subst process.simps) (auto simp: Let_def)
      then have "w' = w @ deliveries pm (i + 1) \<and> registered pm' = answered f pm (i + 1)"
        using run enough steps idle(2) Suc.hyps(2)
        by (intro Suc.hyps(1) [OF _ ok list_built_next [OF built]]) auto
      moreover have "answered f pm (i + 1) = answered f pm i" by (rule answered_idle [OF idle(2)])
      ultimately show ?thesis using steps idle(2) by (simp add: delivery_def)
    next
      case ready
      have "i = 0 \<or> p_fd ?f \<noteq> INVALID_SOCKET" using ready(1) by (auto simp: SLOT_FIRST_DYNAMIC_def)
      then obtain nevents w1 pm0 g1 pm1 ds1 where
        call: "call_handler (recording f) i (p_fd ?f) (p_revents ?f) w pm = Some (nevents, w1, pm0)" and
        upd: "update_slot i nevents g pm0 = Some (g1, pm1)" "gc_slots pm1 ds1" "list_built pm1 ds1 g1 (i + 1)"
        using served_slot [OF recording_ok ok built i, of f "p_fd ?f" "p_revents ?f" w] by metis
      have calls: "pm0 = pm" "w1 = w @ delivery pm i"
        "pm_hdls pm ! i = Some h \<Longrightarrow> nevents = f h (p_fd ?f) (p_revents ?f)" for h
        using call ready(2) \<open>i = 0 \<or> p_fd ?f \<noteq> INVALID_SOCKET\<close>
        by (auto simp: call_handler_def recording_def delivery_def Let_def split: option.splits)
      have "process (recording f) i nready g w pm = process (recording f) (i + 1) (nready - 1) g1 w1 pm1"
        using more i ready call upd(1)
        by (subst process.simps) (simp only: Let_def if_True if_False prod.case option.case simp_thms neq0_conv)
      then show ?thesis
        by (intro served [OF upd [unfolded calls(1)] calls(2)])
          (use run enough steps ready calls(3) in auto)
    qed
  qed
qed


definition pm_example :: pollmgr where
  \<comment> \<open>the queue, three open slots, and slot 2 deleted by \<open>pollmgr_del_slot\<close>\<close>
  "pm_example =
     \<lparr>pm_fds = [\<lparr>p_fd = 3, p_events = 1, p_revents = 0\<rparr>, \<lparr>p_fd = 10, p_events = 1, p_revents = 0\<rparr>,
       \<lparr>p_fd = INVALID_SOCKET, p_events = 1, p_revents = 0\<rparr>, \<lparr>p_fd = 12, p_events = 1, p_revents = 0\<rparr>,
       \<lparr>p_fd = 13, p_events = 4, p_revents = 0\<rparr>, no_fd],
      pm_hdls = [Some 0, Some 21, Some 22, Some 23, Some 24, None],
      pm_capacity = 6, pm_nfds = 5,
      pm_slot = (\<lambda>h. if h = 22 then - 1 else if 21 \<le> h \<and> h \<le> 24 then int h - 20 else 0), pm_gen = 0\<rparr>"

lemma pm_example_ok: "pm_ok pm_example"
proof -
  have "{1..<pm_nfds pm_example} = {1, 2, 3, 4}" by (auto simp: pm_example_def)
  then show ?thesis by (auto simp: pm_ok_def pm_shape_def live_def killed_def pm_example_def INVALID_SOCKET_def)
qed


section \<open>Registering from a dynamic slot\<close>

text \<open>
  C20: \<open>pollmgr_add\<close> from the callback of a dynamic slot is not safe when the arrays are full: if a
  slot has been scheduled for deletion earlier in the round, \<open>pdelprev\<close> points into the array that
  \<open>realloc\<close> has given back, and the next slot that is deleted in the round stores through it. The
  callback of a listening socket, \<open>fwtcp_pmgr_listen\<close>, registers the accepted connection in this way.
\<close>

theorem pollmgr_add_dangles:
  assumes "list_built pm ds g i" "ds \<noteq> []" "pm_nfds pm = pm_capacity pm"
    and "run_op (Op_add True mem2 h fd events) pm = Some pm'"
    and "1 \<le> j"
  shows "update_slot j (- 1) g pm' = None"
proof -
  have "gc_prev g = At_fd (pm_gen pm) (last ds)" using assms(1,2) by (simp add: list_built_def)
  moreover have "pm_gen pm' = Suc (pm_gen pm)"
    using assms(3,4) by (auto simp: pollmgr_add_def pollmgr_grow_def pollmgr_add_at_def pm_defs Let_def split: if_splits)
  ultimately show ?thesis using assms(5) by (simp add: update_slot_def store_delprev_def SLOT_FIRST_DYNAMIC_def)
qed

definition listening :: "nat callback" where
  \<comment> \<open>handler 22 accepts a connection, as \<open>fwtcp_pmgr_listen\<close> does; the others are closed\<close>
  "listening h fd revents w pm = (if h = 22 then ([Op_add True True w (int w + 100) 1], 1, w + 1) else ([], - 1, w))"

definition pm_listening :: pollmgr where
  "pm_listening = pm_full\<lparr>pm_fds := (pm_fds pm_full)[2 := \<lparr>p_fd = 11, p_events = 1, p_revents = 0\<rparr>],
     pm_slot := (\<lambda>h. if 21 \<le> h \<and> h \<le> 23 then int h - 20 else 0)\<rparr>"

text \<open>Slots 1 and 3 are closed in the round in which slot 2 accepts.\<close>

theorem pollmgr_add_dangles_witness:
  "poll_round listening [0, 1, 1, 1] 3 30 pm_listening = None \<and>
   (\<exists>g pm pm'. update_slot 1 (- 1) \<lparr>gc_first = INVALID_SOCKET, gc_prev = At_delfirst\<rparr> pm_listening = Some (g, pm) \<and>
     run_op (Op_add True True 30 130 1) pm = Some pm' \<and> update_slot 3 (- 1) g pm' = None)"
proof -
  let ?pm = "set_hdl 1 None (set_fd 1 \<lparr>p_fd = INVALID_SOCKET, p_events = POLLMGR_GARBAGE, p_revents = 0\<rparr> pm_listening)"
  let ?g = "\<lparr>gc_first = 1, gc_prev = At_fd 0 1\<rparr>"
  have "poll_round listening [0, 1, 1, 1] 3 30 pm_listening = None" by code_simp
  moreover have "update_slot 1 (- 1) \<lparr>gc_first = INVALID_SOCKET, gc_prev = At_delfirst\<rparr> pm_listening = Some (?g, ?pm)"
    by (simp add: update_slot_def store_delprev_def SLOT_FIRST_DYNAMIC_def pm_listening_def pm_full_def Let_def
        set_fd_def set_hdl_def)
  moreover have built: "list_built ?pm [1] ?g 2"
    by (simp add: list_built_def pm_listening_def pm_full_def set_fd_def set_hdl_def)
  have full: "pm_nfds ?pm = pm_capacity ?pm" by (simp add: pm_listening_def pm_full_def set_fd_def set_hdl_def)
  have "\<exists>pm'. run_op (Op_add True True 30 130 1) ?pm = Some pm' \<and> update_slot 3 (- 1) ?g pm' = None"
    using pollmgr_add_dangles [OF built _ full] by simp
  ultimately show ?thesis by blast
qed

end
