(* ===== verification/Steps.thy ===== *)
theory Steps
  imports Prelude
begin

text \<open>
  Threads that share state, as guarded steps: an action that is enabled is run, and running it may
  fail, as a failed assertion or the use of freed memory does. The contract is an invariant that
  every enabled action keeps, without failing; its client lemmas are that no reachable state fails
  and that the invariant holds in each.
\<close>

inductive reachable ::
  "('s \<Rightarrow> bool) \<Rightarrow> ('a \<Rightarrow> 's \<Rightarrow> bool) \<Rightarrow> ('a \<Rightarrow> 's \<Rightarrow> 's option) \<Rightarrow> 's \<Rightarrow> bool"
  for start enabled run where
  reachable_start: "start s \<Longrightarrow> reachable start enabled run s"
| reachable_step: "reachable start enabled run s \<Longrightarrow> enabled a s \<Longrightarrow> run a s = Some s' \<Longrightarrow> reachable start enabled run s'"

locale guarded_steps =
  fixes start :: "'s \<Rightarrow> bool"
    and enabled :: "'a \<Rightarrow> 's \<Rightarrow> bool"
    and run :: "'a \<Rightarrow> 's \<Rightarrow> 's option"
    and inv :: "'s \<Rightarrow> bool"
  assumes start_inv: "start s \<Longrightarrow> inv s"
    and step_inv: "inv s \<Longrightarrow> enabled a s \<Longrightarrow> \<exists>s'. run a s = Some s' \<and> inv s'"
begin

lemma reachable_inv: "reachable start enabled run s \<Longrightarrow> inv s"
proof (induction rule: reachable.induct)
  case (reachable_step s a s')
  then show ?case using step_inv [of s a] by auto
qed (rule start_inv)

lemma never_fails: "reachable start enabled run s \<Longrightarrow> enabled a s \<Longrightarrow> run a s \<noteq> None"
  using step_inv reachable_inv by fastforce

end

text \<open>Actions run one after the other; the witnesses reach their states this way.\<close>

fun run_all :: "('a \<Rightarrow> 's \<Rightarrow> bool) \<Rightarrow> ('a \<Rightarrow> 's \<Rightarrow> 's option) \<Rightarrow> 'a list \<Rightarrow> 's \<Rightarrow> 's option" where
  "run_all enabled run [] s = Some s"
| "run_all enabled run (a # as) s =
     (if enabled a s then (case run a s of None \<Rightarrow> None | Some s \<Rightarrow> run_all enabled run as s) else None)"

lemma run_all_reachable:
  "reachable start enabled run s \<Longrightarrow> run_all enabled run as s = Some s' \<Longrightarrow> reachable start enabled run s'"
  by (induction "as" arbitrary: s) (auto split: if_splits option.splits intro: reachable_step)

lemma run_all_append:
  "run_all enabled run (as @ bs) s = Option.bind (run_all enabled run as s) (run_all enabled run bs)"
  by (induction "as" arbitrary: s) (auto split: option.split)

fun can_all :: "('a \<Rightarrow> 't \<Rightarrow> bool) \<Rightarrow> ('a \<Rightarrow> 't \<Rightarrow> 't) \<Rightarrow> 'a list \<Rightarrow> 't \<Rightarrow> bool" where
  "can_all can spec [] t \<longleftrightarrow> True"
| "can_all can spec (a # as) t \<longleftrightarrow> can a t \<and> can_all can spec as (spec a t)"

text \<open>
  A simulation: the states represent those of a specification, and every enabled action runs and does
  what the specification says. Then so do all runs.
\<close>

locale simulation =
  fixes enabled :: "'a \<Rightarrow> 's \<Rightarrow> bool"
    and run :: "'a \<Rightarrow> 's \<Rightarrow> 's option"
    and spec :: "'a \<Rightarrow> 't \<Rightarrow> 't"
    and rel :: "'s \<Rightarrow> 't \<Rightarrow> bool"
    and can :: "'a \<Rightarrow> 't \<Rightarrow> bool"   \<comment> \<open>enough, in the specification, for an action to be enabled\<close>
  assumes step_sim: "rel s t \<Longrightarrow> enabled a s \<Longrightarrow> \<exists>s'. run a s = Some s' \<and> rel s' (spec a t)"
    and can_enabled: "rel s t \<Longrightarrow> can a t \<Longrightarrow> enabled a s"
begin

lemma runs_sim: "rel s t \<Longrightarrow> run_all enabled run as s = Some s' \<Longrightarrow> rel s' (fold spec as t)"
proof (induction "as" arbitrary: s t)
  case (Cons a "as")
  then show ?case using step_sim [of s t a] by (auto split: if_splits option.splits)
qed simp

lemma sim_never_fails: "rel s t \<Longrightarrow> enabled a s \<Longrightarrow> run a s \<noteq> None"
  using step_sim by fastforce

lemma runs_exist: "rel s t \<Longrightarrow> can_all can spec as t \<Longrightarrow> \<exists>s'. run_all enabled run as s = Some s' \<and> rel s' (fold spec as t)"
proof (induction "as" arbitrary: s t)
  case (Cons a "as")
  then obtain s1 where "run a s = Some s1" "rel s1 (spec a t)" "enabled a s"
    using step_sim [of s t a] can_enabled [of s t a] by auto
  then show ?case using Cons.IH [of s1 "spec a t"] Cons.prems by simp
qed simp

end

end
