(* ===== verification/Refptr.thy ===== *)
theory Refptr
  imports Steps
begin

text \<open>
  The reference that the lwIP thread and the poll manager share to a proxied connection
  (\<open>pollmgr_refptr_*\<close> of \<open>NetworkServices/NAT/proxy_pollmgr.c\<close>): one strong reference, that of the lwIP
  thread, and a weak one for each message on a channel. Each function works under the lock and may
  decide to delete the reference, which it does after it has released the lock; the two halves are
  separate steps here, so the threads may run in between. \<open>None\<close> is a failed assertion.
\<close>

section \<open>The functions\<close>

record refptr =
  rp_ptr :: "nat option"
  rp_strong :: nat
  rp_weak :: nat

definition pollmgr_refptr_create :: "nat \<Rightarrow> bool \<Rightarrow> refptr option" where
  "pollmgr_refptr_create ptr mem =
     (if \<not> mem then None else Some \<lparr>rp_ptr = Some ptr, rp_strong = 1, rp_weak = 0\<rparr>)"

definition pollmgr_refptr_delete :: "refptr \<Rightarrow> unit option" where
  "pollmgr_refptr_delete rp = (if rp_strong rp = 0 \<and> rp_weak rp = 0 then Some () else None)"

definition pollmgr_refptr_weak_ref :: "refptr \<Rightarrow> refptr option" where
  "pollmgr_refptr_weak_ref rp =
     (if rp_ptr rp \<noteq> None \<and> rp_strong rp > 0 then Some (rp\<lparr>rp_weak := rp_weak rp + 1\<rparr>) else None)"

definition pollmgr_refptr_get :: "(nat \<Rightarrow> int) \<Rightarrow> refptr \<Rightarrow> ((nat option \<times> bool) \<times> refptr) option" where
  \<comment> \<open>the handler, and whether to delete \<open>rp\<close>; \<open>slot\<close>: the handlers' \<open>slot\<close> fields\<close>
  "pollmgr_refptr_get slot rp =
     (if rp_weak rp = 0 then None
      else
        let weak = rp_weak rp - 1; rp = rp\<lparr>rp_weak := weak\<rparr> in
        case rp_ptr rp of
          None \<Rightarrow> if rp_strong rp = 0 then Some ((None, weak = 0), rp) else None
        | Some h \<Rightarrow>
            if rp_strong rp \<noteq> 1 then None
            else if slot h < 0 then Some ((None, False), rp)
            else Some ((Some h, False), rp))"

definition pollmgr_refptr_unref :: "refptr \<Rightarrow> (bool \<times> refptr) option" where
  "pollmgr_refptr_unref rp =
     (if rp_strong rp \<noteq> 1 then None
      else
        let rp = rp\<lparr>rp_strong := rp_strong rp - 1\<rparr> in
        if rp_strong rp > 0 then Some (False, rp)
        else Some (rp_weak rp = 0, rp\<lparr>rp_ptr := None\<rparr>))"

section \<open>The threads that share it\<close>

text \<open>
  \<open>rs_rp\<close> is \<open>None\<close> once the memory is freed. The lwIP thread owns the strong reference until it gives
  it up; \<open>rs_sent\<close> weak references are on their way through the channels; \<open>rs_del\<close> threads have
  released the lock and are about to delete.
\<close>

record rp_sys =
  rs_rp :: "refptr option"
  rs_owner :: bool
  rs_sent :: nat
  rs_del :: nat

datatype rp_action = Send | Receive "nat \<Rightarrow> int" | Drop | Delete

fun rp_enabled :: "rp_action \<Rightarrow> rp_sys \<Rightarrow> bool" where
  "rp_enabled Send s = rs_owner s"
| "rp_enabled (Receive slot) s \<longleftrightarrow> rs_sent s > 0"
| "rp_enabled Drop s = rs_owner s"
| "rp_enabled Delete s \<longleftrightarrow> rs_del s > 0"

text \<open>\<open>None\<close>: an assertion fails, or freed memory is used.\<close>

fun rp_run :: "rp_action \<Rightarrow> rp_sys \<Rightarrow> rp_sys option" where
  "rp_run Send s =
     (case Option.bind (rs_rp s) pollmgr_refptr_weak_ref of
        None \<Rightarrow> None
      | Some rp \<Rightarrow> Some (s\<lparr>rs_rp := Some rp, rs_sent := rs_sent s + 1\<rparr>))"
| "rp_run (Receive slot) s =
     (case Option.bind (rs_rp s) (pollmgr_refptr_get slot) of
        None \<Rightarrow> None
      | Some ((_, del), rp) \<Rightarrow>
          Some (s\<lparr>rs_rp := Some rp, rs_sent := rs_sent s - 1, rs_del := rs_del s + (if del then 1 else 0)\<rparr>))"
| "rp_run Drop s =
     (case Option.bind (rs_rp s) pollmgr_refptr_unref of
        None \<Rightarrow> None
      | Some (del, rp) \<Rightarrow>
          Some (s\<lparr>rs_rp := Some rp, rs_owner := False, rs_del := rs_del s + (if del then 1 else 0)\<rparr>))"
| "rp_run Delete s =
     (case Option.bind (rs_rp s) pollmgr_refptr_delete of
        None \<Rightarrow> None
      | Some _ \<Rightarrow> Some (s\<lparr>rs_rp := None, rs_del := rs_del s - 1\<rparr>))"

definition rp_start :: "nat \<Rightarrow> rp_sys \<Rightarrow> bool" where
  "rp_start h s \<longleftrightarrow>
     (\<exists>rp. pollmgr_refptr_create h True = Some rp \<and> s = \<lparr>rs_rp = Some rp, rs_owner = True, rs_sent = 0, rs_del = 0\<rparr>)"

abbreviation rp_reach :: "nat \<Rightarrow> rp_sys \<Rightarrow> bool" where
  "rp_reach h \<equiv> reachable (rp_start h) rp_enabled rp_run"

section \<open>Its life\<close>

text \<open>The counts are those of the references held; it is freed by the step that drops the last one.\<close>

definition rp_inv :: "nat \<Rightarrow> rp_sys \<Rightarrow> bool" where
  "rp_inv h s \<longleftrightarrow>
     (case rs_rp s of
        None \<Rightarrow> \<not> rs_owner s \<and> rs_sent s = 0 \<and> rs_del s = 0
      | Some rp \<Rightarrow>
          rp_weak rp = rs_sent s \<and> rp_strong rp = (if rs_owner s then 1 else 0) \<and>
          rp_ptr rp = (if rs_owner s then Some h else None) \<and>
          rs_del s = (if \<not> rs_owner s \<and> rs_sent s = 0 then 1 else 0))"

lemmas rp_defs = pollmgr_refptr_weak_ref_def pollmgr_refptr_get_def pollmgr_refptr_unref_def
  pollmgr_refptr_delete_def pollmgr_refptr_create_def Let_def

lemma rp_step_ok:
  assumes "rp_inv h s" "rp_enabled a s"
  obtains s' where "rp_run a s = Some s'" "rp_inv h s'"
proof (cases "rs_rp s")
  case None
  then show thesis using assms by (cases a) (auto simp: rp_inv_def)
next
  case (Some rp)
  then show thesis
    using assms that by (cases a) (auto simp: rp_inv_def rp_defs split: if_splits)
qed

interpretation rp: guarded_steps "rp_start h" rp_enabled rp_run "rp_inv h" for h
proof
  show "rp_inv h s" if "rp_start h s" for s
    using that by (auto simp: rp_start_def rp_inv_def rp_defs)
  show "\<exists>s'. rp_run a s = Some s' \<and> rp_inv h s'" if "rp_inv h s" "rp_enabled a s" for a s
    using rp_step_ok [OF that] by blast
qed

text \<open>
  C24: the shared reference is freed exactly once, and only when nobody holds it. However the lwIP
  thread's messages, its release and the poll manager's receipts interleave, no assertion of
  \<open>pollmgr_refptr_*\<close> fails and no thread uses freed memory; while a reference is held the memory is
  there; when the last one is gone, the memory is freed or exactly one thread is about to free it.
\<close>

theorem refptr_freed_once:
  assumes "rp_reach h s"
  shows "(rp_enabled a s \<longrightarrow> rp_run a s \<noteq> None) \<and>
    (rs_rp s = None \<longleftrightarrow> \<not> rs_owner s \<and> rs_sent s = 0 \<and> rs_del s = 0) \<and>
    (rs_rp s \<noteq> None \<longrightarrow> rs_del s = (if rs_owner s \<or> rs_sent s > 0 then 0 else 1))"
  using rp.reachable_inv [OF assms] rp.never_fails [OF assms]
  by (auto simp: rp_inv_def split: option.splits if_splits)

text \<open>A message is sent, the lwIP thread lets go, and the poll manager receives the message.\<close>

theorem refptr_freed_once_witness:
  "\<exists>s. rp_reach 7 s \<and> rs_del s = 1 \<and> rp_run Delete s \<noteq> None \<and> \<not> rp_enabled Send s"
proof -
  let ?init = "\<lparr>rs_rp = Some \<lparr>rp_ptr = Some 7, rp_strong = 1, rp_weak = 0\<rparr>, rs_owner = True, rs_sent = 0, rs_del = 0\<rparr>"
  let ?fin = "\<lparr>rs_rp = Some \<lparr>rp_ptr = None, rp_strong = 0, rp_weak = 0\<rparr>, rs_owner = False, rs_sent = 0, rs_del = 1\<rparr>"
  have "rp_reach 7 ?init" by (rule reachable_start) (simp add: rp_start_def rp_defs)
  moreover have "run_all rp_enabled rp_run [Send, Drop, Receive (\<lambda>_. 0)] ?init = Some ?fin"
    by (simp add: rp_defs)
  ultimately have reach: "rp_reach 7 ?fin" by (rule run_all_reachable)
  then show ?thesis using refptr_freed_once [OF reach, of Delete] by (intro exI [of _ ?fin]) simp
qed

end
