(* ===== verification/Pxtcp.thy ===== *)
theory Pxtcp
  imports Prelude
begin

text \<open>
  A proxied TCP connection of the NAT network service (\<open>NetworkServices/NAT/pxtcp.c\<close>, on a Linux
  host): the ring buffer for inbound data with its three regions (free, sent and not acknowledged,
  not sent), the functions that fill, send, acknowledge and close it, the forwarding of outbound
  data, and the handlers that run on the poll manager's and the lwIP thread.

  The record holds the fields of \<open>struct pxtcp\<close>; what the connection gives to and gets from lwIP, the
  socket, the channels and the lwIP thread's mailbox is appended to \<open>px_log\<close>. The answers of lwIP are the record
  \<open>lwip\<close>, those of the socket are arguments. \<open>None\<close> is a failed assertion or a null pointer used.
\<close>

section \<open>State\<close>

datatype px_effect =
    Tcp_write "u8 list" bool   \<comment> \<open>the bytes, and \<open>TCP_WRITE_FLAG_MORE\<close>\<close>
  | Tcp_output
  | Tcp_shutdown
  | Tcp_poll bool
  | Tcp_sent_off
  | Tcp_recv_off
  | Tcp_dissociate
  | Tcp_recved nat
  | Tcp_abort
  | Tcp_acked nat
  | Sock_recv "u8 list"
  | Sock_send "u8 list"
  | Sock_shutdown
  | Sock_close
  | Sock_reset
  | Chan_pollin
  | Chan_pollout
  | Chan_reset
  | Post_delete
  | Post_reset
  | Post_outbound
  | Post_inbound
  | Post_inpull
  | Refptr_unref
  | Free_pxtcp

record pxtcp =
  px_buf :: "u8 list option"
  px_bufsize :: nat
  px_vacant :: nat
  px_unacked :: nat
  px_unsent :: nat
  px_outbound_close :: bool
  px_outbound_close_done :: bool
  px_inbound_close :: bool
  px_inbound_close_done :: bool
  px_inbound_pull :: bool
  px_deferred_delete :: bool
  px_pcb :: bool
  px_sock :: bool
  px_slot :: int
  px_events :: int
  px_chain :: "u8 list list option"   \<comment> \<open>\<open>unsent\<close>: the chain of outbound pbufs kept\<close>
  px_log :: "px_effect list"

datatype err = ERR_OK | ERR_MEM | ERR_OTHER

record lwip =
  lw_established :: bool
  lw_sndbuf :: nat
  lw_write :: err        \<comment> \<open>the answer of the first \<open>tcp_write\<close>\<close>
  lw_write_again :: err
  lw_shutdown :: err

definition POLLIN :: int where "POLLIN = 0x001"
definition POLLOUT :: int where "POLLOUT = 0x004"
definition POLLERR :: int where "POLLERR = 0x008"
definition POLLHUP :: int where "POLLHUP = 0x010"
definition POLLNVAL :: int where "POLLNVAL = 0x020"

definition px_do :: "px_effect \<Rightarrow> pxtcp \<Rightarrow> pxtcp" where
  "px_do e px = px\<lparr>px_log := px_log px @ [e]\<rparr>"

definition pxtcp_allocate :: pxtcp where
  "pxtcp_allocate =
     \<lparr>px_buf = Some (replicate (64 * 1024) 0), px_bufsize = 64 * 1024, px_vacant = 0, px_unacked = 0,
      px_unsent = 0, px_outbound_close = False, px_outbound_close_done = False, px_inbound_close = False,
      px_inbound_close_done = False, px_inbound_pull = False, px_deferred_delete = False, px_pcb = False,
      px_sock = False, px_slot = -1, px_events = 0, px_chain = None, px_log = []\<rparr>"

definition pxtcp_create_forwarded :: pxtcp where
  "pxtcp_create_forwarded = pxtcp_allocate\<lparr>px_sock := True, px_events := 0\<rparr>"

definition pxtcp_pcb_associate :: "pxtcp \<Rightarrow> pxtcp" where
  "pxtcp_pcb_associate px = px\<lparr>px_pcb := True\<rparr>"

definition pxtcp_pcb_dissociate :: "pxtcp \<Rightarrow> pxtcp" where
  "pxtcp_pcb_dissociate px = (if \<not> px_pcb px then px else (px_do Tcp_dissociate px)\<lparr>px_pcb := False\<rparr>)"

definition pxtcp_free :: "pxtcp \<Rightarrow> pxtcp" where
  "pxtcp_free px = (px_do Free_pxtcp px)\<lparr>px_buf := None, px_chain := None\<rparr>"

section \<open>From the socket into the ring\<close>

datatype recv = Recv_data "u8 list" | Recv_eof | Recv_error int

text \<open>The free space, in one or two chunks: offset and length.\<close>

definition px_space :: "pxtcp \<Rightarrow> (nat \<times> nat) list" where
  "px_space px =
     (let sz = px_bufsize px; beg = px_vacant px; lim = px_unacked px;
          lim = (if lim = 0 then sz - 1 else if lim = 1 \<and> beg \<noteq> 0 then sz else lim - 1)
      in if beg = lim then []
         else if beg < lim then [(beg, lim - beg)]
         else [(beg, sz - beg), (0, lim)])"

fun iov_fill :: "(nat \<times> nat) list \<Rightarrow> u8 list \<Rightarrow> u8 list \<Rightarrow> u8 list" where
  \<comment> \<open>\<open>recvmsg\<close> fills the chunks in order\<close>
  "iov_fill [] bs buf = buf"
| "iov_fill ((b, n) # iov) bs buf =
     iov_fill iov (drop n bs) (take b buf @ take n bs @ drop (b + length (take n bs)) buf)"

definition px_received :: "(int \<Rightarrow> bool) \<Rightarrow> (nat \<times> nat) list \<Rightarrow> recv \<Rightarrow> pxtcp \<Rightarrow> ((int \<times> bool) \<times> pxtcp) option" where
  \<comment> \<open>the rest of \<open>pxtcp_sock_read\<close>, from \<open>recvmsg\<close> into the chunks \<open>iov\<close> on\<close>
  "px_received transient iov r px =
     (case px_buf px of
        None \<Rightarrow> None
      | Some buf \<Rightarrow>
          (case r of
             Recv_data bs \<Rightarrow>
               let wrnew = px_vacant px + length bs;
                   wrnew = (if wrnew \<ge> px_bufsize px then wrnew - px_bufsize px else wrnew)
               in Some ((int (length bs), False), (px_do (Sock_recv bs) px)\<lparr>px_buf := Some (iov_fill iov bs buf), px_vacant := wrnew\<rparr>)
           | Recv_eof \<Rightarrow> Some ((1, True), px\<lparr>px_inbound_close := True\<rparr>)
           | Recv_error e \<Rightarrow> Some ((if transient e then 0 else - e, False), px)))"

definition pxtcp_sock_read :: "(int \<Rightarrow> bool) \<Rightarrow> recv \<Rightarrow> pxtcp \<Rightarrow> ((int \<times> bool) \<times> pxtcp) option" where
  "pxtcp_sock_read transient r px =
     (let iov = px_space px in if iov = [] then Some ((0, True), px) else px_received transient iov r px)"

section \<open>Closing the inbound direction\<close>

definition pxtcp_pcb_forward_inbound_done :: "pxtcp \<Rightarrow> bool" where
  "pxtcp_pcb_forward_inbound_done px \<longleftrightarrow> px_inbound_close_done px \<and> px_unacked px = px_unsent px"

definition pxtcp_pcb_schedule_poll :: "pxtcp \<Rightarrow> pxtcp option" where
  "pxtcp_pcb_schedule_poll px = (if px_pcb px then Some (px_do (Tcp_poll True) px) else None)"

definition pxtcp_pcb_cancel_poll :: "pxtcp \<Rightarrow> pxtcp option" where
  "pxtcp_pcb_cancel_poll px = (if px_pcb px then Some (px_do (Tcp_poll False) px) else None)"

definition pxtcp_pcb_forward_inbound_close :: "lwip \<Rightarrow> pxtcp \<Rightarrow> pxtcp option" where
  "pxtcp_pcb_forward_inbound_close lw px =
     (if \<not> px_inbound_close px \<or> px_inbound_close_done px \<or> px_unsent px \<noteq> px_vacant px \<or> \<not> px_pcb px then None
      else
        let px = px_do Tcp_shutdown px in
        if lw_shutdown lw \<noteq> ERR_OK then pxtcp_pcb_schedule_poll px
        else
          (case pxtcp_pcb_cancel_poll px of
             None \<Rightarrow> None
           | Some px \<Rightarrow>
               let px = px\<lparr>px_inbound_close_done := True\<rparr> in
               Some (if px_outbound_close_done px \<and> pxtcp_pcb_forward_inbound_done px
                     then pxtcp_pcb_dissociate px else px)))"

section \<open>From the ring to the guest\<close>

definition tcp_write :: "nat \<Rightarrow> nat \<Rightarrow> bool \<Rightarrow> pxtcp \<Rightarrow> pxtcp option" where
  \<comment> \<open>\<open>tcp_write(pcb, &inbuf.buf[beg], (u16_t)n, flag)\<close> with the answer \<open>ERR_OK\<close>\<close>
  "tcp_write beg n flag px =
     (case px_buf px of
        None \<Rightarrow> None
      | Some buf \<Rightarrow> Some (px_do (Tcp_write (take (n mod 0x10000) (drop beg buf)) flag) px))"

definition px_write_error :: "err \<Rightarrow> nat \<Rightarrow> pxtcp \<Rightarrow> pxtcp option" where
  \<comment> \<open>\<open>writeerr:\<close>\<close>
  "px_write_error e nsent px =
     (if e = ERR_MEM then pxtcp_pcb_schedule_poll (if nsent > 0 then px_do Tcp_output px else px)
      else None)"

definition px_check_close :: "lwip \<Rightarrow> pxtcp \<Rightarrow> pxtcp option" where
  \<comment> \<open>\<open>check_inbound_close:\<close>\<close>
  "px_check_close lw px =
     (case if px_inbound_close px \<and> px_unsent px = px_vacant px
           then pxtcp_pcb_forward_inbound_close lw px else Some px of
        None \<Rightarrow> None
      | Some px \<Rightarrow> pxtcp_pcb_cancel_poll (px_do Tcp_output px))"

definition px_write_rest :: "lwip \<Rightarrow> nat \<Rightarrow> nat \<Rightarrow> nat \<Rightarrow> nat \<Rightarrow> err \<Rightarrow> pxtcp \<Rightarrow> pxtcp option" where
  \<comment> \<open>from \<open>LWIP_ASSERT1(beg < lim)\<close> on\<close>
  "px_write_rest lw beg lim sndbuf nsent e px =
     (if \<not> beg < lim then None
      else
        let sndlim = beg + sndbuf; lim = (if lim > sndlim then sndlim else lim); tolim = lim - beg in
        if tolim > 0 then
          (if e \<noteq> ERR_OK then px_write_error e nsent px
           else
             (case tcp_write beg tolim False px of
                None \<Rightarrow> None
              | Some px \<Rightarrow> px_check_close lw (px\<lparr>px_unsent := lim\<rparr>)))
        else px_check_close lw px)"

definition pxtcp_pcb_forward_inbound :: "lwip \<Rightarrow> pxtcp \<Rightarrow> pxtcp option" where
  "pxtcp_pcb_forward_inbound lw px =
     (if \<not> px_pcb px \<or> \<not> lw_established lw then Some px
      else
        let beg = px_unsent px; lim = px_vacant px; sndbuf = lw_sndbuf lw in
        if beg = lim then
          (if px_inbound_close px \<and> \<not> px_inbound_close_done px
           then map_option (px_do Tcp_output) (pxtcp_pcb_forward_inbound_close lw px)
           else Some px)
        else if sndbuf = 0 then Some px
        else
          let toeob = px_bufsize px - beg in
          if \<not> lim < beg then px_write_rest lw beg lim sndbuf 0 (lw_write lw) px
          else if sndbuf < toeob then px_write_rest lw beg (beg + sndbuf) sndbuf 0 (lw_write lw) px
          else
            let maybemore = \<not> (toeob = sndbuf \<or> lim = 0) in
            if toeob \<noteq> toeob mod 0x10000 then None
            else if lw_write lw \<noteq> ERR_OK then px_write_error (lw_write lw) 0 px
            else
              (case tcp_write beg toeob maybemore px of
                 None \<Rightarrow> None
               | Some px \<Rightarrow>
                   let px = px\<lparr>px_unsent := 0\<rparr> in
                   if maybemore then px_write_rest lw 0 lim (sndbuf - toeob) toeob (lw_write_again lw) px
                   else px_check_close lw px))"

definition pxtcp_pcb_write_inbound :: "lwip \<Rightarrow> pxtcp \<Rightarrow> pxtcp option" where
  "pxtcp_pcb_write_inbound lw px = (if \<not> px_pcb px then Some px else pxtcp_pcb_forward_inbound lw px)"

section \<open>Deletion\<close>

definition pxtcp_pcb_delete_pxtcp :: "pxtcp \<Rightarrow> pxtcp option" where
  "pxtcp_pcb_delete_pxtcp px =
     (if \<not> px_slot px < 0 \<or> \<not> px_outbound_close_done px \<or> \<not> px_inbound_close px then None
      else
        let px = (if px_sock px then (px_do Sock_close px)\<lparr>px_sock := False\<rparr> else px) in
        if \<not> px_pcb px then Some (pxtcp_free (px_do Refptr_unref px))
        else if pxtcp_pcb_forward_inbound_done px
        then Some (pxtcp_free (px_do Refptr_unref (pxtcp_pcb_dissociate px)))
        else if px_deferred_delete px then None
        else Some (px\<lparr>px_deferred_delete := True\<rparr>))"

definition pxtcp_pcb_maybe_deferred_delete :: "pxtcp \<Rightarrow> pxtcp option" where
  "pxtcp_pcb_maybe_deferred_delete px =
     (if px_deferred_delete px \<and> pxtcp_pcb_forward_inbound_done px then pxtcp_pcb_delete_pxtcp px else Some px)"

definition pxtcp_schedule_delete :: "pxtcp \<Rightarrow> int \<times> pxtcp" where
  "pxtcp_schedule_delete px = (-1, px_do Post_delete (px\<lparr>px_slot := -1\<rparr>))"

definition pxtcp_pcb_reset_pxtcp :: "pxtcp \<Rightarrow> pxtcp" where
  "pxtcp_pcb_reset_pxtcp px =
     (let px = (if px_sock px then (px_do Sock_reset px)\<lparr>px_sock := False\<rparr> else px);
          px = (if px_pcb px then px_do Tcp_abort (pxtcp_pcb_dissociate px) else px)
      in pxtcp_free (px_do Refptr_unref px))"

definition pxtcp_schedule_reset :: "pxtcp \<Rightarrow> int \<times> pxtcp" where
  "pxtcp_schedule_reset px = (-1, px_do Post_reset (px\<lparr>px_slot := -1\<rparr>))"

definition pxtcp_pcb_poll :: "lwip \<Rightarrow> pxtcp \<Rightarrow> pxtcp option" where
  "pxtcp_pcb_poll lw px = Option.bind (pxtcp_pcb_forward_inbound lw px) pxtcp_pcb_maybe_deferred_delete"

section \<open>Acknowledged by the guest\<close>

definition px_ack :: "nat \<Rightarrow> pxtcp \<Rightarrow> (nat \<times> pxtcp) option" where
  \<comment> \<open>the index \<open>unacked\<close> once \<open>len\<close> bytes are acknowledged\<close>
  "px_ack len px =
     (if len = 0 then
        if px_inbound_close px \<or> \<not> px_inbound_pull px then None else Some (px_unacked px, px)
      else
        let unacked = px_unacked px + len;
            unacked = (if unacked > px_bufsize px then unacked - px_bufsize px else unacked)
        in Some (unacked, (px_do (Tcp_acked len) px)\<lparr>px_unacked := unacked\<rparr>))"

definition px_all_acked :: "nat \<Rightarrow> pxtcp \<Rightarrow> pxtcp option" where
  \<comment> \<open>"have we got all the acks?"\<close>
  "px_all_acked unacked px =
     (if px_inbound_close px \<and> px_unsent px = px_vacant px \<and> unacked = px_unsent px then
        let px = px\<lparr>px_buf := None\<rparr>; px = (if px_pcb px then px_do Tcp_sent_off px else px)
        in pxtcp_pcb_maybe_deferred_delete px
      else Some px)"

definition pxtcp_pcb_sent :: "lwip \<Rightarrow> (int \<Rightarrow> bool) \<Rightarrow> recv \<Rightarrow> nat \<Rightarrow> pxtcp \<Rightarrow> (err \<times> pxtcp) option" where
  "pxtcp_pcb_sent lw transient r len px =
     (if \<not> px_pcb px then None
      else
        case px_ack len px of
          None \<Rightarrow> None
        | Some (unacked, px) \<Rightarrow>
            (case (if px_inbound_close px then Some ((0, False), px)
                   else if \<not> px_inbound_pull px then Some ((0, False), px_do Chan_pollin px)
                   else pxtcp_sock_read transient r px) of
               None \<Rightarrow> None
             | Some ((nread, _), px) \<Rightarrow>
                 if nread < 0 then Some (ERR_OTHER, pxtcp_pcb_reset_pxtcp px)
                 else
                   (case (if \<not> px_inbound_close_done px then pxtcp_pcb_forward_inbound lw px else Some px) of
                      None \<Rightarrow> None
                    | Some px \<Rightarrow> map_option (Pair ERR_OK) (px_all_acked unacked px))))"

definition pxtcp_pcb_pull_inbound :: "lwip \<Rightarrow> (int \<Rightarrow> bool) \<Rightarrow> recv \<Rightarrow> pxtcp \<Rightarrow> pxtcp option" where
  "pxtcp_pcb_pull_inbound lw transient r px =
     (if \<not> px_pcb px then Some (pxtcp_pcb_reset_pxtcp px)
      else
        let px = px\<lparr>px_inbound_pull := True\<rparr>;
            px = (if px_slot px < 0 then px\<lparr>px_deferred_delete := True\<rparr> else px)
        in map_option snd (pxtcp_pcb_sent lw transient r 0 px))"

definition pxtcp_pcb_err :: "lwip \<Rightarrow> (int \<Rightarrow> bool) \<Rightarrow> recv \<Rightarrow> nat \<Rightarrow> bool \<Rightarrow> pxtcp \<Rightarrow> pxtcp option" where
  \<comment> \<open>\<open>acked\<close>: \<open>pcb->acked\<close>; \<open>closed\<close>: the error is \<open>ERR_CLSD\<close>\<close>
  "pxtcp_pcb_err lw transient r acked closed px =
     (if closed then
        if acked > 0 then map_option snd (pxtcp_pcb_sent lw transient r acked px) else Some px
      else
        let px = px\<lparr>px_pcb := False\<rparr> in
        if px_deferred_delete px then Some (pxtcp_pcb_reset_pxtcp px) else Some (px_do Chan_reset px))"

section \<open>From the guest to the socket\<close>

definition pxtcp_pcb_forward_outbound_close :: "pxtcp \<Rightarrow> pxtcp option" where
  "pxtcp_pcb_forward_outbound_close px =
     (if \<not> px_outbound_close px \<or> px_outbound_close_done px \<or> \<not> px_pcb px then None
      else
        let px = px_do Tcp_recv_off (px_do Sock_shutdown (px\<lparr>px_outbound_close_done := True\<rparr>))
        in Some (if pxtcp_pcb_forward_inbound_done px then pxtcp_pcb_dissociate px else px))"

text \<open>
  The chain of pbufs is the list of their payloads. \<open>send k\<close> answers the \<open>k\<close>th \<open>sendmsg\<close>: the
  number of bytes sent, or the negated error.
\<close>

fun px_skip :: "nat \<Rightarrow> u8 list list \<Rightarrow> u8 list list option" where
  \<comment> \<open>find the first pbuf that was not completely forwarded; free and trim what was\<close>
  "px_skip qoff [] = None"
| "px_skip qoff (q # qs) = (if qoff < length q then Some (drop qoff q # qs) else px_skip (qoff - length q) qs)"

record outbound =
  ob_forwarded :: nat
  ob_rest :: "u8 list list"
  ob_sockerr :: int
  ob_sent :: "u8 list list"   \<comment> \<open>the bytes of each \<open>sendmsg\<close>\<close>

function px_send_loop :: "(int \<Rightarrow> bool) \<Rightarrow> (nat \<Rightarrow> int) \<Rightarrow> nat \<Rightarrow> u8 list list \<Rightarrow> outbound option" where
  \<comment> \<open>the loop of \<open>pxtcp_pcb_forward_outbound\<close>\<close>
  "px_send_loop transient send k [] = Some \<lparr>ob_forwarded = 0, ob_rest = [], ob_sockerr = 0, ob_sent = []\<rparr>"
| "px_send_loop transient send k (q # qs) =
     (let batch = take 8 (q # qs); data = concat batch; fwd1 = length data; nsent = send k in
      if [] \<in> set batch then None
      else if nsent = int fwd1 then
        map_option (\<lambda>ob. ob\<lparr>ob_forwarded := fwd1 + ob_forwarded ob, ob_sent := data # ob_sent ob\<rparr>)
          (px_send_loop transient send (k + 1) (drop 8 (q # qs)))
      else if nsent \<ge> 0 then
        map_option (\<lambda>rest. \<lparr>ob_forwarded = nat nsent, ob_rest = rest @ drop 8 (q # qs), ob_sockerr = 0,
            ob_sent = [take (nat nsent) data]\<rparr>)
          (px_skip (nat nsent) batch)
      else Some \<lparr>ob_forwarded = 0, ob_rest = q # qs, ob_sockerr = (if transient (- nsent) then 0 else - nsent),
            ob_sent = []\<rparr>)"
  by pat_completeness auto

termination by (relation "measure (\<lambda>(_, _, _, qs). length qs)") auto

definition ECONNRESET :: int where "ECONNRESET = 104"

definition pxtcp_pcb_forward_outbound ::
  "(int \<Rightarrow> bool) \<Rightarrow> (nat \<Rightarrow> int) \<Rightarrow> u8 list list \<Rightarrow> pxtcp \<Rightarrow> (err \<times> pxtcp) option" where
  "pxtcp_pcb_forward_outbound transient send p px =
     (if px_chain px \<noteq> None \<and> px_chain px \<noteq> Some p then None
      else
        case px_send_loop transient send 0 p of
          None \<Rightarrow> None
        | Some ob \<Rightarrow>
            let px = fold (\<lambda>bs. px_do (Sock_send bs)) (ob_sent ob) px;
                px = (if ob_forwarded ob > 0 then px_do (Tcp_recved (ob_forwarded ob mod 0x10000)) px else px)
            in if ob_rest ob = [] then
                 let px = px\<lparr>px_chain := None\<rparr> in
                 if px_outbound_close px then map_option (Pair ERR_OK) (pxtcp_pcb_forward_outbound_close px)
                 else Some (ERR_OK, px)
               else
                 let px = px\<lparr>px_chain := Some (ob_rest ob)\<rparr> in
                 if ob_sockerr ob \<noteq> 0 \<and> ob_sockerr ob \<noteq> ECONNRESET then
                   let px = (px_do Tcp_abort (pxtcp_pcb_dissociate px))\<lparr>px_pcb := False\<rparr>
                   in Some (ERR_OTHER, if px_deferred_delete px then pxtcp_pcb_reset_pxtcp px else px_do Chan_reset px)
                 else Some (ERR_OK, px_do Chan_pollout px))"

definition pxtcp_pcb_recv ::
  "(int \<Rightarrow> bool) \<Rightarrow> (nat \<Rightarrow> int) \<Rightarrow> u8 list list option \<Rightarrow> pxtcp \<Rightarrow> (err \<times> pxtcp) option" where
  \<comment> \<open>\<open>p = None\<close>: the guest has closed its side; \<open>ERR_OTHER\<close> is \<open>ERR_WOULDBLOCK\<close>\<close>
  "pxtcp_pcb_recv transient send p px =
     (if \<not> px_pcb px then None
      else if px_chain px \<noteq> None then
        (case p of
           Some _ \<Rightarrow> Some (ERR_OTHER, px)
         | None \<Rightarrow> Some (ERR_OK, px\<lparr>px_outbound_close := True\<rparr>))
      else
        (case p of
           None \<Rightarrow> map_option (Pair ERR_OK) (pxtcp_pcb_forward_outbound_close (px\<lparr>px_outbound_close := True\<rparr>))
         | Some p \<Rightarrow> pxtcp_pcb_forward_outbound transient send p px))"

definition pxtcp_pcb_write_outbound :: "(int \<Rightarrow> bool) \<Rightarrow> (nat \<Rightarrow> int) \<Rightarrow> pxtcp \<Rightarrow> pxtcp option" where
  "pxtcp_pcb_write_outbound transient send px =
     (if \<not> px_pcb px then Some px
      else
        case px_chain px of
          None \<Rightarrow> None   \<comment> \<open>\<open>p->tot_len\<close> of a null \<open>p\<close>\<close>
        | Some p \<Rightarrow> map_option snd (pxtcp_pcb_forward_outbound transient send p px))"

section \<open>Poll manager handlers\<close>

definition pxtcp_pmgr_chan_pollout :: "pxtcp \<Rightarrow> pxtcp option" where
  \<comment> \<open>with the strong reference \<open>pollmgr_refptr_get\<close> gave; updates the events of the slot\<close>
  "pxtcp_pmgr_chan_pollout px =
     (if px_slot px > 0 then Some (px\<lparr>px_events := px_events px OR POLLOUT\<rparr>) else None)"

definition pxtcp_pmgr_chan_pollin :: "pxtcp \<Rightarrow> pxtcp option" where
  "pxtcp_pmgr_chan_pollin px =
     (if \<not> px_slot px > 0 then None
      else if px_inbound_close px then Some px
      else Some (px\<lparr>px_events := px_events px OR POLLIN\<rparr>))"

definition pxtcp_pmgr_chan_reset :: "pxtcp \<Rightarrow> pxtcp option" where
  \<comment> \<open>after \<open>pxtcp_pmgr_del\<close>\<close>
  "pxtcp_pmgr_chan_reset px =
     (if \<not> px_slot px > 0 then None
      else Some (snd (pxtcp_schedule_reset ((px_do Sock_reset px)\<lparr>px_sock := False\<rparr>))))"

definition pump_hup :: "pxtcp \<Rightarrow> (int \<times> pxtcp) option" where
  \<comment> \<open>\<open>POLLHUP\<close>: both directions are closed\<close>
  "pump_hup px =
     (if \<not> px_outbound_close_done px then None
      else if px_inbound_close px then Some (pxtcp_schedule_delete px)
      else Some (-1, px_do Post_inpull (px\<lparr>px_slot := -1\<rparr>)))"

definition pxtcp_pmgr_pump :: "(int \<Rightarrow> bool) \<Rightarrow> recv \<Rightarrow> int \<Rightarrow> pxtcp \<Rightarrow> (int \<times> pxtcp) option" where
  "pxtcp_pmgr_pump transient r revents px =
     (if revents AND POLLNVAL \<noteq> 0 then Some (pxtcp_schedule_reset (px\<lparr>px_sock := False\<rparr>))
      else if revents AND POLLERR \<noteq> 0 then Some (pxtcp_schedule_reset px)
      else
        let px = (if revents AND POLLOUT \<noteq> 0
                  then px_do Post_outbound (px\<lparr>px_events := px_events px AND NOT POLLOUT\<rparr>) else px)
        in case (if revents AND POLLIN \<noteq> 0 then pxtcp_sock_read transient r px else Some ((0, False), px)) of
             None \<Rightarrow> None
           | Some ((nread, stop), px) \<Rightarrow>
               if nread < 0 then Some (pxtcp_schedule_reset px)
               else
                 let px = (if stop then px\<lparr>px_events := px_events px AND NOT POLLIN\<rparr> else px);
                     px = (if nread > 0 then px_do Post_inbound px else px)
                 in if revents AND POLLHUP \<noteq> 0 then pump_hup px else Some (px_events px, px))"

end
