(* ===== verification/PxtcpStream.thy ===== *)
theory PxtcpStream
  imports Pxtcp Steps
begin

text \<open>
  The inbound stream of a proxied connection: whatever the order in which the poll manager's thread
  reads the socket, and the lwIP thread sends and takes acknowledgements, the guest gets the bytes
  of the host in order, and the bytes it has not acknowledged stay in the ring.
\<close>

section \<open>The history\<close>

fun written :: "px_effect list \<Rightarrow> u8 list" where
  "written [] = []"
| "written (Tcp_write bs _ # es) = bs @ written es"
| "written (_ # es) = written es"

fun received :: "px_effect list \<Rightarrow> u8 list" where
  "received [] = []"
| "received (Sock_recv bs # es) = bs @ received es"
| "received (_ # es) = received es"

fun acked :: "px_effect list \<Rightarrow> nat" where
  "acked [] = 0"
| "acked (Tcp_acked n # es) = n + acked es"
| "acked (_ # es) = acked es"

lemma history_append [simp]:
  "written (xs @ ys) = written xs @ written ys" "received (xs @ ys) = received xs @ received ys"
  "acked (xs @ ys) = acked xs + acked ys"
proof -
  show "written (xs @ ys) = written xs @ written ys" by (induction xs rule: written.induct) auto
  show "received (xs @ ys) = received xs @ received ys" by (induction xs rule: received.induct) auto
  show "acked (xs @ ys) = acked xs + acked ys" by (induction xs rule: acked.induct) auto
qed

abbreviation px_written :: "pxtcp \<Rightarrow> u8 list" where "px_written px \<equiv> written (px_log px)"
abbreviation px_rcvd :: "pxtcp \<Rightarrow> u8 list" where "px_rcvd px \<equiv> received (px_log px)"
abbreviation px_acked :: "pxtcp \<Rightarrow> nat" where "px_acked px \<equiv> acked (px_log px)"

section \<open>The ring holds the stream\<close>

text \<open>\<open>unacked\<close> after \<open>a\<close> bytes: the code lets it reach the end of the buffer before it wraps.\<close>

definition ack_index :: "nat \<Rightarrow> nat \<Rightarrow> nat" where
  "ack_index n a = (if a = 0 then 0 else (a - 1) mod n + 1)"

lemma ack_index_le: "0 < n \<Longrightarrow> ack_index n a \<le> n"
  by (simp add: ack_index_def Suc_leI)

lemma ack_index_mod: "ack_index n a mod n = a mod n"
proof (cases a)
  case (Suc b)
  have "Suc (b mod n) mod n = Suc b mod n" by (rule mod_Suc_eq)
  then show ?thesis using Suc by (simp add: ack_index_def)
qed (simp add: ack_index_def)

lemma ack_index_add:
  assumes "0 < n" "0 < l" "l < n"
  shows "(if ack_index n a + l > n then ack_index n a + l - n else ack_index n a + l) = ack_index n (a + l)"
proof -
  obtain m where m: "l = Suc m" using assms(2) by (cases l) auto
  have eq: "(ack_index n a + m) mod n = (a + m) mod n"
    using ack_index_mod [of n a] by (metis mod_add_left_eq)
  have rhs: "ack_index n (Suc (a + m)) = Suc ((ack_index n a + m) mod n)" by (simp add: eq) (simp add: ack_index_def)
  have le: "ack_index n a \<le> n" using ack_index_le assms(1) .
  show ?thesis
  proof (cases "ack_index n a + m < n")
    case True
    then show ?thesis by (simp add: rhs m)
  next
    case False
    then have "(ack_index n a + m) mod n = ack_index n a + m - n"
      using le assms(3) m by (simp add: le_mod_geq)
    then show ?thesis using False by (simp add: rhs m)
  qed
qed

definition holds :: "nat \<Rightarrow> u8 list \<Rightarrow> u8 list \<Rightarrow> nat \<Rightarrow> bool" where
  "holds n buf bs a \<longleftrightarrow> length buf = n \<and> (\<forall>k \<in> {a..<length bs}. buf ! (k mod n) = bs ! k)"

definition px_stream :: "nat \<Rightarrow> pxtcp \<Rightarrow> bool" where
  "px_stream n px \<longleftrightarrow>
     2 \<le> n \<and> n \<le> 0x10000 \<and> px_bufsize px = n \<and>
     px_vacant px = length (px_rcvd px) mod n \<and> px_unsent px = length (px_written px) mod n \<and>
     px_unacked px = ack_index n (px_acked px) \<and>
     px_acked px \<le> length (px_written px) \<and> length (px_written px) \<le> length (px_rcvd px) \<and>
     length (px_rcvd px) < px_acked px + n \<and>
     px_written px = take (length (px_written px)) (px_rcvd px) \<and>
     (px_buf px = None \<longrightarrow> px_acked px = length (px_rcvd px) \<and> px_inbound_close px) \<and>
     (\<forall>buf. px_buf px = Some buf \<longrightarrow> holds n buf (px_rcvd px) (px_acked px)) \<and>
     (px_inbound_close_done px \<longrightarrow> px_inbound_close px \<and> length (px_written px) = length (px_rcvd px)) \<and>
     (px_deferred_delete px \<longrightarrow> px_slot px < 0 \<and> px_outbound_close_done px)"

lemma mod_neq_within:
  fixes x y n :: nat
  assumes "x \<le> y" "y < x + n"
  shows "x mod n = y mod n \<longleftrightarrow> x = y"
proof
  assume "x mod n = y mod n"
  then have "n dvd y - x" using assms(1) by (metis mod_eq_dvd_iff_nat)
  then show "x = y" using assms by (auto dest: dvd_imp_le)
qed simp

text \<open>Two indices of the ring agree exactly when the counts do, but for the end that \<open>unacked\<close> may stand at.\<close>

lemma px_empty_iff:
  assumes "px_stream n px"
  shows "px_unsent px = px_vacant px \<longleftrightarrow> length (px_written px) = length (px_rcvd px)"
proof -
  have "length (px_rcvd px) < length (px_written px) + n" using assms by (simp add: px_stream_def)
  then show ?thesis using assms mod_neq_within by (simp add: px_stream_def)
qed

lemma px_unacked_unsent:
  assumes "px_stream n px" "px_unacked px = px_unsent px"
  shows "px_acked px = length (px_written px)"
proof -
  have "px_unacked px = ack_index n (px_acked px)" "px_unsent px = length (px_written px) mod n"
    using assms(1) by (simp_all add: px_stream_def)
  then have "ack_index n (px_acked px) = length (px_written px) mod n" using assms(2) by metis
  then have "px_acked px mod n = length (px_written px) mod n" by (metis ack_index_mod mod_mod_trivial)
  moreover have "length (px_written px) < px_acked px + n" using assms(1) by (simp add: px_stream_def)
  ultimately show ?thesis using mod_neq_within assms(1) by (simp add: px_stream_def)
qed

section \<open>Reading\<close>

text \<open>The chunks are the space from \<open>vacant\<close> on that leaves one slot free before \<open>unacked\<close>.\<close>

definition chunks :: "nat \<Rightarrow> nat \<Rightarrow> nat \<Rightarrow> (nat \<times> nat) list \<Rightarrow> bool" where
  "chunks n v m iov \<longleftrightarrow> v + m \<le> n \<and> iov = [(v, m)] \<or> (\<exists>l < v. m = n - v + l \<and> iov = [(v, n - v), (0, l)])"

lemma px_space_chunks:
  assumes n: "2 \<le> n" "px_bufsize px = n" and v: "px_vacant px = r mod n" and a: "px_unacked px = ack_index n a"
    and range: "a \<le> r" "r < a + n"
  shows "px_space px = [] \<longleftrightarrow> r - a = n - 1"
    "px_space px \<noteq> [] \<Longrightarrow> chunks n (r mod n) (n - 1 - (r - a)) (px_space px)"
proof -
  define x where "x = ack_index n a mod n"
  have x: "x < n" "r mod n = (if x + (r - a) < n then x + (r - a) else x + (r - a) - n)"
  proof -
    show "x < n" using n by (simp add: x_def)
    have "r mod n = (a mod n + (r - a)) mod n" using range(1) by (metis mod_add_left_eq le_add_diff_inverse)
    also have "\<dots> = (x + (r - a)) mod n" by (simp add: x_def ack_index_mod)
    finally show "r mod n = (if x + (r - a) < n then x + (r - a) else x + (r - a) - n)"
      using \<open>x < n\<close> range by (simp add: le_mod_geq)
  qed
  define d where "d = r - a"
  have d: "d < n" using range by (simp add: d_def)
  have end_or_x: "ack_index n a = x \<or> ack_index n a = n \<and> x = 0"
    using ack_index_le [of n a] n by (auto simp: x_def le_less)
  consider "ack_index n a = 0 \<or> ack_index n a = n" "x = 0" | "ack_index n a = 1" "x = 1" | "ack_index n a = x" "2 \<le> x"
    using end_or_x by force
  then have "(px_space px = [] \<longleftrightarrow> d = n - 1) \<and> (px_space px \<noteq> [] \<longrightarrow> chunks n (r mod n) (n - 1 - d) (px_space px))"
  proof cases
    case 1
    have v': "r mod n = d" using x(2) d 1 by (simp add: d_def)
    have "px_space px = (if d = n - 1 then [] else if d < n - 1 then [(d, n - 1 - d)] else [(d, n - d), (0, n - 1)])"
      using 1(1) n(1) unfolding px_space_def n(2) v a v' by (auto simp: Let_def)
    moreover have "d = n - 1 \<or> d < n - 1" using d by linarith
    ultimately show ?thesis using d by (auto simp: chunks_def v')
  next
    case 2
    then have "px_space px = (if d = n - 1 then [] else [(1 + d, n - 1 - d)])" "r mod n = (if d = n - 1 then 0 else 1 + d)"
      using x(2) d n(1) by (auto simp: px_space_def n(2) v a Let_def d_def [symmetric])
    then show ?thesis using d by (simp add: chunks_def)
  next
    case 3
    show ?thesis
    proof (cases "x + d < n")
      case True
      then have v': "r mod n = x + d" using x(2) by (simp add: d_def)
      moreover have "x + d \<noteq> x - 1" "\<not> x + d < x - 1" "x \<noteq> 0" "x \<noteq> 1" using 3(2) by linarith+
      ultimately have "px_space px = [(x + d, n - (x + d)), (0, x - 1)]"
        using 3 True by (simp add: px_space_def n(2) v a Let_def)
      moreover have "n - 1 - d = n - (x + d) + (x - 1)" "x - 1 < x + d" "d \<noteq> n - 1" using True 3(2) by simp_all
      ultimately show ?thesis by (auto simp: chunks_def v')
    next
      case False
      then have v': "r mod n = x + d - n" using x(2) by (simp add: d_def)
      then have "px_space px = (if d = n - 1 then [] else [(x + d - n, n - 1 - d)])"
        using 3 False d x(1) by (auto simp: px_space_def n(2) v a Let_def)
      then show ?thesis using False d x(1) by (auto simp: chunks_def v')
    qed
  qed
  then show "px_space px = [] \<longleftrightarrow> r - a = n - 1"
    "px_space px \<noteq> [] \<Longrightarrow> chunks n (r mod n) (n - 1 - (r - a)) (px_space px)"
    by (simp_all add: d_def)
qed

lemma iov_fill_chunks:
  assumes iov: "chunks n v m iov" and v: "v < n" and bs: "length bs \<le> m" and buf: "length buf = n"
  shows "length (iov_fill iov bs buf) = n"
    "j < length bs \<Longrightarrow> iov_fill iov bs buf ! ((v + j) mod n) = bs ! j"
    "i < n \<Longrightarrow> (\<And>j. j < length bs \<Longrightarrow> (v + j) mod n \<noteq> i) \<Longrightarrow> iov_fill iov bs buf ! i = buf ! i"
proof -
  have "length (iov_fill iov bs buf) = n \<and>
    (\<forall>j < length bs. iov_fill iov bs buf ! ((v + j) mod n) = bs ! j) \<and>
    (\<forall>i < n. (\<forall>j < length bs. (v + j) mod n \<noteq> i) \<longrightarrow> iov_fill iov bs buf ! i = buf ! i)"
  proof (cases "v + length bs \<le> n")
    case True
    have fill: "iov_fill iov bs buf = take v buf @ bs @ drop (v + length bs) buf"
      using iov bs True buf by (auto simp: chunks_def)
    have "buf ! i = (take v buf @ bs @ drop (v + length bs) buf) ! i"
      if "i < n" "\<forall>j < length bs. (v + j) mod n \<noteq> i" for i
    proof -
      have "i < v \<or> v + length bs \<le> i"
      proof (rule ccontr)
        assume "\<not> ?thesis"
        then have "i - v < length bs" "(v + (i - v)) mod n = i" using that(1) by auto
        then show False using that(2) by blast
      qed
      then show ?thesis using that(1) buf v True by (auto simp: nth_append)
    qed
    then show ?thesis using True v buf by (auto simp: fill nth_append)
  next
    case False
    then obtain l where l: "l < v" "m = n - v + l" "iov = [(v, n - v), (0, l)]" using iov bs by (auto simp: chunks_def)
    define t where "t = length bs - (n - v)"
    have t: "t \<le> l" "length bs = n - v + t" using False bs l v by (auto simp: t_def)
    have fill: "iov_fill iov bs buf = drop (n - v) bs @ drop t (take v buf) @ take (n - v) bs"
      using l t v buf False by (simp add: drop_take)
    have pos: "(v + j) mod n = (if j < n - v then v + j else v + j - n)" if "j < length bs" for j
      using that t l v by (simp add: le_mod_geq)
    have at: "iov_fill iov bs buf ! (v + j) = bs ! j" if "j < n - v" for j
    proof -
      have "\<not> v + j < t" "\<not> v + j - t < v - t" "v + j - t - (v - t) = j" "j < length bs" using that t l by linarith+
      then show ?thesis using that t l v buf by (simp add: fill nth_append)
    qed
    have wrap: "iov_fill iov bs buf ! j = bs ! (n - v + j)" if "j < t" for j
      using that t by (simp add: fill nth_append)
    have other: "iov_fill iov bs buf ! i = buf ! i" if "t \<le> i" "i < v" for i
    proof -
      have "i - t < v - t" using that by linarith
      then show ?thesis using that t l v buf by (simp add: fill nth_append)
    qed
    have "iov_fill iov bs buf ! ((v + j) mod n) = bs ! j" if "j < length bs" for j
    proof (cases "j < n - v")
      case True
      then show ?thesis using at pos that by simp
    next
      case False
      then have "j - (n - v) < t" "n - v + (j - (n - v)) = j" "v + j - n = j - (n - v)" using that t v by auto
      then show ?thesis using wrap [of "j - (n - v)"] pos [OF that] False by simp
    qed
    moreover have "iov_fill iov bs buf ! i = buf ! i"
      if i: "i < n" "\<forall>j < length bs. (v + j) mod n \<noteq> i" for i
    proof (rule other)
      show "i < v"
      proof (rule ccontr)
        assume "\<not> i < v"
        then have "i - v < length bs" "(v + (i - v)) mod n = i" using i(1) t by auto
        then show False using i(2) by blast
      qed
      show "t \<le> i"
      proof (rule ccontr)
        assume "\<not> t \<le> i"
        then have "n - v + i < length bs" "(v + (n - v + i)) mod n = i" using i(1) t v by auto
        then show False using i(2) by blast
      qed
    qed
    moreover have "length (iov_fill iov bs buf) = n" using t l v buf by (simp add: fill)
    ultimately show ?thesis by blast
  qed
  then show "length (iov_fill iov bs buf) = n"
    "j < length bs \<Longrightarrow> iov_fill iov bs buf ! ((v + j) mod n) = bs ! j"
    "i < n \<Longrightarrow> (\<And>j. j < length bs \<Longrightarrow> (v + j) mod n \<noteq> i) \<Longrightarrow> iov_fill iov bs buf ! i = buf ! i"
    by blast+
qed

text \<open>A read keeps what the ring holds: the free slots hold none of the stream.\<close>

lemma holds_fill:
  assumes "holds n buf bs a" "chunks n (length bs mod n) m iov" "length new \<le> m"
    and "a \<le> length bs" "length bs + length new < a + n"
  shows "holds n (iov_fill iov new buf) (bs @ new) a"
proof -
  define r where "r = length bs"
  have n: "0 < n" using assms(4,5) by linarith
  then have v: "r mod n < n" by simp
  have buf: "length buf = n" "\<And>k. k \<in> {a..<r} \<Longrightarrow> buf ! (k mod n) = bs ! k"
    using assms(1) by (simp_all add: holds_def r_def)
  note fill = iov_fill_chunks [OF assms(2) [folded r_def] v assms(3) buf(1)]
  have "iov_fill iov new buf ! (k mod n) = (bs @ new) ! k" if k: "a \<le> k" "k < r + length new" for k
  proof (cases "k < r")
    case True
    have "(r mod n + j) mod n \<noteq> k mod n" if "j < length new" for j
    proof -
      have "k mod n \<noteq> (r + j) mod n" using mod_neq_within [of k "r + j" n] True k assms(5) that by (simp add: r_def)
      then show ?thesis by (simp add: mod_add_left_eq)
    qed
    then have "iov_fill iov new buf ! (k mod n) = buf ! (k mod n)" using n by (intro fill(3)) simp_all
    then show ?thesis using buf(2) [of k] True k by (simp add: nth_append r_def)
  next
    case False
    then obtain j where j: "k = r + j" "j < length new" using k by (metis le_add_diff_inverse not_less nat_add_left_cancel_less)
    then show ?thesis using fill(2) [OF j(2)] by (simp add: nth_append r_def mod_add_left_eq)
  qed
  then show ?thesis using fill(1) by (simp add: holds_def r_def)
qed

lemma log_do [simp]: "px_log (px_do e px) = px_log px @ [e]"
  by (simp add: px_do_def)

lemma fields_do [simp]:
  "px_buf (px_do e px) = px_buf px" "px_bufsize (px_do e px) = px_bufsize px"
  "px_vacant (px_do e px) = px_vacant px" "px_unacked (px_do e px) = px_unacked px" "px_unsent (px_do e px) = px_unsent px"
  "px_outbound_close (px_do e px) = px_outbound_close px" "px_outbound_close_done (px_do e px) = px_outbound_close_done px"
  "px_inbound_close (px_do e px) = px_inbound_close px" "px_inbound_close_done (px_do e px) = px_inbound_close_done px"
  "px_inbound_pull (px_do e px) = px_inbound_pull px" "px_deferred_delete (px_do e px) = px_deferred_delete px"
  "px_pcb (px_do e px) = px_pcb px" "px_sock (px_do e px) = px_sock px" "px_slot (px_do e px) = px_slot px"
  "px_events (px_do e px) = px_events px" "px_chain (px_do e px) = px_chain px"
  by (simp_all add: px_do_def)

text \<open>What does not touch the stream.\<close>

lemma stream_do [simp]:
  "written [e] = [] \<Longrightarrow> received [e] = [] \<Longrightarrow> acked [e] = 0 \<Longrightarrow> px_stream n (px_do e px) = px_stream n px"
  by (simp add: px_stream_def)

lemma stream_fields [simp]:
  "px_stream n (px\<lparr>px_pcb := b\<rparr>) = px_stream n px" "px_stream n (px\<lparr>px_sock := b\<rparr>) = px_stream n px"
  "px_stream n (px\<lparr>px_events := ev\<rparr>) = px_stream n px" "px_stream n (px\<lparr>px_chain := c\<rparr>) = px_stream n px"
  "px_stream n (px\<lparr>px_inbound_pull := b\<rparr>) = px_stream n px"
  "px_stream n (px\<lparr>px_outbound_close := b\<rparr>) = px_stream n px"
  by (simp_all add: px_stream_def)

lemma stream_dissociate [simp]:
  "px_stream n (pxtcp_pcb_dissociate px) = px_stream n px" "px_log (pxtcp_pcb_dissociate px) =
    px_log px @ (if px_pcb px then [Tcp_dissociate] else [])"
  by (simp_all add: pxtcp_pcb_dissociate_def)

text \<open>What the operations of the inbound direction leave alone.\<close>

definition px_kept :: "pxtcp \<Rightarrow> pxtcp \<Rightarrow> bool" where
  "px_kept px px' \<longleftrightarrow>
     px_slot px' = px_slot px \<and> px_outbound_close px' = px_outbound_close px \<and>
     px_outbound_close_done px' = px_outbound_close_done px \<and> px_inbound_pull px' = px_inbound_pull px \<and>
     px_deferred_delete px' = px_deferred_delete px \<and> px_chain px' = px_chain px \<and>
     (px_pcb px' \<longrightarrow> px_pcb px) \<and> (px_inbound_close px \<longrightarrow> px_inbound_close px') \<and>
     (Free_pxtcp \<in> set (px_log px') \<longleftrightarrow> Free_pxtcp \<in> set (px_log px)) \<and>
     (Post_delete \<in> set (px_log px') \<longleftrightarrow> Post_delete \<in> set (px_log px)) \<and>
     (Post_inpull \<in> set (px_log px') \<longleftrightarrow> Post_inpull \<in> set (px_log px))"

definition px_same :: "pxtcp \<Rightarrow> pxtcp \<Rightarrow> bool" where
  "px_same px px' \<longleftrightarrow>
     px_kept px px' \<and> px_inbound_close px' = px_inbound_close px \<and> px_buf px' = px_buf px \<and>
     px_rcvd px' = px_rcvd px \<and> px_acked px' = px_acked px"

lemma px_kept_refl [simp]: "px_kept px px"
  by (simp add: px_kept_def)

lemma px_same_refl [simp]: "px_same px px"
  by (simp add: px_same_def)

lemma px_kept_trans: "px_kept px px1 \<Longrightarrow> px_kept px1 px' \<Longrightarrow> px_kept px px'"
  by (simp add: px_kept_def)

lemma px_same_trans: "px_same px px1 \<Longrightarrow> px_same px1 px' \<Longrightarrow> px_same px px'"
  using px_kept_trans by (auto simp: px_same_def)

definition recv_ok :: "(nat \<times> nat) list \<Rightarrow> recv \<Rightarrow> bool" where
  \<comment> \<open>\<open>recvmsg\<close>: at least one byte, and no more than the chunks take\<close>
  "recv_ok iov r =
     (case r of
        Recv_data bs \<Rightarrow> bs \<noteq> [] \<and> length bs \<le> sum_list (map snd iov)
      | Recv_eof \<Rightarrow> True
      | Recv_error e \<Rightarrow> e > 0)"

lemma chunks_sum: "chunks n v m iov \<Longrightarrow> sum_list (map snd iov) = m"
  by (auto simp: chunks_def)

lemma received_ok:
  assumes px: "px_stream n px" "\<not> px_inbound_close px"
    and iov: "chunks n (px_vacant px) m iov" "m + (length (px_rcvd px) - px_acked px) < n" and r: "recv_ok iov r"
  obtains x px' where "px_received transient iov r px = Some (x, px')" "px_stream n px'" "px_kept px px'" "px_pcb px' = px_pcb px"
    "px_acked px' = px_acked px"
proof -
  obtain buf where buf: "px_buf px = Some buf" using px by (cases "px_buf px") (auto simp: px_stream_def)
  show thesis
  proof (cases r)
    case (Recv_data bs)
    define R where "R = length (px_rcvd px)"
    have n: "2 \<le> n" "px_bufsize px = n" "px_vacant px = R mod n" "px_acked px \<le> R"
      and holds: "holds n buf (px_rcvd px) (px_acked px)"
      using px(1) buf by (auto simp: px_stream_def R_def)
    have bs: "length bs \<le> m" "R + length bs < px_acked px + n"
      using r Recv_data chunks_sum [OF iov(1)] iov(2) n(4) by (auto simp: recv_ok_def R_def)
    define px' where "px' = (px_do (Sock_recv bs) px)\<lparr>px_buf := Some (iov_fill iov bs buf),
      px_vacant := (if R mod n + length bs \<ge> n then R mod n + length bs - n else R mod n + length bs)\<rparr>"
    have lt: "length bs < n" using bs(2) n(4) by linarith
    have "R mod n < n" using n(1) by simp
    then have "R mod n + length bs - n < n" using lt by linarith
    moreover have "(R + length bs) mod n = (R mod n + length bs) mod n" by (simp add: mod_add_left_eq)
    ultimately have "(if R mod n + length bs \<ge> n then R mod n + length bs - n else R mod n + length bs) = (R + length bs) mod n"
      using lt by (simp add: le_mod_geq)
    moreover have "holds n (iov_fill iov bs buf) (px_rcvd px @ bs) (px_acked px)"
      by (rule holds_fill [OF holds _ bs(1)]) (use iov(1) n bs(2) in \<open>simp_all add: R_def\<close>)
    ultimately have "px_stream n px'" using px buf bs(2) unfolding px_stream_def px'_def by (auto simp: R_def)
    moreover have "px_received transient iov r px = Some ((int (length bs), False), px')"
      using buf Recv_data n by (simp add: px_received_def px'_def Let_def)
    ultimately show thesis using that by (simp add: px'_def px_kept_def)
  next
    case Recv_eof
    have "px_stream n (px\<lparr>px_inbound_close := True\<rparr>)" using px buf by (simp add: px_stream_def)
    then show thesis using that buf Recv_eof by (simp add: px_received_def px_kept_def)
  next
    case (Recv_error e)
    then show thesis using that buf px(1) by (simp add: px_received_def)
  qed
qed

lemma sock_read_ok:
  assumes "px_stream n px" "\<not> px_inbound_close px" "px_space px = [] \<or> recv_ok (px_space px) r"
  obtains x px' where "pxtcp_sock_read transient r px = Some (x, px')" "px_stream n px'" "px_kept px px'" "px_pcb px' = px_pcb px"
    "px_acked px' = px_acked px"
proof (cases "px_space px = []")
  case True
  then show thesis using that assms(1) by (simp add: pxtcp_sock_read_def)
next
  case False
  note ps = px_space_chunks [of n px "length (px_rcvd px)" "px_acked px"]
  have "chunks n (px_vacant px) (n - 1 - (length (px_rcvd px) - px_acked px)) (px_space px)"
    using ps(2) False assms(1) by (simp add: px_stream_def)
  moreover have "n - 1 - (length (px_rcvd px) - px_acked px) + (length (px_rcvd px) - px_acked px) < n"
    using assms(1) unfolding px_stream_def by linarith
  ultimately show thesis
    using received_ok [OF assms(1,2)] assms(3) False that by (simp add: pxtcp_sock_read_def) metis
qed

section \<open>Sending\<close>

lemma holds_slice:
  assumes "holds n buf bs a" "a \<le> k" "k + m \<le> length bs" "k mod n + m \<le> n" "0 < n"
  shows "take m (drop (k mod n) buf) = take m (drop k bs)"
proof (rule nth_equalityI)
  show "length (take m (drop (k mod n) buf)) = length (take m (drop k bs))"
    using assms by (simp add: holds_def)
  fix j assume "j < length (take m (drop (k mod n) buf))"
  then have j: "j < m" by simp
  have "(k + j) mod n = (k mod n + j) mod n" by (simp add: mod_add_left_eq)
  also have "\<dots> = k mod n + j" using j assms(4) by simp
  finally have "buf ! (k mod n + j) = bs ! (k + j)" using assms(1-3) j by (auto simp: holds_def dest: bspec [of _ _ "k + j"])
  then show "take m (drop (k mod n) buf) ! j = take m (drop k bs) ! j" using j assms by (simp add: holds_def)
qed

text \<open>One \<open>tcp_write\<close>: the next \<open>m\<close> bytes of the stream.\<close>

lemma write_ok:
  fixes px :: pxtcp and flag :: bool and n m :: nat
  defines "k \<equiv> length (px_written px)"
  assumes px: "px_stream n px" and m: "0 < m" "k + m \<le> length (px_rcvd px)" "k mod n + m \<le> n"
  defines "px' \<equiv> (px_do (Tcp_write (take m (drop k (px_rcvd px))) flag) px)\<lparr>px_unsent := (k + m) mod n\<rparr>"
  shows "tcp_write (px_unsent px) m flag px = Some (px'\<lparr>px_unsent := px_unsent px\<rparr>)"
    "px_stream n px'" "px_same px px'" "length (px_written px') = k + m"
proof -
  have n: "2 \<le> n" "n \<le> 0x10000" "px_unsent px = k mod n" "px_acked px \<le> k" "length (px_rcvd px) < px_acked px + n"
    and w: "px_written px = take k (px_rcvd px)"
    using px unfolding px_stream_def k_def by blast+
  have "m < 0x10000" using n(2,4,5) m(2) by linarith
  moreover obtain buf where buf: "px_buf px = Some buf" "holds n buf (px_rcvd px) (px_acked px)"
    using px n(4) m(1,2) by (cases "px_buf px") (auto simp: px_stream_def)
  ultimately show "tcp_write (px_unsent px) m flag px = Some (px'\<lparr>px_unsent := px_unsent px\<rparr>)"
    using holds_slice [OF buf(2) n(4) m(2,3)] n by (simp add: tcp_write_def px'_def)
  show "px_same px px'" by (simp add: px_same_def px_kept_def px'_def)
  have "take (k + m) (px_rcvd px) = take k (px_rcvd px) @ take m (drop k (px_rcvd px))" by (rule take_add)
  then have w': "px_written px' = take (k + m) (px_rcvd px)" using w by (simp add: px'_def)
  then show len: "length (px_written px') = k + m" using m(2) by simp
  have "\<not> px_inbound_close_done px" using px m(1,2) by (auto simp: px_stream_def k_def)
  moreover have "px_rcvd px' = px_rcvd px" "px_acked px' = px_acked px" "px_buf px' = px_buf px"
    "px_inbound_close_done px' = px_inbound_close_done px" "px_deferred_delete px' = px_deferred_delete px"
    "px_bufsize px' = px_bufsize px" "px_vacant px' = px_vacant px" "px_unacked px' = px_unacked px"
    "px_inbound_close px' = px_inbound_close px" "px_slot px' = px_slot px"
    "px_outbound_close_done px' = px_outbound_close_done px" "px_unsent px' = (k + m) mod n"
    by (simp_all add: px'_def)
  ultimately show "px_stream n px'"
    using px m(2) n(4) w' len unfolding px_stream_def by simp
qed

lemma forward_close_ok:
  assumes px: "px_stream n px" and close: "px_inbound_close px" "\<not> px_inbound_close_done px"
    and sent: "px_unsent px = px_vacant px" and pcb: "px_pcb px"
  obtains px' where "pxtcp_pcb_forward_inbound_close lw px = Some px'" "px_stream n px'" "px_same px px'"
    "px_acked px < length (px_written px) \<Longrightarrow> px_pcb px'" "px_written px' = px_written px"
proof (cases "lw_shutdown lw = ERR_OK")
  case False
  then show thesis
    using assms by (intro that [of "px_do (Tcp_poll True) (px_do Tcp_shutdown px)"])
      (simp_all add: pxtcp_pcb_forward_inbound_close_def pxtcp_pcb_schedule_poll_def px_same_def px_kept_def)
next
  case True
  let ?px = "(px_do (Tcp_poll False) (px_do Tcp_shutdown px))\<lparr>px_inbound_close_done := True\<rparr>"
  have "px_stream n (px_do (Tcp_poll False) (px_do Tcp_shutdown px))" using px by simp
  then have stream: "px_stream n ?px" using close px_empty_iff [OF px] sent by (simp add: px_stream_def)
  have run: "pxtcp_pcb_forward_inbound_close lw px =
      Some (if px_outbound_close_done px \<and> pxtcp_pcb_forward_inbound_done ?px then pxtcp_pcb_dissociate ?px else ?px)"
    by (simp add: pxtcp_pcb_forward_inbound_close_def pxtcp_pcb_cancel_poll_def Let_def close sent pcb True)
  show thesis
  proof (cases "px_outbound_close_done px \<and> pxtcp_pcb_forward_inbound_done ?px")
    case finished: True
    have "px_acked px = length (px_written px)"
      using px_unacked_unsent [OF px] finished by (simp add: pxtcp_pcb_forward_inbound_done_def)
    moreover have "px_same px (pxtcp_pcb_dissociate ?px)" by (simp add: px_same_def px_kept_def pxtcp_pcb_dissociate_def)
    moreover have "pxtcp_pcb_forward_inbound_close lw px = Some (pxtcp_pcb_dissociate ?px)" unfolding run using finished by simp
    ultimately show thesis by (intro that [of "pxtcp_pcb_dissociate ?px"]) (simp_all add: stream)
  next
    case False
    then have "pxtcp_pcb_forward_inbound_close lw px = Some ?px" unfolding run by (simp only: if_False)
    then show thesis by (rule that) (simp_all add: stream px_same_def px_kept_def pcb)
  qed
qed

lemma write_error_ok:
  assumes "px_stream n px" "e = ERR_MEM" "px_pcb px"
  obtains px' where "px_write_error e nsent px = Some px'" "px_stream n px'" "px_same px px'" "px_written px' = px_written px"
  using assms by (intro that [of "px_do (Tcp_poll True) (if nsent > 0 then px_do Tcp_output px else px)"])
    (simp_all add: px_write_error_def pxtcp_pcb_schedule_poll_def px_same_def px_kept_def)

text \<open>After a write there are bytes to be acknowledged, so the connection keeps its pcb.\<close>

lemma check_close_ok:
  assumes px: "px_stream n px" "px_pcb px" "\<not> px_inbound_close_done px" "px_acked px < length (px_written px)"
  obtains px' where "px_check_close lw px = Some px'" "px_stream n px'" "px_same px px'" "px_written px' = px_written px"
proof -
  obtain px1 where px1: "(if px_inbound_close px \<and> px_unsent px = px_vacant px
      then pxtcp_pcb_forward_inbound_close lw px else Some px) = Some px1" "px_stream n px1" "px_same px px1" "px_pcb px1"
    "px_written px1 = px_written px"
  proof (cases "px_inbound_close px \<and> px_unsent px = px_vacant px")
    case True
    then show thesis using forward_close_ok [OF px(1) _ px(3) _ px(2), of lw] px(4) that by auto
  next
    case False
    then show thesis using px by (intro that [of px]) auto
  qed
  then have "px_check_close lw px = Some (px_do (Tcp_poll False) (px_do Tcp_output px1))"
    by (simp only: px_check_close_def option.case pxtcp_pcb_cancel_poll_def fields_do if_True)
  then show thesis
    using px1 by (intro that [of "px_do (Tcp_poll False) (px_do Tcp_output px1)"]) (simp_all add: px_same_def px_kept_def)
qed

lemma write_rest_ok:
  fixes px :: pxtcp
  defines "k \<equiv> length (px_written px)"
  assumes px: "px_stream n px" "px_pcb px" and e: "e \<noteq> ERR_OTHER" and snd: "0 < sndbuf"
    and lim: "k mod n < lim" "lim < n" "k + (lim - k mod n) \<le> length (px_rcvd px)"
  obtains px' where "px_write_rest lw (k mod n) lim sndbuf nsent e px = Some px'" "px_stream n px'" "px_same px px'"
    "length (px_written px') = (if e = ERR_OK then k + min sndbuf (lim - k mod n) else k)"
proof -
  define b where "b = k mod n"
  define m where "m = min sndbuf (lim - b)"
  have m: "0 < m" "b + m < n" "k + m \<le> length (px_rcvd px)" "b + m = (if lim > b + sndbuf then b + sndbuf else lim)"
    using lim snd by (auto simp: m_def b_def)
  show thesis
  proof (cases "e = ERR_OK")
    case False
    then have "e = ERR_MEM" using e by (cases e) auto
    obtain px' where px': "px_write_error e nsent px = Some px'" "px_stream n px'" "px_same px px'" "px_written px' = px_written px"
      by (rule write_error_ok [OF px(1) \<open>e = ERR_MEM\<close> px(2), of nsent])
    have "px_write_rest lw b lim sndbuf nsent e px = Some px'"
      using px'(1) lim(1) m False by (auto simp: px_write_rest_def Let_def b_def)
    then show thesis using that px' False by (simp add: b_def k_def)
  next
    case True
    define px1 where "px1 = (px_do (Tcp_write (take m (drop k (px_rcvd px))) False) px)\<lparr>px_unsent := (k + m) mod n\<rparr>"
    have room: "k mod n + m \<le> n" using m(2) by (simp add: b_def)
    note wr = write_ok [of n px m False, folded k_def, OF px(1) m(1,3) room, folded px1_def]
    have unsent: "px_unsent px = b" using px(1) by (simp add: px_stream_def b_def k_def)
    have "(k + m) mod n = (b + m) mod n" by (simp add: b_def mod_add_left_eq)
    then have idx: "(k + m) mod n = b + m" using m(2) by simp
    have keep: "\<not> px_inbound_close_done px1" "px_acked px1 < length (px_written px1)" "px_pcb px1"
    proof -
      have "\<not> px_inbound_close_done px" using px(1) m(1,3) by (auto simp: px_stream_def k_def)
      then show "\<not> px_inbound_close_done px1" by (simp add: px1_def)
      have "px_acked px \<le> k" using px(1) by (simp add: px_stream_def k_def)
      then show "px_acked px1 < length (px_written px1)" using wr(4) m(1) by (simp add: px1_def)
      show "px_pcb px1" using px(2) by (simp add: px1_def)
    qed
    obtain px' where px': "px_check_close lw px1 = Some px'" "px_stream n px'" "px_same px1 px'" "px_written px' = px_written px1"
      by (rule check_close_ok [OF wr(2) keep(3,1,2)])
    have refold: "px1\<lparr>px_unsent := b, px_unsent := b + m\<rparr> = px1" using idx by (simp add: px1_def)
    have wr1: "tcp_write b m False px = Some (px1\<lparr>px_unsent := b\<rparr>)" using wr(1) by (simp only: unsent)
    have lim': "(if lim > b + sndbuf then b + sndbuf else lim) - b = m" using m(4) by linarith
    have "px_write_rest lw b lim sndbuf nsent e px = px_check_close lw px1"
      unfolding px_write_rest_def Let_def lim' unfolding m(4) [symmetric]
      using lim(1) [folded b_def] m(1) True refold by (simp add: wr1)
    then have run: "px_write_rest lw (k mod n) lim sndbuf nsent e px = Some px'" using px'(1) by (simp only: b_def)
    have len: "length (px_written px') = (if e = ERR_OK then k + min sndbuf (lim - k mod n) else k)"
      using px'(4) wr(4) True by (simp add: m_def b_def)
    show thesis by (rule that [OF run px'(2) px_same_trans [OF wr(3) px'(3)] len])
  qed
qed

definition lwip_ok :: "lwip \<Rightarrow> bool" where
  \<comment> \<open>\<open>tcp_write\<close> takes the data or is out of memory\<close>
  "lwip_ok lw \<longleftrightarrow> lw_write lw \<noteq> ERR_OTHER \<and> lw_write_again lw \<noteq> ERR_OTHER"

lemma forward_data_ok:
  assumes px: "px_stream n px" "px_pcb px" and e: "lw_write lw \<noteq> ERR_OTHER" "lw_write_again lw \<noteq> ERR_OTHER"
    and snd: "0 < lw_sndbuf lw" and data: "length (px_written px) < length (px_rcvd px)" and est: "lw_established lw"
  obtains px' where "pxtcp_pcb_forward_inbound lw px = Some px'" "px_stream n px'" "px_same px px'"
    "lw_write lw = ERR_OK \<Longrightarrow> lw_write_again lw = ERR_OK \<Longrightarrow>
      length (px_written px') = min (length (px_written px) + lw_sndbuf lw) (length (px_rcvd px))"
proof -
  define k r b v where "k = length (px_written px)" and "r = length (px_rcvd px)" and "b = k mod n" and "v = r mod n"
  have n: "2 \<le> n" "n \<le> 0x10000" "px_bufsize px = n" "px_unsent px = b" "px_vacant px = v"
    "px_acked px \<le> k" "r < px_acked px + n"
    using px(1) unfolding px_stream_def k_def r_def b_def v_def by blast+
  have d: "k < r" "r - k < n" using data n by (simp_all add: k_def r_def)
  have b: "b < n" "v < n" using n by (simp_all add: b_def v_def)
  have "v = (b + (r - k)) mod n" using d(1) unfolding v_def b_def by (metis mod_add_left_eq le_add_diff_inverse less_imp_le)
  then have v: "v = (if b + (r - k) < n then b + (r - k) else b + (r - k) - n)" using b d by (simp add: le_mod_geq)
  have ne: "b \<noteq> v" using v d by (auto split: if_splits)
  note rest = write_rest_ok [OF px e(1) snd, folded k_def r_def]
  note start = pxtcp_pcb_forward_inbound_def [of lw px] Let_def n(3-5) px(2) est
  consider (plain) "b < v" | (short) "v < b" "lw_sndbuf lw < n - b" | (wrap) "v < b" "n - b \<le> lw_sndbuf lw"
    using ne by linarith
  then show thesis
  proof cases
    case plain
    then have lim: "k mod n < v" "k + (v - k mod n) = r" "k + (v - k mod n) \<le> r"
      using v d by (simp_all add: b_def [symmetric] split: if_splits)
    obtain px' where px': "px_write_rest lw (k mod n) v (lw_sndbuf lw) 0 (lw_write lw) px = Some px'" "px_stream n px'"
      "px_same px px'" "length (px_written px') = (if lw_write lw = ERR_OK then k + min (lw_sndbuf lw) (v - k mod n) else k)"
      by (rule rest [OF lim(1) b(2) lim(3)])
    have "pxtcp_pcb_forward_inbound lw px = Some px'" using px'(1) plain snd by (simp add: start b_def [symmetric])
    moreover have "length (px_written px') = min (k + lw_sndbuf lw) r" if "lw_write lw = ERR_OK"
      using px'(4) that lim(2) by simp
    ultimately show thesis using that [of px'] px'(2,3) by (simp add: k_def r_def)
  next
    case short
    then have lim: "k mod n < b + lw_sndbuf lw" "b + lw_sndbuf lw < n" "k + (b + lw_sndbuf lw - k mod n) \<le> r"
      "b + lw_sndbuf lw - k mod n = lw_sndbuf lw"
      using v d snd by (simp_all add: b_def [symmetric] split: if_splits)
    obtain px' where px': "px_write_rest lw (k mod n) (b + lw_sndbuf lw) (lw_sndbuf lw) 0 (lw_write lw) px = Some px'"
      "px_stream n px'" "px_same px px'" "length (px_written px') =
        (if lw_write lw = ERR_OK then k + min (lw_sndbuf lw) (b + lw_sndbuf lw - k mod n) else k)"
      by (rule rest [OF lim(1-3)])
    have "pxtcp_pcb_forward_inbound lw px = Some px'" using px'(1) short snd by (simp add: start b_def [symmetric])
    moreover have "length (px_written px') = min (k + lw_sndbuf lw) r" if "lw_write lw = ERR_OK"
      using px'(4) that lim(3,4) by simp
    ultimately show thesis using that [of px'] px'(2,3) by (simp add: k_def r_def)
  next
    case wrap
    define m where "m = n - b"
    define flag where "flag = (\<not> (m = lw_sndbuf lw \<or> v = 0))"
    have m: "0 < m" "k + m \<le> r" "k mod n + m = n" "k mod n + m \<le> n" "m mod 0x10000 = m" "r = k + m + v"
      using wrap(1) v d b n(2) by (simp_all add: m_def b_def [symmetric] split: if_splits)
    have zero: "(k + m) mod n = 0" using m(3) by (metis mod_add_left_eq mod_self)
    have guard: "\<not> b < v" "\<not> lw_sndbuf lw < n - b" "b \<noteq> v" using wrap by simp_all
    show thesis
    proof (cases "lw_write lw = ERR_OK")
      case False
      then have mem: "lw_write lw = ERR_MEM" using e(1) by (cases "lw_write lw") auto
      obtain px' where px': "px_write_error (lw_write lw) 0 px = Some px'" "px_stream n px'" "px_same px px'"
        by (rule write_error_ok [OF px(1) mem px(2)])
      have "pxtcp_pcb_forward_inbound lw px = Some px'"
        using px'(1) False snd guard wrap(1) m(5) by (simp add: start m_def [symmetric])
      then show thesis using that px' False by blast
    next
      case ok: True
      define px1 where "px1 = (px_do (Tcp_write (take m (drop k (px_rcvd px))) flag) px)\<lparr>px_unsent := (k + m) mod n\<rparr>"
      note wr = write_ok [of n px m flag, folded k_def r_def, OF px(1) m(1,2,4), folded px1_def]
      have refold: "px1\<lparr>px_unsent := b, px_unsent := 0\<rparr> = px1" using zero by (simp add: px1_def)
      have keep: "\<not> px_inbound_close_done px1" "px_acked px1 < length (px_written px1)" "px_pcb px1"
        using wr(4) px m(1) n(6) d(1) by (auto simp: px1_def px_stream_def k_def r_def)
      have len1: "length (px_written px1) = k + m" "length (px_rcvd px1) = r" using wr(4) by (simp_all add: px1_def r_def)
      have wr1: "tcp_write b m flag px = Some (px1\<lparr>px_unsent := b\<rparr>)" using wr(1) n(4) by simp
      have run: "pxtcp_pcb_forward_inbound lw px =
          (if flag then px_write_rest lw 0 v (lw_sndbuf lw - m) m (lw_write_again lw) px1 else px_check_close lw px1)"
        using ok snd guard wrap(1) m(5) wr1 refold by (simp add: start m_def [symmetric] flag_def)
      show thesis
      proof (cases flag)
        case True
        then have more: "0 < v" "0 < lw_sndbuf lw - m" using wrap(2) by (auto simp: flag_def m_def)
        have lim: "(k + m) mod n < v" "k + m + (v - (k + m) mod n) \<le> r" using more m(6) zero by simp_all
        note rest = write_rest_ok [OF wr(2) keep(3) e(2) more(2), unfolded len1 zero, of v lw m]
        obtain px' where px': "px_write_rest lw 0 v (lw_sndbuf lw - m) m (lw_write_again lw) px1 = Some px'"
          "px_stream n px'" "px_same px1 px'" "length (px_written px') =
            (if lw_write_again lw = ERR_OK then k + m + min (lw_sndbuf lw - m) (v - 0) else k + m)"
          by (rule rest) (use more b(2) m(6) in simp_all)
        have "length (px_written px') = min (k + lw_sndbuf lw) r" if "lw_write_again lw = ERR_OK"
          using px'(4) that m(6) more wrap(2) by (simp add: m_def min_def) linarith
        then show thesis
          using that [of px'] run True px'(1,2) px_same_trans [OF wr(3) px'(3)] by (simp add: k_def r_def)
      next
        case False
        obtain px' where px': "px_check_close lw px1 = Some px'" "px_stream n px'" "px_same px1 px'" "px_written px' = px_written px1"
          by (rule check_close_ok [OF wr(2) keep(3,1,2)])
        have "length (px_written px') = min (k + lw_sndbuf lw) r"
          using px'(4) len1 False m(6) wrap(2) by (auto simp: flag_def m_def)
        then show thesis
          using that [of px'] run False px'(1,2) px_same_trans [OF wr(3) px'(3)] by (simp add: k_def r_def)
      qed
    qed
  qed
qed

lemma forward_ok:
  assumes px: "px_stream n px" and lw: "lwip_ok lw"
  obtains px' where "pxtcp_pcb_forward_inbound lw px = Some px'" "px_stream n px'" "px_same px px'"
    "px_pcb px \<Longrightarrow> lw_established lw \<Longrightarrow> lw_write lw = ERR_OK \<Longrightarrow> lw_write_again lw = ERR_OK \<Longrightarrow>
      length (px_written px') = min (length (px_written px) + lw_sndbuf lw) (length (px_rcvd px))"
proof -
  define k where "k = length (px_written px)"
  define r where "r = length (px_rcvd px)"
  have n: "2 \<le> n" "n \<le> 0x10000" "px_bufsize px = n" "px_unsent px = k mod n" "px_vacant px = r mod n"
    "px_acked px \<le> k" "k \<le> r" "r < px_acked px + n"
    using px unfolding px_stream_def k_def r_def by blast+
  have e: "lw_write lw \<noteq> ERR_OTHER" "lw_write_again lw \<noteq> ERR_OTHER" using lw by (simp_all add: lwip_ok_def)
  show thesis
  proof (cases "px_pcb px \<and> lw_established lw")
    case False
    then show thesis using px by (intro that [of px]) (auto simp: pxtcp_pcb_forward_inbound_def)
  next
    case pcb: True
    show thesis
    proof (cases "k mod n = r mod n")
      case True
      then have same: "k = r" using px_empty_iff [OF px] n by (simp add: k_def r_def)
      show thesis
      proof (cases "px_inbound_close px \<and> \<not> px_inbound_close_done px")
        case False
        then show thesis using px pcb same n
          by (intro that [of px]) (auto simp: pxtcp_pcb_forward_inbound_def Let_def k_def r_def)
      next
        case closing: True
        have "px_unsent px = px_vacant px" using n True by simp
        then obtain px1 where px1: "pxtcp_pcb_forward_inbound_close lw px = Some px1" "px_stream n px1" "px_same px px1"
          "px_written px1 = px_written px"
          using forward_close_ok [OF px _ _ _ conjunct1 [OF pcb], of lw] closing by metis
        have "pxtcp_pcb_forward_inbound lw px = Some (px_do Tcp_output px1)"
          using pcb closing n True px1(1) by (simp add: pxtcp_pcb_forward_inbound_def Let_def)
        then show thesis
          using px1 same by (intro that [of "px_do Tcp_output px1"]) (simp_all add: px_same_def px_kept_def k_def r_def)
      qed
    next
      case data: False
      then have "k < r" using n(7) by (cases "k = r") auto
      show thesis
      proof (cases "lw_sndbuf lw = 0")
        case True
        then show thesis using px pcb data n \<open>k < r\<close>
          by (intro that [of px]) (auto simp: pxtcp_pcb_forward_inbound_def Let_def k_def r_def)
      next
        case room: False
        then have "0 < lw_sndbuf lw" by simp
        from forward_data_ok [OF px conjunct1 [OF pcb] e this] \<open>k < r\<close> pcb
        show thesis using that by (simp add: k_def r_def) metis
      qed
    qed
  qed
qed

end
