(* ===== verification/PxtcpSteps.thy ===== *)
theory PxtcpSteps
  imports PxtcpStream
begin

text \<open>
  The life of a proxied connection as guarded steps of its two threads, and what holds in every
  state of it: no assertion fails, and the guest has been given a prefix of what the host has sent.
\<close>

section \<open>Operations of the lwIP thread\<close>

definition px_prefix :: "pxtcp \<Rightarrow> bool" where
  "px_prefix px \<longleftrightarrow> px_written px = take (length (px_written px)) (px_rcvd px)"

text \<open>An operation leaves the ring intact or has freed the connection.\<close>

definition px_after :: "nat \<Rightarrow> pxtcp \<Rightarrow> pxtcp \<Rightarrow> bool" where
  "px_after n px px' \<longleftrightarrow> px_prefix px' \<and> (Free_pxtcp \<in> set (px_log px') \<or> px_stream n px' \<and> px_kept px px')"

text \<open>What a read in progress relies on.\<close>

definition px_quiet :: "pxtcp \<Rightarrow> pxtcp \<Rightarrow> bool" where
  "px_quiet px px' \<longleftrightarrow>
     px_rcvd px' = px_rcvd px \<and> px_acked px \<le> px_acked px' \<and> px_inbound_close px' = px_inbound_close px"

lemma px_quiet_refl [simp]: "px_quiet px px"
  by (simp add: px_quiet_def)

lemma px_quiet_trans: "px_quiet px px1 \<Longrightarrow> px_quiet px1 px' \<Longrightarrow> px_quiet px px'"
  by (simp add: px_quiet_def)

lemma px_same_quiet: "px_same px px' \<Longrightarrow> px_quiet px px'"
  by (simp add: px_same_def px_quiet_def)

lemma stream_prefix: "px_stream n px \<Longrightarrow> px_prefix px"
  by (simp add: px_stream_def px_prefix_def)

lemma px_afterI: "px_stream n px' \<Longrightarrow> px_kept px px' \<Longrightarrow> px_after n px px'"
  by (simp add: px_after_def stream_prefix)

lemma px_freed_after: "px_prefix px' \<Longrightarrow> Free_pxtcp \<in> set (px_log px') \<Longrightarrow> px_after n px px'"
  by (simp add: px_after_def)

lemma prefix_do [simp]: "written [e] = [] \<Longrightarrow> received [e] = [] \<Longrightarrow> px_prefix (px_do e px) = px_prefix px"
  by (simp add: px_prefix_def)

lemma prefix_fields [simp]:
  "px_prefix (px\<lparr>px_pcb := b\<rparr>) = px_prefix px" "px_prefix (px\<lparr>px_sock := b\<rparr>) = px_prefix px"
  "px_prefix (px\<lparr>px_buf := c\<rparr>) = px_prefix px" "px_prefix (px\<lparr>px_chain := d\<rparr>) = px_prefix px"
  by (simp_all add: px_prefix_def)

lemma free_prefix [simp]: "px_prefix (pxtcp_free px) = px_prefix px" "Free_pxtcp \<in> set (px_log (pxtcp_free px))"
  by (simp_all add: pxtcp_free_def)

lemma dissociate_prefix [simp]: "px_prefix (pxtcp_pcb_dissociate px) = px_prefix px"
  by (simp add: pxtcp_pcb_dissociate_def)

lemma reset_prefix [simp]:
  "px_prefix (pxtcp_pcb_reset_pxtcp px) = px_prefix px" "Free_pxtcp \<in> set (px_log (pxtcp_pcb_reset_pxtcp px))"
  by (simp_all add: pxtcp_pcb_reset_pxtcp_def Let_def)

lemma delete_ok:
  assumes px: "px_stream n px" and flags: "px_slot px < 0" "px_outbound_close_done px" "px_inbound_close px"
    and once: "px_deferred_delete px \<Longrightarrow> pxtcp_pcb_forward_inbound_done px"
  obtains px' where "pxtcp_pcb_delete_pxtcp px = Some px'" "px_prefix px'"
    "Free_pxtcp \<in> set (px_log px') \<longleftrightarrow> \<not> px_pcb px \<or> pxtcp_pcb_forward_inbound_done px \<or> Free_pxtcp \<in> set (px_log px)"
    "Free_pxtcp \<notin> set (px_log px') \<Longrightarrow> px_stream n px' \<and> px_deferred_delete px' \<and> px_kept (px\<lparr>px_deferred_delete := True\<rparr>) px'"
proof -
  define px1 where "px1 = (if px_sock px then (px_do Sock_close px)\<lparr>px_sock := False\<rparr> else px)"
  have stream1: "px_stream n px1" and pre1: "px_prefix px1" and pcb1: "px_pcb px1 = px_pcb px"
    using px stream_prefix [OF px] by (simp_all add: px1_def)
  have eq: "pxtcp_pcb_forward_inbound_done px1 = pxtcp_pcb_forward_inbound_done px"
    "px_deferred_delete px1 = px_deferred_delete px" "Free_pxtcp \<in> set (px_log px1) \<longleftrightarrow> Free_pxtcp \<in> set (px_log px)"
    by (simp_all add: px1_def pxtcp_pcb_forward_inbound_done_def)
  consider "\<not> px_pcb px" | "px_pcb px" "pxtcp_pcb_forward_inbound_done px"
    | "px_pcb px" "\<not> pxtcp_pcb_forward_inbound_done px" "\<not> px_deferred_delete px" using once by blast
  then show thesis
  proof cases
    case 1
    then show thesis using flags pre1 pcb1
      by (intro that [of "pxtcp_free (px_do Refptr_unref px1)"])
        (simp_all add: pxtcp_pcb_delete_pxtcp_def Let_def flip: px1_def)
  next
    case 2
    then show thesis using flags pre1 pcb1 eq(1)
      by (intro that [of "pxtcp_free (px_do Refptr_unref (pxtcp_pcb_dissociate px1))"])
        (simp_all add: pxtcp_pcb_delete_pxtcp_def Let_def flip: px1_def)
  next
    case 3
    have run: "pxtcp_pcb_delete_pxtcp px = Some (px1\<lparr>px_deferred_delete := True\<rparr>)"
      using 3 flags pcb1 eq by (simp add: pxtcp_pcb_delete_pxtcp_def Let_def flip: px1_def)
    have "px_stream n (px1\<lparr>px_deferred_delete := True\<rparr>)"
      using stream1 flags by (simp add: px_stream_def) (simp add: px1_def)
    moreover have "px_kept (px\<lparr>px_deferred_delete := True\<rparr>) (px1\<lparr>px_deferred_delete := True\<rparr>)"
      by (simp add: px_kept_def px1_def)
    ultimately show thesis using that [OF run] 3 eq(3) stream_prefix by simp
  qed
qed

lemma maybe_deferred_ok:
  assumes "px_stream n px"
  obtains px' where "pxtcp_pcb_maybe_deferred_delete px = Some px'" "px_after n px px'"
    "Free_pxtcp \<notin> set (px_log px') \<or> \<not> px_deferred_delete px \<Longrightarrow> px' = px"
proof (cases "px_deferred_delete px \<and> pxtcp_pcb_forward_inbound_done px")
  case False
  then show thesis
    using assms by (intro that [of px]) (auto simp: pxtcp_pcb_maybe_deferred_delete_def intro: px_afterI)
next
  case True
  then have "px_slot px < 0" "px_outbound_close_done px" "px_inbound_close px"
    using assms by (auto simp: px_stream_def pxtcp_pcb_forward_inbound_done_def)
  then obtain px' where "pxtcp_pcb_delete_pxtcp px = Some px'" "px_prefix px'" "Free_pxtcp \<in> set (px_log px')"
    using delete_ok [OF assms] True by metis
  then show thesis using True that by (auto simp: pxtcp_pcb_maybe_deferred_delete_def px_freed_after)
qed

lemma ack_ok:
  assumes px: "px_stream n px" and len: "0 < len" "px_acked px + len \<le> length (px_written px)"
  obtains px' where "px_ack len px = Some (px_unacked px', px')" "px_stream n px'" "px_kept px px'" "px_pcb px' = px_pcb px"
    "px_quiet px px'"
proof -
  have n: "2 \<le> n" "px_bufsize px = n" "px_unacked px = ack_index n (px_acked px)"
    "length (px_written px) \<le> length (px_rcvd px)" "length (px_rcvd px) < px_acked px + n"
    using px unfolding px_stream_def by blast+
  then have "len < n" using len by linarith
  define px' where "px' = (px_do (Tcp_acked len) px)\<lparr>px_unacked := ack_index n (px_acked px + len)\<rparr>"
  have "px_ack len px = Some (px_unacked px', px')"
    using ack_index_add [of n len "px_acked px"] n len(1) \<open>len < n\<close> unfolding px_ack_def px'_def Let_def n(2,3) by simp
  moreover have "px_stream n px'"
  proof -
    obtain buf where "px_buf px = Some buf" using px len n(4) by (cases "px_buf px") (auto simp: px_stream_def)
    moreover have "holds n buf (px_rcvd px) (px_acked px + len)" if "holds n buf (px_rcvd px) (px_acked px)" for buf
      using that by (simp add: holds_def)
    ultimately show ?thesis using px len n(4,5) by (simp add: px_stream_def px'_def)
  qed
  ultimately show thesis by (rule that) (simp_all add: px'_def px_kept_def px_quiet_def)
qed

lemma all_acked_ok:
  assumes px: "px_stream n px"
  obtains px' where "px_all_acked (px_unacked px) px = Some px'" "px_after n px px'"
    "Free_pxtcp \<notin> set (px_log px') \<or> \<not> px_deferred_delete px \<Longrightarrow> px_quiet px px' \<and> px_kept px px'"
proof (cases "px_inbound_close px \<and> px_unsent px = px_vacant px \<and> px_unacked px = px_unsent px")
  case False
  then have "px_all_acked (px_unacked px) px = Some px" unfolding px_all_acked_def by (simp only: if_False)
  then show thesis using px by (intro that [of px]) (auto intro: px_afterI)
next
  case True
  define px1 where "px1 = (let px = px\<lparr>px_buf := None\<rparr> in if px_pcb px then px_do Tcp_sent_off px else px)"
  have "px_acked px = length (px_rcvd px)" using True px_unacked_unsent [OF px] px_empty_iff [OF px] by simp
  then have "px_stream n (px\<lparr>px_buf := None\<rparr>)" using px True by (simp add: px_stream_def)
  then have px1: "px_stream n px1" "px_kept px px1" "px_quiet px px1"
    by (simp_all add: px1_def Let_def px_kept_def px_quiet_def)
  obtain px' where px': "pxtcp_pcb_maybe_deferred_delete px1 = Some px'" "px_after n px1 px'"
    "Free_pxtcp \<notin> set (px_log px') \<or> \<not> px_deferred_delete px1 \<Longrightarrow> px' = px1"
    by (rule maybe_deferred_ok [OF px1(1)]) (rule that)
  have "px_all_acked (px_unacked px) px = Some px'"
    using px'(1) True by (simp add: px_all_acked_def px1_def Let_def)
  moreover have "px_after n px px'" using px'(2) px1(2) px_kept_trans unfolding px_after_def by blast
  moreover have "px_quiet px px' \<and> px_kept px px'" if "Free_pxtcp \<notin> set (px_log px') \<or> \<not> px_deferred_delete px"
    using px'(3) that px1 by (auto simp: px_kept_def)
  ultimately show thesis by (rule that)
qed

text \<open>An acknowledgement, and the notice to start pulling.\<close>

lemma sent_ok:
  assumes px: "px_stream n px" "px_pcb px" and lw: "lwip_ok lw"
    and len: "if len = 0 then px_inbound_pull px \<and> \<not> px_inbound_close px
      else px_acked px + len \<le> length (px_written px)"
    and r: "\<And>un px1. px_inbound_pull px \<Longrightarrow> px_ack len px = Some (un, px1) \<Longrightarrow> px_space px1 = [] \<or> recv_ok (px_space px1) r"
  obtains e px' where "pxtcp_pcb_sent lw transient r len px = Some (e, px')" "px_after n px px'"
    "\<not> px_inbound_pull px \<Longrightarrow> Free_pxtcp \<notin> set (px_log px') \<or> \<not> px_deferred_delete px \<Longrightarrow> px_quiet px px' \<and> px_kept px px'"
proof -
  obtain px1 where ack: "px_ack len px = Some (px_unacked px1, px1)" and px1: "px_stream n px1" "px_kept px px1" "px_pcb px1"
    "px_quiet px px1"
  proof (cases "len = 0")
    case True
    then show thesis using px len by (intro that [of px]) (simp_all add: px_ack_def)
  next
    case False
    then show thesis using ack_ok [OF px(1), of len] len px(2) that by auto
  qed
  have pull1: "px_inbound_pull px1 = px_inbound_pull px" using px1(2) by (simp add: px_kept_def)
  define read where "read = (if px_inbound_close px1 then Some ((0, False), px1)
    else if \<not> px_inbound_pull px1 then Some ((0, False), px_do Chan_pollin px1) else pxtcp_sock_read transient r px1)"
  obtain nread stop px2 where px2: "read = Some ((nread, stop), px2)" "px_stream n px2" "px_kept px1 px2"
    "\<not> px_inbound_pull px \<Longrightarrow> px_quiet px1 px2 \<and> nread = 0" "px_unacked px2 = px_unacked px1"
  proof (cases "px_inbound_close px1 \<or> \<not> px_inbound_pull px1")
    case True
    then have "read = Some ((0, False), if px_inbound_close px1 then px1 else px_do Chan_pollin px1)" by (auto simp: read_def)
    then show thesis by (rule that) (use px1 in \<open>simp_all add: px_kept_def px_quiet_def\<close>)
  next
    case False
    then have "px_space px1 = [] \<or> recv_ok (px_space px1) r" using r [OF _ ack] pull1 by simp
    then obtain x px' where px': "pxtcp_sock_read transient r px1 = Some (x, px')" "px_stream n px'" "px_kept px1 px'"
      "px_acked px' = px_acked px1"
      using sock_read_ok [OF px1(1)] False by metis
    have "px_unacked px' = px_unacked px1" using px'(2,4) px1(1) by (simp add: px_stream_def)
    moreover have "read = Some (x, px')" using False px'(1) by (simp add: read_def)
    ultimately show thesis using that [of "fst x" "snd x" px'] px'(2,3) False pull1 by simp
  qed
  have start: "pxtcp_pcb_sent lw transient r len px =
      (if nread < 0 then Some (ERR_OTHER, pxtcp_pcb_reset_pxtcp px2)
       else
         (case (if \<not> px_inbound_close_done px2 then pxtcp_pcb_forward_inbound lw px2 else Some px2) of
            None \<Rightarrow> None
          | Some px \<Rightarrow> map_option (Pair ERR_OK) (px_all_acked (px_unacked px1) px)))"
    using px(2) ack px2(1) by (simp add: pxtcp_pcb_sent_def read_def)
  show thesis
  proof (cases "nread < 0")
    case True
    then have "px_inbound_pull px" using px2(4) by fastforce
    then show thesis using that start stream_prefix [OF px2(2)] True by (simp add: px_freed_after)
  next
    case False
    obtain px3 where px3: "(if \<not> px_inbound_close_done px2 then pxtcp_pcb_forward_inbound lw px2 else Some px2) = Some px3"
      "px_stream n px3" "px_same px2 px3"
    proof (cases "px_inbound_close_done px2")
      case True
      then show thesis using that px2 by simp
    next
      case False
      then show thesis using forward_ok [OF px2(2) lw] that by (simp only: if_True simp_thms) metis
    qed
    have "px_unacked px3 = px_unacked px2" using px3(2,3) px2(2) by (simp add: px_stream_def px_same_def)
    then have un: "px_unacked px1 = px_unacked px3" using px2(5) by simp
    obtain px' where px': "px_all_acked (px_unacked px3) px3 = Some px'" "px_after n px3 px'"
      "Free_pxtcp \<notin> set (px_log px') \<or> \<not> px_deferred_delete px3 \<Longrightarrow> px_quiet px3 px' \<and> px_kept px3 px'"
      by (rule all_acked_ok [OF px3(2)]) (rule that)
    have "pxtcp_pcb_sent lw transient r len px = Some (ERR_OK, px')"
      using start False px3(1) px'(1) un by simp
    moreover have "px_after n px px'"
      using px'(2) px3(3) px2(3) px1(2) px_kept_trans unfolding px_after_def px_same_def by blast
    moreover have "px_quiet px px' \<and> px_kept px px'"
      if "\<not> px_inbound_pull px" "Free_pxtcp \<notin> set (px_log px') \<or> \<not> px_deferred_delete px"
    proof -
      have kept: "px_kept px px3" using px3(3) px2(3) px1(2) px_kept_trans unfolding px_same_def by blast
      moreover have "px_quiet px px3"
        using px_quiet_trans px1(4) px2(4) [OF that(1)] px_same_quiet [OF px3(3)] by blast
      moreover have "Free_pxtcp \<notin> set (px_log px') \<or> \<not> px_deferred_delete px3" using that(2) kept by (simp add: px_kept_def)
      ultimately show ?thesis using px'(3) px_quiet_trans px_kept_trans by blast
    qed
    ultimately show thesis by (rule that)
  qed
qed

section \<open>The two threads\<close>

text \<open>
  \<open>ps_reading\<close>: the chunks of a read the poll manager's thread has begun in \<open>pxtcp_sock_read\<close>; the lwIP
  thread runs between its look at \<open>unacked\<close> and the new \<open>vacant\<close>. \<open>Hangup\<close> is the poll manager's
  \<open>POLLHUP\<close>, after which the socket is no longer polled; \<open>Delete\<close> and \<open>Pull\<close> are the messages it posts.
\<close>

record px_sys =
  ps_px :: pxtcp
  ps_reading :: "(nat \<times> nat) list option"

datatype px_action =
    Read_begin | Read_end recv | Forward lwip | Poll lwip | Ack nat lwip recv
  | Guest_close | Hangup | Delete | Pull lwip recv

definition px_start :: "nat \<Rightarrow> px_sys \<Rightarrow> bool" where
  \<comment> \<open>established and registered with the poll manager; the code has \<open>n = 64 * 1024\<close>\<close>
  "px_start n s \<longleftrightarrow> 2 \<le> n \<and> n \<le> 64 * 1024 \<and>
     s = \<lparr>ps_px = pxtcp_allocate\<lparr>px_buf := Some (replicate n 0), px_bufsize := n, px_pcb := True, px_sock := True,
            px_slot := 1, px_events := POLLIN\<rparr>, ps_reading = None\<rparr>"

definition recv_fits :: "recv \<Rightarrow> pxtcp \<Rightarrow> bool" where
  "recv_fits r px \<longleftrightarrow> px_space px = [] \<or> recv_ok (px_space px) r"

fun px_enabled :: "px_action \<Rightarrow> px_sys \<Rightarrow> bool" where
  "px_enabled Read_begin s \<longleftrightarrow> ps_reading s = None \<and> px_slot (ps_px s) \<ge> 0 \<and> \<not> px_inbound_close (ps_px s) \<and>
     px_space (ps_px s) \<noteq> [] \<and> Free_pxtcp \<notin> set (px_log (ps_px s))"
| "px_enabled (Read_end r) s = (case ps_reading s of None \<Rightarrow> False | Some iov \<Rightarrow> recv_ok iov r)"
| "px_enabled (Forward lw) s \<longleftrightarrow> lwip_ok lw \<and> Free_pxtcp \<notin> set (px_log (ps_px s))"
| "px_enabled (Poll lw) s \<longleftrightarrow> lwip_ok lw \<and> Free_pxtcp \<notin> set (px_log (ps_px s))"
| "px_enabled (Ack len lw r) s \<longleftrightarrow> lwip_ok lw \<and> Free_pxtcp \<notin> set (px_log (ps_px s)) \<and> px_pcb (ps_px s) \<and>
     0 < len \<and> px_acked (ps_px s) + len \<le> length (px_written (ps_px s)) \<and>
     (case px_ack len (ps_px s) of None \<Rightarrow> False | Some (_, px) \<Rightarrow> px_inbound_pull px \<longrightarrow> recv_fits r px)"
| "px_enabled Guest_close s \<longleftrightarrow> Free_pxtcp \<notin> set (px_log (ps_px s)) \<and> px_pcb (ps_px s) \<and>
     \<not> px_outbound_close (ps_px s) \<and> px_chain (ps_px s) = None"
| "px_enabled Hangup s \<longleftrightarrow> Free_pxtcp \<notin> set (px_log (ps_px s)) \<and> ps_reading s = None \<and>
     px_slot (ps_px s) \<ge> 0 \<and> px_outbound_close_done (ps_px s)"
| "px_enabled Delete s \<longleftrightarrow> Free_pxtcp \<notin> set (px_log (ps_px s)) \<and>
     Post_delete \<in> set (px_log (ps_px s)) \<and> \<not> px_deferred_delete (ps_px s)"
| "px_enabled (Pull lw r) s \<longleftrightarrow> lwip_ok lw \<and> Free_pxtcp \<notin> set (px_log (ps_px s)) \<and>
     Post_inpull \<in> set (px_log (ps_px s)) \<and> \<not> px_inbound_pull (ps_px s) \<and> recv_fits r (ps_px s)"

text \<open>\<open>never\<close>: no error of the socket is transient here; a transient one is a read that brings nothing.\<close>

definition never :: "int \<Rightarrow> bool" where "never e = False"

definition px_set :: "px_sys \<Rightarrow> pxtcp option \<Rightarrow> px_sys option" where
  "px_set s = map_option (\<lambda>px. s\<lparr>ps_px := px\<rparr>)"

fun px_run :: "px_action \<Rightarrow> px_sys \<Rightarrow> px_sys option" where
  "px_run Read_begin s = Some (s\<lparr>ps_reading := Some (px_space (ps_px s))\<rparr>)"
| "px_run (Read_end r) s =
     (case ps_reading s of
        None \<Rightarrow> None
      | Some iov \<Rightarrow> map_option (\<lambda>(_, px). s\<lparr>ps_px := px, ps_reading := None\<rparr>) (px_received never iov r (ps_px s)))"
| "px_run (Forward lw) s = px_set s (pxtcp_pcb_write_inbound lw (ps_px s))"
| "px_run (Poll lw) s = px_set s (pxtcp_pcb_poll lw (ps_px s))"
| "px_run (Ack len lw r) s = px_set s (map_option snd (pxtcp_pcb_sent lw never r len (ps_px s)))"
| "px_run Guest_close s = px_set s (map_option snd (pxtcp_pcb_recv never (\<lambda>_. 0) None (ps_px s)))"
| "px_run Hangup s = px_set s (map_option snd (pump_hup (ps_px s)))"
| "px_run Delete s = px_set s (pxtcp_pcb_delete_pxtcp (ps_px s))"
| "px_run (Pull lw r) s = px_set s (pxtcp_pcb_pull_inbound lw never r (ps_px s))"

abbreviation px_reach :: "nat \<Rightarrow> px_sys \<Rightarrow> bool" where
  "px_reach n \<equiv> reachable (px_start n) px_enabled px_run"

section \<open>The invariant\<close>

definition px_flags :: "pxtcp \<Rightarrow> bool" where
  "px_flags px \<longleftrightarrow>
     (px_outbound_close_done px \<longrightarrow> px_outbound_close px) \<and>
     (px_slot px \<ge> 0 \<longrightarrow> \<not> px_inbound_pull px \<and> Post_delete \<notin> set (px_log px) \<and> Post_inpull \<notin> set (px_log px)) \<and>
     (px_slot px < 0 \<longrightarrow> px_outbound_close_done px) \<and>
     (Post_delete \<in> set (px_log px) \<longrightarrow> px_inbound_close px) \<and>
     (Post_inpull \<in> set (px_log px) \<and> \<not> px_inbound_pull px \<longrightarrow> \<not> px_inbound_close px)"

definition reading_ok :: "nat \<Rightarrow> px_sys \<Rightarrow> bool" where
  "reading_ok n s \<longleftrightarrow>
     (case ps_reading s of
        None \<Rightarrow> True
      | Some iov \<Rightarrow> px_slot (ps_px s) \<ge> 0 \<and> \<not> px_inbound_close (ps_px s) \<and> Free_pxtcp \<notin> set (px_log (ps_px s)) \<and>
          (\<exists>m. chunks n (px_vacant (ps_px s)) m iov \<and> m + (length (px_rcvd (ps_px s)) - px_acked (ps_px s)) < n))"

definition px_inv :: "nat \<Rightarrow> px_sys \<Rightarrow> bool" where
  "px_inv n s \<longleftrightarrow> px_prefix (ps_px s) \<and> reading_ok n s \<and>
     (Free_pxtcp \<notin> set (px_log (ps_px s)) \<longrightarrow> px_stream n (ps_px s) \<and> px_flags (ps_px s))"

lemma after_inv:
  assumes inv: "px_inv n s" "Free_pxtcp \<notin> set (px_log (ps_px s))" and after: "px_after n (ps_px s) px'"
    and quiet: "\<not> px_inbound_pull (ps_px s) \<Longrightarrow> Free_pxtcp \<notin> set (px_log px') \<or> \<not> px_deferred_delete (ps_px s) \<Longrightarrow>
      px_quiet (ps_px s) px' \<and> px_kept (ps_px s) px'"
  shows "px_inv n (s\<lparr>ps_px := px'\<rparr>)"
proof -
  have stream: "px_stream n (ps_px s)" and flags: "px_flags (ps_px s)" and read: "reading_ok n s"
    using inv by (simp_all add: px_inv_def)
  have "px_stream n px' \<and> px_flags px'" if alive: "Free_pxtcp \<notin> set (px_log px')"
  proof -
    have "px_stream n px'" "px_kept (ps_px s) px'" using after alive by (simp_all add: px_after_def)
    moreover have "\<not> px_inbound_pull (ps_px s) \<Longrightarrow> px_inbound_close px' = px_inbound_close (ps_px s)"
      using quiet alive by (simp add: px_quiet_def)
    ultimately show ?thesis using flags by (auto simp: px_flags_def px_kept_def)
  qed
  moreover have "reading_ok n (s\<lparr>ps_px := px'\<rparr>)"
  proof (cases "ps_reading s")
    case (Some iov)
    then have slot: "px_slot (ps_px s) \<ge> 0" using read by (simp add: reading_ok_def)
    then have "\<not> px_inbound_pull (ps_px s)" "\<not> px_deferred_delete (ps_px s)"
      using flags stream by (auto simp: px_flags_def px_stream_def)
    then have same: "px_quiet (ps_px s) px'" "px_kept (ps_px s) px'" using quiet by auto
    have "px_stream n px'" using after same(2) inv(2) by (simp add: px_after_def px_kept_def)
    then have "px_vacant px' = px_vacant (ps_px s)" using stream same(1) by (simp add: px_stream_def px_quiet_def)
    moreover have "length (px_rcvd px') - px_acked px' \<le> length (px_rcvd (ps_px s)) - px_acked (ps_px s)"
      using same(1) by (auto simp: px_quiet_def)
    ultimately show ?thesis
      using read Some same by (fastforce simp: reading_ok_def px_kept_def px_quiet_def)
  qed (simp add: reading_ok_def)
  ultimately show ?thesis using after by (simp add: px_inv_def px_after_def)
qed

lemma px_start_inv: "px_start n s \<Longrightarrow> px_inv n s"
  by (auto simp: px_start_def px_inv_def px_prefix_def reading_ok_def px_stream_def px_flags_def pxtcp_allocate_def
      ack_index_def holds_def)

lemma write_inbound_eq: "pxtcp_pcb_write_inbound lw px = pxtcp_pcb_forward_inbound lw px"
  by (simp add: pxtcp_pcb_write_inbound_def) (simp add: pxtcp_pcb_forward_inbound_def)

text \<open>The steps of the closing handshake.\<close>

lemma guest_close_ok:
  assumes px: "px_stream n px" "px_flags px" "px_pcb px" "\<not> px_outbound_close px" "px_chain px = None"
  obtains px' where "pxtcp_pcb_recv never send None px = Some (ERR_OK, px')" "px_stream n px'" "px_flags px'"
    "px_slot px' = px_slot px" "px_quiet px px'" "px_vacant px' = px_vacant px"
    "Free_pxtcp \<in> set (px_log px') \<longleftrightarrow> Free_pxtcp \<in> set (px_log px)"
proof -
  define px1 where "px1 = px_do Tcp_recv_off (px_do Sock_shutdown (px\<lparr>px_outbound_close := True, px_outbound_close_done := True\<rparr>))"
  define px' where "px' = (if pxtcp_pcb_forward_inbound_done px1 then pxtcp_pcb_dissociate px1 else px1)"
  have open_out: "\<not> px_outbound_close_done px" using px by (auto simp: px_flags_def)
  then have "pxtcp_pcb_recv never send None px = Some (ERR_OK, px')"
    using px(3,5) by (simp add: pxtcp_pcb_recv_def pxtcp_pcb_forward_outbound_close_def Let_def px'_def px1_def)
  moreover have "px_stream n (px\<lparr>px_outbound_close := True, px_outbound_close_done := True\<rparr>)"
    using px(1) by (simp add: px_stream_def)
  then have "px_stream n px'" by (simp add: px'_def px1_def)
  moreover have "px_slot px' = px_slot px" "px_quiet px px'" "px_vacant px' = px_vacant px" "px_outbound_close px'"
    "px_inbound_pull px' = px_inbound_pull px" "px_inbound_close px' = px_inbound_close px" "px_outbound_close_done px'"
    "e \<in> {Free_pxtcp, Post_delete, Post_inpull} \<Longrightarrow> e \<in> set (px_log px') \<longleftrightarrow> e \<in> set (px_log px)" for e
    by (auto simp: px'_def px1_def px_quiet_def pxtcp_pcb_dissociate_def)
  moreover from this have "px_flags px'" using px(2) open_out by (auto simp: px_flags_def)
  ultimately show thesis using that by simp
qed

lemma hangup_ok:
  assumes px: "px_stream n px" "px_flags px" "px_slot px \<ge> 0" "px_outbound_close_done px"
  obtains r px' where "pump_hup px = Some (r, px')" "px_stream n px'" "px_flags px'"
proof (cases "px_inbound_close px")
  case True
  have "px_stream n (px\<lparr>px_slot := - 1\<rparr>)" using px by (simp add: px_stream_def)
  then show thesis using px True
    by (intro that [of "- 1" "px_do Post_delete (px\<lparr>px_slot := - 1\<rparr>)"])
      (auto simp: pump_hup_def pxtcp_schedule_delete_def px_flags_def)
next
  case False
  have "px_stream n (px\<lparr>px_slot := - 1\<rparr>)" using px by (simp add: px_stream_def)
  then show thesis using px False
    by (intro that [of "- 1" "px_do Post_inpull (px\<lparr>px_slot := - 1\<rparr>)"]) (auto simp: pump_hup_def px_flags_def)
qed

lemma no_reader:
  "reading_ok n s \<Longrightarrow> px_slot (ps_px s) < 0 \<Longrightarrow> ps_reading s = None"
  by (auto simp: reading_ok_def split: option.splits)

lemma no_reader_inv:
  "ps_reading s = None \<Longrightarrow> px_prefix px' \<Longrightarrow>
    (Free_pxtcp \<notin> set (px_log px') \<Longrightarrow> px_stream n px' \<and> px_flags px') \<Longrightarrow> px_inv n (s\<lparr>ps_px := px'\<rparr>)"
  by (simp add: px_inv_def reading_ok_def)

lemma px_run_ok:
  assumes inv: "px_inv n s" and en: "px_enabled a s"
  shows "\<exists>s'. px_run a s = Some s' \<and> px_inv n s'"
proof -
  have stream: "px_stream n (ps_px s)" and flags: "px_flags (ps_px s)" if "Free_pxtcp \<notin> set (px_log (ps_px s))"
    using inv that by (simp_all add: px_inv_def)
  have reading: "reading_ok n s" using inv by (simp add: px_inv_def)
  show ?thesis
  proof (cases a)
    case Read_begin
    then have alive: "Free_pxtcp \<notin> set (px_log (ps_px s))" using en by simp
    let ?r = "length (px_rcvd (ps_px s))" and ?a = "px_acked (ps_px s)"
    have n: "2 \<le> n" "?a \<le> ?r" "?r < ?a + n" "px_vacant (ps_px s) = ?r mod n"
      using stream [OF alive] by (simp_all add: px_stream_def)
    have "chunks n (?r mod n) (n - 1 - (?r - ?a)) (px_space (ps_px s))"
      by (rule px_space_chunks(2)) (use stream [OF alive] n en Read_begin in \<open>simp_all add: px_stream_def\<close>)
    moreover have "n - 1 - (?r - ?a) + (?r - ?a) < n" using n by linarith
    ultimately have "reading_ok n (s\<lparr>ps_reading := Some (px_space (ps_px s))\<rparr>)"
      using en Read_begin n(4) by (auto simp: reading_ok_def)
    then show ?thesis using inv Read_begin by (simp add: px_inv_def)
  next
    case (Read_end r)
    then obtain iov where iov: "ps_reading s = Some iov" "recv_ok iov r" using en by (auto split: option.splits)
    then obtain m where m: "chunks n (px_vacant (ps_px s)) m iov"
      "m + (length (px_rcvd (ps_px s)) - px_acked (ps_px s)) < n"
      and st: "px_slot (ps_px s) \<ge> 0" "\<not> px_inbound_close (ps_px s)" "Free_pxtcp \<notin> set (px_log (ps_px s))"
      using reading by (auto simp: reading_ok_def)
    obtain x px' where px': "px_received never iov r (ps_px s) = Some (x, px')" "px_stream n px'" "px_kept (ps_px s) px'"
      using received_ok [OF stream [OF st(3)] st(2) m iov(2), of never] by metis
    have "px_flags px'" using flags [OF st(3)] px'(3) st(1) by (auto simp: px_flags_def px_kept_def)
    then show ?thesis
      using Read_end iov(1) px' stream_prefix by (simp add: px_inv_def reading_ok_def)
  next
    case (Forward lw)
    then have st: "lwip_ok lw" "Free_pxtcp \<notin> set (px_log (ps_px s))" using en by simp_all
    obtain px' where px': "pxtcp_pcb_forward_inbound lw (ps_px s) = Some px'" "px_stream n px'" "px_same (ps_px s) px'"
      using forward_ok [OF stream [OF st(2)] st(1)] by metis
    have "pxtcp_pcb_write_inbound lw (ps_px s) = Some px'" using px'(1) by (simp add: write_inbound_eq)
    moreover have "px_inv n (s\<lparr>ps_px := px'\<rparr>)"
      using px' px_same_quiet by (intro after_inv [OF inv st(2)]) (auto intro: px_afterI simp: px_same_def)
    ultimately show ?thesis using Forward by (simp add: px_set_def)
  next
    case (Poll lw)
    then have st: "lwip_ok lw" "Free_pxtcp \<notin> set (px_log (ps_px s))" using en by simp_all
    obtain px1 where px1: "pxtcp_pcb_forward_inbound lw (ps_px s) = Some px1" "px_stream n px1" "px_same (ps_px s) px1"
      using forward_ok [OF stream [OF st(2)] st(1)] by metis
    obtain px' where px': "pxtcp_pcb_maybe_deferred_delete px1 = Some px'" "px_after n px1 px'"
      "Free_pxtcp \<notin> set (px_log px') \<or> \<not> px_deferred_delete px1 \<Longrightarrow> px' = px1"
      by (rule maybe_deferred_ok [OF px1(2)]) (rule that)
    have kept: "px_kept (ps_px s) px1" using px1(3) by (simp add: px_same_def)
    have "px_inv n (s\<lparr>ps_px := px'\<rparr>)"
    proof (rule after_inv [OF inv st(2)])
      show "px_after n (ps_px s) px'" using px'(2) kept px_kept_trans unfolding px_after_def by blast
      show "px_quiet (ps_px s) px' \<and> px_kept (ps_px s) px'"
        if "Free_pxtcp \<notin> set (px_log px') \<or> \<not> px_deferred_delete (ps_px s)"
        using px'(3) that kept px_same_quiet [OF px1(3)] by (auto simp: px_kept_def)
    qed
    then show ?thesis using Poll px1(1) px'(1) by (simp add: px_set_def pxtcp_pcb_poll_def)
  next
    case (Ack len lw r)
    then have st: "lwip_ok lw" "Free_pxtcp \<notin> set (px_log (ps_px s))" "px_pcb (ps_px s)" "0 < len"
      "px_acked (ps_px s) + len \<le> length (px_written (ps_px s))"
      and fits: "case px_ack len (ps_px s) of None \<Rightarrow> False | Some (_, px) \<Rightarrow> px_inbound_pull px \<longrightarrow> recv_fits r px"
      using en by simp_all
    have len: "if len = 0 then px_inbound_pull (ps_px s) \<and> \<not> px_inbound_close (ps_px s)
        else px_acked (ps_px s) + len \<le> length (px_written (ps_px s))" using st(4,5) by simp
    have r: "px_space px1 = [] \<or> recv_ok (px_space px1) r"
      if "px_inbound_pull (ps_px s)" "px_ack len (ps_px s) = Some (un, px1)" for un px1
    proof -
      have "px_inbound_pull px1" using that st(4) by (auto simp: px_ack_def Let_def)
      then show ?thesis using fits that(2) by (simp add: recv_fits_def)
    qed
    obtain e px' where px': "pxtcp_pcb_sent lw never r len (ps_px s) = Some (e, px')" "px_after n (ps_px s) px'"
      "\<not> px_inbound_pull (ps_px s) \<Longrightarrow> Free_pxtcp \<notin> set (px_log px') \<or> \<not> px_deferred_delete (ps_px s) \<Longrightarrow>
        px_quiet (ps_px s) px' \<and> px_kept (ps_px s) px'"
      by (rule sent_ok [OF stream [OF st(2)] st(3,1) len, of r never]) (erule (1) r, rule that)
    show ?thesis using Ack px'(1) after_inv [OF inv st(2) px'(2,3)] by (simp add: px_set_def)
  next
    case Guest_close
    then have st: "Free_pxtcp \<notin> set (px_log (ps_px s))" "px_pcb (ps_px s)" "\<not> px_outbound_close (ps_px s)"
      "px_chain (ps_px s) = None" using en by simp_all
    obtain px' where px': "pxtcp_pcb_recv never (\<lambda>_. 0) None (ps_px s) = Some (ERR_OK, px')" "px_stream n px'" "px_flags px'"
      "px_slot px' = px_slot (ps_px s)" "px_quiet (ps_px s) px'" "px_vacant px' = px_vacant (ps_px s)"
      "Free_pxtcp \<in> set (px_log px') \<longleftrightarrow> Free_pxtcp \<in> set (px_log (ps_px s))"
      by (rule guest_close_ok [OF stream [OF st(1)] flags [OF st(1)] st(2-4)]) (rule that)
    have "reading_ok n (s\<lparr>ps_px := px'\<rparr>)"
      using reading px'(4-7) by (fastforce simp: reading_ok_def px_quiet_def split: option.splits)
    then show ?thesis using Guest_close px' stream_prefix by (simp add: px_set_def px_inv_def)
  next
    case Hangup
    then have st: "Free_pxtcp \<notin> set (px_log (ps_px s))" "ps_reading s = None" "px_slot (ps_px s) \<ge> 0"
      "px_outbound_close_done (ps_px s)" using en by simp_all
    obtain r px' where px': "pump_hup (ps_px s) = Some (r, px')" "px_stream n px'" "px_flags px'"
      by (rule hangup_ok [OF stream [OF st(1)] flags [OF st(1)] st(3,4)]) (rule that)
    show ?thesis
      using Hangup px' no_reader_inv [OF st(2) stream_prefix [OF px'(2)]] by (simp add: px_set_def)
  next
    case Delete
    then have st: "Free_pxtcp \<notin> set (px_log (ps_px s))" "Post_delete \<in> set (px_log (ps_px s))"
      "\<not> px_deferred_delete (ps_px s)" using en by simp_all
    then have fl: "px_slot (ps_px s) < 0" "px_outbound_close_done (ps_px s)" "px_inbound_close (ps_px s)"
      using flags [OF st(1)] by (auto simp: px_flags_def)
    obtain px' where px': "pxtcp_pcb_delete_pxtcp (ps_px s) = Some px'" "px_prefix px'"
      "Free_pxtcp \<notin> set (px_log px') \<Longrightarrow>
        px_stream n px' \<and> px_deferred_delete px' \<and> px_kept ((ps_px s)\<lparr>px_deferred_delete := True\<rparr>) px'"
      using delete_ok [OF stream [OF st(1)] fl] st(3) by metis
    have "px_stream n px' \<and> px_flags px'" if "Free_pxtcp \<notin> set (px_log px')"
      using px'(3) [OF that] flags [OF st(1)] st(2) fl by (auto simp: px_flags_def px_kept_def)
    then show ?thesis
      using Delete px'(1,2) no_reader_inv [OF no_reader [OF reading fl(1)]] by (simp add: px_set_def)
  next
    case (Pull lw r)
    then have st: "lwip_ok lw" "Free_pxtcp \<notin> set (px_log (ps_px s))" "Post_inpull \<in> set (px_log (ps_px s))"
      "\<not> px_inbound_pull (ps_px s)" and fits: "recv_fits r (ps_px s)" using en by simp_all
    then have fl: "px_slot (ps_px s) < 0" "px_outbound_close_done (ps_px s)" "\<not> px_inbound_close (ps_px s)"
      using flags [OF st(2)] by (auto simp: px_flags_def)
    note here = no_reader_inv [OF no_reader [OF reading fl(1)]]
    show ?thesis
    proof (cases "px_pcb (ps_px s)")
      case False
      have "px_inv n (s\<lparr>ps_px := pxtcp_pcb_reset_pxtcp (ps_px s)\<rparr>)"
        using stream_prefix [OF stream [OF st(2)]] by (intro here) simp_all
      then show ?thesis using Pull False by (simp add: px_set_def pxtcp_pcb_pull_inbound_def)
    next
      case True
      define px1 where "px1 = (ps_px s)\<lparr>px_inbound_pull := True, px_deferred_delete := True\<rparr>"
      have px1: "px_stream n px1" "px_pcb px1" using stream [OF st(2)] fl True by (simp_all add: px_stream_def px1_def)
      have len: "if 0 = (0::nat) then px_inbound_pull px1 \<and> \<not> px_inbound_close px1
          else px_acked px1 + 0 \<le> length (px_written px1)" using fl by (simp add: px1_def)
      have r: "px_space px2 = [] \<or> recv_ok (px_space px2) r" if "px_ack 0 px1 = Some (un, px2)" for un px2
      proof -
        have "px2 = px1" using that fl by (simp add: px_ack_def px1_def)
        moreover have "px_space px1 = px_space (ps_px s)" by (simp add: px_space_def px1_def)
        ultimately show ?thesis using fits by (simp add: recv_fits_def)
      qed
      obtain e px' where px': "pxtcp_pcb_sent lw never r 0 px1 = Some (e, px')" "px_after n px1 px'"
        by (rule sent_ok [OF px1 st(1) len, of r never]) (erule r, rule that)
      have "px_stream n px' \<and> px_flags px'" if "Free_pxtcp \<notin> set (px_log px')"
        using px'(2) that flags [OF st(2)] fl st(3)
        by (auto simp: px_after_def px_flags_def px_kept_def px1_def)
      moreover have "px_prefix px'" using px'(2) by (simp add: px_after_def)
      ultimately show ?thesis
        using Pull True fl px'(1) here by (simp add: px_set_def pxtcp_pcb_pull_inbound_def px1_def)
    qed
  qed
qed

interpretation px: guarded_steps "px_start n" px_enabled px_run "px_inv n" for n
proof
  show "px_inv n s" if "px_start n s" for s using that by (rule px_start_inv)
  show "\<exists>s'. px_run a s = Some s' \<and> px_inv n s'" if "px_inv n s" "px_enabled a s" for a s
    using px_run_ok that by blast
qed



end
