(* ===== verification/PxtcpLife.thy ===== *)
theory PxtcpLife
  imports PxtcpSteps
begin

text \<open>
  What the two directions of a proxied connection deliver, and when the connection is known to be
  finished: the index at the end of the ring that \<open>pxtcp_pcb_sent\<close> lets \<open>unacked\<close> stand at.
\<close>

section \<open>Progress and the end of the inbound direction\<close>

text \<open>
  C27: \<open>pxtcp_pcb_forward_inbound\<close> on an established connection hands lwIP all it can take: as many
  bytes as the send buffer has room for, or everything received, also when the data wrap around the
  end of the ring and need two calls of \<open>tcp_write\<close>.
\<close>

theorem inbound_forwards_all:
  assumes "px_reach n s" "Free_pxtcp \<notin> set (px_log (ps_px s))" "px_pcb (ps_px s)"
    and "lw_established lw" "lw_write lw = ERR_OK" "lw_write_again lw = ERR_OK"
  shows "\<exists>s'. px_run (Forward lw) s = Some s' \<and>
    length (px_written (ps_px s')) = min (length (px_written (ps_px s)) + lw_sndbuf lw) (length (px_rcvd (ps_px s)))"
proof -
  have "px_stream n (ps_px s)" using px.reachable_inv [OF assms(1)] assms(2) by (simp add: px_inv_def)
  moreover have "lwip_ok lw" using assms(5,6) by (simp add: lwip_ok_def)
  ultimately obtain px' where "pxtcp_pcb_forward_inbound lw (ps_px s) = Some px'"
    "length (px_written px') = min (length (px_written (ps_px s)) + lw_sndbuf lw) (length (px_rcvd (ps_px s)))"
    using forward_ok assms(3-6) by metis
  then show ?thesis by (simp add: px_set_def write_inbound_eq)
qed

lemma ack_index_wrapped:
  assumes "0 < n" "0 < a"
  shows "ack_index n a = a mod n \<longleftrightarrow> \<not> n dvd a"
proof
  assume "ack_index n a = a mod n"
  then show "\<not> n dvd a" using assms by (auto simp: ack_index_def dvd_eq_mod_eq_0)
next
  assume "\<not> n dvd a"
  then have "ack_index n a mod n \<noteq> 0" by (simp add: ack_index_mod dvd_eq_mod_eq_0)
  then have "ack_index n a \<noteq> n" by (metis mod_self)
  then have "ack_index n a < n" using ack_index_le [OF assms(1), of a] by simp
  then show "ack_index n a = a mod n" using ack_index_mod [of n a] by simp
qed

text \<open>
  C7: \<open>pxtcp_pcb_forward_inbound_done\<close> does not mean what its name says: all data are sent and
  acknowledged and the inbound direction is closed, but it answers no when the number of bytes is a
  positive multiple of the size of the ring, 64 KiB, because \<open>pxtcp_pcb_sent\<close> wraps \<open>unacked\<close> only
  beyond the end and \<open>unsent\<close> at it. The deletion that the poll manager has asked for is then deferred
  although nothing is left to wait for.
\<close>

theorem inbound_done_missed:
  assumes "px_reach n s" "Free_pxtcp \<notin> set (px_log (ps_px s))"
  shows "(pxtcp_pcb_forward_inbound_done (ps_px s) \<longleftrightarrow>
      px_inbound_close_done (ps_px s) \<and> px_acked (ps_px s) = length (px_rcvd (ps_px s)) \<and>
      (px_acked (ps_px s) = 0 \<or> \<not> n dvd px_acked (ps_px s))) \<and>
    (px_acked (ps_px s) > 0 \<and> n dvd px_acked (ps_px s) \<and> px_pcb (ps_px s) \<and> px_enabled Delete s \<longrightarrow>
      (\<exists>s'. px_run Delete s = Some s' \<and> Free_pxtcp \<notin> set (px_log (ps_px s')) \<and> px_deferred_delete (ps_px s')))"
proof -
  let ?px = "ps_px s"
  have inv: "px_inv n s" by (rule px.reachable_inv [OF assms(1)])
  then have stream: "px_stream n ?px" and flags: "px_flags ?px" using assms(2) by (simp_all add: px_inv_def)
  then have n: "0 < n" "px_unacked ?px = ack_index n (px_acked ?px)" "px_unsent ?px = length (px_written ?px) mod n"
    "px_inbound_close_done ?px \<Longrightarrow> length (px_written ?px) = length (px_rcvd ?px)"
    by (auto simp: px_stream_def)
  have eq: "pxtcp_pcb_forward_inbound_done ?px \<longleftrightarrow>
      px_inbound_close_done ?px \<and> px_acked ?px = length (px_rcvd ?px) \<and> (px_acked ?px = 0 \<or> \<not> n dvd px_acked ?px)"
  proof (cases "px_inbound_close_done ?px \<and> px_acked ?px = length (px_written ?px)")
    case False
    then show ?thesis using px_unacked_unsent [OF stream] n(4) by (auto simp: pxtcp_pcb_forward_inbound_done_def)
  next
    case True
    then show ?thesis
      using n ack_index_wrapped [OF n(1), of "px_acked ?px"]
      by (cases "px_acked ?px = 0") (auto simp: pxtcp_pcb_forward_inbound_done_def ack_index_def)
  qed
  have "\<exists>s'. px_run Delete s = Some s' \<and> Free_pxtcp \<notin> set (px_log (ps_px s')) \<and> px_deferred_delete (ps_px s')"
    if del: "px_acked ?px > 0" "n dvd px_acked ?px" "px_pcb ?px" "px_enabled Delete s"
  proof -
    have fl: "px_slot ?px < 0" "px_outbound_close_done ?px" "px_inbound_close ?px" "\<not> px_deferred_delete ?px"
      using flags del(4) by (auto simp: px_flags_def)
    have not_done: "\<not> pxtcp_pcb_forward_inbound_done ?px" using eq del(1,2) by simp
    obtain px' where px': "pxtcp_pcb_delete_pxtcp ?px = Some px'"
      "Free_pxtcp \<in> set (px_log px') \<longleftrightarrow> \<not> px_pcb ?px \<or> pxtcp_pcb_forward_inbound_done ?px \<or> Free_pxtcp \<in> set (px_log ?px)"
      "Free_pxtcp \<notin> set (px_log px') \<Longrightarrow> px_stream n px' \<and> px_deferred_delete px' \<and>
        px_kept (?px\<lparr>px_deferred_delete := True\<rparr>) px'"
      by (rule delete_ok [OF stream fl(1-3)]) (use fl(4) in simp, rule that)
    then have "Free_pxtcp \<notin> set (px_log px')" using not_done del(3) assms(2) by simp
    then show ?thesis using px' by (simp add: px_set_def)
  qed
  then show ?thesis using eq by blast
qed

section \<open>Witnesses\<close>

definition px_small :: px_sys where
  \<comment> \<open>a ring of four bytes\<close>
  "px_small = \<lparr>ps_px =
      \<lparr>px_buf = Some (replicate 4 0), px_bufsize = 4, px_vacant = 0, px_unacked = 0,
       px_unsent = 0, px_outbound_close = False, px_outbound_close_done = False, px_inbound_close = False,
       px_inbound_close_done = False, px_inbound_pull = False, px_deferred_delete = False, px_pcb = True,
       px_sock = True, px_slot = 1, px_events = POLLIN, px_chain = None, px_log = []\<rparr>, ps_reading = None\<rparr>"

definition lw_good :: lwip where
  "lw_good = \<lparr>lw_established = True, lw_sndbuf = 10, lw_write = ERR_OK, lw_write_again = ERR_OK, lw_shutdown = ERR_OK\<rparr>"

lemma px_small_reach: "px_reach 4 px_small"
  by (rule reachable_start) (simp add: px_start_def px_small_def pxtcp_allocate_def)

definition px_transfer :: "px_action list" where
  \<comment> \<open>four bytes, the last one acknowledged while the end of the file is being read\<close>
  "px_transfer = [Read_begin, Read_end (Recv_data [1, 2, 3]), Forward lw_good, Ack 3 lw_good Recv_eof,
     Read_begin, Read_end (Recv_data [4]), Forward lw_good, Read_begin, Ack 1 lw_good Recv_eof, Read_end Recv_eof,
     Forward lw_good, Guest_close, Hangup]"

lemmas px_eval = px_small_def lw_good_def pxtcp_pcb_write_inbound_def pxtcp_pcb_forward_inbound_def px_write_rest_def
  tcp_write_def px_check_close_def pxtcp_pcb_forward_inbound_close_def pxtcp_pcb_cancel_poll_def
  pxtcp_pcb_forward_inbound_done_def pxtcp_pcb_sent_def px_ack_def px_all_acked_def px_received_def px_space_def
  pump_hup_def pxtcp_schedule_delete_def pxtcp_pcb_recv_def pxtcp_pcb_forward_outbound_close_def px_set_def px_do_def
  recv_ok_def lwip_ok_def never_def

definition px_moved :: "px_action list" where
  "px_moved = [Read_begin, Read_end (Recv_data [1, 2, 3]), Forward lw_good]"

lemma px_moved_state:
  "map_option (\<lambda>s. (px_log (ps_px s), px_pcb (ps_px s), px_deferred_delete (ps_px s)))
     (run_all px_enabled px_run px_moved px_small) =
   Some ([Sock_recv [1, 2, 3], Tcp_write [1, 2, 3] False, Tcp_output, Tcp_poll False], True, False)"
  by (simp add: px_moved_def px_eval Let_def)

lemma px_transfer_state:
  "map_option (\<lambda>s. (px_log (ps_px s), px_pcb (ps_px s), px_deferred_delete (ps_px s)))
     (run_all px_enabled px_run px_transfer px_small) =
   Some ([Sock_recv [1, 2, 3], Tcp_write [1, 2, 3] False, Tcp_output, Tcp_poll False, Tcp_acked 3, Chan_pollin,
     Sock_recv [4], Tcp_write [4] False, Tcp_output, Tcp_poll False, Tcp_acked 1, Chan_pollin,
     Tcp_shutdown, Tcp_poll False, Tcp_output, Sock_shutdown, Tcp_recv_off, Post_delete], True, False)"
  by (simp add: px_transfer_def px_eval Let_def)

lemma px_run_all_state:
  assumes "map_option (\<lambda>s. (px_log (ps_px s), px_pcb (ps_px s), px_deferred_delete (ps_px s)))
     (run_all px_enabled px_run as px_small) = Some (l, p, d)"
  obtains s where "px_reach 4 s" "px_log (ps_px s) = l" "px_pcb (ps_px s) = p" "px_deferred_delete (ps_px s) = d"
  using assms run_all_reachable [OF px_small_reach] by auto


theorem inbound_forwards_all_witness:
  "\<exists>s s'. px_reach 4 s \<and> length (px_written (ps_px s)) = 0 \<and> px_run (Forward (lw_good\<lparr>lw_sndbuf := 2\<rparr>)) s = Some s' \<and>
    length (px_written (ps_px s')) = 2"
proof -
  have "map_option (\<lambda>s. (px_log (ps_px s), px_pcb (ps_px s), px_deferred_delete (ps_px s)))
      (run_all px_enabled px_run [Read_begin, Read_end (Recv_data [1, 2, 3])] px_small) =
    Some ([Sock_recv [1, 2, 3]], True, False)"
    by (simp add: px_eval Let_def)
  then obtain s where s: "px_reach 4 s" "px_log (ps_px s) = [Sock_recv [1, 2, 3]]" "px_pcb (ps_px s)"
    by (rule px_run_all_state) (rule that, simp_all)
  have "\<exists>s'. px_run (Forward (lw_good\<lparr>lw_sndbuf := 2\<rparr>)) s = Some s' \<and> length (px_written (ps_px s')) = 2"
    using inbound_forwards_all [OF s(1) _ s(3), of "lw_good\<lparr>lw_sndbuf := 2\<rparr>"] s(2)
    by (simp add: lw_good_def numeral_2_eq_2)
  then show ?thesis using s by auto
qed

lemma px_transferred:
  obtains s where "px_reach 4 s" "px_rcvd (ps_px s) = [1, 2, 3, 4]" "px_acked (ps_px s) = 4" "px_pcb (ps_px s)"
    "Free_pxtcp \<notin> set (px_log (ps_px s))" "px_enabled Delete s"
proof -
  obtain s where s: "px_reach 4 s" "px_log (ps_px s) = [Sock_recv [1, 2, 3], Tcp_write [1, 2, 3] False, Tcp_output,
      Tcp_poll False, Tcp_acked 3, Chan_pollin, Sock_recv [4], Tcp_write [4] False, Tcp_output, Tcp_poll False, Tcp_acked 1,
      Chan_pollin, Tcp_shutdown, Tcp_poll False, Tcp_output, Sock_shutdown, Tcp_recv_off, Post_delete]"
    "px_pcb (ps_px s)" "\<not> px_deferred_delete (ps_px s)"
    using px_run_all_state [OF px_transfer_state] by metis
  then show thesis by (intro that [of s]) simp_all
qed


text \<open>Four bytes through a ring of four: all are acknowledged, and the deletion is deferred for good.\<close>

theorem inbound_done_missed_witness:
  "\<exists>s s'. px_reach 4 s \<and> px_rcvd (ps_px s) = [1, 2, 3, 4] \<and> px_acked (ps_px s) = 4 \<and>
    \<not> pxtcp_pcb_forward_inbound_done (ps_px s) \<and> px_run Delete s = Some s' \<and> Free_pxtcp \<notin> set (px_log (ps_px s'))"
proof -
  obtain s where s: "px_reach 4 s" "px_rcvd (ps_px s) = [1, 2, 3, 4]" "px_acked (ps_px s) = 4" "px_pcb (ps_px s)"
    "Free_pxtcp \<notin> set (px_log (ps_px s))" "px_enabled Delete s" by (rule px_transferred)
  have "\<not> pxtcp_pcb_forward_inbound_done (ps_px s)"
    "\<exists>s'. px_run Delete s = Some s' \<and> Free_pxtcp \<notin> set (px_log (ps_px s'))"
    using inbound_done_missed [OF s(1,5)] s by auto
  then show ?thesis using s by auto
qed

section \<open>The outbound direction\<close>

fun sock_sent :: "px_effect list \<Rightarrow> u8 list" where
  "sock_sent [] = []"
| "sock_sent (Sock_send bs # es) = bs @ sock_sent es"
| "sock_sent (_ # es) = sock_sent es"

fun recved :: "px_effect list \<Rightarrow> nat" where
  "recved [] = 0"
| "recved (Tcp_recved n # es) = n + recved es"
| "recved (_ # es) = recved es"

lemma outbound_append [simp]:
  "sock_sent (xs @ ys) = sock_sent xs @ sock_sent ys" "recved (xs @ ys) = recved xs + recved ys"
proof -
  show "sock_sent (xs @ ys) = sock_sent xs @ sock_sent ys" by (induction xs rule: sock_sent.induct) auto
  show "recved (xs @ ys) = recved xs + recved ys" by (induction xs rule: recved.induct) auto
qed

lemma px_skip_concat:
  "k < length (concat qs) \<Longrightarrow> \<exists>rest. px_skip k qs = Some rest \<and> rest \<noteq> [] \<and> concat rest = drop k (concat qs) \<and>
    ([] \<notin> set qs \<longrightarrow> [] \<notin> set rest)"
  by (induction k qs rule: px_skip.induct) (auto simp: less_diff_conv2 not_less)

text \<open>\<open>sendmsg\<close> takes at most the bytes of its eight buffers.\<close>

definition sends_fit :: "(nat \<Rightarrow> int) \<Rightarrow> u8 list list \<Rightarrow> bool" where
  "sends_fit send p \<longleftrightarrow> (\<forall>k. send k \<le> int (length (concat (take 8 (drop (8 * k) p)))))"

lemma send_loop_ok:
  assumes "sends_fit send p" "[] \<notin> set p" "qs = drop (8 * k) p"
  shows "\<exists>ob. px_send_loop transient send k qs = Some ob \<and> concat (ob_sent ob) @ concat (ob_rest ob) = concat qs \<and>
    ob_forwarded ob = length (concat (ob_sent ob)) \<and> [] \<notin> set (ob_rest ob)"
  using assms
proof (induction transient send k qs rule: px_send_loop.induct)
  case (2 transient send k q qs)
  let ?batch = "take 8 (q # qs)" and ?rest = "drop 8 (q # qs)"
  have split: "concat (q # qs) = concat ?batch @ concat ?rest" by (metis append_take_drop_id concat_append)
  have ne: "[] \<notin> set (q # qs)" using "2.prems"(2,3) by (metis in_set_dropD)
  then have batch: "[] \<notin> set ?batch" "[] \<notin> set ?rest" by (meson in_set_takeD in_set_dropD)+
  have fit: "send k \<le> int (length (concat ?batch))"
    using "2.prems"(1,3) unfolding sends_fit_def by (metis (no_types))
  consider "send k = int (length (concat ?batch))" | "0 \<le> send k" "send k < int (length (concat ?batch))" | "send k < 0"
    using fit by linarith
  then show ?case
  proof cases
    case 1
    have "?rest = drop (8 * (k + 1)) p" using "2.prems"(3) by (simp add: drop_drop)
    with "2.IH" [OF refl refl refl refl _ 1 "2.prems"(1,2)] batch(1)
    obtain ob where ob: "px_send_loop transient send (k + 1) ?rest = Some ob"
      "concat (ob_sent ob) @ concat (ob_rest ob) = concat ?rest" "ob_forwarded ob = length (concat (ob_sent ob))"
      "[] \<notin> set (ob_rest ob)" by blast
    have "px_send_loop transient send k (q # qs) =
        Some (ob\<lparr>ob_forwarded := length (concat ?batch) + ob_forwarded ob, ob_sent := concat ?batch # ob_sent ob\<rparr>)"
      using ob(1) 1 batch(1) by (simp only: px_send_loop.simps Let_def if_False if_True option.map simp_thms)
    then show ?thesis using ob split by (simp del: px_send_loop.simps)
  next
    case 2
    then have "nat (send k) < length (concat ?batch)" by linarith
    from px_skip_concat [OF this] obtain rest where rest: "px_skip (nat (send k)) ?batch = Some rest"
      "concat rest = drop (nat (send k)) (concat ?batch)" "[] \<notin> set rest" using batch(1) by blast
    have "px_send_loop transient send k (q # qs) =
        Some \<lparr>ob_forwarded = nat (send k), ob_rest = rest @ ?rest, ob_sockerr = 0, ob_sent = [take (nat (send k)) (concat ?batch)]\<rparr>"
      using 2 rest(1) batch(1) by (simp only: px_send_loop.simps Let_def option.map) simp
    moreover have "concat [take (nat (send k)) (concat ?batch)] @ concat (rest @ ?rest) = concat (q # qs)"
      unfolding split concat_append rest(2) by (simp only: concat.simps append_Nil2 append_assoc [symmetric] append_take_drop_id)
    moreover have "nat (send k) = length (concat [take (nat (send k)) (concat ?batch)])"
      using \<open>nat (send k) < _\<close> by (simp only: concat.simps append_Nil2 length_take min_def) simp
    moreover have "[] \<notin> set (rest @ ?rest)" using rest(3) batch(2) by (simp only: set_append Un_iff) simp
    ultimately show ?thesis by (intro exI conjI) (assumption, simp_all only: outbound.simps not_False_eq_True)
  next
    case 3
    then have "px_send_loop transient send k (q # qs) =
        Some \<lparr>ob_forwarded = 0, ob_rest = q # qs, ob_sockerr = (if transient (- send k) then 0 else - send k), ob_sent = []\<rparr>"
      using batch(1) by (simp only: px_send_loop.simps Let_def) simp
    then show ?thesis using ne by (simp del: px_send_loop.simps)
  qed
qed simp

lemma log_sends:
  "px_log (fold (\<lambda>bs. px_do (Sock_send bs)) bss px) = px_log px @ map Sock_send bss"
  "px_chain (fold (\<lambda>bs. px_do (Sock_send bs)) bss px) = px_chain px"
  "px_outbound_close (fold (\<lambda>bs. px_do (Sock_send bs)) bss px) = px_outbound_close px"
  "px_outbound_close_done (fold (\<lambda>bs. px_do (Sock_send bs)) bss px) = px_outbound_close_done px"
  "px_pcb (fold (\<lambda>bs. px_do (Sock_send bs)) bss px) = px_pcb px"
  "px_deferred_delete (fold (\<lambda>bs. px_do (Sock_send bs)) bss px) = px_deferred_delete px"
  by (induction bss arbitrary: px) simp_all

lemma sent_map [simp]: "sock_sent (map Sock_send bss) = concat bss" "recved (map Sock_send bss) = 0"
  by (induction bss) simp_all

definition kept_bytes :: "pxtcp \<Rightarrow> u8 list" where
  "kept_bytes px = (case px_chain px of None \<Rightarrow> [] | Some p \<Rightarrow> concat p)"

text \<open>
  C16: the outbound stream. \<open>pxtcp_pcb_forward_outbound\<close>, however little each \<open>sendmsg\<close> takes and
  wherever in the chain of pbufs it stops, sends a prefix of the data and keeps exactly the rest for
  the next time, trimmed in front, unless the connection is reset; and it tells lwIP to open the
  window by just the bytes that were sent. No assertion fails.
\<close>

theorem outbound_stream_intact:
  assumes "sends_fit send p" "[] \<notin> set p" "p \<noteq> []" "length (concat p) < 0x10000"
    and "px_chain px = None \<or> px_chain px = Some p" "px_pcb px" "px_outbound_close px \<longrightarrow> \<not> px_outbound_close_done px"
  shows "\<exists>e px'. pxtcp_pcb_forward_outbound transient send p px = Some (e, px') \<and>
    (\<exists>sent. sock_sent (px_log px') = sock_sent (px_log px) @ sent \<and> recved (px_log px') = recved (px_log px) + length sent \<and>
      (Free_pxtcp \<notin> set (px_log px') \<longrightarrow> sent @ kept_bytes px' = concat p))"
proof -
  obtain ob where ob: "px_send_loop transient send 0 p = Some ob" "concat (ob_sent ob) @ concat (ob_rest ob) = concat p"
    "ob_forwarded ob = length (concat (ob_sent ob))"
    using send_loop_ok [OF assms(1,2), of p 0] by auto
  let ?sent = "concat (ob_sent ob)"
  have "length ?sent \<le> length (concat p)" using ob(2) by (metis le_add1 length_append)
  then have small: "length ?sent mod 0x10000 = length ?sent" using assms(4) by simp
  define px1 where "px1 = (let px = fold (\<lambda>bs. px_do (Sock_send bs)) (ob_sent ob) px in
    if ob_forwarded ob > 0 then px_do (Tcp_recved (ob_forwarded ob mod 0x10000)) px else px)"
  have px1: "sock_sent (px_log px1) = sock_sent (px_log px) @ ?sent" "recved (px_log px1) = recved (px_log px) + length ?sent"
    "px_outbound_close px1 = px_outbound_close px" "px_outbound_close_done px1 = px_outbound_close_done px"
    "px_pcb px1" "px_deferred_delete px1 = px_deferred_delete px"
    using small assms(6) by (auto simp: px1_def Let_def ob(3) log_sends)
  have start: "pxtcp_pcb_forward_outbound transient send p px =
      (if ob_rest ob = [] then
         if px_outbound_close px then map_option (Pair ERR_OK) (pxtcp_pcb_forward_outbound_close (px1\<lparr>px_chain := None\<rparr>))
         else Some (ERR_OK, px1\<lparr>px_chain := None\<rparr>)
       else
         let px = px1\<lparr>px_chain := Some (ob_rest ob)\<rparr> in
         if ob_sockerr ob \<noteq> 0 \<and> ob_sockerr ob \<noteq> ECONNRESET then
           let px = (px_do Tcp_abort (pxtcp_pcb_dissociate px))\<lparr>px_pcb := False\<rparr>
           in Some (ERR_OTHER, if px_deferred_delete px then pxtcp_pcb_reset_pxtcp px else px_do Chan_reset px)
         else Some (ERR_OK, px_do Chan_pollout px))"
    using assms(5) px1(3) unfolding pxtcp_pcb_forward_outbound_def ob(1) by (auto simp: px1_def Let_def)
  show ?thesis
  proof (cases "ob_rest ob = []")
    case True
    then have all: "?sent = concat p" using ob(2) by simp
    show ?thesis
    proof (cases "px_outbound_close px")
      case True
      then show ?thesis using start \<open>ob_rest ob = []\<close> assms(7) px1 all
        by (auto simp: pxtcp_pcb_forward_outbound_close_def Let_def kept_bytes_def pxtcp_pcb_dissociate_def)
    next
      case False
      then show ?thesis using start \<open>ob_rest ob = []\<close> px1 all by (auto simp: kept_bytes_def)
    qed
  next
    case False
    show ?thesis
    proof (cases "ob_sockerr ob \<noteq> 0 \<and> ob_sockerr ob \<noteq> ECONNRESET")
      case True
      then show ?thesis using start False px1 ob(2)
        by (auto simp: Let_def kept_bytes_def pxtcp_pcb_dissociate_def pxtcp_pcb_reset_pxtcp_def pxtcp_free_def)
    next
      case ok: False
      then show ?thesis using start False px1 ob(2) by (auto simp: Let_def kept_bytes_def)
    qed
  qed
qed

text \<open>Two pbufs; the socket takes the first and one byte of the second.\<close>

theorem outbound_stream_intact_witness:
  "\<exists>e px' sent. pxtcp_pcb_forward_outbound never (\<lambda>k. if k = 0 then 3 else 0) [[1, 2], [3, 4, 5]] (ps_px px_small) = Some (e, px') \<and>
    (Free_pxtcp \<notin> set (px_log px') \<longrightarrow> sent @ kept_bytes px' = [1, 2, 3, 4, 5]) \<and> recved (px_log px') = length sent"
proof -
  have fit: "sends_fit (\<lambda>k. if k = 0 then 3 else 0) [[1, 2], [3, 4, 5]]" by (simp add: sends_fit_def)
  have px: "px_log (ps_px px_small) = []" "px_chain (ps_px px_small) = None" "px_pcb (ps_px px_small)"
    "\<not> px_outbound_close (ps_px px_small)"
    by (simp_all add: px_small_def)
  from outbound_stream_intact [OF fit, of "ps_px px_small" never] px
  show ?thesis by auto
qed

end
