(* ===== verification/Chains.thy ===== *)
theory Chains
  imports Prelude
begin

text \<open>
  Chains through the records of a table, as the proxies keep them: an array of heads, a \<open>next\<close>
  field in each record, and a \<open>pprev\<close> field that points to the head or the \<open>next\<close> field that points
  to the record, so that a record is unlinked without a walk. A table has the records of a list,
  each in the chain its key names; adding and unlinking keep that.
\<close>

section \<open>Chains\<close>

datatype link = Head nat | Next nat

record chains =
  ch_head :: "nat \<Rightarrow> nat option"
  ch_next :: "nat \<Rightarrow> nat option"
  ch_pprev :: "nat \<Rightarrow> link option"

fun link_val :: "chains \<Rightarrow> link \<Rightarrow> nat option" where
  "link_val c (Head b) = ch_head c b"
| "link_val c (Next r) = ch_next c r"

fun store_link :: "link \<Rightarrow> nat option \<Rightarrow> chains \<Rightarrow> chains" where
  "store_link (Head b) v c = c\<lparr>ch_head := (ch_head c)(b := v)\<rparr>"
| "store_link (Next r) v c = c\<lparr>ch_next := (ch_next c)(r := v)\<rparr>"

definition set_next :: "nat \<Rightarrow> nat option \<Rightarrow> chains \<Rightarrow> chains" where
  "set_next r v c = c\<lparr>ch_next := (ch_next c)(r := v)\<rparr>"

definition set_pprev :: "nat \<Rightarrow> link option \<Rightarrow> chains \<Rightarrow> chains" where
  "set_pprev r v c = c\<lparr>ch_pprev := (ch_pprev c)(r := v)\<rparr>"

definition chain_add :: "nat \<Rightarrow> nat \<Rightarrow> chains \<Rightarrow> chains" where
  "chain_add b r c =
     (let n = ch_head c b;
          c = set_next r n c;
          c = (case n of None \<Rightarrow> c | Some m \<Rightarrow> set_pprev m (Some (Next r)) c);
          c = store_link (Head b) (Some r) c
      in set_pprev r (Some (Head b)) c)"

definition chain_del :: "link \<Rightarrow> nat \<Rightarrow> chains \<Rightarrow> chains" where
  "chain_del l r c =
     (let n = ch_next c r;
          c = (case n of None \<Rightarrow> c | Some m \<Rightarrow> set_pprev m (Some l) c);
          c = store_link l n c
      in set_next r None (set_pprev r None c))"

fun linked :: "chains \<Rightarrow> link \<Rightarrow> nat list \<Rightarrow> bool" where
  "linked c l [] \<longleftrightarrow> link_val c l = None"
| "linked c l (r # rs) \<longleftrightarrow> link_val c l = Some r \<and> ch_pprev c r = Some l \<and> linked c (Next r) rs"

lemma linked_cong:
  assumes "link_val c l = link_val c' l"
    and "\<And>r. r \<in> set xs \<Longrightarrow> ch_next c r = ch_next c' r \<and> ch_pprev c r = ch_pprev c' r"
  shows "linked c l xs = linked c' l xs"
  using assms by (induction xs arbitrary: l) auto

lemma linked_pprev:
  "linked c l (as @ r # bs) \<Longrightarrow> ch_pprev c r = Some (if as = [] then l else Next (last as))"
  by (induction as arbitrary: l) auto

lemma linked_next: "linked c l (as @ r # bs) \<Longrightarrow> ch_next c r = (case bs of [] \<Rightarrow> None | b # _ \<Rightarrow> Some b)"
  by (induction as arbitrary: l) (auto split: list.split)

lemma chain_fields [simp]:
  "ch_head (set_next r v c) = ch_head c" "ch_next (set_next r v c) = (ch_next c)(r := v)"
  "ch_pprev (set_next r v c) = ch_pprev c" "ch_head (set_pprev r w c) = ch_head c"
  "ch_next (set_pprev r w c) = ch_next c" "ch_pprev (set_pprev r w c) = (ch_pprev c)(r := w)"
  "ch_pprev (store_link l v c) = ch_pprev c"
  "link_val (store_link l v c) l = v" "l' \<noteq> l \<Longrightarrow> link_val (store_link l v c) l' = link_val c l'"
  by (cases l; cases l'; simp add: set_next_def set_pprev_def)+

lemma link_val_set [simp]:
  "link_val (set_pprev r w c) l = link_val c l"
  "l \<noteq> Next r \<Longrightarrow> link_val (set_next r v c) l = link_val c l"
  by (cases l; simp)+

lemma next_store: "l \<noteq> Next r \<Longrightarrow> ch_next (store_link l v c) r = ch_next c r"
  by (cases l) auto

lemma linked_add:
  assumes "linked c (Head b) xs" "distinct xs" "r \<notin> set xs"
  shows "linked (chain_add b r c) (Head b) (r # xs)"
proof (cases xs)
  case Nil
  then show ?thesis using assms by (simp add: chain_add_def)
next
  case (Cons m ms)
  have "linked (chain_add b r c) (Next m) ms = linked c (Next m) ms"
    by (rule linked_cong) (use assms Cons in \<open>auto simp: chain_add_def\<close>)
  then show ?thesis using assms Cons by (auto simp: chain_add_def)
qed

lemma chain_add_others:
  assumes "x \<noteq> r" "ch_head c b \<noteq> Some x"
  shows "ch_next (chain_add b r c) x = ch_next c x \<and> ch_pprev (chain_add b r c) x = ch_pprev c x"
  using assms by (auto simp: chain_add_def Let_def split: option.split)

lemma chain_add_head: "b' \<noteq> b \<Longrightarrow> ch_head (chain_add b r c) b' = ch_head c b'"
  by (simp add: chain_add_def Let_def split: option.split)

lemma chain_del_others:
  assumes "x \<noteq> r" "l \<noteq> Next x" "ch_next c r \<noteq> Some x"
  shows "ch_next (chain_del l r c) x = ch_next c x \<and> ch_pprev (chain_del l r c) x = ch_pprev c x"
  using assms by (cases l) (auto simp: chain_del_def Let_def split: option.split)

lemma chain_del_link:
  assumes "l' \<noteq> l" "l' \<noteq> Next r"
  shows "link_val (chain_del l r c) l' = link_val c l'"
  using assms by (auto simp: chain_del_def Let_def split: option.split)

lemma linked_del_first:
  assumes "linked c l (r # bs)" "distinct (r # bs)" "l \<noteq> Next r" "\<And>x. x \<in> set bs \<Longrightarrow> l \<noteq> Next x"
  shows "linked (chain_del l r c) l bs"
proof (cases bs)
  case Nil
  then show ?thesis using assms by (auto simp: chain_del_def Let_def)
next
  case (Cons m ms)
  have next_r: "ch_next c r = Some m" using assms Cons by simp
  have "linked (chain_del l r c) (Next m) ms = linked c (Next m) ms"
  proof (rule linked_cong)
    show "link_val (chain_del l r c) (Next m) = link_val c (Next m)"
      by (rule chain_del_link) (use assms Cons in auto)
    show "ch_next (chain_del l r c) x = ch_next c x \<and> ch_pprev (chain_del l r c) x = ch_pprev c x"
      if "x \<in> set ms" for x
      by (rule chain_del_others) (use assms Cons that next_r in auto)
  qed
  moreover have "link_val (chain_del l r c) l = Some m" "ch_pprev (chain_del l r c) m = Some l"
    using assms Cons next_r by (auto simp: chain_del_def Let_def)
  ultimately show ?thesis using assms Cons by simp
qed

lemma linked_del:
  assumes "linked c l (as @ r # bs)" "distinct (as @ r # bs)" "\<And>x. x \<in> set (as @ r # bs) \<Longrightarrow> l \<noteq> Next x"
  shows "linked (chain_del (if as = [] then l else Next (last as)) r c) l (as @ bs)"
  using assms
proof (induction as arbitrary: l)
  case Nil
  then show ?case by (simp add: linked_del_first)
next
  case (Cons a as)
  let ?l = "if a # as = [] then l else Next (last (a # as))"
  have l_eq: "?l = (if as = [] then Next a else Next (last as))" by simp
  have rest: "linked (chain_del ?l r c) (Next a) (as @ bs)"
    unfolding l_eq by (rule Cons.IH) (use Cons.prems in auto)
  have "link_val (chain_del ?l r c) l = link_val c l"
    by (rule chain_del_link) (use Cons.prems in auto)
  moreover have "ch_pprev (chain_del ?l r c) a = ch_pprev c a"
  proof -
    have "ch_next c r \<noteq> Some a"
      using linked_next [of c l "a # as" r bs] Cons.prems(1) Cons.prems(2)
      by (auto split: list.splits)
    then show ?thesis using Cons.prems(2) by (auto simp: chain_del_def Let_def split: option.split)
  qed
  ultimately show ?case using rest Cons.prems(1) by simp
qed

section \<open>A table\<close>

definition keyed :: "(nat \<Rightarrow> nat) \<Rightarrow> nat list \<Rightarrow> chains \<Rightarrow> bool" where
  "keyed key rs c \<longleftrightarrow>
     (\<forall>b. linked c (Head b) (filter (\<lambda>r. key r = b) rs)) \<and> (\<forall>r. r \<notin> set rs \<longrightarrow> ch_pprev c r = None)"

lemma keyed_cong:
  assumes "keyed key rs c" "\<And>r. r \<in> set rs \<Longrightarrow> key' r = key r"
  shows "keyed key' rs c"
proof -
  have "filter (\<lambda>r. key' r = b) rs = filter (\<lambda>r. key r = b) rs" for b
    using assms(2) by (auto intro: filter_cong)
  then show ?thesis using assms(1) by (simp add: keyed_def)
qed

lemma keyed_same:
  assumes "keyed key rs c" "ch_head c' = ch_head c"
    and "\<And>r. r \<in> set rs \<Longrightarrow> ch_next c' r = ch_next c r \<and> ch_pprev c' r = ch_pprev c r"
    and "\<And>r. r \<notin> set rs \<Longrightarrow> ch_pprev c' r = None"
  shows "keyed key rs c'"
proof -
  have "linked c' (Head b) (filter (\<lambda>r. key r = b) rs) = linked c (Head b) (filter (\<lambda>r. key r = b) rs)" for b
    by (rule linked_cong) (use assms(2,3) in auto)
  then show ?thesis using assms(1,4) by (simp add: keyed_def)
qed

lemma keyed_first:
  assumes "keyed key rs c" "ch_head c b = Some m"
  shows "m \<in> set rs" "key m = b"
proof -
  have "linked c (Head b) (filter (\<lambda>r. key r = b) rs)" using assms(1) by (simp add: keyed_def)
  with assms(2) have "m \<in> set (filter (\<lambda>r. key r = b) rs)"
    by (cases "filter (\<lambda>r. key r = b) rs") auto
  then show "m \<in> set rs" "key m = b" by auto
qed

lemma keyed_add:
  assumes "keyed key rs c" "distinct rs" "r \<notin> set rs"
  shows "keyed key (r # rs) (chain_add (key r) r c)"
  unfolding keyed_def
proof (intro conjI allI impI)
  fix b
  have old: "linked c (Head b) (filter (\<lambda>r. key r = b) rs)" using assms(1) by (simp add: keyed_def)
  show "linked (chain_add (key r) r c) (Head b) (filter (\<lambda>r. key r = b) (r # rs))"
  proof (cases "key r = b")
    case True
    then show ?thesis using linked_add [OF old] assms by simp
  next
    case False
    have "linked (chain_add (key r) r c) (Head b) (filter (\<lambda>r. key r = b) rs)
        = linked c (Head b) (filter (\<lambda>r. key r = b) rs)"
    proof (rule linked_cong)
      show "link_val (chain_add (key r) r c) (Head b) = link_val c (Head b)"
        using chain_add_head [of b "key r"] False by simp
      show "ch_next (chain_add (key r) r c) x = ch_next c x \<and> ch_pprev (chain_add (key r) r c) x = ch_pprev c x"
        if "x \<in> set (filter (\<lambda>r. key r = b) rs)" for x
      proof (rule chain_add_others)
        show "x \<noteq> r" using that assms(3) by auto
        show "ch_head c (key r) \<noteq> Some x" using keyed_first(2) [OF assms(1)] that False by auto
      qed
    qed
    then show ?thesis using old False by simp
  qed
next
  fix x assume x: "x \<notin> set (r # rs)"
  then have "ch_head c (key r) \<noteq> Some x" using keyed_first(1) [OF assms(1)] by auto
  then show "ch_pprev (chain_add (key r) r c) x = None"
    using x assms(1) chain_add_others [of x r c "key r"] by (simp add: keyed_def)
qed

lemma keyed_member:
  assumes "keyed key rs c" "r \<in> set rs"
  obtains as bs l where "filter (\<lambda>x. key x = key r) rs = as @ r # bs" "ch_pprev c r = Some l"
    "l = (if as = [] then Head (key r) else Next (last as))"
    "ch_next c r = (case bs of [] \<Rightarrow> None | b # _ \<Rightarrow> Some b)"
proof -
  have "r \<in> set (filter (\<lambda>x. key x = key r) rs)" using assms(2) by simp
  then obtain as bs where split: "filter (\<lambda>x. key x = key r) rs = as @ r # bs" by (meson split_list)
  moreover have "linked c (Head (key r)) (filter (\<lambda>x. key x = key r) rs)" using assms(1) by (simp add: keyed_def)
  ultimately show thesis using that [OF split _ refl] linked_pprev linked_next by fastforce
qed

lemma keyed_del:
  assumes "keyed key rs c" "distinct rs" "r \<in> set rs" "ch_pprev c r = Some l"
  shows "keyed key (remove1 r rs) (chain_del l r c)"
proof -
  obtain as bs where split: "filter (\<lambda>x. key x = key r) rs = as @ r # bs"
    and l: "l = (if as = [] then Head (key r) else Next (last as))"
    and nxt: "ch_next c r = (case bs of [] \<Rightarrow> None | b # _ \<Rightarrow> Some b)"
    using keyed_member [OF assms(1,3)] assms(4) by (metis option.inject)
  have dist: "distinct (as @ r # bs)" using assms(2) split by (metis distinct_filter)
  have old: "linked c (Head b) (filter (\<lambda>r. key r = b) rs)" for b using assms(1) by (simp add: keyed_def)
  have near: "key x = key r \<and> x \<in> set rs" if "x \<in> set (as @ bs)" for x
  proof -
    have "x \<in> set (filter (\<lambda>x. key x = key r) rs)" unfolding split using that by auto
    then show ?thesis by simp
  qed
  show ?thesis unfolding keyed_def
  proof (intro conjI allI impI)
    fix b
    show "linked (chain_del l r c) (Head b) (filter (\<lambda>r. key r = b) (remove1 r rs))"
    proof (cases "key r = b")
      case True
      have "filter (\<lambda>x. key x = b) (remove1 r rs) = remove1 r (as @ r # bs)"
        using True split by (simp add: filter_remove1)
      also have "\<dots> = as @ bs" using dist by (simp add: remove1_append)
      finally show ?thesis
        using linked_del [of c "Head (key r)" as r bs] old [of "key r"] split dist l True by simp
    next
      case False
      have "linked (chain_del l r c) (Head b) (filter (\<lambda>r. key r = b) rs)
          = linked c (Head b) (filter (\<lambda>r. key r = b) rs)"
      proof (rule linked_cong)
        show "link_val (chain_del l r c) (Head b) = link_val c (Head b)"
          by (rule chain_del_link) (use False l in auto)
        show "ch_next (chain_del l r c) x = ch_next c x \<and> ch_pprev (chain_del l r c) x = ch_pprev c x"
          if "x \<in> set (filter (\<lambda>r. key r = b) rs)" for x
        proof (rule chain_del_others)
          have x: "x \<notin> set (as @ bs)" "x \<noteq> r" using near that False by auto
          show "x \<noteq> r" by (rule x(2))
          show "l \<noteq> Next x" using l x last_in_set [of as] by auto
          show "ch_next c r \<noteq> Some x" using nxt x by (auto split: list.splits)
        qed
      qed
      moreover have "filter (\<lambda>x. key x = b) (remove1 r rs) = filter (\<lambda>x. key x = b) rs"
        using False by (simp add: filter_remove1 remove1_idem)
      ultimately show ?thesis using old by simp
    qed
  next
    fix x assume x: "x \<notin> set (remove1 r rs)"
    show "ch_pprev (chain_del l r c) x = None"
    proof (cases "x = r")
      case False
      then have "x \<notin> set rs" using x assms(2) by (simp add: set_remove1_eq)
      moreover have "m \<in> set rs" if "ch_next c r = Some m" for m
        using nxt that near [of m] by (auto split: list.splits)
      ultimately show ?thesis
        using False assms(1) by (auto simp: chain_del_def Let_def keyed_def split: option.split)
    qed (simp add: chain_del_def Let_def)
  qed
qed

lemma keyed_head:
  assumes "keyed key rs c"
  shows "ch_head c b = (case filter (\<lambda>r. key r = b) rs of [] \<Rightarrow> None | r # _ \<Rightarrow> Some r)"
proof -
  have "linked c (Head b) (filter (\<lambda>r. key r = b) rs)" using assms by (simp add: keyed_def)
  then show ?thesis by (cases "filter (\<lambda>r. key r = b) rs") auto
qed

end
