(* ===== verification/Pxdns.thy ===== *)
theory Pxdns
  imports Chains Steps "HOL-Library.Monad_Syntax"
begin

text \<open>
  The DNS proxy of the NAT network service (\<open>NetworkServices/NAT/pxdns.c\<close>): guest queries over UDP
  are relayed to the host's resolvers under an id of the proxy, answers find their way back by
  that id, and a wheel of timeout lists passes unanswered queries on to the next resolver and
  gives them up in the end. The requests are records in a heap, linked into a chain of the id
  hash and a chain of the wheel.

  \<open>None\<close> is a failed assertion, the use of freed memory, or a walk that does not end. A \<open>Head b\<close> of
  a link is \<open>&request_hash[b]\<close> or \<open>&timeout_list[b]\<close>, a \<open>Next r\<close> the field \<open>next_hash\<close> or \<open>next_timeout\<close> of
  request \<open>r\<close>. \<open>size_t\<close> counters are natural numbers.
\<close>

section \<open>State\<close>

type_synonym dns_client = "nat \<times> nat \<times> u16"   \<comment> \<open>\<open>pcb\<close>, \<open>client_addr\<close>, \<open>client_port\<close>\<close>

record request =
  rq_id :: u16
  rq_generation :: nat
  rq_residx :: nat
  rq_client :: dns_client
  rq_client_id :: u16
  rq_pprev_hash :: "link option"
  rq_next_hash :: "nat option"
  rq_pprev_timeout :: "link option"
  rq_next_timeout :: "nat option"
  rq_timeout_slot :: nat
  rq_reply :: "u8 list option"
  rq_size :: nat
  rq_data :: "u8 list"   \<comment> \<open>with the padding at the end of the structure\<close>

datatype resolver = Inet nat | Inet6 nat | Other_family

datatype dns_effect = Sent resolver "u8 list" | Reply dns_client "u8 list"

record pxdns =
  dns_sock6 :: bool
  dns_generation :: nat
  dns_resolvers :: "resolver list"
  dns_id :: u16
  dns_active :: nat
  dns_expired :: nat
  dns_late :: nat
  dns_collisions :: nat
  dns_slot :: nat
  dns_mask :: u32
  dns_wheel :: "nat option list"
  dns_hash :: "nat option list"
  dns_heap :: "nat \<rightharpoonup> request"
  dns_timer :: bool   \<comment> \<open>\<open>pxdns_timer\<close> is set to run\<close>
  dns_log :: "dns_effect list"

definition TIMEOUT :: nat where "TIMEOUT = 5"
definition HASHSIZE :: nat where "HASHSIZE = 10"

definition HASH :: "u16 \<Rightarrow> nat" where
  "HASH i = unat (i AND (2 ^ HASHSIZE - 1))"

definition with_req :: "nat \<Rightarrow> (request \<Rightarrow> request) \<Rightarrow> pxdns \<Rightarrow> pxdns option" where
  "with_req r f s = do { q \<leftarrow> dns_heap s r; Some (s\<lparr>dns_heap := (dns_heap s)(r \<mapsto> f q)\<rparr>) }"

fun store_hash :: "link \<Rightarrow> nat option \<Rightarrow> pxdns \<Rightarrow> pxdns option" where
  "store_hash (Head b) v s = Some (s\<lparr>dns_hash := (dns_hash s)[b := v]\<rparr>)"
| "store_hash (Next r) v s = with_req r (\<lambda>q. q\<lparr>rq_next_hash := v\<rparr>) s"

fun store_wheel :: "link \<Rightarrow> nat option \<Rightarrow> pxdns \<Rightarrow> pxdns option" where
  "store_wheel (Head b) v s = Some (s\<lparr>dns_wheel := (dns_wheel s)[b := v]\<rparr>)"
| "store_wheel (Next r) v s = with_req r (\<lambda>q. q\<lparr>rq_next_timeout := v\<rparr>) s"

section \<open>The nameservers\<close>

definition pxdns_create_resolver_sockaddrs :: "(string \<Rightarrow> resolver option) \<Rightarrow> string list \<Rightarrow> pxdns \<Rightarrow> pxdns" where
  \<comment> \<open>\<open>getaddrinfo\<close>: the address of a name, if it has one\<close>
  "pxdns_create_resolver_sockaddrs getaddrinfo names s =
     (let usable = (\<lambda>a. case a of Inet _ \<Rightarrow> True | Inet6 _ \<Rightarrow> dns_sock6 s | Other_family \<Rightarrow> False)
      in s\<lparr>dns_generation := dns_generation s + 1,
           dns_resolvers := filter usable (List.map_filter getaddrinfo names)\<rparr>)"

definition pxdns_init :: "bool \<Rightarrow> (string \<Rightarrow> resolver option) \<Rightarrow> string list \<Rightarrow> pxdns" where
  \<comment> \<open>\<open>g_pxdns\<close> is zero before\<close>
  "pxdns_init sock6 getaddrinfo names =
     pxdns_create_resolver_sockaddrs getaddrinfo names
       \<lparr>dns_sock6 = sock6, dns_generation = 0, dns_resolvers = [], dns_id = 0, dns_active = 0,
        dns_expired = 0, dns_late = 0, dns_collisions = 0, dns_slot = 0, dns_mask = 0,
        dns_wheel = replicate TIMEOUT None, dns_hash = replicate (2 ^ HASHSIZE) None,
        dns_heap = Map.empty, dns_timer = False, dns_log = []\<rparr>"

section \<open>The chains\<close>

definition pxdns_hash_add :: "nat \<Rightarrow> pxdns \<Rightarrow> pxdns option" where
  "pxdns_hash_add r s = do {
     q \<leftarrow> dns_heap s r;
     if rq_pprev_hash q \<noteq> None then None
     else do {
       let s = s\<lparr>dns_active := dns_active s + 1\<rparr>;
       let b = HASH (rq_id q);
       let n = dns_hash s ! b;
       s \<leftarrow> with_req r (\<lambda>q. q\<lparr>rq_next_hash := n\<rparr>) s;
       s \<leftarrow> (case n of None \<Rightarrow> Some s
             | Some m \<Rightarrow> with_req m (\<lambda>q. q\<lparr>rq_pprev_hash := Some (Next r)\<rparr>)
                         (s\<lparr>dns_collisions := dns_collisions s + 1\<rparr>));
       s \<leftarrow> store_hash (Head b) (Some r) s;
       with_req r (\<lambda>q. q\<lparr>rq_pprev_hash := Some (Head b)\<rparr>) s } }"

definition pxdns_timeout_add :: "nat \<Rightarrow> pxdns \<Rightarrow> pxdns option" where
  "pxdns_timeout_add r s = do {
     q \<leftarrow> dns_heap s r;
     if rq_pprev_timeout q \<noteq> None then None
     else do {
       let k = dns_slot s;
       let n = dns_wheel s ! k;
       s \<leftarrow> with_req r (\<lambda>q. q\<lparr>rq_timeout_slot := k\<rparr>) s;
       s \<leftarrow> with_req r (\<lambda>q. q\<lparr>rq_next_timeout := n\<rparr>) s;
       s \<leftarrow> (case n of None \<Rightarrow> Some s
             | Some m \<Rightarrow> with_req m (\<lambda>q. q\<lparr>rq_pprev_timeout := Some (Next r)\<rparr>) s);
       s \<leftarrow> store_wheel (Head k) (Some r) s;
       s \<leftarrow> with_req r (\<lambda>q. q\<lparr>rq_pprev_timeout := Some (Head k)\<rparr>) s;
       let omask = dns_mask s;
       let s = s\<lparr>dns_mask := omask OR push_bit k 1\<rparr>;
       Some (if omask = 0 then s\<lparr>dns_timer := True\<rparr> else s) } }"

definition pxdns_hash_del :: "nat \<Rightarrow> pxdns \<Rightarrow> pxdns option" where
  "pxdns_hash_del r s = do {
     q \<leftarrow> dns_heap s r;
     l \<leftarrow> rq_pprev_hash q;
     let s = s\<lparr>dns_active := dns_active s - 1\<rparr>;
     let n = rq_next_hash q;
     s \<leftarrow> (case n of None \<Rightarrow> Some s
           | Some m \<Rightarrow> with_req m (\<lambda>q. q\<lparr>rq_pprev_hash := Some l\<rparr>) s);
     s \<leftarrow> store_hash l n s;
     s \<leftarrow> with_req r (\<lambda>q. q\<lparr>rq_pprev_hash := None\<rparr>) s;
     with_req r (\<lambda>q. q\<lparr>rq_next_hash := None\<rparr>) s }"

definition pxdns_timeout_del :: "nat \<Rightarrow> pxdns \<Rightarrow> pxdns option" where
  "pxdns_timeout_del r s = do {
     q \<leftarrow> dns_heap s r;
     l \<leftarrow> rq_pprev_timeout q;
     if \<not> rq_timeout_slot q < TIMEOUT then None
     else do {
       let n = rq_next_timeout q;
       s \<leftarrow> (case n of None \<Rightarrow> Some s
             | Some m \<Rightarrow> with_req m (\<lambda>q. q\<lparr>rq_pprev_timeout := Some l\<rparr>) s);
       s \<leftarrow> store_wheel l n s;
       s \<leftarrow> with_req r (\<lambda>q. q\<lparr>rq_pprev_timeout := None\<rparr>) s;
       s \<leftarrow> with_req r (\<lambda>q. q\<lparr>rq_next_timeout := None\<rparr>) s;
       let k = rq_timeout_slot q;
       Some (if dns_wheel s ! k = None then s\<lparr>dns_mask := dns_mask s AND NOT (push_bit k 1)\<rparr> else s) } }"

definition pxdns_request_register :: "nat \<Rightarrow> pxdns \<Rightarrow> pxdns option" where
  "pxdns_request_register r s = do { s \<leftarrow> pxdns_hash_add r s; pxdns_timeout_add r s }"

definition pxdns_request_deregister :: "nat \<Rightarrow> pxdns \<Rightarrow> pxdns option" where
  "pxdns_request_deregister r s = do { s \<leftarrow> pxdns_hash_del r s; pxdns_timeout_del r s }"

definition pxdns_request_free :: "nat \<Rightarrow> pxdns \<Rightarrow> pxdns option" where
  "pxdns_request_free r s = do {
     q \<leftarrow> dns_heap s r;
     if rq_pprev_hash q = None \<and> rq_pprev_timeout q = None
     then Some (s\<lparr>dns_heap := (dns_heap s)(r := None)\<rparr>) else None }"

partial_function (option) find_walk :: "u16 \<Rightarrow> (nat \<rightharpoonup> request) \<Rightarrow> nat option \<Rightarrow> nat option option" where
  "find_walk i h p =
     (case p of None \<Rightarrow> Some None
      | Some r \<Rightarrow> do { q \<leftarrow> h r; if rq_id q = i then Some (Some r) else find_walk i h (rq_next_hash q) })"

definition pxdns_request_find :: "u16 \<Rightarrow> pxdns \<Rightarrow> (nat option \<times> pxdns) option" where
  "pxdns_request_find i s = do {
     p \<leftarrow> find_walk i (dns_heap s) (dns_hash s ! HASH i);
     case p of None \<Rightarrow> Some (None, s)
     | Some r \<Rightarrow> do { s \<leftarrow> pxdns_request_deregister r s; Some (Some r, s) } }"

section \<open>Sending\<close>

definition delivered :: "bool \<Rightarrow> resolver \<Rightarrow> nat \<Rightarrow> int \<Rightarrow> bool" where
  \<comment> \<open>whether \<open>sendto\<close>, which answers \<open>nsent\<close>, is called and takes all of the datagram\<close>
  "delivered sock6 a len nsent =
     (case a of Inet _ \<Rightarrow> nsent = int len | Inet6 _ \<Rightarrow> sock6 \<and> nsent = int len | Other_family \<Rightarrow> False)"

definition pxdns_forward_outbound :: "int \<Rightarrow> nat \<Rightarrow> pxdns \<Rightarrow> (bool \<times> pxdns) option" where
  "pxdns_forward_outbound nsent r s = do {
     q \<leftarrow> dns_heap s r;
     if rq_generation q \<noteq> dns_generation s \<or> \<not> rq_residx q < length (dns_resolvers s) then None
     else
       let a = dns_resolvers s ! rq_residx q in
       Some (if delivered (dns_sock6 s) a (rq_size q) nsent
             then (True, s\<lparr>dns_log := dns_log s @ [Sent a (take (rq_size q) (rq_data q))]\<rparr>)
             else (False, s)) }"

text \<open>What \<open>sendto\<close> answers is a function of the resolver's index here: a loop tries each at most once.\<close>

partial_function (option) rexmit_loop :: "(nat \<Rightarrow> int) \<Rightarrow> nat \<Rightarrow> pxdns \<Rightarrow> (bool \<times> pxdns) option" where
  "rexmit_loop nsent r s = do {
     s \<leftarrow> with_req r (\<lambda>q. q\<lparr>rq_residx := rq_residx q + 1\<rparr>) s;
     q \<leftarrow> dns_heap s r;
     if rq_residx q = length (dns_resolvers s) then Some (False, s)
     else do {
       (sent, s) \<leftarrow> pxdns_forward_outbound (nsent (rq_residx q)) r s;
       if sent then Some (True, s) else rexmit_loop nsent r s } }"

definition pxdns_rexmit :: "(nat \<Rightarrow> int) \<Rightarrow> nat \<Rightarrow> pxdns \<Rightarrow> (bool \<times> pxdns) option" where
  "pxdns_rexmit nsent r s = do {
     q \<leftarrow> dns_heap s r;
     if rq_generation q \<noteq> dns_generation s then Some (False, s)
     else if \<not> rq_residx q < length (dns_resolvers s) then None
     else rexmit_loop nsent r s }"

section \<open>A query\<close>

definition put_u16 :: "u16 \<Rightarrow> u8 list \<Rightarrow> u8 list" where
  \<comment> \<open>\<open>memcpy(data, &w, 2)\<close>\<close>
  "put_u16 w data = [lo8 w, hi8 w] @ drop 2 data"

definition get_u16 :: "u8 list \<Rightarrow> u16" where
  "get_u16 data = mk16 (data ! 1) (data ! 0)"

definition pxdns_query_start :: "dns_client \<Rightarrow> u8 list \<Rightarrow> nat option \<Rightarrow> pxdns \<Rightarrow> (nat option \<times> pxdns) option" where
  \<comment> \<open>\<open>pxdns_query\<close> up to the registration; \<open>mem\<close>: what \<open>calloc\<close> gives\<close>
  "pxdns_query_start client p mem s =
     (if dns_resolvers s = [] then Some (None, s)
      else case mem of None \<Rightarrow> Some (None, s)
      | Some r \<Rightarrow>
          let data = p @ replicate 7 0;
              q = \<lparr>rq_id = dns_id s, rq_generation = dns_generation s, rq_residx = 0, rq_client = client,
                   rq_client_id = get_u16 data, rq_pprev_hash = None, rq_next_hash = None,
                   rq_pprev_timeout = None, rq_next_timeout = None, rq_timeout_slot = 0,
                   rq_reply = None, rq_size = length p, rq_data = put_u16 (dns_id s) data\<rparr>;
              s = s\<lparr>dns_id := dns_id s + 1, dns_heap := (dns_heap s)(r \<mapsto> q)\<rparr>
          in do { s \<leftarrow> pxdns_request_register r s; Some (Some r, s) })"

definition pxdns_query_try :: "(nat \<Rightarrow> int) \<Rightarrow> nat \<Rightarrow> pxdns \<Rightarrow> (bool \<times> pxdns) option" where
  "pxdns_query_try nsent r s = do {
     (sent, s) \<leftarrow> pxdns_forward_outbound (nsent 0) r s;
     if sent then Some (True, s) else pxdns_rexmit nsent r s }"

definition pxdns_query_end :: "bool \<Rightarrow> nat \<Rightarrow> pxdns \<Rightarrow> pxdns option" where
  "pxdns_query_end sent r s =
     (if sent then Some s else do { s \<leftarrow> pxdns_request_deregister r s; pxdns_request_free r s })"

definition pxdns_query :: "dns_client \<Rightarrow> u8 list \<Rightarrow> nat option \<Rightarrow> (nat \<Rightarrow> int) \<Rightarrow> pxdns \<Rightarrow> pxdns option" where
  "pxdns_query client p mem nsent s = do {
     (req, s) \<leftarrow> pxdns_query_start client p mem s;
     case req of None \<Rightarrow> Some s
     | Some r \<Rightarrow> do { (sent, s) \<leftarrow> pxdns_query_try nsent r s; pxdns_query_end sent r s } }"

section \<open>The timer\<close>

definition pxdns_expire :: "(nat \<Rightarrow> int) \<Rightarrow> nat \<Rightarrow> pxdns \<Rightarrow> pxdns option" where
  "pxdns_expire nsent r s = do {
     (sent, s) \<leftarrow> pxdns_rexmit nsent r s;
     if sent then Some s
     else do {
       s \<leftarrow> pxdns_hash_del r s;
       s \<leftarrow> pxdns_timeout_del r s;
       pxdns_request_free r (s\<lparr>dns_expired := dns_expired s + 1\<rparr>) } }"

partial_function (option) timer_walk :: "(nat \<Rightarrow> nat \<Rightarrow> int) \<Rightarrow> nat option \<Rightarrow> pxdns \<Rightarrow> pxdns option" where
  "timer_walk nsent p s =
     (case p of None \<Rightarrow> Some s
      | Some r \<Rightarrow> do {
          q \<leftarrow> dns_heap s r;
          s \<leftarrow> pxdns_expire (nsent r) r s;
          timer_walk nsent (rq_next_timeout q) s })"

definition pxdns_timer :: "(nat \<Rightarrow> nat \<Rightarrow> int) \<Rightarrow> pxdns \<Rightarrow> pxdns option" where
  "pxdns_timer nsent s =
     (if \<not> dns_slot s < TIMEOUT then None
      else do {
        let s = s\<lparr>dns_timer := False, dns_slot := (if dns_slot s + 1 = TIMEOUT then 0 else dns_slot s + 1)\<rparr>;
        s \<leftarrow> timer_walk nsent (dns_wheel s ! dns_slot s) s;
        let s = (if dns_wheel s ! dns_slot s = None
                 then s\<lparr>dns_mask := dns_mask s AND NOT (push_bit (dns_slot s) 1)\<rparr>
                 else s\<lparr>dns_mask := dns_mask s OR push_bit (dns_slot s) 1\<rparr>);
        Some (if dns_mask s \<noteq> 0 then s\<lparr>dns_timer := True\<rparr> else s) })"

section \<open>An answer\<close>

definition pxdns_pmgr_pump :: "u8 list \<Rightarrow> bool \<Rightarrow> pxdns \<Rightarrow> (nat option \<times> pxdns) option" where
  \<comment> \<open>after \<open>recv\<close>; \<open>mem\<close>: \<open>pbuf_alloc\<close> succeeds; the result is the request whose reply is posted to the lwIP thread\<close>
  "pxdns_pmgr_pump buf mem s =
     (if length buf < 12 then Some (None, s)
      else do {
        (req, s) \<leftarrow> pxdns_request_find (get_u16 buf) s;
        case req of None \<Rightarrow> Some (None, s\<lparr>dns_late := dns_late s + 1\<rparr>)
        | Some r \<Rightarrow>
            if \<not> mem then do { s \<leftarrow> pxdns_request_free r s; Some (None, s) }
            else do {
              q \<leftarrow> dns_heap s r;
              s \<leftarrow> with_req r (\<lambda>q. q\<lparr>rq_reply := Some (put_u16 (rq_client_id q) buf)\<rparr>) s;
              Some (Some r, s) } })"

definition pxdns_pcb_reply :: "nat \<Rightarrow> pxdns \<Rightarrow> pxdns option" where
  "pxdns_pcb_reply r s = do {
     q \<leftarrow> dns_heap s r;
     p \<leftarrow> rq_reply q;
     pxdns_request_free r (s\<lparr>dns_log := dns_log s @ [Reply (rq_client q) p]\<rparr>) }"

end
