(* ===== verification/PxdnsTable.thy ===== *)
theory PxdnsTable
  imports Pxdns
begin

text \<open>
  The chains of the DNS proxy as a table: what each list operation of \<open>pxdns.c\<close> does to the chains
  of the id hash and to those of the timeout wheel, and the invariant that ties both, the mask and
  the counter of active queries to one list of pending requests.
\<close>

section \<open>The two sets of chains\<close>

definition hash_chains :: "pxdns \<Rightarrow> chains" where
  "hash_chains s =
     \<lparr>ch_head = (\<lambda>b. if b < length (dns_hash s) then dns_hash s ! b else None),
      ch_next = (\<lambda>r. Option.bind (dns_heap s r) rq_next_hash),
      ch_pprev = (\<lambda>r. Option.bind (dns_heap s r) rq_pprev_hash)\<rparr>"

definition wheel_chains :: "pxdns \<Rightarrow> chains" where
  "wheel_chains s =
     \<lparr>ch_head = (\<lambda>b. if b < length (dns_wheel s) then dns_wheel s ! b else None),
      ch_next = (\<lambda>r. Option.bind (dns_heap s r) rq_next_timeout),
      ch_pprev = (\<lambda>r. Option.bind (dns_heap s r) rq_pprev_timeout)\<rparr>"

text \<open>What list operations leave alone: the requests but for their links, and the other fields.\<close>

definition bare :: "request \<Rightarrow> request" where
  "bare q = q\<lparr>rq_pprev_hash := None, rq_next_hash := None, rq_pprev_timeout := None, rq_next_timeout := None\<rparr>"

definition dns_core :: "pxdns \<Rightarrow> nat \<rightharpoonup> request" where
  "dns_core s r = map_option bare (dns_heap s r)"

definition dns_rest :: "pxdns \<Rightarrow> pxdns" where
  "dns_rest s = s\<lparr>dns_wheel := replicate (length (dns_wheel s)) None,
     dns_hash := replicate (length (dns_hash s)) None, dns_heap := Map.empty\<rparr>"

lemma dns_rest_fields:
  "dns_rest s' = dns_rest s \<Longrightarrow>
     dns_sock6 s' = dns_sock6 s \<and> dns_generation s' = dns_generation s \<and> dns_resolvers s' = dns_resolvers s \<and>
     dns_id s' = dns_id s \<and> dns_active s' = dns_active s \<and> dns_slot s' = dns_slot s \<and> dns_mask s' = dns_mask s \<and>
     dns_timer s' = dns_timer s \<and> dns_log s' = dns_log s \<and> dns_late s' = dns_late s \<and>
     dns_expired s' = dns_expired s \<and> dns_collisions s' = dns_collisions s \<and>
     length (dns_wheel s') = length (dns_wheel s) \<and> length (dns_hash s') = length (dns_hash s)"
  by (cases s; cases s') (auto simp: dns_rest_def dest: arg_cong [of _ _ length])

lemma dns_core_None [simp]: "dns_core s r = None \<longleftrightarrow> dns_heap s r = None"
  by (simp add: dns_core_def)

lemma bare_fields [simp]:
  "rq_id (bare q) = rq_id q" "rq_generation (bare q) = rq_generation q" "rq_residx (bare q) = rq_residx q"
  "rq_client (bare q) = rq_client q" "rq_client_id (bare q) = rq_client_id q"
  "rq_timeout_slot (bare q) = rq_timeout_slot q" "rq_reply (bare q) = rq_reply q"
  "rq_size (bare q) = rq_size q" "rq_data (bare q) = rq_data q"
  by (simp_all add: bare_def)

lemma bare_links [simp]:
  "bare (q\<lparr>rq_pprev_hash := l\<rparr>) = bare q" "bare (q\<lparr>rq_next_hash := n\<rparr>) = bare q"
  "bare (q\<lparr>rq_pprev_timeout := l\<rparr>) = bare q" "bare (q\<lparr>rq_next_timeout := n\<rparr>) = bare q"
  by (simp_all add: bare_def)

lemma HASH_less: "HASH i < 2 ^ HASHSIZE"
proof -
  have "HASH i \<le> unat ((2 :: u16) ^ HASHSIZE - 1)"
    unfolding HASH_def using word_and_le1 [of i "2 ^ HASHSIZE - 1"] by (simp add: word_le_nat_alt)
  then show ?thesis by (simp add: HASHSIZE_def)
qed

lemmas chain_defs = hash_chains_def wheel_chains_def dns_core_def dns_rest_def with_req_def
  set_next_def set_pprev_def Let_def

lemma hash_add_effect:
  assumes "dns_heap s r = Some q" "rq_pprev_hash q = None" "HASH (rq_id q) < length (dns_hash s)"
    "\<And>m. dns_hash s ! HASH (rq_id q) = Some m \<Longrightarrow> m \<noteq> r \<and> dns_heap s m \<noteq> None"
  obtains s' k where "pxdns_hash_add r s = Some s'"
    "hash_chains s' = chain_add (HASH (rq_id q)) r (hash_chains s)" "wheel_chains s' = wheel_chains s"
    "dns_core s' = dns_core s"
    "dns_rest s' = dns_rest (s\<lparr>dns_active := dns_active s + 1, dns_collisions := k\<rparr>)"
proof (cases "dns_hash s ! HASH (rq_id q)")
  case None
  then show thesis
    by (intro that [of _ "dns_collisions s"])
      (use assms in \<open>auto simp: pxdns_hash_add_def chain_defs chain_add_def fun_eq_iff\<close>)
next
  case (Some m)
  then obtain qm where "dns_heap s m = Some qm" "m \<noteq> r" using assms(4) by auto
  with Some show thesis
    by (intro that [of _ "dns_collisions s + 1"])
      (use assms in \<open>auto simp: pxdns_hash_add_def chain_defs chain_add_def fun_eq_iff\<close>)
qed

lemma timeout_add_effect:
  assumes "dns_heap s r = Some q" "rq_pprev_timeout q = None" "dns_slot s < length (dns_wheel s)"
    "\<And>m. dns_wheel s ! dns_slot s = Some m \<Longrightarrow> m \<noteq> r \<and> dns_heap s m \<noteq> None"
  shows "\<exists>s'. pxdns_timeout_add r s = Some s' \<and>
    wheel_chains s' = chain_add (dns_slot s) r (wheel_chains s) \<and>
    hash_chains s' = hash_chains s \<and>
    dns_core s' = (dns_core s)(r \<mapsto> (bare q)\<lparr>rq_timeout_slot := dns_slot s\<rparr>) \<and>
    dns_rest s' = dns_rest (s\<lparr>dns_mask := dns_mask s OR push_bit (dns_slot s) 1,
       dns_timer := dns_timer s \<or> dns_mask s = 0\<rparr>)"
proof (cases "dns_wheel s ! dns_slot s")
  case None
  then show ?thesis
    using assms by (cases "dns_mask s = 0") (auto simp: pxdns_timeout_add_def chain_defs chain_add_def fun_eq_iff bare_def)
next
  case (Some m)
  then obtain qm where "dns_heap s m = Some qm" "m \<noteq> r" using assms(4) by auto
  with Some show ?thesis
    using assms by (cases "dns_mask s = 0") (auto simp: pxdns_timeout_add_def chain_defs chain_add_def fun_eq_iff bare_def)
qed

text \<open>A link that leads to a record is the head of a chain, or in another record.\<close>

definition link_ok :: "nat \<Rightarrow> nat \<Rightarrow> pxdns \<Rightarrow> link \<Rightarrow> bool" where
  "link_ok n r s l \<longleftrightarrow> (case l of Head b \<Rightarrow> b < n | Next a \<Rightarrow> a \<noteq> r \<and> dns_heap s a \<noteq> None)"

lemma hash_del_effect:
  assumes "dns_heap s r = Some q" "rq_pprev_hash q = Some l" "link_ok (length (dns_hash s)) r s l"
    "\<And>m. rq_next_hash q = Some m \<Longrightarrow> m \<noteq> r \<and> dns_heap s m \<noteq> None"
  shows "\<exists>s'. pxdns_hash_del r s = Some s' \<and>
    hash_chains s' = chain_del l r (hash_chains s) \<and>
    wheel_chains s' = wheel_chains s \<and>
    dns_core s' = dns_core s \<and>
    dns_rest s' = dns_rest (s\<lparr>dns_active := dns_active s - 1\<rparr>)"
proof (cases "rq_next_hash q")
  case None
  then show ?thesis
    using assms by (cases l) (auto simp: pxdns_hash_del_def chain_defs chain_del_def link_ok_def fun_eq_iff)
next
  case (Some m)
  then obtain qm where "dns_heap s m = Some qm" "m \<noteq> r" using assms(4) by auto
  with Some show ?thesis
    using assms by (cases l) (auto simp: pxdns_hash_del_def chain_defs chain_del_def link_ok_def fun_eq_iff)
qed

lemma timeout_del_effect:
  assumes "dns_heap s r = Some q" "rq_pprev_timeout q = Some l" "link_ok (length (dns_wheel s)) r s l"
    "\<And>m. rq_next_timeout q = Some m \<Longrightarrow> m \<noteq> r \<and> dns_heap s m \<noteq> None"
    "rq_timeout_slot q < TIMEOUT" "length (dns_wheel s) = TIMEOUT"
  shows "\<exists>s'. pxdns_timeout_del r s = Some s' \<and>
    wheel_chains s' = chain_del l r (wheel_chains s) \<and>
    hash_chains s' = hash_chains s \<and>
    dns_core s' = dns_core s \<and>
    (dns_rest s' = dns_rest (s\<lparr>dns_mask :=
       (if ch_head (chain_del l r (wheel_chains s)) (rq_timeout_slot q) = None
        then dns_mask s AND NOT (push_bit (rq_timeout_slot q) 1) else dns_mask s)\<rparr>))"
proof (cases "rq_next_timeout q")
  case None
  then show ?thesis
    using assms by (cases l) (auto simp: pxdns_timeout_del_def chain_defs chain_del_def link_ok_def fun_eq_iff)
next
  case (Some m)
  then obtain qm where "dns_heap s m = Some qm" "m \<noteq> r" using assms(4) by auto
  with Some show ?thesis
    using assms by (cases l) (auto simp: pxdns_timeout_del_def chain_defs chain_del_def link_ok_def fun_eq_iff)
qed

section \<open>Pending requests\<close>

definition hash_key :: "pxdns \<Rightarrow> nat \<Rightarrow> nat" where
  "hash_key s r = (case dns_core s r of None \<Rightarrow> 0 | Some q \<Rightarrow> HASH (rq_id q))"

definition slot_key :: "pxdns \<Rightarrow> nat \<Rightarrow> nat" where
  "slot_key s r = (case dns_core s r of None \<Rightarrow> 0 | Some q \<Rightarrow> rq_timeout_slot q)"

text \<open>The requests that are in the hash and on the wheel, newest first.\<close>

definition dns_rep :: "pxdns \<Rightarrow> nat list \<Rightarrow> bool" where
  "dns_rep s rs \<longleftrightarrow>
     distinct rs \<and> (\<forall>r\<in>set rs. dns_heap s r \<noteq> None \<and> slot_key s r < TIMEOUT) \<and>
     length (dns_wheel s) = TIMEOUT \<and> length (dns_hash s) = 2 ^ HASHSIZE \<and> dns_slot s < TIMEOUT \<and>
     keyed (hash_key s) rs (hash_chains s) \<and> keyed (slot_key s) rs (wheel_chains s) \<and>
     (\<forall>k. bit (dns_mask s) k \<longleftrightarrow> (\<exists>r\<in>set rs. slot_key s r = k)) \<and> dns_active s = length rs"

definition dns_same :: "pxdns \<Rightarrow> pxdns \<Rightarrow> bool" where
  "dns_same s s' \<longleftrightarrow>
     dns_sock6 s' = dns_sock6 s \<and> dns_generation s' = dns_generation s \<and> dns_resolvers s' = dns_resolvers s \<and>
     dns_id s' = dns_id s \<and> dns_slot s' = dns_slot s \<and> dns_log s' = dns_log s"

lemma bit_add_slot: "k < 32 \<Longrightarrow> bit ((m :: u32) OR push_bit k 1) j \<longleftrightarrow> bit m j \<or> j = k"
  by (auto simp: bit_or_iff bit_exp_iff possible_bit_word)

lemma bit_clear_slot: "bit ((m :: u32) AND NOT (push_bit k 1)) j \<longleftrightarrow> bit m j \<and> j \<noteq> k"
  by (auto simp: bit_and_iff bit_not_iff bit_exp_iff possible_bit_word dest: bit_imp_le_length)

lemma rep_member:
  assumes "dns_rep s rs" "r \<in> set rs"
  obtains q where "dns_heap s r = Some q" "rq_timeout_slot q < TIMEOUT"
    "hash_key s r = HASH (rq_id q)" "slot_key s r = rq_timeout_slot q"
  using assms by (force simp: dns_rep_def hash_key_def slot_key_def dns_core_def)

lemma rep_outside:
  assumes "dns_rep s rs" "r \<notin> set rs" "dns_heap s r = Some q"
  shows "rq_pprev_hash q = None" "rq_pprev_timeout q = None"
  using assms by (auto simp: dns_rep_def keyed_def hash_chains_def wheel_chains_def dest!: spec [of _ r])

lemma rep_heads:
  assumes "dns_rep s rs"
  shows "b < 2 ^ HASHSIZE \<Longrightarrow> dns_hash s ! b = Some m \<Longrightarrow> m \<in> set rs"
    and "k < TIMEOUT \<Longrightarrow> dns_wheel s ! k = Some m \<Longrightarrow> m \<in> set rs"
proof -
  show "m \<in> set rs" if "b < 2 ^ HASHSIZE" "dns_hash s ! b = Some m"
    by (rule keyed_first(1) [of "hash_key s" rs "hash_chains s" b])
      (use assms that in \<open>auto simp: dns_rep_def hash_chains_def\<close>)
  show "m \<in> set rs" if "k < TIMEOUT" "dns_wheel s ! k = Some m"
    by (rule keyed_first(1) [of "slot_key s" rs "wheel_chains s" k])
      (use assms that in \<open>auto simp: dns_rep_def wheel_chains_def\<close>)
qed

lemma rep_mask_0:
  assumes "dns_rep s rs"
  shows "dns_mask s = 0 \<longleftrightarrow> rs = []"
proof -
  have "dns_mask s = 0 \<longleftrightarrow> (\<forall>k. \<not> bit (dns_mask s) k)"
    by (auto intro!: bit_word_eqI)
  also have "\<dots> \<longleftrightarrow> (\<forall>k. \<forall>r\<in>set rs. slot_key s r \<noteq> k)" using assms by (simp add: dns_rep_def)
  also have "\<dots> \<longleftrightarrow> rs = []" by (cases rs) auto
  finally show ?thesis .
qed

lemma rep_register:
  assumes rep: "dns_rep s rs" and new: "r \<notin> set rs" and q: "dns_heap s r = Some q"
  shows "\<exists>s'. pxdns_request_register r s = Some s' \<and> dns_rep s' (r # rs) \<and>
    dns_core s' = (dns_core s)(r \<mapsto> (bare q)\<lparr>rq_timeout_slot := dns_slot s\<rparr>) \<and>
    dns_same s s' \<and> (dns_timer s' \<longleftrightarrow> dns_timer s \<or> rs = [])"
proof -
  have head: "m \<noteq> r \<and> dns_heap s m \<noteq> None" if "m \<in> set rs" for m
    using that new rep by (auto simp: dns_rep_def)
  obtain s1 k where s1: "pxdns_hash_add r s = Some s1"
    "hash_chains s1 = chain_add (HASH (rq_id q)) r (hash_chains s)" "wheel_chains s1 = wheel_chains s"
    "dns_core s1 = dns_core s" "dns_rest s1 = dns_rest (s\<lparr>dns_active := dns_active s + 1, dns_collisions := k\<rparr>)"
  proof (rule hash_add_effect [OF q rep_outside(1) [OF rep new q]])
    show "HASH (rq_id q) < length (dns_hash s)" using rep HASH_less by (simp add: dns_rep_def)
    show "m \<noteq> r \<and> dns_heap s m \<noteq> None" if "dns_hash s ! HASH (rq_id q) = Some m" for m
      by (rule head) (rule rep_heads(1) [OF rep HASH_less that])
  qed (rule that)
  note rest1 = dns_rest_fields [OF s1(5), simplified]
  obtain q1 where q1: "dns_heap s1 r = Some q1" "bare q1 = bare q"
    using s1(4) q by (auto simp: dns_core_def fun_eq_iff dest!: spec [of _ r])
  have heads1: "m \<in> set rs" if "dns_wheel s1 ! dns_slot s1 = Some m" for m
  proof (rule rep_heads(2) [OF rep, of "dns_slot s"])
    show "dns_slot s < TIMEOUT" using rep by (simp add: dns_rep_def)
    then have "ch_head (wheel_chains s1) (dns_slot s) = Some m"
      using that rest1 rep by (simp add: wheel_chains_def dns_rep_def)
    then have "ch_head (wheel_chains s) (dns_slot s) = Some m" by (simp only: s1(3))
    then show "dns_wheel s ! dns_slot s = Some m" by (simp add: wheel_chains_def split: if_splits)
  qed
  have "\<exists>s'. pxdns_timeout_add r s1 = Some s' \<and>
    wheel_chains s' = chain_add (dns_slot s1) r (wheel_chains s1) \<and> hash_chains s' = hash_chains s1 \<and>
    dns_core s' = (dns_core s1)(r \<mapsto> (bare q1)\<lparr>rq_timeout_slot := dns_slot s1\<rparr>) \<and>
    dns_rest s' = dns_rest (s1\<lparr>dns_mask := dns_mask s1 OR push_bit (dns_slot s1) 1,
       dns_timer := dns_timer s1 \<or> dns_mask s1 = 0\<rparr>)"
  proof (rule timeout_add_effect [OF q1(1)])
    have "ch_pprev (wheel_chains s1) r = None"
      using s1(3) rep new by (simp add: dns_rep_def keyed_def)
    then show "rq_pprev_timeout q1 = None" using q1(1) by (simp add: wheel_chains_def)
    show "dns_slot s1 < length (dns_wheel s1)" using rest1 rep by (simp add: dns_rep_def)
    show "m \<noteq> r \<and> dns_heap s1 m \<noteq> None" if "dns_wheel s1 ! dns_slot s1 = Some m" for m
      using head [OF heads1 [OF that]] s1(4) by (metis dns_core_None)
  qed
  then obtain s2 where s2: "pxdns_timeout_add r s1 = Some s2"
    "wheel_chains s2 = chain_add (dns_slot s) r (wheel_chains s)" "hash_chains s2 = hash_chains s1"
    "dns_core s2 = (dns_core s)(r \<mapsto> (bare q)\<lparr>rq_timeout_slot := dns_slot s\<rparr>)"
    "dns_rest s2 = dns_rest (s1\<lparr>dns_mask := dns_mask s OR push_bit (dns_slot s) 1, dns_timer := dns_timer s \<or> dns_mask s = 0\<rparr>)"
    using rest1 s1 q1(2) by auto
  note rest2 = dns_rest_fields [OF s2(5), simplified]
  have keys: "hash_key s2 x = hash_key s x" "slot_key s2 x = slot_key s x" if "x \<noteq> r" for x
    using that by (simp_all add: hash_key_def slot_key_def s2(4))
  have key_r: "hash_key s2 r = HASH (rq_id q)" "slot_key s2 r = dns_slot s"
    by (simp_all add: hash_key_def slot_key_def s2(4))
  have others: "x \<noteq> r" if "x \<in> set rs" for x using that new by auto
  have "dns_rep s2 (r # rs)" unfolding dns_rep_def
  proof (intro conjI)
    show "distinct (r # rs)" using rep new by (simp add: dns_rep_def)
    have "dns_heap s2 x \<noteq> None" if "x = r \<or> dns_heap s x \<noteq> None" for x
      using that dns_core_None [of s2 x] dns_core_None [of s x] by (auto simp: s2(4) simp del: dns_core_None split: if_splits)
    then show "\<forall>x\<in>set (r # rs). dns_heap s2 x \<noteq> None \<and> slot_key s2 x < TIMEOUT"
      using rep keys key_r others by (auto simp: dns_rep_def)
    show "length (dns_wheel s2) = TIMEOUT" "length (dns_hash s2) = 2 ^ HASHSIZE" "dns_slot s2 < TIMEOUT"
      using rep rest1 rest2 by (simp_all add: dns_rep_def)
    have "keyed (hash_key s2) rs (hash_chains s)"
      by (rule keyed_cong) (use rep keys others in \<open>auto simp: dns_rep_def\<close>)
    from keyed_add [OF this _ new] show "keyed (hash_key s2) (r # rs) (hash_chains s2)"
      using rep key_r by (simp add: dns_rep_def s2(3) s1(2))
    have "keyed (slot_key s2) rs (wheel_chains s)"
      by (rule keyed_cong) (use rep keys others in \<open>auto simp: dns_rep_def\<close>)
    from keyed_add [OF this _ new] show "keyed (slot_key s2) (r # rs) (wheel_chains s2)"
      using rep key_r by (simp add: dns_rep_def s2(2))
    show "\<forall>k. bit (dns_mask s2) k \<longleftrightarrow> (\<exists>x\<in>set (r # rs). slot_key s2 x = k)"
      using rep rest2 keys key_r others bit_add_slot [of "dns_slot s" "dns_mask s"]
      by (auto simp: dns_rep_def TIMEOUT_def)
    show "dns_active s2 = length (r # rs)" using rep rest1 rest2 by (simp add: dns_rep_def)
  qed
  then show ?thesis
    using rep_mask_0 [OF rep] s1(1) s2(1,4) rest1 rest2 by (auto simp: pxdns_request_register_def dns_same_def)
qed

lemma keyed_near:
  assumes "keyed key rs c" "distinct rs" "r \<in> set rs" "ch_pprev c r = Some l"
  shows "(\<exists>a\<in>set rs. a \<noteq> r \<and> l = Next a) \<or> l = Head (key r)"
    and "ch_next c r = Some m \<Longrightarrow> m \<in> set rs \<and> m \<noteq> r"
proof -
  obtain as bs where split: "filter (\<lambda>x. key x = key r) rs = as @ r # bs"
    and l: "l = (if as = [] then Head (key r) else Next (last as))"
    and n: "ch_next c r = (case bs of [] \<Rightarrow> None | b # _ \<Rightarrow> Some b)"
    using keyed_member [OF assms(1,3)] assms(4) by (metis option.inject)
  have "distinct (as @ r # bs)" using assms(2) split by (metis distinct_filter)
  moreover have "set (as @ r # bs) \<subseteq> set rs" using split by (metis filter_is_subset)
  ultimately have "x \<in> set rs \<and> x \<noteq> r" if "x \<in> set as \<or> x \<in> set bs" for x
    using that by auto
  then show "(\<exists>a\<in>set rs. a \<noteq> r \<and> l = Next a) \<or> l = Head (key r)"
    "ch_next c r = Some m \<Longrightarrow> m \<in> set rs \<and> m \<noteq> r"
    using l n last_in_set [of as] by (auto split: if_splits list.splits)
qed

lemma rep_deregister:
  assumes rep: "dns_rep s rs" and r: "r \<in> set rs"
  shows "\<exists>s'. pxdns_request_deregister r s = Some s' \<and> dns_rep s' (remove1 r rs) \<and>
    dns_core s' = dns_core s \<and> dns_same s s' \<and> dns_timer s' = dns_timer s"
proof -
  obtain q where q: "dns_heap s r = Some q" "rq_timeout_slot q < TIMEOUT"
    "hash_key s r = HASH (rq_id q)" "slot_key s r = rq_timeout_slot q"
    by (rule rep_member [OF rep r])
  have dist: "distinct rs" and kh: "keyed (hash_key s) rs (hash_chains s)"
    and kw: "keyed (slot_key s) rs (wheel_chains s)"
    using rep by (simp_all add: dns_rep_def)
  have there: "dns_heap s x \<noteq> None" if "x \<in> set rs" for x using rep that by (auto simp: dns_rep_def)
  obtain lh where lh: "ch_pprev (hash_chains s) r = Some lh" using keyed_member [OF kh r] by metis
  obtain lw where lw: "ch_pprev (wheel_chains s) r = Some lw" using keyed_member [OF kw r] by metis
  have "\<exists>s'. pxdns_hash_del r s = Some s' \<and>
    hash_chains s' = chain_del lh r (hash_chains s) \<and> wheel_chains s' = wheel_chains s \<and>
    dns_core s' = dns_core s \<and> dns_rest s' = dns_rest (s\<lparr>dns_active := dns_active s - 1\<rparr>)"
  proof (rule hash_del_effect [OF q(1)])
    show "rq_pprev_hash q = Some lh" using lh q(1) by (simp add: hash_chains_def)
    show "link_ok (length (dns_hash s)) r s lh"
      using keyed_near(1) [OF kh dist r lh] there rep HASH_less [of "rq_id q"] q(3)
      by (auto simp: link_ok_def dns_rep_def)
    show "m \<noteq> r \<and> dns_heap s m \<noteq> None" if "rq_next_hash q = Some m" for m
      using keyed_near(2) [OF kh dist r lh, of m] there [of m] that q(1) by (simp add: hash_chains_def)
  qed
  then obtain s1 where s1: "pxdns_hash_del r s = Some s1"
    "hash_chains s1 = chain_del lh r (hash_chains s)" "wheel_chains s1 = wheel_chains s"
    "dns_core s1 = dns_core s" "dns_rest s1 = dns_rest (s\<lparr>dns_active := dns_active s - 1\<rparr>)"
    by blast
  note rest1 = dns_rest_fields [OF s1(5), simplified]
  have there1: "dns_heap s1 x \<noteq> None" if "x \<in> set rs" for x
    using there [OF that] s1(4) by (metis dns_core_None)
  obtain q1 where q1: "dns_heap s1 r = Some q1" "bare q1 = bare q"
    using s1(4) q(1) by (auto simp: dns_core_def fun_eq_iff dest!: spec [of _ r])
  have slot1: "rq_timeout_slot q1 = rq_timeout_slot q" using q1(2) bare_fields by metis
  have "\<exists>s'. pxdns_timeout_del r s1 = Some s' \<and>
    wheel_chains s' = chain_del lw r (wheel_chains s1) \<and> hash_chains s' = hash_chains s1 \<and>
    dns_core s' = dns_core s1 \<and>
    dns_rest s' = dns_rest (s1\<lparr>dns_mask :=
       (if ch_head (chain_del lw r (wheel_chains s1)) (rq_timeout_slot q1) = None
        then dns_mask s1 AND NOT (push_bit (rq_timeout_slot q1) 1) else dns_mask s1)\<rparr>)"
  proof (rule timeout_del_effect [OF q1(1)])
    have w1: "ch_pprev (wheel_chains s1) r = Some lw" "ch_next (wheel_chains s1) = ch_next (wheel_chains s)"
      using lw s1(3) by simp_all
    show "rq_pprev_timeout q1 = Some lw" using w1(1) q1(1) by (simp add: wheel_chains_def)
    show "link_ok (length (dns_wheel s1)) r s1 lw"
      using keyed_near(1) [OF kw dist r lw] there1 rep rest1 q(2,4)
      by (auto simp: link_ok_def dns_rep_def)
    show "m \<noteq> r \<and> dns_heap s1 m \<noteq> None" if "rq_next_timeout q1 = Some m" for m
    proof -
      have "ch_next (wheel_chains s1) r = Some m" using that q1(1) by (simp add: wheel_chains_def)
      then show ?thesis using keyed_near(2) [OF kw dist r lw, of m] there1 [of m] w1(2) by simp
    qed
    show "rq_timeout_slot q1 < TIMEOUT" "length (dns_wheel s1) = TIMEOUT"
      using slot1 q(2) rest1 rep by (simp_all add: dns_rep_def)
  qed
  then obtain s2 where s2: "pxdns_timeout_del r s1 = Some s2"
    "wheel_chains s2 = chain_del lw r (wheel_chains s)" "hash_chains s2 = chain_del lh r (hash_chains s)"
    "dns_core s2 = dns_core s"
    "dns_rest s2 = dns_rest (s1\<lparr>dns_mask :=
       (if ch_head (wheel_chains s2) (slot_key s r) = None
        then dns_mask s AND NOT (push_bit (slot_key s r) 1) else dns_mask s)\<rparr>)"
    using s1 rest1 slot1 q(4) by auto
  note rest2 = dns_rest_fields [OF s2(5), simplified]
  have keys: "hash_key s2 = hash_key s" "slot_key s2 = slot_key s"
    by (simp_all add: hash_key_def slot_key_def s2(4) fun_eq_iff)
  have wheel2: "keyed (slot_key s) (remove1 r rs) (wheel_chains s2)"
    unfolding s2(2) by (rule keyed_del [OF kw dist r lw])
  have empty: "ch_head (wheel_chains s2) (slot_key s r) = None \<longleftrightarrow>
      \<not> (\<exists>x\<in>set (remove1 r rs). slot_key s x = slot_key s r)"
  proof -
    have "ch_head (wheel_chains s2) (slot_key s r) = None \<longleftrightarrow>
        filter (\<lambda>x. slot_key s x = slot_key s r) (remove1 r rs) = []"
      unfolding keyed_head [OF wheel2] by (simp split: list.split)
    then show ?thesis by (simp add: filter_empty_conv)
  qed
  have "dns_rep s2 (remove1 r rs)" unfolding dns_rep_def keys
  proof (intro conjI)
    show "distinct (remove1 r rs)" using dist by simp
    have "dns_heap s2 x \<noteq> None" if "x \<in> set rs" for x
      using there [OF that] s2(4) by (metis dns_core_None)
    then show "\<forall>x\<in>set (remove1 r rs). dns_heap s2 x \<noteq> None \<and> slot_key s x < TIMEOUT"
      using rep dist by (auto simp: dns_rep_def)
    show "length (dns_wheel s2) = TIMEOUT" "length (dns_hash s2) = 2 ^ HASHSIZE" "dns_slot s2 < TIMEOUT"
      using rep rest1 rest2 by (simp_all add: dns_rep_def)
    show "keyed (hash_key s) (remove1 r rs) (hash_chains s2)"
      unfolding s2(3) by (rule keyed_del [OF kh dist r lh])
    show "keyed (slot_key s) (remove1 r rs) (wheel_chains s2)" by (rule wheel2)
    show "\<forall>k. bit (dns_mask s2) k \<longleftrightarrow> (\<exists>x\<in>set (remove1 r rs). slot_key s x = k)"
    proof
      fix k
      have old: "bit (dns_mask s) k \<longleftrightarrow> (\<exists>x\<in>set rs. slot_key s x = k)"
        using rep by (simp add: dns_rep_def)
      have mask: "dns_mask s2 = (if ch_head (wheel_chains s2) (slot_key s r) = None
          then dns_mask s AND NOT (push_bit (slot_key s r) 1) else dns_mask s)" using rest2 by simp
      show "bit (dns_mask s2) k \<longleftrightarrow> (\<exists>x\<in>set (remove1 r rs). slot_key s x = k)"
      proof (cases "k = slot_key s r")
        case True
        then show ?thesis
          using old empty r unfolding mask by (auto simp: bit_clear_slot simp del: push_bit_of_1)
      next
        case False
        then have "(\<exists>x\<in>set (remove1 r rs). slot_key s x = k) \<longleftrightarrow> (\<exists>x\<in>set rs. slot_key s x = k)"
          using dist by auto
        then show ?thesis using False old unfolding mask by (simp add: bit_clear_slot del: push_bit_of_1)
      qed
    qed
    show "dns_active s2 = length (remove1 r rs)"
      using rep rest1 rest2 r by (simp add: dns_rep_def length_remove1)
  qed
  then show ?thesis
    using s1(1) s2(1,4) rest1 rest2 by (auto simp: pxdns_request_deregister_def dns_same_def)
qed

end
