(* ===== verification/PxdnsSpec.thy ===== *)
theory PxdnsSpec
  imports PxdnsTable
begin

text \<open>
  What the DNS proxy promises, without its chains: a table of pending queries, newest first, each
  with the resolver it was last sent to and the slot of the clock at which its time is up.
\<close>

section \<open>The specification\<close>

record dns_entry =
  en_id :: u16
  en_generation :: nat
  en_residx :: nat
  en_client :: dns_client
  en_client_id :: u16
  en_slot :: nat
  en_query :: "u8 list"

record dns_spec =
  sp_sock6 :: bool
  sp_generation :: nat
  sp_resolvers :: "resolver list"
  sp_id :: u16
  sp_slot :: nat
  sp_table :: "(nat \<times> dns_entry) list"
  sp_cur :: "nat option"                         \<comment> \<open>registered and not yet sent\<close>
  sp_posted :: "(nat \<times> dns_client \<times> u8 list) list"   \<comment> \<open>replies on their way to the lwIP thread\<close>
  sp_log :: "dns_effect list"

definition first_taker :: "bool \<Rightarrow> resolver list \<Rightarrow> nat \<Rightarrow> (nat \<Rightarrow> int) \<Rightarrow> nat \<Rightarrow> nat option" where
  \<comment> \<open>the first resolver from index \<open>j\<close> on that takes the query\<close>
  "first_taker sock6 ras len nsent j =
     List.find (\<lambda>i. delivered sock6 (ras ! i) len (nsent i)) [j..<length ras]"

definition taker :: "dns_spec \<Rightarrow> (nat \<Rightarrow> int) \<Rightarrow> nat \<Rightarrow> dns_entry \<Rightarrow> nat option" where
  "taker sp nsent j e =
     (if en_generation e = sp_generation sp
      then first_taker (sp_sock6 sp) (sp_resolvers sp) (length (en_query e)) nsent j else None)"

definition sends :: "dns_spec \<Rightarrow> dns_entry \<Rightarrow> nat option \<Rightarrow> dns_effect list" where
  "sends sp e t = (case t of None \<Rightarrow> [] | Some j \<Rightarrow> [Sent (sp_resolvers sp ! j) (en_query e)])"

definition retry :: "dns_spec \<Rightarrow> (nat \<Rightarrow> nat \<Rightarrow> int) \<Rightarrow> nat \<times> dns_entry \<Rightarrow> (nat \<times> dns_entry) option" where
  "retry sp nsent x =
     (case x of (r, e) \<Rightarrow> map_option (\<lambda>j. (r, e\<lparr>en_residx := j\<rparr>)) (taker sp (nsent r) (Suc (en_residx e)) e))"

definition retry_log :: "dns_spec \<Rightarrow> (nat \<Rightarrow> nat \<Rightarrow> int) \<Rightarrow> nat \<times> dns_entry \<Rightarrow> dns_effect list" where
  "retry_log sp nsent x = (case x of (r, e) \<Rightarrow> sends sp e (taker sp (nsent r) (Suc (en_residx e)) e))"

definition tick :: "(nat \<Rightarrow> nat \<Rightarrow> int) \<Rightarrow> dns_spec \<Rightarrow> dns_spec" where
  "tick nsent sp =
     (let k = Suc (sp_slot sp) mod TIMEOUT; due = (\<lambda>x. en_slot (snd x) = k) in
      sp\<lparr>sp_slot := k,
         sp_table := List.map_filter (\<lambda>x. if due x then retry sp nsent x else Some x) (sp_table sp),
         sp_log := sp_log sp @ concat (map (retry_log sp nsent) (filter due (sp_table sp)))\<rparr>)"

datatype dns_action =
    Query dns_client "u8 list" "nat option"
  | Send "nat \<Rightarrow> int"
  | Tick "nat \<Rightarrow> nat \<Rightarrow> int"
  | Answer "u8 list" bool
  | Deliver
  | Nameservers "string \<Rightarrow> resolver option" "string list"

definition new_entry :: "dns_client \<Rightarrow> u8 list \<Rightarrow> dns_spec \<Rightarrow> dns_entry" where
  "new_entry client p sp =
     (let data = p @ replicate 7 0 in
      \<lparr>en_id = sp_id sp, en_generation = sp_generation sp, en_residx = 0, en_client = client,
       en_client_id = get_u16 data, en_slot = sp_slot sp,
       en_query = take (length p) (put_u16 (sp_id sp) data)\<rparr>)"

fun spec_step :: "dns_action \<Rightarrow> dns_spec \<Rightarrow> dns_spec" where
  "spec_step (Query client p mem) sp =
     (case mem of None \<Rightarrow> sp
      | Some r \<Rightarrow>
          if sp_resolvers sp = [] then sp
          else sp\<lparr>sp_table := (r, new_entry client p sp) # sp_table sp, sp_id := sp_id sp + 1, sp_cur := Some r\<rparr>)"
| "spec_step (Send nsent) sp =
     (case sp_cur sp of None \<Rightarrow> sp
      | Some r \<Rightarrow>
          (case map_of (sp_table sp) r of None \<Rightarrow> sp
           | Some e \<Rightarrow>
               let t = taker sp nsent 0 e in
               sp\<lparr>sp_cur := None, sp_log := sp_log sp @ sends sp e t,
                  sp_table := List.map_filter
                    (\<lambda>(x, d). if x = r then map_option (\<lambda>j. (x, d\<lparr>en_residx := j\<rparr>)) t else Some (x, d)) (sp_table sp)\<rparr>))"
| "spec_step (Tick nsent) sp = tick nsent sp"
| "spec_step (Answer buf mem) sp =
     (if length buf < 12 then sp
      else case List.find (\<lambda>x. en_id (snd x) = get_u16 buf) (sp_table sp) of
        None \<Rightarrow> sp
      | Some (r, e) \<Rightarrow>
          sp\<lparr>sp_table := filter (\<lambda>x. fst x \<noteq> r) (sp_table sp),
             sp_posted := (if mem then sp_posted sp @ [(r, en_client e, put_u16 (en_client_id e) buf)] else sp_posted sp)\<rparr>)"
| "spec_step Deliver sp =
     (case sp_posted sp of [] \<Rightarrow> sp
      | (r, c, b) # xs \<Rightarrow> sp\<lparr>sp_posted := xs, sp_log := sp_log sp @ [Reply c b]\<rparr>)"
| "spec_step (Nameservers getaddrinfo names) sp =
     sp\<lparr>sp_generation := sp_generation sp + 1,
        sp_resolvers := filter (\<lambda>a. delivered (sp_sock6 sp) a 0 0) (List.map_filter getaddrinfo names)\<rparr>"

section \<open>The proxy\<close>

text \<open>
  The lwIP thread runs queries, the timer, posted replies and changes of the nameservers; the poll
  manager's thread handles answers. The lock keeps the table's operations apart; between the
  registration of a query and its sending the poll manager's thread may run.
\<close>

record dns_sys =
  dy_dns :: pxdns
  dy_cur :: "nat option"
  dy_posted :: "nat list"

definition unsent_id :: "dns_sys \<Rightarrow> u16 \<Rightarrow> bool" where
  "unsent_id y i \<longleftrightarrow>
     (case dy_cur y of None \<Rightarrow> False
      | Some r \<Rightarrow> (case dns_heap (dy_dns y) r of None \<Rightarrow> False | Some q \<Rightarrow> rq_id q = i))"

text \<open>\<open>calloc\<close> gives memory that is not in use; nobody answers a query that has not been sent.\<close>

fun dns_enabled :: "dns_action \<Rightarrow> dns_sys \<Rightarrow> bool" where
  "dns_enabled (Query _ _ mem) y \<longleftrightarrow>
     dy_cur y = None \<and> (case mem of None \<Rightarrow> True | Some r \<Rightarrow> dns_heap (dy_dns y) r = None)"
| "dns_enabled (Send _) y \<longleftrightarrow> dy_cur y \<noteq> None"
| "dns_enabled (Tick _) y \<longleftrightarrow> dy_cur y = None \<and> dns_timer (dy_dns y)"
| "dns_enabled (Answer buf _) y \<longleftrightarrow> \<not> (length buf \<ge> 12 \<and> unsent_id y (get_u16 buf))"
| "dns_enabled Deliver y \<longleftrightarrow> dy_cur y = None \<and> dy_posted y \<noteq> []"
| "dns_enabled (Nameservers _ _) y \<longleftrightarrow> dy_cur y = None"

fun dns_run :: "dns_action \<Rightarrow> dns_sys \<Rightarrow> dns_sys option" where
  "dns_run (Query client p mem) y = do {
     (req, s) \<leftarrow> pxdns_query_start client p mem (dy_dns y);
     Some (y\<lparr>dy_dns := s, dy_cur := req\<rparr>) }"
| "dns_run (Send nsent) y = do {
     r \<leftarrow> dy_cur y;
     (sent, s) \<leftarrow> pxdns_query_try nsent r (dy_dns y);
     s \<leftarrow> pxdns_query_end sent r s;
     Some (y\<lparr>dy_dns := s, dy_cur := None\<rparr>) }"
| "dns_run (Tick nsent) y = map_option (\<lambda>s. y\<lparr>dy_dns := s\<rparr>) (pxdns_timer nsent (dy_dns y))"
| "dns_run (Answer buf mem) y = do {
     (req, s) \<leftarrow> pxdns_pmgr_pump buf mem (dy_dns y);
     Some (y\<lparr>dy_dns := s, dy_posted := dy_posted y @ (case req of None \<Rightarrow> [] | Some r \<Rightarrow> [r])\<rparr>) }"
| "dns_run Deliver y =
     (case dy_posted y of [] \<Rightarrow> None
      | r # rs \<Rightarrow> map_option (\<lambda>s. y\<lparr>dy_dns := s, dy_posted := rs\<rparr>) (pxdns_pcb_reply r (dy_dns y)))"
| "dns_run (Nameservers getaddrinfo names) y =
     Some (y\<lparr>dy_dns := pxdns_create_resolver_sockaddrs getaddrinfo names (dy_dns y)\<rparr>)"

text \<open>How the proxy's state represents one of the specification.\<close>

definition entry_of :: "request \<Rightarrow> dns_entry" where
  "entry_of q =
     \<lparr>en_id = rq_id q, en_generation = rq_generation q, en_residx = rq_residx q, en_client = rq_client q,
      en_client_id = rq_client_id q, en_slot = rq_timeout_slot q, en_query = take (rq_size q) (rq_data q)\<rparr>"

definition holds_entry :: "pxdns \<Rightarrow> nat \<times> dns_entry \<Rightarrow> bool" where
  "holds_entry s x \<longleftrightarrow>
     (\<exists>q. dns_heap s (fst x) = Some q \<and> entry_of q = snd x \<and> rq_size q \<le> length (rq_data q) \<and>
       (rq_generation q = dns_generation s \<longrightarrow> rq_residx q < length (dns_resolvers s)))"

definition holds_reply :: "pxdns \<Rightarrow> nat \<times> dns_client \<times> u8 list \<Rightarrow> bool" where
  "holds_reply s x \<longleftrightarrow>
     (case x of (r, c, b) \<Rightarrow> \<exists>q. dns_heap s r = Some q \<and> rq_client q = c \<and> rq_reply q = Some b)"

definition dns_abs :: "dns_sys \<Rightarrow> dns_spec \<Rightarrow> bool" where
  "dns_abs y sp \<longleftrightarrow>
     (let s = dy_dns y; rs = map fst (sp_table sp); ps = map fst (sp_posted sp) in
      dns_sock6 s = sp_sock6 sp \<and> dns_generation s = sp_generation sp \<and> dns_resolvers s = sp_resolvers sp \<and>
      dns_id s = sp_id sp \<and> dns_slot s = sp_slot sp \<and> dns_log s = sp_log sp \<and>
      dns_rep s rs \<and> (\<forall>x\<in>set (sp_table sp). holds_entry s x) \<and>
      dy_posted y = ps \<and> (\<forall>x\<in>set (sp_posted sp). holds_reply s x) \<and>
      distinct (rs @ ps) \<and> dom (dns_heap s) = set (rs @ ps) \<and>
      (rs \<noteq> [] \<longrightarrow> dns_timer s) \<and> dy_cur y = sp_cur sp \<and>
      (\<forall>r. sp_cur sp = Some r \<longrightarrow>
         (\<exists>e. (r, e) \<in> set (sp_table sp) \<and> en_generation e = sp_generation sp \<and> en_residx e = 0)))"

end
