(* ===== verification/PxdnsRefine.thy ===== *)
theory PxdnsRefine
  imports PxdnsSpec
begin

text \<open>
  The proxy implements its specification: each operation on the chains does to the table what the
  specification says, so every run of the two threads is one of the specification.
\<close>

section \<open>Chains under operations that leave them alone\<close>

lemma rep_same:
  assumes "dns_rep s rs" "dns_wheel s' = dns_wheel s" "dns_hash s' = dns_hash s" "dns_slot s' < TIMEOUT"
    "dns_mask s' = dns_mask s" "dns_active s' = dns_active s"
    and mem: "\<And>r q. r \<in> set rs \<Longrightarrow> dns_heap s r = Some q \<Longrightarrow>
      \<exists>q'. dns_heap s' r = Some q' \<and> rq_next_hash q' = rq_next_hash q \<and> rq_pprev_hash q' = rq_pprev_hash q \<and>
        rq_next_timeout q' = rq_next_timeout q \<and> rq_pprev_timeout q' = rq_pprev_timeout q \<and>
        rq_id q' = rq_id q \<and> rq_timeout_slot q' = rq_timeout_slot q"
    and out: "\<And>r q. r \<notin> set rs \<Longrightarrow> dns_heap s' r = Some q \<Longrightarrow> rq_pprev_hash q = None \<and> rq_pprev_timeout q = None"
  shows "dns_rep s' rs"
proof -
  have keys: "hash_key s' r = hash_key s r" "slot_key s' r = slot_key s r" if "r \<in> set rs" for r
    using mem [OF that] assms(1) that by (force simp: dns_rep_def hash_key_def slot_key_def dns_core_def)+
  have there: "dns_heap s' r \<noteq> None" if "r \<in> set rs" for r
    using mem [OF that] assms(1) that by (force simp: dns_rep_def)
  have "keyed (hash_key s) rs (hash_chains s')"
  proof (rule keyed_same [of _ _ "hash_chains s"])
    show "ch_next (hash_chains s') r = ch_next (hash_chains s) r \<and> ch_pprev (hash_chains s') r = ch_pprev (hash_chains s) r"
      if "r \<in> set rs" for r
      using mem [OF that] assms(1) that by (force simp: hash_chains_def dns_rep_def)
    show "ch_pprev (hash_chains s') r = None" if "r \<notin> set rs" for r
      using out [OF that] by (cases "dns_heap s' r") (auto simp: hash_chains_def)
  qed (use assms(1,3) in \<open>auto simp: dns_rep_def hash_chains_def\<close>)
  moreover have "keyed (slot_key s) rs (wheel_chains s')"
  proof (rule keyed_same [of _ _ "wheel_chains s"])
    show "ch_next (wheel_chains s') r = ch_next (wheel_chains s) r \<and> ch_pprev (wheel_chains s') r = ch_pprev (wheel_chains s) r"
      if "r \<in> set rs" for r
      using mem [OF that] assms(1) that by (force simp: wheel_chains_def dns_rep_def)
    show "ch_pprev (wheel_chains s') r = None" if "r \<notin> set rs" for r
      using out [OF that] by (cases "dns_heap s' r") (auto simp: wheel_chains_def)
  qed (use assms(1,2) in \<open>auto simp: dns_rep_def wheel_chains_def\<close>)
  ultimately show ?thesis
    using assms(1-6) there keys by (auto simp: dns_rep_def intro: keyed_cong [OF _ keys(1)] keyed_cong [OF _ keys(2)])
qed

lemma rep_free:
  assumes rep: "dns_rep s rs" and new: "r \<notin> set rs" and q: "dns_heap s r = Some q"
  shows "pxdns_request_free r s = Some (s\<lparr>dns_heap := (dns_heap s)(r := None)\<rparr>)"
    and "dns_rep (s\<lparr>dns_heap := (dns_heap s)(r := None)\<rparr>) rs"
proof -
  show "pxdns_request_free r s = Some (s\<lparr>dns_heap := (dns_heap s)(r := None)\<rparr>)"
    using rep_outside [OF rep new q] q by (simp add: pxdns_request_free_def)
  show "dns_rep (s\<lparr>dns_heap := (dns_heap s)(r := None)\<rparr>) rs"
    by (rule rep_same [OF rep])
      (use rep new rep_outside [OF rep] in \<open>auto simp: dns_rep_def split: if_splits\<close>)
qed

lemma rep_set_residx:
  assumes rep: "dns_rep s rs" and q: "dns_heap s r = Some q"
  shows "dns_rep (s\<lparr>dns_heap := (dns_heap s)(r \<mapsto> q\<lparr>rq_residx := j\<rparr>), dns_log := l\<rparr>) rs"
  by (rule rep_same [OF rep])
    (use q rep rep_outside [OF rep] in \<open>auto simp: dns_rep_def split: if_splits\<close>)

section \<open>Sending\<close>

lemma first_taker_Cons:
  "j < length ras \<Longrightarrow> first_taker sock6 ras len nsent j =
     (if delivered sock6 (ras ! j) len (nsent j) then Some j else first_taker sock6 ras len nsent (Suc j))"
  by (simp add: first_taker_def upt_conv_Cons)

lemma first_taker_end: "\<not> j < length ras \<Longrightarrow> first_taker sock6 ras len nsent j = None"
  by (simp add: first_taker_def)

lemma first_taker_bound: "first_taker sock6 ras len nsent j = Some i \<Longrightarrow> j \<le> i \<and> i < length ras"
  by (auto simp: first_taker_def find_Some_iff)

definition sent_to :: "nat \<Rightarrow> request \<Rightarrow> nat option \<Rightarrow> pxdns \<Rightarrow> bool \<times> pxdns" where
  "sent_to r q t s =
     (case t of
        None \<Rightarrow> (False, s\<lparr>dns_heap := (dns_heap s)(r \<mapsto> q\<lparr>rq_residx := length (dns_resolvers s)\<rparr>)\<rparr>)
      | Some j \<Rightarrow>
          (True, s\<lparr>dns_heap := (dns_heap s)(r \<mapsto> q\<lparr>rq_residx := j\<rparr>),
                   dns_log := dns_log s @ [Sent (dns_resolvers s ! j) (take (rq_size q) (rq_data q))]\<rparr>))"

lemma rexmit_loop_sends:
  assumes "dns_heap s r = Some q" "rq_generation q = dns_generation s" "rq_residx q < length (dns_resolvers s)"
  shows "rexmit_loop nsent r s =
    Some (sent_to r q (first_taker (dns_sock6 s) (dns_resolvers s) (rq_size q) nsent (Suc (rq_residx q))) s)"
  using assms
proof (induction "length (dns_resolvers s) - rq_residx q" arbitrary: s q)
  case 0
  then show ?case by simp
next
  case (Suc n)
  let ?j = "Suc (rq_residx q)"
  let ?q = "q\<lparr>rq_residx := ?j\<rparr>" and ?s = "s\<lparr>dns_heap := (dns_heap s)(r \<mapsto> q\<lparr>rq_residx := ?j\<rparr>)\<rparr>"
  show ?case
  proof (cases "?j = length (dns_resolvers s)")
    case True
    then show ?thesis
      using Suc.prems by (subst rexmit_loop.simps) (simp add: with_req_def sent_to_def first_taker_end)
  next
    case False
    then have j: "?j < length (dns_resolvers s)" using Suc.prems by simp
    show ?thesis
    proof (cases "delivered (dns_sock6 s) (dns_resolvers s ! ?j) (rq_size q) (nsent ?j)")
      case True
      then show ?thesis
        using Suc.prems j
        by (subst rexmit_loop.simps)
          (simp add: with_req_def sent_to_def first_taker_Cons pxdns_forward_outbound_def Let_def)
    next
      case no: False
      have "rexmit_loop nsent r s = rexmit_loop nsent r ?s"
        using Suc.prems j no
        by (subst rexmit_loop.simps) (simp add: with_req_def pxdns_forward_outbound_def Let_def)
      also have "\<dots> = Some (sent_to r ?q (first_taker (dns_sock6 s) (dns_resolvers s) (rq_size q) nsent (Suc ?j)) ?s)"
        using Suc.hyps(1) [of ?s ?q] Suc.hyps(2) Suc.prems j by simp
      finally show ?thesis using no j by (simp add: sent_to_def first_taker_Cons split: option.split)
    qed
  qed
qed

lemma rexmit_sends:
  assumes "dns_heap s r = Some q" "rq_generation q = dns_generation s \<Longrightarrow> rq_residx q < length (dns_resolvers s)"
  shows "pxdns_rexmit nsent r s = Some
    (if rq_generation q = dns_generation s
     then sent_to r q (first_taker (dns_sock6 s) (dns_resolvers s) (rq_size q) nsent (Suc (rq_residx q))) s
     else (False, s))"
  using assms by (simp add: pxdns_rexmit_def rexmit_loop_sends)

lemma try_sends:
  assumes "dns_heap s r = Some q" "rq_generation q = dns_generation s" "rq_residx q = 0" "dns_resolvers s \<noteq> []"
  shows "pxdns_query_try nsent r s =
    Some (sent_to r q (first_taker (dns_sock6 s) (dns_resolvers s) (rq_size q) nsent 0) s)"
proof -
  have n: "0 < length (dns_resolvers s)" using assms(4) by simp
  have id: "q\<lparr>rq_residx := 0\<rparr> = q" using assms(3) by (cases q) simp
  show ?thesis
    using assms n rexmit_sends [OF assms(1), of nsent] fun_upd_idem [of "dns_heap s" r "Some q"]
    by (auto simp: pxdns_query_try_def pxdns_forward_outbound_def Let_def first_taker_Cons sent_to_def id)
qed

section \<open>The table\<close>

definition dns_tab :: "pxdns \<Rightarrow> (nat \<times> dns_entry) list \<Rightarrow> bool" where
  "dns_tab s tab \<longleftrightarrow> dns_rep s (map fst tab) \<and> (\<forall>x\<in>set tab. holds_entry s x)"

definition dns_agree :: "pxdns \<Rightarrow> dns_spec \<Rightarrow> bool" where
  "dns_agree s sp \<longleftrightarrow>
     dns_sock6 s = sp_sock6 sp \<and> dns_generation s = sp_generation sp \<and> dns_resolvers s = sp_resolvers sp \<and>
     dns_id s = sp_id sp"

text \<open>The memory of requests in the table is that of the table's entries; the other is left alone.\<close>

definition dns_freed :: "pxdns \<Rightarrow> (nat \<times> dns_entry) list \<Rightarrow> pxdns \<Rightarrow> (nat \<times> dns_entry) list \<Rightarrow> bool" where
  "dns_freed s tab s' tab' \<longleftrightarrow>
     (\<forall>x. x \<notin> fst ` set tab \<longrightarrow> dns_core s' x = dns_core s x) \<and>
     (\<forall>x\<in>fst ` set tab. dns_heap s' x \<noteq> None \<longrightarrow> x \<in> fst ` set tab') \<and> fst ` set tab' \<subseteq> fst ` set tab"

lemma dns_freed_refl: "dns_freed s tab s tab" by (simp add: dns_freed_def)

lemma dns_freed_trans:
  assumes "dns_freed s tab s1 tab1" "dns_freed s1 tab1 s2 tab2"
  shows "dns_freed s tab s2 tab2"
  using assms dns_core_None [of s1] dns_core_None [of s2]
  unfolding dns_freed_def by (metis (no_types, lifting) subset_iff)

lemma entry_bare [simp]: "entry_of (bare q) = entry_of q"
  by (simp add: entry_of_def)

lemma holds_entry_core:
  "holds_entry s x \<longleftrightarrow>
     (\<exists>q. dns_core s (fst x) = Some q \<and> entry_of q = snd x \<and> rq_size q \<le> length (rq_data q) \<and>
       (rq_generation q = dns_generation s \<longrightarrow> rq_residx q < length (dns_resolvers s)))"
  unfolding holds_entry_def dns_core_def by (cases "dns_heap s (fst x)") auto

lemma holds_entry_cong:
  "dns_core s' (fst x) = dns_core s (fst x) \<Longrightarrow> dns_generation s' = dns_generation s \<Longrightarrow>
     dns_resolvers s' = dns_resolvers s \<Longrightarrow> holds_entry s' x = holds_entry s x"
  by (simp add: holds_entry_core)

lemma rep_expired: "dns_rep s rs \<Longrightarrow> dns_rep (s\<lparr>dns_expired := k\<rparr>) rs"
  by (rule rep_same, assumption) (use rep_outside in \<open>auto simp: dns_rep_def\<close>)

lemma rep_deregister_free:
  assumes "dns_rep s rs" "r \<in> set rs"
  shows "\<exists>s'. (do { s \<leftarrow> pxdns_request_deregister r s; pxdns_request_free r (s\<lparr>dns_expired := f s\<rparr>) }) = Some s' \<and>
    dns_rep s' (remove1 r rs) \<and> dns_core s' = (dns_core s)(r := None) \<and> dns_same s s' \<and> dns_timer s' = dns_timer s"
proof -
  obtain s1 where s1: "pxdns_request_deregister r s = Some s1" "dns_rep s1 (remove1 r rs)"
    "dns_core s1 = dns_core s" "dns_same s s1" "dns_timer s1 = dns_timer s"
    using rep_deregister [OF assms] by blast
  let ?s = "s1\<lparr>dns_expired := f s1\<rparr>"
  have rep: "dns_rep ?s (remove1 r rs)" by (rule rep_expired) (rule s1(2))
  have "dns_heap s r \<noteq> None" using assms by (auto simp: dns_rep_def)
  then have "dns_heap s1 r \<noteq> None" using s1(3) by (metis dns_core_None)
  then obtain q where q: "dns_heap ?s r = Some q" by auto
  have new: "r \<notin> set (remove1 r rs)" using assms(1) by (simp add: dns_rep_def)
  show ?thesis
    using rep_free [OF rep new q] s1
    by (auto simp: dns_core_def dns_same_def fun_eq_iff)
qed

lemma sent_to_fields:
  assumes "dns_heap s r = Some q" "sent_to r q t s = (ok, s')"
  shows "dns_rep s rs \<Longrightarrow> dns_rep s' rs"
    and "x \<noteq> r \<Longrightarrow> dns_core s' x = dns_core s x"
    and "dns_agree s' sp = dns_agree s sp" "dns_slot s' = dns_slot s" "dns_timer s' = dns_timer s"
    and "ok \<longleftrightarrow> t \<noteq> None"
    and "dns_heap s' r = Some (q\<lparr>rq_residx := (case t of None \<Rightarrow> length (dns_resolvers s) | Some j \<Rightarrow> j)\<rparr>)"
    and "dns_log s' = dns_log s @ (case t of None \<Rightarrow> [] | Some j \<Rightarrow>
      [Sent (dns_resolvers s ! j) (take (rq_size q) (rq_data q))])"
  using assms rep_set_residx [of s rs r q, where j = "length (dns_resolvers s)" and l = "dns_log s"]
    rep_set_residx [of s rs r q, where j = "the t" and l = "dns_log s'"]
  by (auto simp: sent_to_def dns_core_def dns_agree_def split: option.splits)

lemma entry_residx [simp]: "entry_of (q\<lparr>rq_residx := j\<rparr>) = (entry_of q)\<lparr>en_residx := j\<rparr>"
  by (simp add: entry_of_def)

lemma entry_fields:
  assumes "entry_of q = e"
  shows "en_id e = rq_id q" "en_generation e = rq_generation q" "en_residx e = rq_residx q"
    "en_client e = rq_client q" "en_client_id e = rq_client_id q" "en_slot e = rq_timeout_slot q"
    "en_query e = take (rq_size q) (rq_data q)"
  using assms by (auto simp: entry_of_def)

lemma tab_entry:
  assumes "dns_tab s tab" "(r, e) \<in> set tab"
  obtains q where "dns_heap s r = Some q" "entry_of q = e" "rq_size q = length (en_query e)"
    "rq_generation q = dns_generation s \<Longrightarrow> rq_residx q < length (dns_resolvers s)"
  using assms by (fastforce simp: dns_tab_def holds_entry_def entry_of_def)

lemma tab_distinct: "dns_tab s tab \<Longrightarrow> distinct (map fst tab)"
  by (simp add: dns_tab_def dns_rep_def)

lemma apart_fst:
  "distinct (map fst (A @ (r, e) # B)) \<Longrightarrow> x \<in> set A \<or> x \<in> set B \<Longrightarrow> fst x \<noteq> r"
  by (force simp: image_iff)

text \<open>One request is sent on, or dropped.\<close>

abbreviation opt_list :: "'a option \<Rightarrow> 'a list" where
  "opt_list t \<equiv> (case t of None \<Rightarrow> [] | Some x \<Rightarrow> [x])"

lemma tab_move:
  assumes tab: "dns_tab s (A @ (r, e) # B)" and q: "dns_heap s r = Some q" "entry_of q = e"
      "rq_size q = length (en_query e)"
    and t: "sent_to r q t s = (ok, s')" and bound: "\<And>j. t = Some j \<Longrightarrow> j < length (dns_resolvers s)"
  shows "t = Some j \<Longrightarrow> dns_tab s' (A @ (r, e\<lparr>en_residx := j\<rparr>) # B)"
    and "dns_freed s (A @ (r, e) # B) s' (A @ (r, e\<lparr>en_residx := j\<rparr>) # B)"
proof -
  note f = sent_to_fields [OF q(1) t]
  have rest: "dns_generation s' = dns_generation s \<and> dns_resolvers s' = dns_resolvers s"
    using t by (auto simp: sent_to_def split: option.splits)
  have dist: "distinct (map fst (A @ (r, e) # B))" by (rule tab_distinct [OF tab])
  have others: "holds_entry s' x" if "x \<in> set A \<or> x \<in> set B" for x
  proof -
    have "fst x \<noteq> r" by (rule apart_fst [OF dist that])
    then have "holds_entry s' x = holds_entry s x" using f(2) rest by (intro holds_entry_cong) auto
    then show ?thesis using tab that by (auto simp: dns_tab_def)
  qed
  have "rq_size q \<le> length (rq_data q)" using q(3) entry_fields(7) [OF q(2)] by (simp add: min_def split: if_splits)
  then have "holds_entry s' (r, e\<lparr>en_residx := j\<rparr>)" if "t = Some j"
    using f(7) bound that rest q by (auto simp: holds_entry_def)
  moreover have "dns_rep s' (map fst (A @ (r, e) # B))" using f(1) tab by (simp add: dns_tab_def)
  ultimately show "t = Some j \<Longrightarrow> dns_tab s' (A @ (r, e\<lparr>en_residx := j\<rparr>) # B)"
    using others by (auto simp: dns_tab_def)
  show "dns_freed s (A @ (r, e) # B) s' (A @ (r, e\<lparr>en_residx := j\<rparr>) # B)"
    using f(2) by (auto simp: dns_freed_def)
qed

lemma tab_drop:
  assumes rep: "dns_rep s (map fst (A @ (r, e) # B))" and ent: "\<And>x. x \<in> set A \<or> x \<in> set B \<Longrightarrow> holds_entry s x"
  shows "\<exists>s'. (do { s \<leftarrow> pxdns_request_deregister r s; pxdns_request_free r (s\<lparr>dns_expired := f s\<rparr>) }) = Some s' \<and>
    dns_tab s' (A @ B) \<and> dns_same s s' \<and> dns_timer s' = dns_timer s \<and> dns_freed s (A @ (r, e) # B) s' (A @ B)"
proof -
  obtain s' where s': "(do { s \<leftarrow> pxdns_request_deregister r s; pxdns_request_free r (s\<lparr>dns_expired := f s\<rparr>) }) = Some s'"
    "dns_rep s' (remove1 r (map fst (A @ (r, e) # B)))" "dns_core s' = (dns_core s)(r := None)"
    "dns_same s s'" "dns_timer s' = dns_timer s"
    using rep_deregister_free [OF rep, of r f] by auto
  have dist: "distinct (map fst (A @ (r, e) # B))" using rep by (simp add: dns_rep_def)
  then have "remove1 r (map fst (A @ (r, e) # B)) = map fst (A @ B)" by (simp add: remove1_append)
  moreover have "holds_entry s' x" if "x \<in> set A \<or> x \<in> set B" for x
  proof -
    have "fst x \<noteq> r" by (rule apart_fst [OF dist that])
    then have "holds_entry s' x = holds_entry s x"
      using s'(3,4) by (intro holds_entry_cong) (auto simp: dns_same_def)
    then show ?thesis using ent that by auto
  qed
  moreover have "dns_heap s' r = None" using s'(3) dns_core_None [of s' r] by simp
  then have "dns_freed s (A @ (r, e) # B) s' (A @ B)"
    using s'(3) by (auto simp: dns_freed_def)
  ultimately show ?thesis using s' by (auto simp: dns_tab_def)
qed

lemma expire_ok:
  assumes tab: "dns_tab s (A @ (r, e) # B)" and agree: "dns_agree s sp"
  shows "\<exists>s'. pxdns_expire (nsent r) r s = Some s' \<and> dns_agree s' sp \<and> dns_slot s' = dns_slot s \<and>
    dns_timer s' = dns_timer s \<and> dns_log s' = dns_log s @ retry_log sp nsent (r, e) \<and>
    dns_tab s' (A @ opt_list (retry sp nsent (r, e)) @ B) \<and>
    dns_freed s (A @ (r, e) # B) s' (A @ opt_list (retry sp nsent (r, e)) @ B)"
proof -
  obtain q where q: "dns_heap s r = Some q" "entry_of q = e" "rq_size q = length (en_query e)"
    "rq_generation q = dns_generation s \<Longrightarrow> rq_residx q < length (dns_resolvers s)"
    by (rule tab_entry [OF tab, of r e]) auto
  let ?t = "taker sp (nsent r) (Suc (en_residx e)) e"
  obtain ok s1 where rexmit: "pxdns_rexmit (nsent r) r s = Some (ok, s1)" and ok: "ok \<longleftrightarrow> ?t \<noteq> None"
    and s1: "ok \<Longrightarrow> sent_to r q ?t s = (ok, s1)" "\<not> ok \<Longrightarrow> s1 = s \<or> sent_to r q ?t s = (ok, s1)"
  proof -
    obtain ok' s2 where st: "sent_to r q ?t s = (ok', s2)" by fastforce
    note sent_to_fields(6) [OF q(1) st]
    moreover have "?t = (if rq_generation q = dns_generation s
      then first_taker (dns_sock6 s) (dns_resolvers s) (rq_size q) (nsent r) (Suc (rq_residx q)) else None)"
      using agree q(3) entry_fields [OF q(2)] by (simp add: taker_def dns_agree_def)
    ultimately show thesis
      using that rexmit_sends [OF q(1,4), of "nsent r"] st by (cases "rq_generation q = dns_generation s") auto
  qed
  have res: "dns_resolvers s = sp_resolvers sp" using agree by (simp add: dns_agree_def)
  have query: "take (rq_size q) (rq_data q) = en_query e" using q(2) by (auto simp: entry_of_def)
  show ?thesis
  proof (cases ?t)
    case (Some j)
    then have st: "sent_to r q ?t s = (True, s1)" "ok" using ok s1(1) by auto
    have "j < length (dns_resolvers s)"
      using Some res first_taker_bound by (auto simp: taker_def split: if_splits)
    then have "dns_tab s1 (A @ (r, e\<lparr>en_residx := j\<rparr>) # B)"
      "dns_freed s (A @ (r, e) # B) s1 (A @ (r, e\<lparr>en_residx := j\<rparr>) # B)"
      using tab_move [OF tab q(1-3) st(1)] Some by auto
    then show ?thesis
      using Some st sent_to_fields [OF q(1) st(1)] rexmit agree res query
      by (simp add: pxdns_expire_def retry_def retry_log_def sends_def)
  next
    case None
    then have no: "\<not> ok" using ok by simp
    have same: "dns_agree s1 sp" "dns_slot s1 = dns_slot s" "dns_timer s1 = dns_timer s" "dns_log s1 = dns_log s"
      "dns_rep s1 (map fst (A @ (r, e) # B))" "\<And>x. x \<noteq> r \<Longrightarrow> dns_core s1 x = dns_core s x"
      using s1(2) [OF no] sent_to_fields [OF q(1), of ?t ok s1] None agree tab by (auto simp: dns_tab_def)
    have gen: "dns_generation s1 = dns_generation s" "dns_resolvers s1 = dns_resolvers s"
      using same(1) agree by (simp_all add: dns_agree_def)
    have dist: "distinct (map fst (A @ (r, e) # B))" by (rule tab_distinct [OF tab])
    have ent: "holds_entry s1 x" if "x \<in> set A \<or> x \<in> set B" for x
    proof -
      have "fst x \<noteq> r" by (rule apart_fst [OF dist that])
      then have "holds_entry s1 x = holds_entry s x" using same(6) gen by (intro holds_entry_cong)
      then show ?thesis using tab that by (auto simp: dns_tab_def)
    qed
    obtain s2 where s2: "(do { s \<leftarrow> pxdns_request_deregister r s1;
        pxdns_request_free r (s\<lparr>dns_expired := dns_expired s + 1\<rparr>) }) = Some s2"
      "dns_tab s2 (A @ B)" "dns_same s1 s2" "dns_timer s2 = dns_timer s1" "dns_freed s1 (A @ (r, e) # B) s2 (A @ B)"
      using tab_drop [OF same(5) ent, of "\<lambda>s. dns_expired s + 1"] by auto
    have "dns_freed s (A @ (r, e) # B) s1 (A @ (r, e) # B)" using same(6) by (auto simp: dns_freed_def)
    then have "dns_freed s (A @ (r, e) # B) s2 (A @ B)" using s2(5) by (rule dns_freed_trans)
    moreover have "pxdns_expire (nsent r) r s = Some s2"
      using rexmit no s2(1) by (simp add: pxdns_expire_def pxdns_request_deregister_def)
    ultimately show ?thesis
      using None s2 same by (auto simp: retry_def retry_log_def sends_def dns_same_def dns_agree_def)
  qed
qed

section \<open>The timer\<close>

lemma map_filter_append: "List.map_filter f (xs @ ys) = List.map_filter f xs @ List.map_filter f ys"
  by (induction xs) (auto simp: map_filter_simps split: option.split)

lemma map_filter_cong: "(\<And>x. x \<in> set xs \<Longrightarrow> f x = g x) \<Longrightarrow> List.map_filter f xs = List.map_filter g xs"
  by (induction xs) (auto simp: map_filter_simps split: option.split)

lemma map_filter_Some: "(\<And>x. x \<in> set xs \<Longrightarrow> f x = Some x) \<Longrightarrow> List.map_filter f xs = xs"
  by (induction xs) (auto simp: map_filter_simps)

lemma filter_split:
  "filter P tab = pre @ x # xs \<Longrightarrow> \<exists>A B. tab = A @ x # B \<and> filter P A = pre \<and> filter P B = xs \<and> P x"
proof (induction tab arbitrary: pre)
  case (Cons t tab)
  show ?case
  proof (cases "P t \<and> pre = []")
    case True
    then show ?thesis using Cons.prems by (intro exI [of _ "[]"] exI [of _ tab]) auto
  next
    case False
    then have "filter P tab = (if P t then tl pre else pre) @ x # xs" using Cons.prems by (cases pre) auto
    from Cons.IH [OF this] obtain A B where
      "tab = A @ x # B" "filter P A = (if P t then tl pre else pre)" "filter P B = xs" "P x" by blast
    then show ?thesis
      using Cons.prems False by (intro exI [of _ "t # A"] exI [of _ B]) (cases pre; auto split: if_splits)
  qed
qed simp

lemma tab_wheel:
  assumes "dns_tab s tab"
  shows "filter (\<lambda>r. slot_key s r = k) (map fst tab) = map fst (filter (\<lambda>x. en_slot (snd x) = k) tab)"
    and "linked (wheel_chains s) (Head k) (map fst (filter (\<lambda>x. en_slot (snd x) = k) tab))"
proof -
  have "slot_key s (fst x) = en_slot (snd x)" if "x \<in> set tab" for x
  proof -
    have "holds_entry s x" using assms that by (simp add: dns_tab_def)
    then obtain q where "dns_core s (fst x) = Some q" "entry_of q = snd x" by (auto simp: holds_entry_core)
    then show ?thesis using entry_fields(6) [of q "snd x"] by (simp add: slot_key_def)
  qed
  then show eq: "filter (\<lambda>r. slot_key s r = k) (map fst tab) = map fst (filter (\<lambda>x. en_slot (snd x) = k) tab)"
    by (auto simp: filter_map intro!: arg_cong [of _ _ "map fst"] filter_cong)
  show "linked (wheel_chains s) (Head k) (map fst (filter (\<lambda>x. en_slot (snd x) = k) tab))"
    using assms by (simp add: dns_tab_def dns_rep_def keyed_def flip: eq)
qed

definition first_of :: "('a \<times> 'b) list \<Rightarrow> 'a option" where
  "first_of xs = (case xs of [] \<Rightarrow> None | x # _ \<Rightarrow> Some (fst x))"

lemma tab_next:
  assumes "dns_tab s tab" "filter (\<lambda>x. en_slot (snd x) = k) tab = pre @ (r, e) # xs" "dns_heap s r = Some q"
  shows "rq_next_timeout q = first_of xs"
proof -
  have "linked (wheel_chains s) (Head k) (map fst pre @ r # map fst xs)"
    using tab_wheel(2) [OF assms(1), of k] assms(2) by simp
  then have "ch_next (wheel_chains s) r = (case map fst xs of [] \<Rightarrow> None | b # _ \<Rightarrow> Some b)"
    by (rule linked_next)
  then show ?thesis using assms(3) by (simp add: wheel_chains_def first_of_def split: list.splits)
qed

lemma timer_walk_ok:
  assumes "dns_tab s tab" "dns_agree s sp" "filter (\<lambda>x. en_slot (snd x) = k) tab = pre @ xs"
  shows "\<exists>s'. timer_walk nsent (first_of xs) s = Some s' \<and> dns_agree s' sp \<and> dns_slot s' = dns_slot s \<and>
    dns_timer s' = dns_timer s \<and> dns_log s' = dns_log s @ concat (map (retry_log sp nsent) xs) \<and>
    dns_tab s' (List.map_filter (\<lambda>x. if x \<in> set xs then retry sp nsent x else Some x) tab) \<and>
    dns_freed s tab s' (List.map_filter (\<lambda>x. if x \<in> set xs then retry sp nsent x else Some x) tab)"
  using assms
proof (induction xs arbitrary: s tab pre)
  case Nil
  have "List.map_filter (\<lambda>x. if x \<in> set [] then retry sp nsent x else Some x) tab = tab"
    by (rule map_filter_Some) simp
  then show ?case
    using Nil by (subst timer_walk.simps) (simp add: first_of_def dns_freed_refl)
next
  case (Cons x xs)
  obtain r e where x: "x = (r, e)" by (cases x)
  obtain A B where tab: "tab = A @ (r, e) # B" and A: "filter (\<lambda>x. en_slot (snd x) = k) A = pre"
    and B: "filter (\<lambda>x. en_slot (snd x) = k) B = xs" and due: "en_slot e = k"
    using filter_split [OF Cons.prems(3) [unfolded x]] by auto
  obtain q where q: "dns_heap s r = Some q" by (rule tab_entry [OF Cons.prems(1), of r e]) (auto simp: tab)
  let ?o = "retry sp nsent (r, e)"
  obtain s1 where s1: "pxdns_expire (nsent r) r s = Some s1" "dns_agree s1 sp" "dns_slot s1 = dns_slot s"
    "dns_timer s1 = dns_timer s" "dns_log s1 = dns_log s @ retry_log sp nsent (r, e)"
    "dns_tab s1 (A @ opt_list ?o @ B)" "dns_freed s tab s1 (A @ opt_list ?o @ B)"
    using expire_ok [OF Cons.prems(1) [unfolded tab] Cons.prems(2), of nsent] by (auto simp: tab)
  have o_slot: "en_slot (snd y) = k \<and> fst y = r" if "?o = Some y" for y
    using that due by (auto simp: retry_def)
  have "filter (\<lambda>x. en_slot (snd x) = k) (opt_list ?o) = opt_list ?o"
    using o_slot by (cases ?o) auto
  then have "filter (\<lambda>x. en_slot (snd x) = k) (A @ opt_list ?o @ B) = (pre @ opt_list ?o) @ xs"
    by (simp add: A B)
  from Cons.IH [OF s1(6) s1(2) this] obtain s2 where s2: "timer_walk nsent (first_of xs) s1 = Some s2"
    "dns_agree s2 sp" "dns_slot s2 = dns_slot s1" "dns_timer s2 = dns_timer s1"
    "dns_log s2 = dns_log s1 @ concat (map (retry_log sp nsent) xs)"
    "dns_tab s2 (List.map_filter (\<lambda>x. if x \<in> set xs then retry sp nsent x else Some x) (A @ opt_list ?o @ B))"
    "dns_freed s1 (A @ opt_list ?o @ B) s2
       (List.map_filter (\<lambda>x. if x \<in> set xs then retry sp nsent x else Some x) (A @ opt_list ?o @ B))"
    by blast
  have dist: "distinct (map fst tab)" by (rule tab_distinct [OF Cons.prems(1)])
  have apart: "fst y \<noteq> r" if "y \<in> set A \<or> y \<in> set B" for y
    by (rule apart_fst [OF dist [unfolded tab] that])
  have xs_B: "set xs \<subseteq> set B" using B by auto
  have "List.map_filter (\<lambda>y. if y \<in> set xs then retry sp nsent y else Some y) (opt_list ?o) = opt_list ?o"
  proof (rule map_filter_Some)
    show "(if y \<in> set xs then retry sp nsent y else Some y) = Some y" if "y \<in> set (opt_list ?o)" for y
    proof -
      have "?o = Some y" using that by (auto split: option.splits)
      then have "fst y = r" using o_slot by blast
      then show ?thesis using apart [of y] xs_B by auto
    qed
  qed
  moreover have "List.map_filter (\<lambda>y. if y \<in> set xs then retry sp nsent y else Some y) C
      = List.map_filter (\<lambda>y. if y \<in> set (x # xs) then retry sp nsent y else Some y) C" if "set C \<subseteq> set A \<union> set B" for C
  proof (rule map_filter_cong)
    show "(if y \<in> set xs then retry sp nsent y else Some y) = (if y \<in> set (x # xs) then retry sp nsent y else Some y)"
      if "y \<in> set C" for y
    proof -
      have "y \<noteq> x" using apart [of y] \<open>set C \<subseteq> set A \<union> set B\<close> that x by auto
      then show ?thesis by simp
    qed
  qed
  ultimately have eq: "List.map_filter (\<lambda>x. if x \<in> set xs then retry sp nsent x else Some x) (A @ opt_list ?o @ B)
      = List.map_filter (\<lambda>y. if y \<in> set (x # xs) then retry sp nsent y else Some y) tab"
    unfolding tab x by (auto simp: map_filter_append map_filter_simps split: option.split)
  have "rq_next_timeout q = first_of xs"
    using tab_next [OF Cons.prems(1) _ q] Cons.prems(3) x by auto
  then have "timer_walk nsent (first_of (x # xs)) s = timer_walk nsent (first_of xs) s1"
    using q s1(1) x by (subst timer_walk.simps) (simp add: first_of_def)
  then show ?case
    using s1 s2 x dns_freed_trans [OF s1(7) s2(7)] by (simp add: eq)
qed

section \<open>Finding a request\<close>

lemma remove1_filter: "distinct (map fst tab) \<Longrightarrow> remove1 r (map fst tab) = map fst (filter (\<lambda>x. fst x \<noteq> r) tab)"
proof (induction tab)
  case (Cons x tab)
  have "\<forall>y\<in>set tab. fst y \<noteq> fst x" using Cons.prems by (metis distinct.simps(2) image_eqI list.map(2) list.set_map)
  then have "filter (\<lambda>y. fst y \<noteq> fst x) tab = tab" by (rule filter_True)
  then show ?case using Cons by auto
qed simp

lemma deregister_tab:
  assumes tab: "dns_tab s tab" and r: "(r, e) \<in> set tab"
  shows "\<exists>s'. pxdns_request_deregister r s = Some s' \<and> dns_tab s' (filter (\<lambda>x. fst x \<noteq> r) tab) \<and>
    dns_core s' = dns_core s \<and> dns_same s s' \<and> dns_timer s' = dns_timer s"
proof -
  have "r \<in> set (map fst tab)" using r by force
  then obtain s' where s': "pxdns_request_deregister r s = Some s'" "dns_rep s' (remove1 r (map fst tab))"
    "dns_core s' = dns_core s" "dns_same s s'" "dns_timer s' = dns_timer s"
    using rep_deregister tab by (metis dns_tab_def)
  moreover have "holds_entry s' x = holds_entry s x" for x
    by (rule holds_entry_cong) (use s' in \<open>auto simp: dns_same_def\<close>)
  ultimately show ?thesis
    using tab remove1_filter [OF tab_distinct [OF tab], of r] by (auto simp: dns_tab_def)
qed

lemma find_walk_finds:
  assumes "linked (hash_chains s) l (map fst xs)" "\<And>x. x \<in> set xs \<Longrightarrow> holds_entry s x"
  shows "find_walk i (dns_heap s) (link_val (hash_chains s) l) =
    Some (map_option fst (List.find (\<lambda>x. en_id (snd x) = i) xs))"
  using assms
proof (induction xs arbitrary: l)
  case Nil
  then show ?case by (subst find_walk.simps) simp
next
  case (Cons x xs)
  obtain q where q: "dns_heap s (fst x) = Some q" "entry_of q = snd x"
    using Cons.prems(2) [of x] by (auto simp: holds_entry_def)
  have "link_val (hash_chains s) (Next (fst x)) = rq_next_hash q" using q(1) by (simp add: hash_chains_def)
  then show ?case
    using Cons.prems Cons.IH [of "Next (fst x)"] q(1) entry_fields(1) [OF q(2)]
    by (subst find_walk.simps) simp
qed

lemma tab_hash:
  assumes "dns_tab s tab"
  shows "linked (hash_chains s) (Head b) (map fst (filter (\<lambda>x. HASH (en_id (snd x)) = b) tab))"
proof -
  have "hash_key s (fst x) = HASH (en_id (snd x))" if "x \<in> set tab" for x
  proof -
    have "holds_entry s x" using assms that by (simp add: dns_tab_def)
    then obtain q where "dns_core s (fst x) = Some q" "entry_of q = snd x" by (auto simp: holds_entry_core)
    then show ?thesis using entry_fields(1) [of q "snd x"] by (simp add: hash_key_def)
  qed
  then have "filter (\<lambda>r. hash_key s r = b) (map fst tab) = map fst (filter (\<lambda>x. HASH (en_id (snd x)) = b) tab)"
    by (auto simp: filter_map intro!: arg_cong [of _ _ "map fst"] filter_cong)
  moreover have "linked (hash_chains s) (Head b) (filter (\<lambda>r. hash_key s r = b) (map fst tab))"
    using assms by (simp add: dns_tab_def dns_rep_def keyed_def)
  ultimately show ?thesis by simp
qed

lemma find_filter: "(\<And>x. P x \<Longrightarrow> Q x) \<Longrightarrow> List.find P (filter Q xs) = List.find P xs"
  by (induction xs) auto

lemma request_find_ok:
  assumes tab: "dns_tab s tab"
  shows "\<exists>s'. pxdns_request_find i s = Some (map_option fst (List.find (\<lambda>x. en_id (snd x) = i) tab), s') \<and>
    dns_tab s' (case List.find (\<lambda>x. en_id (snd x) = i) tab of None \<Rightarrow> tab | Some y \<Rightarrow> filter (\<lambda>x. fst x \<noteq> fst y) tab) \<and>
    dns_core s' = dns_core s \<and> dns_same s s' \<and> dns_timer s' = dns_timer s"
proof -
  let ?xs = "filter (\<lambda>x. HASH (en_id (snd x)) = HASH i) tab"
  have "dns_hash s ! HASH i = link_val (hash_chains s) (Head (HASH i))"
    using tab HASH_less by (simp add: hash_chains_def dns_tab_def dns_rep_def)
  moreover have "find_walk i (dns_heap s) (link_val (hash_chains s) (Head (HASH i))) =
      Some (map_option fst (List.find (\<lambda>x. en_id (snd x) = i) ?xs))"
    by (rule find_walk_finds [OF tab_hash [OF tab]]) (use tab in \<open>auto simp: dns_tab_def\<close>)
  moreover have "List.find (\<lambda>x. en_id (snd x) = i) ?xs = List.find (\<lambda>x. en_id (snd x) = i) tab"
    by (rule find_filter) simp
  ultimately have walk: "find_walk i (dns_heap s) (dns_hash s ! HASH i) =
      Some (map_option fst (List.find (\<lambda>x. en_id (snd x) = i) tab))" by simp
  show ?thesis
  proof (cases "List.find (\<lambda>x. en_id (snd x) = i) tab")
    case None
    then show ?thesis using walk tab by (simp add: pxdns_request_find_def dns_same_def)
  next
    case (Some y)
    obtain r e where y: "y = (r, e)" by (cases y)
    with Some have "(r, e) \<in> set tab" by (auto simp: find_Some_iff)
    from deregister_tab [OF tab this] show ?thesis
      using walk Some y by (auto simp: pxdns_request_find_def)
  qed
qed

end
