(* ===== verification/PxdnsSim.thy ===== *)
theory PxdnsSim
  imports PxdnsRefine
begin

text \<open>
  The simulation: every enabled action of the DNS proxy's threads succeeds and takes a state that
  represents one of the specification to a state that represents the next.
\<close>

section \<open>Each action\<close>

lemma dns_abs_tab:
  "dns_abs y sp \<longleftrightarrow>
     dns_agree (dy_dns y) sp \<and> dns_slot (dy_dns y) = sp_slot sp \<and> dns_log (dy_dns y) = sp_log sp \<and>
     dns_tab (dy_dns y) (sp_table sp) \<and> dy_posted y = map fst (sp_posted sp) \<and>
     (\<forall>x\<in>set (sp_posted sp). holds_reply (dy_dns y) x) \<and>
     distinct (map fst (sp_table sp) @ map fst (sp_posted sp)) \<and>
     dom (dns_heap (dy_dns y)) = fst ` set (sp_table sp) \<union> fst ` set (sp_posted sp) \<and>
     (sp_table sp \<noteq> [] \<longrightarrow> dns_timer (dy_dns y)) \<and> dy_cur y = sp_cur sp \<and>
     (\<forall>r. sp_cur sp = Some r \<longrightarrow>
        (\<exists>e. (r, e) \<in> set (sp_table sp) \<and> en_generation e = sp_generation sp \<and> en_residx e = 0))"
  by (auto simp: dns_abs_def dns_agree_def dns_tab_def Let_def)

lemma dns_absI:
  assumes "dns_agree (dy_dns y) sp" "dns_slot (dy_dns y) = sp_slot sp" "dns_log (dy_dns y) = sp_log sp"
    "dns_tab (dy_dns y) (sp_table sp)" "dy_posted y = map fst (sp_posted sp)"
    "\<And>x. x \<in> set (sp_posted sp) \<Longrightarrow> holds_reply (dy_dns y) x"
    "distinct (map fst (sp_table sp) @ map fst (sp_posted sp))"
    "dom (dns_heap (dy_dns y)) = fst ` set (sp_table sp) \<union> fst ` set (sp_posted sp)"
    "sp_table sp \<noteq> [] \<Longrightarrow> dns_timer (dy_dns y)" "dy_cur y = sp_cur sp"
    "\<And>r. sp_cur sp = Some r \<Longrightarrow>
       \<exists>e. (r, e) \<in> set (sp_table sp) \<and> en_generation e = sp_generation sp \<and> en_residx e = 0"
  shows "dns_abs y sp"
  using assms by (auto simp: dns_abs_tab)

lemma dns_absD:
  assumes "dns_abs y sp"
  shows "dns_agree (dy_dns y) sp" "dns_slot (dy_dns y) = sp_slot sp" "dns_log (dy_dns y) = sp_log sp"
    "dns_tab (dy_dns y) (sp_table sp)" "dy_posted y = map fst (sp_posted sp)"
    "\<And>x. x \<in> set (sp_posted sp) \<Longrightarrow> holds_reply (dy_dns y) x"
    "distinct (map fst (sp_table sp) @ map fst (sp_posted sp))"
    "dom (dns_heap (dy_dns y)) = fst ` set (sp_table sp) \<union> fst ` set (sp_posted sp)"
    "sp_table sp \<noteq> [] \<Longrightarrow> dns_timer (dy_dns y)" "dy_cur y = sp_cur sp"
    "\<And>r. sp_cur sp = Some r \<Longrightarrow>
       \<exists>e. (r, e) \<in> set (sp_table sp) \<and> en_generation e = sp_generation sp \<and> en_residx e = 0"
  using assms unfolding dns_abs_tab by blast+

lemma holds_reply_core:
  "holds_reply s (r, c, b) \<longleftrightarrow> (\<exists>q. dns_core s r = Some q \<and> rq_client q = c \<and> rq_reply q = Some b)"
  unfolding holds_reply_def dns_core_def by (cases "dns_heap s r") auto

lemma holds_reply_cong: "dns_core s' (fst x) = dns_core s (fst x) \<Longrightarrow> holds_reply s' x = holds_reply s x"
  by (cases x) (simp add: holds_reply_core)

lemma dom_core: "dom (dns_core s) = dom (dns_heap s)"
  using dns_core_None by (auto simp: dom_def simp del: dns_core_None)

lemma query_ok:
  assumes abs: "dns_abs y sp" and en: "dns_enabled (Query client p mem) y"
  shows "\<exists>y'. dns_run (Query client p mem) y = Some y' \<and> dns_abs y' (spec_step (Query client p mem) sp)"
proof (cases "mem = None \<or> dns_resolvers (dy_dns y) = []")
  case True
  then show ?thesis
    using abs en by (auto simp: pxdns_query_start_def dns_abs_tab dns_agree_def split: option.splits)
next
  case False
  then obtain r where mem: "mem = Some r" and res: "sp_resolvers sp \<noteq> []"
    using abs by (auto simp: dns_abs_tab dns_agree_def)
  let ?s = "dy_dns y" and ?data = "p @ replicate 7 (0 :: u8)"
  let ?q = "\<lparr>rq_id = dns_id ?s, rq_generation = dns_generation ?s, rq_residx = 0, rq_client = client,
     rq_client_id = get_u16 ?data, rq_pprev_hash = None, rq_next_hash = None,
     rq_pprev_timeout = None, rq_next_timeout = None, rq_timeout_slot = 0,
     rq_reply = None, rq_size = length p, rq_data = put_u16 (dns_id ?s) ?data\<rparr>"
  let ?s1 = "?s\<lparr>dns_id := dns_id ?s + 1, dns_heap := (dns_heap ?s)(r \<mapsto> ?q)\<rparr>"
  let ?rs = "map fst (sp_table sp)"
  have fresh: "dns_heap ?s r = None" using en mem by simp
  then have new: "r \<notin> fst ` set (sp_table sp) \<union> fst ` set (sp_posted sp)"
  proof -
    have "dom (dns_heap ?s) = fst ` set (sp_table sp) \<union> fst ` set (sp_posted sp)"
      using abs by (simp add: dns_abs_tab)
    moreover have "r \<notin> dom (dns_heap ?s)" using fresh by (simp add: domIff)
    ultimately show ?thesis by simp
  qed
  have rep: "dns_rep ?s ?rs" using abs by (simp add: dns_abs_tab dns_tab_def)
  have "dns_rep ?s1 ?rs"
    by (rule rep_same [OF rep])
      (use rep new fresh rep_outside [OF rep] in \<open>auto simp: dns_rep_def split: if_splits\<close>)
  then obtain s2 where s2: "pxdns_request_register r ?s1 = Some s2" "dns_rep s2 (r # ?rs)"
    "dns_core s2 = (dns_core ?s1)(r \<mapsto> (bare ?q)\<lparr>rq_timeout_slot := dns_slot ?s\<rparr>)"
    "dns_same ?s1 s2" "dns_timer s2 \<longleftrightarrow> dns_timer ?s1 \<or> ?rs = []"
    using rep_register [of ?s1 ?rs r ?q] new by auto
  have core: "dns_core s2 = (dns_core ?s)(r \<mapsto> (bare ?q)\<lparr>rq_timeout_slot := dns_slot ?s\<rparr>)"
    unfolding s2(3) by (auto simp: dns_core_def)
  have ent: "holds_entry s2 x" if "x \<in> set (sp_table sp)" for x
  proof -
    have "fst x \<noteq> r" using new that by force
    then have "holds_entry s2 x = holds_entry ?s x"
      using s2(4) core by (intro holds_entry_cong) (auto simp: dns_same_def)
    then show ?thesis using abs that by (auto simp: dns_abs_tab dns_tab_def)
  qed
  have rep2: "holds_reply s2 x" if "x \<in> set (sp_posted sp)" for x
  proof -
    have "fst x \<noteq> r" using new that by force
    then have "holds_reply s2 x = holds_reply ?s x" using core by (intro holds_reply_cong) auto
    then show ?thesis using abs that by (auto simp: dns_abs_tab)
  qed
  have "holds_entry s2 (r, new_entry client p sp)"
    using core s2(4) res abs
    by (auto simp: holds_entry_core entry_of_def new_entry_def dns_same_def dns_abs_tab dns_agree_def Let_def put_u16_def)
  note entry = this
  let ?y = "y\<lparr>dy_dns := s2, dy_cur := Some r\<rparr>"
  let ?sp = "sp\<lparr>sp_table := (r, new_entry client p sp) # sp_table sp, sp_id := sp_id sp + 1, sp_cur := Some r\<rparr>"
  have dom2: "dom (dns_heap s2) = insert r (dom (dns_heap ?s))"
    using arg_cong [OF core, of dom] by (simp add: dom_core)
  note same = s2(4) [unfolded dns_same_def, simplified]
  have "dns_run (Query client p mem) y = Some ?y"
    using False mem s2(1) by (simp add: pxdns_query_start_def Let_def)
  moreover have "spec_step (Query client p mem) sp = ?sp" using mem res by simp
  moreover have "dns_abs ?y ?sp"
  proof (rule dns_absI)
    show "dns_agree (dy_dns ?y) ?sp" using same dns_absD(1) [OF abs] by (simp add: dns_agree_def)
    show "dns_slot (dy_dns ?y) = sp_slot ?sp" "dns_log (dy_dns ?y) = sp_log ?sp"
      using same dns_absD(2,3) [OF abs] by simp_all
    show "dns_tab (dy_dns ?y) (sp_table ?sp)" using s2(2) entry ent by (auto simp: dns_tab_def)
    show "dy_posted ?y = map fst (sp_posted ?sp)" using dns_absD(5) [OF abs] by simp
    show "holds_reply (dy_dns ?y) x" if "x \<in> set (sp_posted ?sp)" for x using rep2 that by simp
    show "distinct (map fst (sp_table ?sp) @ map fst (sp_posted ?sp))" using dns_absD(7) [OF abs] new by auto
    show "dom (dns_heap (dy_dns ?y)) = fst ` set (sp_table ?sp) \<union> fst ` set (sp_posted ?sp)"
      using dom2 dns_absD(8) [OF abs] by simp
    show "dns_timer (dy_dns ?y)" using s2(5) dns_absD(9) [OF abs] by auto
    show "dy_cur ?y = sp_cur ?sp" by simp
    show "\<exists>e. (x, e) \<in> set (sp_table ?sp) \<and> en_generation e = sp_generation ?sp \<and> en_residx e = 0"
      if "sp_cur ?sp = Some x" for x
      using that by (auto simp: new_entry_def Let_def intro!: exI [of _ "new_entry client p sp"])
  qed
  ultimately show ?thesis by auto
qed

text \<open>What the posted replies and the memory keep when only the table's requests change.\<close>

lemma freed_keeps:
  assumes abs: "dns_abs y sp" and tab: "dns_tab s' tab'" and fr: "dns_freed (dy_dns y) (sp_table sp) s' tab'"
  shows "\<And>x. x \<in> set (sp_posted sp) \<Longrightarrow> holds_reply s' x"
    and "distinct (map fst tab' @ map fst (sp_posted sp))"
    and "dom (dns_heap s') = fst ` set tab' \<union> fst ` set (sp_posted sp)"
proof -
  have apart: "fst x \<notin> fst ` set (sp_table sp)" if "x \<in> set (sp_posted sp)" for x
    using dns_absD(7) [OF abs] that by auto
  show "holds_reply s' x" if "x \<in> set (sp_posted sp)" for x
  proof -
    have "holds_reply s' x = holds_reply (dy_dns y) x"
      using apart [OF that] fr by (intro holds_reply_cong) (simp add: dns_freed_def)
    then show ?thesis using dns_absD(6) [OF abs that] by simp
  qed
  show "distinct (map fst tab' @ map fst (sp_posted sp))"
    using dns_absD(7) [OF abs] tab_distinct [OF tab] fr
    unfolding dns_freed_def distinct_append set_map by blast
  have there: "dns_heap s' z \<noteq> None" if "z \<in> fst ` set tab'" for z
    using tab that by (auto simp: dns_tab_def dns_rep_def)
  have "z \<in> dom (dns_heap s') \<longleftrightarrow> z \<in> fst ` set tab' \<union> fst ` set (sp_posted sp)" for z
  proof (cases "z \<in> fst ` set (sp_table sp)")
    case True
    moreover from this have "z \<notin> fst ` set (sp_posted sp)" using apart by (metis imageE)
    ultimately show ?thesis using fr there [of z] by (auto simp: dns_freed_def domIff)
  next
    case False
    then have "dns_core s' z = dns_core (dy_dns y) z" using fr by (simp add: dns_freed_def)
    then have "dns_heap s' z = None \<longleftrightarrow> dns_heap (dy_dns y) z = None" by (metis dns_core_None)
    moreover have "z \<in> dom (dns_heap (dy_dns y)) \<longleftrightarrow> z \<in> fst ` set (sp_posted sp)"
      using dns_absD(8) [OF abs] False by simp
    moreover have "z \<notin> fst ` set tab'" using fr False by (auto simp: dns_freed_def)
    ultimately show ?thesis by (simp add: domIff)
  qed
  then show "dom (dns_heap s') = fst ` set tab' \<union> fst ` set (sp_posted sp)" by blast
qed

lemma map_filter_once:
  assumes "distinct (map fst (A @ (r, e) # B))" "\<And>d. f (r, d) = g d" "\<And>x. fst x \<noteq> r \<Longrightarrow> f x = Some x"
  shows "List.map_filter f (A @ (r, e) # B) = A @ opt_list (g e) @ B"
proof -
  have "fst x \<noteq> r" if "x \<in> set A \<or> x \<in> set B" for x by (rule apart_fst [OF assms(1) that])
  then have "List.map_filter f A = A" "List.map_filter f B = B"
    using assms(3) by (auto intro!: map_filter_Some)
  then show ?thesis using assms(2) by (simp add: map_filter_append map_filter_simps split: option.split)
qed

lemma send_ok:
  assumes abs: "dns_abs y sp" and en: "dns_enabled (Send nsent) y"
  shows "\<exists>y'. dns_run (Send nsent) y = Some y' \<and> dns_abs y' (spec_step (Send nsent) sp)"
proof -
  let ?s = "dy_dns y"
  obtain r where cur: "dy_cur y = Some r" "sp_cur sp = Some r" using en dns_absD(10) [OF abs] by auto
  then obtain e where e: "(r, e) \<in> set (sp_table sp)" "en_generation e = sp_generation sp" "en_residx e = 0"
    using dns_absD(11) [OF abs] by blast
  obtain A B where tab: "sp_table sp = A @ (r, e) # B" using e(1) by (meson split_list)
  note stab = dns_absD(4) [OF abs, unfolded tab]
  obtain q where q: "dns_heap ?s r = Some q" "entry_of q = e" "rq_size q = length (en_query e)"
    "rq_generation q = dns_generation ?s \<Longrightarrow> rq_residx q < length (dns_resolvers ?s)"
    by (rule tab_entry [OF stab, of r e]) auto
  note agree = dns_absD(1) [OF abs]
  have gen: "rq_generation q = dns_generation ?s" "rq_residx q = 0"
    using entry_fields(2,3) [OF q(2)] e agree by (simp_all add: dns_agree_def)
  then have res: "dns_resolvers ?s \<noteq> []" using q(4) by auto
  let ?t = "taker sp nsent 0 e"
  have t_eq: "?t = first_taker (dns_sock6 ?s) (dns_resolvers ?s) (rq_size q) nsent 0"
    using agree e(2) q(3) by (simp add: taker_def dns_agree_def)
  obtain ok s1 where st: "sent_to r q ?t ?s = (ok, s1)" by fastforce
  note f = sent_to_fields [OF q(1) st]
  have tried: "pxdns_query_try nsent r ?s = Some (ok, s1)"
    using try_sends [OF q(1) gen res, of nsent] st t_eq by simp
  have dist: "distinct (map fst (A @ (r, e) # B))" by (rule tab_distinct [OF stab])
  have look: "map_of (sp_table sp) r = Some e" using e(1) tab_distinct [OF dns_absD(4) [OF abs]] by simp
  let ?o = "map_option (\<lambda>j. (r, e\<lparr>en_residx := j\<rparr>)) ?t"
  have tab': "List.map_filter (\<lambda>(x, d). if x = r then map_option (\<lambda>j. (x, d\<lparr>en_residx := j\<rparr>)) ?t else Some (x, d))
      (sp_table sp) = A @ opt_list ?o @ B"
    unfolding tab by (rule map_filter_once [OF dist]) auto
  let ?sp = "sp\<lparr>sp_cur := None, sp_log := sp_log sp @ sends sp e ?t, sp_table := A @ opt_list ?o @ B\<rparr>"
  have step: "spec_step (Send nsent) sp = ?sp" using cur(2) look tab' by (simp add: Let_def)
  have query: "take (rq_size q) (rq_data q) = en_query e" using entry_fields(7) [OF q(2)] by simp
  have log1: "dns_log s1 = sp_log sp @ sends sp e ?t"
    using f(8) query agree dns_absD(3) [OF abs] by (simp add: sends_def dns_agree_def split: option.splits)
  obtain s2 where s2: "pxdns_query_end ok r s1 = Some s2" "dns_tab s2 (A @ opt_list ?o @ B)"
    "dns_agree s2 sp" "dns_slot s2 = dns_slot ?s" "dns_timer s2 = dns_timer ?s" "dns_log s2 = dns_log s1"
    "dns_freed ?s (A @ (r, e) # B) s2 (A @ opt_list ?o @ B)"
  proof (cases ?t)
    case (Some j)
    have "j < length (dns_resolvers ?s)" using Some t_eq first_taker_bound by metis
    then show thesis
      using that [of s1] tab_move [OF stab q(1-3) st] Some f(3-6) agree by (auto simp: pxdns_query_end_def)
  next
    case None
    have core: "dns_core s1 x = dns_core ?s x" if "x \<noteq> r" for x using f(2) that by simp
    have fr1: "dns_freed ?s (A @ (r, e) # B) s1 (A @ (r, e) # B)" using core by (auto simp: dns_freed_def)
    have same1: "dns_agree s1 sp" "dns_slot s1 = dns_slot ?s" "dns_timer s1 = dns_timer ?s" using f(3-5) agree by auto
    have gr: "dns_generation s1 = dns_generation ?s" "dns_resolvers s1 = dns_resolvers ?s"
      using same1(1) agree by (simp_all add: dns_agree_def)
    have ent: "holds_entry s1 x" if "x \<in> set A \<or> x \<in> set B" for x
    proof -
      have "fst x \<noteq> r" by (rule apart_fst [OF dist that])
      then have "holds_entry s1 x = holds_entry ?s x" using core gr by (intro holds_entry_cong)
      then show ?thesis using stab that by (auto simp: dns_tab_def)
    qed
    have rep1: "dns_rep s1 (map fst (A @ (r, e) # B))" using f(1) stab by (simp add: dns_tab_def)
    obtain s2 where "(do { s \<leftarrow> pxdns_request_deregister r s1;
        pxdns_request_free r (s\<lparr>dns_expired := dns_expired s\<rparr>) }) = Some s2"
      "dns_tab s2 (A @ B)" "dns_same s1 s2" "dns_timer s2 = dns_timer s1" "dns_freed s1 (A @ (r, e) # B) s2 (A @ B)"
      using tab_drop [OF rep1 ent, of dns_expired] by auto
    then show thesis
      using that [of s2] None f(6) same1 dns_freed_trans [OF fr1]
      by (simp add: pxdns_query_end_def dns_same_def dns_agree_def)
  qed
  let ?y = "y\<lparr>dy_dns := s2, dy_cur := None\<rparr>"
  have "dns_run (Send nsent) y = Some ?y" using cur(1) tried s2(1) by simp
  moreover have "dns_abs ?y ?sp"
  proof (rule dns_absI)
    note kept = freed_keeps [OF abs s2(2)] s2(7)
    show "dns_agree (dy_dns ?y) ?sp" using s2(3) by (simp add: dns_agree_def)
    show "dns_slot (dy_dns ?y) = sp_slot ?sp" "dns_log (dy_dns ?y) = sp_log ?sp"
      using s2(4,6) log1 dns_absD(2) [OF abs] by simp_all
    show "dns_tab (dy_dns ?y) (sp_table ?sp)" using s2(2) by simp
    show "dy_posted ?y = map fst (sp_posted ?sp)" using dns_absD(5) [OF abs] by simp
    show "holds_reply (dy_dns ?y) x" if "x \<in> set (sp_posted ?sp)" for x
      using kept(1) that s2(7) by (simp add: tab)
    show "distinct (map fst (sp_table ?sp) @ map fst (sp_posted ?sp))"
      using kept(2) s2(7) by (simp add: tab)
    show "dom (dns_heap (dy_dns ?y)) = fst ` set (sp_table ?sp) \<union> fst ` set (sp_posted ?sp)"
      using kept(3) s2(7) by (simp add: tab)
    show "dns_timer (dy_dns ?y)" using s2(5) dns_absD(9) [OF abs] tab by simp
  qed simp_all
  ultimately show ?thesis using step by auto
qed

lemma slot_next: "k < TIMEOUT \<Longrightarrow> (if k + 1 = TIMEOUT then 0 else k + 1) = Suc k mod TIMEOUT"
  by (auto simp: TIMEOUT_def)

lemma rep_tick:
  assumes "dns_rep s rs" "k < TIMEOUT"
  shows "dns_rep (s\<lparr>dns_timer := b, dns_slot := k\<rparr>) rs"
  by (rule rep_same [OF assms(1)]) (use assms rep_outside [OF assms(1)] in \<open>auto simp: dns_rep_def\<close>)

lemma rep_mask_slot:
  assumes "dns_rep s rs" "k < TIMEOUT"
  shows "(if dns_wheel s ! k = None then s\<lparr>dns_mask := dns_mask s AND NOT (push_bit k 1)\<rparr>
          else s\<lparr>dns_mask := dns_mask s OR push_bit k 1\<rparr>) = s"
proof -
  have wheel: "keyed (slot_key s) rs (wheel_chains s)" "length (dns_wheel s) = TIMEOUT"
    and mask: "bit (dns_mask s) k \<longleftrightarrow> (\<exists>r\<in>set rs. slot_key s r = k)"
    using assms(1) by (simp_all add: dns_rep_def)
  have "dns_wheel s ! k = ch_head (wheel_chains s) k" using wheel(2) assms(2) by (simp add: wheel_chains_def)
  also have "\<dots> = None \<longleftrightarrow> filter (\<lambda>r. slot_key s r = k) rs = []"
    unfolding keyed_head [OF wheel(1)] by (simp split: list.split)
  also have "\<dots> \<longleftrightarrow> \<not> bit (dns_mask s) k"
    unfolding mask by (simp add: filter_empty_conv)
  finally have empty: "dns_wheel s ! k = None \<longleftrightarrow> \<not> bit (dns_mask s) k" .
  show ?thesis
  proof (cases "dns_wheel s ! k = None")
    case True
    then have "dns_mask s AND NOT (push_bit k 1) = dns_mask s"
      using empty by (intro bit_word_eqI) (auto simp: bit_clear_slot simp del: push_bit_of_1)
    then show ?thesis using True by simp
  next
    case False
    then have "dns_mask s OR push_bit k 1 = dns_mask s"
      using empty assms(2) by (intro bit_word_eqI) (auto simp: bit_add_slot TIMEOUT_def simp del: push_bit_of_1)
    then show ?thesis using False by auto
  qed
qed

lemma wheel_first:
  assumes "dns_tab s tab" "k < TIMEOUT"
  shows "dns_wheel s ! k = first_of (filter (\<lambda>x. en_slot (snd x) = k) tab)"
proof -
  have "ch_head (wheel_chains s) k = first_of (filter (\<lambda>x. en_slot (snd x) = k) tab)"
    using tab_wheel(2) [OF assms(1), of k]
    by (cases "filter (\<lambda>x. en_slot (snd x) = k) tab") (auto simp: first_of_def)
  then show ?thesis using assms by (simp add: wheel_chains_def dns_tab_def dns_rep_def)
qed

lemma tab_cong:
  "dns_rep s' (map fst tab) \<Longrightarrow> dns_tab s tab \<Longrightarrow> dns_core s' = dns_core s \<Longrightarrow> dns_generation s' = dns_generation s \<Longrightarrow>
     dns_resolvers s' = dns_resolvers s \<Longrightarrow> dns_tab s' tab"
  using holds_entry_cong [of s' _ s] by (auto simp: dns_tab_def)

lemma tab_timer:
  assumes "dns_tab s tab"
  shows "dns_tab (s\<lparr>dns_timer := b\<rparr>) tab"
proof (rule tab_cong [OF _ assms])
  have rep: "dns_rep s (map fst tab)" using assms by (simp add: dns_tab_def)
  show "dns_rep (s\<lparr>dns_timer := b\<rparr>) (map fst tab)"
    using rep_tick [OF rep, of "dns_slot s" b] rep by (simp add: dns_rep_def)
qed (simp_all add: dns_core_def fun_eq_iff)

lemma tick_ok:
  assumes abs: "dns_abs y sp" and en: "dns_enabled (Tick nsent) y"
  shows "\<exists>y'. dns_run (Tick nsent) y = Some y' \<and> dns_abs y' (spec_step (Tick nsent) sp)"
proof -
  let ?s = "dy_dns y" and ?k = "Suc (sp_slot sp) mod TIMEOUT"
  let ?due = "\<lambda>x. en_slot (snd x) = ?k"
  let ?xs = "filter ?due (sp_table sp)"
  have slot: "dns_slot ?s = sp_slot sp" "sp_slot sp < TIMEOUT"
    using dns_absD(2,4) [OF abs] by (simp_all add: dns_tab_def dns_rep_def)
  have k: "?k < TIMEOUT" by (simp add: TIMEOUT_def)
  define s0 where "s0 = ?s\<lparr>dns_timer := False, dns_slot := ?k\<rparr>"
  have tab0: "dns_tab s0 (sp_table sp)"
    by (rule tab_cong [OF _ dns_absD(4) [OF abs]])
      (use rep_tick [OF _ k, of ?s] dns_absD(4) [OF abs] in \<open>auto simp: s0_def dns_tab_def dns_core_def fun_eq_iff\<close>)
  have agree0: "dns_agree s0 sp" using dns_absD(1) [OF abs] by (simp add: s0_def dns_agree_def)
  let ?tab = "List.map_filter (\<lambda>x. if x \<in> set ?xs then retry sp nsent x else Some x) (sp_table sp)"
  obtain s1 where s1: "timer_walk nsent (first_of ?xs) s0 = Some s1" "dns_agree s1 sp" "dns_slot s1 = ?k"
    "dns_timer s1 = False" "dns_log s1 = sp_log sp @ concat (map (retry_log sp nsent) ?xs)"
    "dns_tab s1 ?tab" "dns_freed s0 (sp_table sp) s1 ?tab"
    using timer_walk_ok [OF tab0 agree0, of ?k "[]" ?xs nsent] dns_absD(3) [OF abs] by (auto simp: s0_def)
  have tab_eq: "?tab = List.map_filter (\<lambda>x. if ?due x then retry sp nsent x else Some x) (sp_table sp)"
    by (rule map_filter_cong) auto
  have "dns_core s0 = dns_core ?s" "dns_heap s0 = dns_heap ?s" by (simp_all add: s0_def dns_core_def fun_eq_iff)
  then have fr: "dns_freed ?s (sp_table sp) s1 ?tab" using s1(7) by (simp add: dns_freed_def)
  define s2 where "s2 = (if dns_mask s1 \<noteq> 0 then s1\<lparr>dns_timer := True\<rparr> else s1)"
  have rep1: "dns_rep s1 (map fst ?tab)" using s1(6) by (simp add: dns_tab_def)
  have run: "dns_run (Tick nsent) y = Some (y\<lparr>dy_dns := s2\<rparr>)"
  proof -
    have next_slot: "(if dns_slot ?s + 1 = TIMEOUT then 0 else dns_slot ?s + 1) = ?k" "\<not> \<not> dns_slot ?s < TIMEOUT"
      using slot slot_next [of "sp_slot sp"] by simp_all
    have walk: "timer_walk nsent (dns_wheel s0 ! dns_slot s0) s0 = Some s1"
      using s1(1) wheel_first [OF tab0 k] by (simp add: s0_def)
    have mask: "(if dns_wheel s1 ! dns_slot s1 = None
        then s1\<lparr>dns_mask := dns_mask s1 AND NOT (push_bit (dns_slot s1) 1)\<rparr>
        else s1\<lparr>dns_mask := dns_mask s1 OR push_bit (dns_slot s1) 1\<rparr>) = s1"
      unfolding s1(3) by (rule rep_mask_slot [OF rep1 k])
    have "pxdns_timer nsent ?s = Some s2"
      unfolding pxdns_timer_def
      by (simp only: next_slot Let_def walk mask if_False not_not bind.simps option.simps Option.bind.simps
          flip: s0_def s2_def)
    then show ?thesis by simp
  qed
  have tab2: "dns_tab s2 ?tab"
    unfolding s2_def using s1(6) tab_timer [OF s1(6), of True] by simp
  have fr2: "dns_freed ?s (sp_table sp) s2 ?tab" using fr by (auto simp: s2_def dns_freed_def dns_core_def)
  have "dns_abs (y\<lparr>dy_dns := s2\<rparr>) (tick nsent sp)"
  proof (rule dns_absI)
    let ?y = "y\<lparr>dy_dns := s2\<rparr>"
    have spec: "tick nsent sp = sp\<lparr>sp_slot := ?k, sp_table := ?tab,
        sp_log := sp_log sp @ concat (map (retry_log sp nsent) ?xs)\<rparr>"
      unfolding tab_eq by (simp add: tick_def Let_def)
    note kept = freed_keeps [OF abs tab2 fr2]
    show "dns_agree (dy_dns ?y) (tick nsent sp)" using s1(2) by (simp add: spec s2_def dns_agree_def)
    show "dns_slot (dy_dns ?y) = sp_slot (tick nsent sp)" "dns_log (dy_dns ?y) = sp_log (tick nsent sp)"
      using s1(3,5) by (simp_all add: spec s2_def)
    show "dns_tab (dy_dns ?y) (sp_table (tick nsent sp))" using tab2 by (simp add: spec)
    show "dy_posted ?y = map fst (sp_posted (tick nsent sp))" using dns_absD(5) [OF abs] by (simp add: spec)
    show "holds_reply (dy_dns ?y) x" if "x \<in> set (sp_posted (tick nsent sp))" for x
      using kept(1) that by (simp add: spec)
    show "distinct (map fst (sp_table (tick nsent sp)) @ map fst (sp_posted (tick nsent sp)))"
      using kept(2) by (simp add: spec)
    show "dom (dns_heap (dy_dns ?y)) = fst ` set (sp_table (tick nsent sp)) \<union> fst ` set (sp_posted (tick nsent sp))"
      using kept(3) by (simp add: spec)
    show "dns_timer (dy_dns ?y)" if "sp_table (tick nsent sp) \<noteq> []"
      using that rep_mask_0 [OF rep1] by (simp add: spec s2_def)
    show "dy_cur ?y = sp_cur (tick nsent sp)" using dns_absD(10) [OF abs] by (simp add: spec)
    show "\<exists>e. (r, e) \<in> set (sp_table (tick nsent sp)) \<and> en_generation e = sp_generation (tick nsent sp) \<and> en_residx e = 0"
      if "sp_cur (tick nsent sp) = Some r" for r
      using that en dns_absD(10) [OF abs] by (simp add: spec)
  qed
  with run show ?thesis by (intro exI [of _ "y\<lparr>dy_dns := s2\<rparr>"]) (simp del: dns_run.simps)
qed

lemma core_freed: "dns_core s' = dns_core s \<Longrightarrow> dns_freed s tab s' tab"
  using dns_core_None [of s] dns_core_None [of s'] by (auto simp: dns_freed_def)

lemma rep_set_reply:
  assumes rep: "dns_rep s rs" and q: "dns_heap s r = Some q"
  shows "dns_rep (s\<lparr>dns_heap := (dns_heap s)(r \<mapsto> q\<lparr>rq_reply := b\<rparr>)\<rparr>) rs"
proof (rule rep_same [OF rep])
  show "rq_pprev_hash q' = None \<and> rq_pprev_timeout q' = None"
    if "x \<notin> set rs" "dns_heap (s\<lparr>dns_heap := (dns_heap s)(r \<mapsto> q\<lparr>rq_reply := b\<rparr>)\<rparr>) x = Some q'" for x q'
    using that q rep_outside [OF rep that(1)] by (cases "x = r") auto
qed (use q rep in \<open>auto simp: dns_rep_def\<close>)

lemma find_SomeD: "List.find P xs = Some x \<Longrightarrow> x \<in> set xs \<and> P x"
  by (auto simp: find_Some_iff)

lemma answer_ok:
  assumes abs: "dns_abs y sp" and en: "dns_enabled (Answer buf mem) y"
  shows "\<exists>y'. dns_run (Answer buf mem) y = Some y' \<and> dns_abs y' (spec_step (Answer buf mem) sp)"
proof (cases "length buf < 12")
  case True
  then show ?thesis using abs by (simp add: pxdns_pmgr_pump_def)
next
  case False
  let ?s = "dy_dns y" and ?i = "get_u16 buf"
  note tab = dns_absD(4) [OF abs]
  obtain s1 where s1:
    "pxdns_request_find ?i ?s = Some (map_option fst (List.find (\<lambda>x. en_id (snd x) = ?i) (sp_table sp)), s1)"
    "dns_tab s1 (case List.find (\<lambda>x. en_id (snd x) = ?i) (sp_table sp) of None \<Rightarrow> sp_table sp
       | Some y \<Rightarrow> filter (\<lambda>x. fst x \<noteq> fst y) (sp_table sp))"
    "dns_core s1 = dns_core ?s" "dns_same ?s s1" "dns_timer s1 = dns_timer ?s"
    using request_find_ok [OF tab, of ?i] by blast
  note same = s1(4) [unfolded dns_same_def]
  have heap1: "dom (dns_heap s1) = dom (dns_heap ?s)" using s1(3) dom_core by metis
  show ?thesis
  proof (cases "List.find (\<lambda>x. en_id (snd x) = ?i) (sp_table sp)")
    case None
    let ?s2 = "s1\<lparr>dns_late := dns_late s1 + 1\<rparr>" and ?y = "y\<lparr>dy_dns := s1\<lparr>dns_late := dns_late s1 + 1\<rparr>\<rparr>"
    have run: "dns_run (Answer buf mem) y = Some ?y"
      using False s1(1) None by (simp add: pxdns_pmgr_pump_def)
    have rep1: "dns_rep s1 (map fst (sp_table sp))" using s1(2) None by (simp add: dns_tab_def)
    have tab2: "dns_tab ?s2 (sp_table sp)"
    proof (rule tab_cong [OF _ tab])
      show "dns_rep ?s2 (map fst (sp_table sp))"
        by (rule rep_same [OF rep1]) (use rep1 rep_outside [OF rep1] in \<open>auto simp: dns_rep_def\<close>)
      show "dns_core ?s2 = dns_core ?s" using s1(3) by (simp add: dns_core_def fun_eq_iff)
    qed (use same in simp_all)
    have "dns_core ?s2 = dns_core ?s" using s1(3) by (simp add: dns_core_def fun_eq_iff)
    note kept = freed_keeps [OF abs tab2 core_freed [OF this]]
    have "dns_abs ?y sp"
      by (rule dns_absI)
        (use same s1(5) tab2 kept dns_absD [OF abs] in \<open>simp_all add: dns_agree_def\<close>)
    then show ?thesis using run False None by simp
  next
    case (Some x)
    obtain r e where x: "x = (r, e)" by (cases x)
    let ?tab = "filter (\<lambda>x. fst x \<noteq> r) (sp_table sp)"
    have e: "(r, e) \<in> set (sp_table sp)" "en_id e = ?i" using find_SomeD [OF Some] x by simp_all
    have tab1: "dns_tab s1 ?tab" using s1(2) Some x by simp
    obtain q where q: "dns_heap s1 r = Some q" "entry_of q = e"
    proof -
      have "holds_entry s1 (r, e)"
        using tab e(1) holds_entry_cong [of s1 "(r, e)" ?s] s1(3) same by (auto simp: dns_tab_def)
      then show thesis using that by (auto simp: holds_entry_def)
    qed
    have not_cur: "sp_cur sp \<noteq> Some r"
    proof
      assume "sp_cur sp = Some r"
      moreover have "holds_entry ?s (r, e)" using tab e(1) by (auto simp: dns_tab_def)
      then obtain q' where "dns_heap ?s r = Some q'" "entry_of q' = e" by (auto simp: holds_entry_def)
      ultimately have "unsent_id y ?i"
        using dns_absD(10) [OF abs] e(2) entry_fields(1) [of q' e] by (simp add: unsent_id_def)
      then show False using en False by simp
    qed
    have cur_kept: "\<exists>e. (c, e) \<in> set ?tab \<and> en_generation e = sp_generation sp \<and> en_residx e = 0"
      if "sp_cur sp = Some c" for c
      using dns_absD(11) [OF abs that] not_cur that by fastforce
    have new: "r \<notin> set (map fst ?tab)" by auto
    have rep1: "dns_rep s1 (map fst ?tab)" using tab1 by (simp add: dns_tab_def)
    have r_in: "r \<in> fst ` set (sp_table sp)" using e(1) by force
    have "sp_table sp \<noteq> []" using e(1) by auto
    then have timer: "dns_timer s1" using s1(5) dns_absD(9) [OF abs] by simp
    show ?thesis
    proof (cases mem)
      case no_mem: False
      let ?s2 = "s1\<lparr>dns_heap := (dns_heap s1)(r := None)\<rparr>"
      have run: "dns_run (Answer buf mem) y = Some (y\<lparr>dy_dns := ?s2\<rparr>)"
        using False s1(1) Some x no_mem rep_free(1) [OF rep1 new q(1)] by (simp add: pxdns_pmgr_pump_def)
      have tab2: "dns_tab ?s2 ?tab"
        using rep_free(2) [OF rep1 new q(1)] tab1
        by (auto simp: dns_tab_def holds_entry_def)
      have fr: "dns_freed ?s (sp_table sp) ?s2 ?tab"
      proof -
        have "dns_core ?s2 z = (if z = r then None else dns_core ?s z)" for z
          using s1(3) by (auto simp: dns_core_def fun_eq_iff)
        then show ?thesis using r_in by (auto simp: dns_freed_def)
      qed
      note kept = freed_keeps [OF abs tab2 fr]
      have "dns_abs (y\<lparr>dy_dns := ?s2\<rparr>) (sp\<lparr>sp_table := ?tab\<rparr>)"
        by (rule dns_absI)
          (use same timer tab2 kept cur_kept dns_absD(1-5,10) [OF abs] in \<open>auto simp: dns_agree_def\<close>)
      then show ?thesis using run False Some x no_mem by simp
    next
      case True
      let ?b = "put_u16 (en_client_id e) buf"
      let ?s2 = "s1\<lparr>dns_heap := (dns_heap s1)(r \<mapsto> q\<lparr>rq_reply := Some ?b\<rparr>)\<rparr>"
      let ?y = "y\<lparr>dy_dns := ?s2, dy_posted := dy_posted y @ [r]\<rparr>"
      let ?sp = "sp\<lparr>sp_table := ?tab, sp_posted := sp_posted sp @ [(r, en_client e, ?b)]\<rparr>"
      have run: "dns_run (Answer buf mem) y = Some ?y"
        using False s1(1) Some x True q entry_fields(5) [OF q(2)] by (simp add: pxdns_pmgr_pump_def with_req_def)
      have tab2: "dns_tab ?s2 ?tab" unfolding dns_tab_def
      proof
        show "dns_rep ?s2 (map fst ?tab)" by (rule rep_set_reply [OF rep1 q(1)])
        show "\<forall>x\<in>set ?tab. holds_entry ?s2 x" using tab1 by (auto simp: dns_tab_def holds_entry_def)
      qed
      have core2: "dns_core ?s2 z = dns_core ?s z" if "z \<noteq> r" for z
        using s1(3) that by (auto simp: dns_core_def fun_eq_iff)
      have "dns_abs ?y ?sp"
      proof (rule dns_absI)
        have apart: "r \<notin> fst ` set (sp_posted sp)" using dns_absD(7) [OF abs] r_in by auto
        show "dns_agree (dy_dns ?y) ?sp" using same dns_absD(1) [OF abs] by (simp add: dns_agree_def)
        show "dns_slot (dy_dns ?y) = sp_slot ?sp" "dns_log (dy_dns ?y) = sp_log ?sp"
          using same dns_absD(2,3) [OF abs] by simp_all
        show "dns_tab (dy_dns ?y) (sp_table ?sp)" using tab2 by simp
        show "dy_posted ?y = map fst (sp_posted ?sp)" using dns_absD(5) [OF abs] by simp
        show "holds_reply (dy_dns ?y) z" if "z \<in> set (sp_posted ?sp)" for z
        proof (cases "z = (r, en_client e, ?b)")
          case True
          then show ?thesis using entry_fields(4) [OF q(2)] by (simp add: holds_reply_def)
        next
          case False
          then have z: "z \<in> set (sp_posted sp)" using that by simp
          then have "fst z \<noteq> r" using apart by force
          then have "holds_reply ?s2 z = holds_reply ?s z" using core2 by (intro holds_reply_cong) simp
          then show ?thesis using dns_absD(6) [OF abs z] by simp
        qed
        show "distinct (map fst (sp_table ?sp) @ map fst (sp_posted ?sp))"
          using dns_absD(7) [OF abs] apart new tab_distinct [OF tab2] by auto
        have "insert r (fst ` set ?tab) = fst ` set (sp_table sp)" using r_in by auto
        then show "dom (dns_heap (dy_dns ?y)) = fst ` set (sp_table ?sp) \<union> fst ` set (sp_posted ?sp)"
          using heap1 dns_absD(8) [OF abs] r_in by auto
        show "dns_timer (dy_dns ?y)" if "sp_table ?sp \<noteq> []"
          using timer by simp
        show "dy_cur ?y = sp_cur ?sp" using dns_absD(10) [OF abs] by simp
        show "\<exists>e. (c, e) \<in> set (sp_table ?sp) \<and> en_generation e = sp_generation ?sp \<and> en_residx e = 0"
          if "sp_cur ?sp = Some c" for c
          using cur_kept that by simp
      qed
      then show ?thesis using run False Some x True by simp
    qed
  qed
qed

lemma rep_log:
  assumes "dns_rep s rs"
  shows "dns_rep (s\<lparr>dns_log := l\<rparr>) rs"
  by (rule rep_same [OF assms]) (use assms rep_outside [OF assms] in \<open>auto simp: dns_rep_def\<close>)

lemma deliver_ok:
  assumes abs: "dns_abs y sp" and en: "dns_enabled Deliver y"
  shows "\<exists>y'. dns_run Deliver y = Some y' \<and> dns_abs y' (spec_step Deliver sp)"
proof -
  let ?s = "dy_dns y"
  obtain r c b xs where posted: "sp_posted sp = (r, c, b) # xs"
    using en dns_absD(5) [OF abs] by (cases "sp_posted sp") auto
  note tab = dns_absD(4) [OF abs]
  obtain q where q: "dns_heap ?s r = Some q" "rq_client q = c" "rq_reply q = Some b"
    using dns_absD(6) [OF abs, of "(r, c, b)"] posted by (auto simp: holds_reply_def)
  have new: "r \<notin> fst ` set (sp_table sp)" "r \<notin> fst ` set xs" using dns_absD(7) [OF abs] posted by auto
  define s1 where "s1 = ?s\<lparr>dns_log := dns_log ?s @ [Reply c b]\<rparr>"
  define s2 where "s2 = s1\<lparr>dns_heap := (dns_heap s1)(r := None)\<rparr>"
  have rep1: "dns_rep s1 (map fst (sp_table sp))"
    unfolding s1_def by (rule rep_log) (use tab in \<open>simp add: dns_tab_def\<close>)
  have q1: "dns_heap s1 r = Some q" using q(1) by (simp add: s1_def)
  have core: "dns_core s2 z = dns_core ?s z" if "z \<noteq> r" for z
    using that by (simp add: s2_def s1_def dns_core_def)
  have same: "dns_generation s2 = dns_generation ?s" "dns_resolvers s2 = dns_resolvers ?s" by (simp_all add: s2_def s1_def)
  let ?y = "y\<lparr>dy_dns := s2, dy_posted := map fst xs\<rparr>" and ?sp = "sp\<lparr>sp_posted := xs, sp_log := sp_log sp @ [Reply c b]\<rparr>"
  have "pxdns_pcb_reply r ?s = Some s2"
    using q rep_free(1) [OF rep1 _ q1] new(1) by (simp add: pxdns_pcb_reply_def s2_def flip: s1_def)
  then have run: "dns_run Deliver y = Some ?y" using dns_absD(5) [OF abs] posted by simp
  have "dns_abs ?y ?sp"
  proof (rule dns_absI)
    show "dns_agree (dy_dns ?y) ?sp" using dns_absD(1) [OF abs] by (simp add: dns_agree_def s2_def s1_def)
    show "dns_slot (dy_dns ?y) = sp_slot ?sp" "dns_log (dy_dns ?y) = sp_log ?sp"
      using dns_absD(2,3) [OF abs] by (simp_all add: s2_def s1_def)
    have "holds_entry s2 x" if "x \<in> set (sp_table sp)" for x
    proof -
      have "fst x \<noteq> r" using new(1) that by force
      then have "holds_entry s2 x = holds_entry ?s x" using core same by (intro holds_entry_cong) auto
      then show ?thesis using tab that by (simp add: dns_tab_def)
    qed
    moreover have "dns_rep s2 (map fst (sp_table sp))"
      using rep_free(2) [OF rep1 _ q1] new(1) by (simp add: s2_def)
    ultimately show "dns_tab (dy_dns ?y) (sp_table ?sp)" by (simp add: dns_tab_def)
    show "dy_posted ?y = map fst (sp_posted ?sp)" by simp
    show "holds_reply (dy_dns ?y) z" if "z \<in> set (sp_posted ?sp)" for z
    proof -
      have "fst z \<noteq> r" using new(2) that by force
      then have "holds_reply s2 z = holds_reply ?s z" using core by (intro holds_reply_cong) auto
      then show ?thesis using dns_absD(6) [OF abs, of z] that posted by simp
    qed
    show "distinct (map fst (sp_table ?sp) @ map fst (sp_posted ?sp))"
      using dns_absD(7) [OF abs] posted by auto
    have "dom (dns_heap s2) = dom (dns_heap ?s) - {r}" by (auto simp: s2_def s1_def)
    then show "dom (dns_heap (dy_dns ?y)) = fst ` set (sp_table ?sp) \<union> fst ` set (sp_posted ?sp)"
      using dns_absD(8) [OF abs] posted new by auto
    show "dns_timer (dy_dns ?y)" if "sp_table ?sp \<noteq> []"
      using that dns_absD(9) [OF abs] by (simp add: s2_def s1_def)
    show "dy_cur ?y = sp_cur ?sp" using dns_absD(10) [OF abs] by simp
    show "\<exists>e. (d, e) \<in> set (sp_table ?sp) \<and> en_generation e = sp_generation ?sp \<and> en_residx e = 0"
      if "sp_cur ?sp = Some d" for d
      using dns_absD(11) [OF abs] that by simp
  qed
  then show ?thesis using run posted by (intro exI [of _ ?y]) (simp del: dns_run.simps)
qed

definition older :: "dns_spec \<Rightarrow> bool" where
  \<comment> \<open>no entry is of a generation to come\<close>
  "older sp \<longleftrightarrow> (\<forall>x\<in>set (sp_table sp). en_generation (snd x) \<le> sp_generation sp)"

lemma nameservers_ok:
  assumes abs: "dns_abs y sp" and old: "older sp" and en: "dns_enabled (Nameservers getaddrinfo names) y"
  shows "\<exists>y'. dns_run (Nameservers getaddrinfo names) y = Some y' \<and>
    dns_abs y' (spec_step (Nameservers getaddrinfo names) sp)"
proof -
  let ?s = "dy_dns y" and ?s1 = "pxdns_create_resolver_sockaddrs getaddrinfo names (dy_dns y)"
  let ?sp = "spec_step (Nameservers getaddrinfo names) sp"
  note tab = dns_absD(4) [OF abs] and agree = dns_absD(1) [OF abs]
  have res: "(case a of Inet _ \<Rightarrow> True | Inet6 _ \<Rightarrow> sock6 | Other_family \<Rightarrow> False) = delivered sock6 a 0 0" for a sock6
    by (simp add: delivered_def split: resolver.split)
  have core: "dns_core ?s1 = dns_core ?s" "dns_heap ?s1 = dns_heap ?s"
    by (simp_all add: pxdns_create_resolver_sockaddrs_def dns_core_def fun_eq_iff Let_def)
  have gen: "dns_generation ?s1 = Suc (sp_generation sp)"
    using agree by (simp add: pxdns_create_resolver_sockaddrs_def dns_agree_def Let_def)
  have rep: "dns_rep ?s (map fst (sp_table sp))" using tab by (simp add: dns_tab_def)
  have rep1: "dns_rep ?s1 (map fst (sp_table sp))"
    by (rule rep_same [OF rep])
      (use rep rep_outside [OF rep] in \<open>auto simp: dns_rep_def pxdns_create_resolver_sockaddrs_def Let_def\<close>)
  have ent: "holds_entry ?s1 x" if "x \<in> set (sp_table sp)" for x
  proof -
    have "holds_entry ?s x" using tab that by (simp add: dns_tab_def)
    then obtain q where q: "dns_heap ?s (fst x) = Some q" "entry_of q = snd x" "rq_size q \<le> length (rq_data q)"
      by (auto simp: holds_entry_def)
    moreover have "rq_generation q < dns_generation ?s1"
      using gen old that entry_fields(2) [OF q(2)] by (auto simp: older_def)
    ultimately show ?thesis using core(2) by (auto simp: holds_entry_def)
  qed
  have "dns_abs (y\<lparr>dy_dns := ?s1\<rparr>) ?sp"
  proof (rule dns_absI)
    let ?y = "y\<lparr>dy_dns := ?s1\<rparr>"
    show "dns_agree (dy_dns ?y) ?sp"
      using agree by (simp add: pxdns_create_resolver_sockaddrs_def dns_agree_def Let_def res)
    show "dns_slot (dy_dns ?y) = sp_slot ?sp" "dns_log (dy_dns ?y) = sp_log ?sp"
      using dns_absD(2,3) [OF abs] by (simp_all add: pxdns_create_resolver_sockaddrs_def Let_def)
    show "dns_tab (dy_dns ?y) (sp_table ?sp)" using rep1 ent by (simp add: dns_tab_def)
    show "dy_posted ?y = map fst (sp_posted ?sp)" using dns_absD(5) [OF abs] by simp
    show "holds_reply (dy_dns ?y) z" if "z \<in> set (sp_posted ?sp)" for z
      using dns_absD(6) [OF abs, of z] that core holds_reply_cong [of ?s1 z ?s] by simp
    show "distinct (map fst (sp_table ?sp) @ map fst (sp_posted ?sp))" using dns_absD(7) [OF abs] by simp
    show "dom (dns_heap (dy_dns ?y)) = fst ` set (sp_table ?sp) \<union> fst ` set (sp_posted ?sp)"
      using dns_absD(8) [OF abs] core by simp
    show "dns_timer (dy_dns ?y)" if "sp_table ?sp \<noteq> []"
      using that dns_absD(9) [OF abs] by (simp add: pxdns_create_resolver_sockaddrs_def Let_def)
    show "dy_cur ?y = sp_cur ?sp" using dns_absD(10) [OF abs] by simp
    show "\<exists>e. (d, e) \<in> set (sp_table ?sp) \<and> en_generation e = sp_generation ?sp \<and> en_residx e = 0"
      if "sp_cur ?sp = Some d" for d
      using that en dns_absD(10) [OF abs] by simp
  qed
  then show ?thesis by simp
qed

end
