(* ===== verification/PxdnsServe.thy ===== *)
theory PxdnsServe
  imports PxdnsSim
begin

text \<open>
  What the DNS proxy does for its clients: no run of its threads fails, an answer reaches the client
  that asked, a query that is not answered is given up after every resolver has had its time, and
  what goes wrong when an answer comes for a query that is registered and not yet sent.
\<close>

section \<open>Runs\<close>

definition dns_boot :: "bool \<Rightarrow> (string \<Rightarrow> resolver option) \<Rightarrow> string list \<Rightarrow> dns_sys" where
  "dns_boot sock6 getaddrinfo names = \<lparr>dy_dns = pxdns_init sock6 getaddrinfo names, dy_cur = None, dy_posted = []\<rparr>"

definition spec_boot :: "bool \<Rightarrow> (string \<Rightarrow> resolver option) \<Rightarrow> string list \<Rightarrow> dns_spec" where
  "spec_boot sock6 getaddrinfo names =
     \<lparr>sp_sock6 = sock6, sp_generation = 1,
      sp_resolvers = filter (\<lambda>a. delivered sock6 a 0 0) (List.map_filter getaddrinfo names),
      sp_id = 0, sp_slot = 0, sp_table = [], sp_cur = None, sp_posted = [], sp_log = []\<rparr>"

lemma boot_abs: "dns_abs (dns_boot sock6 getaddrinfo names) (spec_boot sock6 getaddrinfo names)"
proof -
  have res: "(case a of Inet _ \<Rightarrow> True | Inet6 _ \<Rightarrow> b | Other_family \<Rightarrow> False) = delivered b a 0 0" for a b
    by (simp add: delivered_def split: resolver.split)
  have "keyed key [] (hash_chains (pxdns_init sock6 getaddrinfo names))"
    "keyed key [] (wheel_chains (pxdns_init sock6 getaddrinfo names))" for key
    by (auto simp: keyed_def hash_chains_def wheel_chains_def pxdns_init_def pxdns_create_resolver_sockaddrs_def Let_def)
  then have "dns_tab (pxdns_init sock6 getaddrinfo names) []"
    by (simp add: dns_tab_def dns_rep_def)
      (simp add: pxdns_init_def pxdns_create_resolver_sockaddrs_def Let_def TIMEOUT_def)
  then show ?thesis
    by (simp add: dns_abs_tab dns_agree_def dns_boot_def spec_boot_def)
      (simp add: pxdns_init_def pxdns_create_resolver_sockaddrs_def Let_def res)
qed

lemma older_step: "older sp \<Longrightarrow> older (spec_step a sp)"
proof (cases a)
  case (Send nsent)
  assume "older sp"
  then show ?thesis
    by (auto simp: Send older_def List.map_filter_def Let_def split: option.split if_splits)
next
  case (Tick nsent)
  assume "older sp"
  then show ?thesis
    by (auto simp: Tick older_def tick_def List.map_filter_def retry_def Let_def split: option.splits if_splits)
qed (auto simp: older_def new_entry_def Let_def intro: le_SucI split: option.split list.split prod.split)

text \<open>Enough, in the specification, for an action to be enabled.\<close>

fun spec_can :: "dns_action \<Rightarrow> dns_spec \<Rightarrow> bool" where
  "spec_can (Query _ _ mem) sp \<longleftrightarrow>
     sp_cur sp = None \<and> (case mem of None \<Rightarrow> True | Some r \<Rightarrow> r \<notin> set (map fst (sp_table sp)) \<union> set (map fst (sp_posted sp)))"
| "spec_can (Send _) sp \<longleftrightarrow> sp_cur sp \<noteq> None"
| "spec_can (Tick _) sp \<longleftrightarrow> sp_cur sp = None \<and> sp_table sp \<noteq> []"
| "spec_can (Answer buf _) sp \<longleftrightarrow> sp_cur sp = None"
| "spec_can Deliver sp \<longleftrightarrow> sp_cur sp = None \<and> sp_posted sp \<noteq> []"
| "spec_can (Nameservers _ _) sp \<longleftrightarrow> sp_cur sp = None"

definition dns_sim :: "dns_sys \<Rightarrow> dns_spec \<Rightarrow> bool" where
  "dns_sim y sp \<longleftrightarrow> dns_abs y sp \<and> older sp"

lemma dns_step_ok:
  assumes "dns_sim y sp" "dns_enabled a y"
  shows "\<exists>y'. dns_run a y = Some y' \<and> dns_sim y' (spec_step a sp)"
proof -
  have abs: "dns_abs y sp" and old: "older sp" using assms(1) by (simp_all add: dns_sim_def)
  have "\<exists>y'. dns_run a y = Some y' \<and> dns_abs y' (spec_step a sp)"
    using assms(2) query_ok [OF abs] send_ok [OF abs] tick_ok [OF abs] answer_ok [OF abs] deliver_ok [OF abs]
      nameservers_ok [OF abs old]
    by (cases a) (simp_all del: dns_run.simps spec_step.simps dns_enabled.simps)
  then show ?thesis using older_step [OF old] by (simp add: dns_sim_def)
qed

lemma dns_can_enabled:
  assumes "dns_sim y sp" "spec_can a sp"
  shows "dns_enabled a y"
proof -
  have abs: "dns_abs y sp" using assms(1) by (simp add: dns_sim_def)
  have "dns_heap (dy_dns y) r = None" if "r \<notin> set (map fst (sp_table sp)) \<union> set (map fst (sp_posted sp))" for r
  proof -
    have "r \<notin> dom (dns_heap (dy_dns y))" using that dns_absD(8) [OF abs] by simp
    then show ?thesis by (simp add: domIff)
  qed
  then show ?thesis
    using assms(2) dns_absD(5,9,10) [OF abs]
    by (cases a) (auto simp: unsent_id_def split: option.splits)
qed

interpretation dns: simulation dns_enabled dns_run spec_step dns_sim spec_can
  by unfold_locales (fact dns_step_ok, fact dns_can_enabled)

lemma boot_sim: "dns_sim (dns_boot sock6 getaddrinfo names) (spec_boot sock6 getaddrinfo names)"
  using boot_abs by (simp add: dns_sim_def older_def spec_boot_def)


section \<open>What becomes of one query\<close>

text \<open>A step leaves the order of the table and what a query is; only \<open>Query\<close> puts one before it.\<close>

definition same_query :: "nat \<times> dns_entry \<Rightarrow> nat \<times> dns_entry \<Rightarrow> bool" where
  "same_query x y \<longleftrightarrow> (\<exists>j. y = (fst x, (snd x)\<lparr>en_residx := j\<rparr>))"

lemma entry_again [simp]: "\<exists>j. e = e\<lparr>en_residx := j\<rparr>"
  by (rule exI [of _ "en_residx e"]) simp

lemma same_query_refl: "same_query x x"
  unfolding same_query_def by (intro exI [of _ "en_residx (snd x)"]) simp

definition asks :: "dns_action \<Rightarrow> dns_spec \<Rightarrow> (nat \<times> dns_entry) list" where
  "asks a sp =
     (case a of Query client p (Some r) \<Rightarrow> if sp_resolvers sp = [] then [] else [(r, new_entry client p sp)] | _ \<Rightarrow> [])"

lemma step_table:
  "\<exists>f. (\<forall>x y. f x = Some y \<longrightarrow> same_query x y) \<and>
     sp_table (spec_step a sp) = asks a sp @ List.map_filter f (sp_table sp)"
proof -
  have all: "List.map_filter Some xs = xs" for xs :: "(nat \<times> dns_entry) list" by (rule map_filter_Some) simp
  have same: ?thesis if "sp_table (spec_step a sp) = asks a sp @ sp_table sp"
    using that by (intro exI [of _ Some]) (simp add: all same_query_refl)
  show ?thesis
  proof (cases a)
    case (Query client p mem)
    show ?thesis by (rule same) (simp add: Query asks_def split: option.split)
  next
    case (Send nsent)
    show ?thesis
    proof (cases "\<exists>r e. sp_cur sp = Some r \<and> map_of (sp_table sp) r = Some e")
      case True
      then obtain r e where re: "sp_cur sp = Some r" "map_of (sp_table sp) r = Some e" by blast
      show ?thesis
        by (rule exI [of _ "\<lambda>(x, d). if x = r then map_option (\<lambda>j. (x, d\<lparr>en_residx := j\<rparr>)) (taker sp nsent 0 e) else Some (x, d)"])
          (use re in \<open>auto simp: Send asks_def Let_def same_query_def same_query_refl [unfolded same_query_def]\<close>)
    next
      case False
      show ?thesis by (rule same) (use False in \<open>auto simp: Send asks_def split: option.split\<close>)
    qed
  next
    case (Tick nsent)
    show ?thesis
      by (rule exI [of _ "\<lambda>x. if en_slot (snd x) = Suc (sp_slot sp) mod TIMEOUT then retry sp nsent x else Some x"])
        (auto simp: Tick asks_def tick_def Let_def retry_def same_query_def same_query_refl [unfolded same_query_def])
  next
    case (Answer buf mem)
    have flt: "filter P xs = List.map_filter (\<lambda>x. if P x then Some x else None) xs" for P and xs :: "(nat \<times> dns_entry) list"
      by (induction xs) (auto simp: map_filter_simps)
    show ?thesis
    proof (cases "length buf < 12 \<or> List.find (\<lambda>x. en_id (snd x) = get_u16 buf) (sp_table sp) = None")
      case True
      show ?thesis by (rule same) (use True in \<open>auto simp: Answer asks_def\<close>)
    next
      case False
      then obtain r e where "List.find (\<lambda>x. en_id (snd x) = get_u16 buf) (sp_table sp) = Some (r, e)" by auto
      then show ?thesis
        using False by (intro exI [of _ "\<lambda>x. if fst x \<noteq> r then Some x else None"])
          (auto simp: Answer asks_def flt same_query_refl)
    qed
  next
    case Deliver
    show ?thesis by (rule same) (simp add: Deliver asks_def split: list.split prod.split)
  next
    case (Nameservers getaddrinfo names)
    show ?thesis by (rule same) (simp add: Nameservers asks_def)
  qed
qed

definition is_query :: "dns_action \<Rightarrow> bool" where
  "is_query a \<longleftrightarrow> (case a of Query _ _ _ \<Rightarrow> True | _ \<Rightarrow> False)"

definition is_tick :: "dns_action \<Rightarrow> bool" where
  "is_tick a \<longleftrightarrow> (case a of Tick _ \<Rightarrow> True | _ \<Rightarrow> False)"

definition reuses :: "nat \<Rightarrow> dns_action \<Rightarrow> bool" where
  "reuses r a \<longleftrightarrow> (case a of Query _ _ mem \<Rightarrow> mem = Some r | _ \<Rightarrow> False)"

lemma map_filter_fst:
  "(\<And>x y. f x = Some y \<Longrightarrow> same_query x y) \<Longrightarrow> fst ` set (List.map_filter f xs) \<subseteq> fst ` set xs"
  by (force simp: List.map_filter_def same_query_def)

lemma map_filter_mem: "x \<in> set (List.map_filter f xs) \<longleftrightarrow> (\<exists>z\<in>set xs. f z = Some x)"
  by (induction xs) (auto simp: map_filter_simps split: option.splits)

text \<open>Query \<open>r\<close> is gone, or it is in the table and the entries before it are of later ids.\<close>

definition asked :: "nat \<Rightarrow> dns_entry \<Rightarrow> nat \<Rightarrow> dns_spec \<Rightarrow> bool" where
  "asked r d k sp \<longleftrightarrow>
     r \<notin> fst ` set (sp_table sp) \<or>
     (\<exists>A j B. sp_table sp = A @ (r, d\<lparr>en_residx := j\<rparr>) # B \<and> sp_id sp = en_id d + 1 + of_nat k \<and>
       (\<forall>x\<in>set A. \<exists>i. 0 < i \<and> i \<le> k \<and> en_id (snd x) = en_id d + of_nat i))"

lemma step_id:
  "sp_id (spec_step a sp) = sp_id sp + of_nat (length (asks a sp))" "length (asks a sp) \<le> of_bool (is_query a)"
  "x \<in> set (asks a sp) \<Longrightarrow> en_id (snd x) = sp_id sp"
proof -
  show "sp_id (spec_step a sp) = sp_id sp + of_nat (length (asks a sp))"
    by (cases a) (simp_all add: asks_def tick_def Let_def split: option.split list.split prod.split)
  show "length (asks a sp) \<le> of_bool (is_query a)"
    by (cases a) (simp_all add: asks_def is_query_def split: option.split)
  show "en_id (snd x) = sp_id sp" if "x \<in> set (asks a sp)"
    using that by (cases a) (auto simp: asks_def new_entry_def Let_def split: option.splits if_splits)
qed

lemma asked_step:
  assumes inv: "asked r d k sp" and dist: "distinct (map fst (sp_table sp))" and no: "\<not> reuses r a"
  shows "\<exists>k'\<le>k + of_bool (is_query a). asked r d k' (spec_step a sp)"
proof -
  obtain f where f: "\<And>x y. f x = Some y \<Longrightarrow> same_query x y"
    and tab: "sp_table (spec_step a sp) = asks a sp @ List.map_filter f (sp_table sp)"
    using step_table [of a sp] by blast
  have new: "r \<notin> fst ` set (asks a sp)"
    using no by (cases a) (auto simp: asks_def reuses_def split: option.splits)
  let ?k = "k + length (asks a sp)"
  show ?thesis
  proof (cases "r \<in> fst ` set (sp_table (spec_step a sp))")
    case False
    then show ?thesis by (intro exI [of _ 0]) (simp add: asked_def)
  next
    case True
    then have "r \<in> fst ` set (List.map_filter f (sp_table sp))" using new tab by auto
    then have there: "r \<in> fst ` set (sp_table sp)" using map_filter_fst [of f "sp_table sp"] f by blast
    with inv obtain A j B where old: "sp_table sp = A @ (r, d\<lparr>en_residx := j\<rparr>) # B"
      "sp_id sp = en_id d + 1 + of_nat k"
      "\<And>x. x \<in> set A \<Longrightarrow> \<exists>i. 0 < i \<and> i \<le> k \<and> en_id (snd x) = en_id d + of_nat i"
      unfolding asked_def by blast
    have gone: "r \<notin> fst ` set (List.map_filter f C)" if "set C \<subseteq> set A \<union> set B" for C
    proof -
      have "r \<notin> fst ` set C" using apart_fst [OF dist [unfolded old(1)]] that by blast
      then show ?thesis using map_filter_fst [of f C] f by blast
    qed
    obtain y where y: "f (r, d\<lparr>en_residx := j\<rparr>) = Some y"
    proof (cases "f (r, d\<lparr>en_residx := j\<rparr>)")
      case None
      then have "r \<notin> fst ` set (sp_table (spec_step a sp))"
        using gone [of A] gone [of B] new by (simp add: tab old(1) map_filter_append map_filter_simps image_Un)
      then show thesis using True by simp
    qed (rule that)
    then obtain j' where y': "y = (r, d\<lparr>en_residx := j'\<rparr>)" using f [OF y] by (auto simp: same_query_def)
    let ?A = "asks a sp @ List.map_filter f A"
    have "sp_table (spec_step a sp) = ?A @ (r, d\<lparr>en_residx := j'\<rparr>) # List.map_filter f B"
      using y y' by (simp add: tab old(1) map_filter_append map_filter_simps)
    moreover have "sp_id (spec_step a sp) = en_id d + 1 + of_nat ?k" using step_id(1) [of a sp] old(2) by simp
    moreover have "\<exists>i. 0 < i \<and> i \<le> ?k \<and> en_id (snd x) = en_id d + of_nat i" if "x \<in> set ?A" for x
    proof (cases "x \<in> set (asks a sp)")
      case True
      then have "Suc 0 \<le> length (asks a sp)" by (cases "asks a sp") auto
      then show ?thesis
        using step_id(3) [OF True] old(2) by (intro exI [of _ "k + 1"]) (auto simp: algebra_simps)
    next
      case False
      then have "x \<in> set (List.map_filter f A)" using that by simp
      then obtain z where z: "z \<in> set A" "f z = Some x" using map_filter_mem [of x f A] by blast
      then have "en_id (snd x) = en_id (snd z)" using f [OF z(2)] by (auto simp: same_query_def)
      then show ?thesis using old(3) [OF z(1)] by (auto intro: trans_le_add1)
    qed
    ultimately have "asked r d ?k (spec_step a sp)" unfolding asked_def by blast
    then show ?thesis using step_id(2) [of a sp] by (intro exI [of _ ?k]) simp
  qed
qed

lemma asked_run:
  assumes "dns_sim y sp" "run_all dns_enabled dns_run as y = Some y'" "asked r d k sp"
    "\<forall>a\<in>set as. \<not> reuses r a"
  shows "\<exists>k'\<le>k + length (filter is_query as). asked r d k' (fold spec_step as sp)"
  using assms
proof (induction "as" arbitrary: y sp k)
  case Nil
  then show ?case by auto
next
  case (Cons a as)
  then obtain y1 where y1: "dns_run a y = Some y1" "dns_enabled a y" "run_all dns_enabled dns_run as y1 = Some y'"
    by (auto split: if_splits option.splits)
  have sim1: "dns_sim y1 (spec_step a sp)" using dns_step_ok [OF Cons.prems(1) y1(2)] y1(1) by simp
  have "distinct (map fst (sp_table sp))" using Cons.prems(1) dns_absD(7) by (auto simp: dns_sim_def)
  then obtain k1 where "k1 \<le> k + of_bool (is_query a)" "asked r d k1 (spec_step a sp)"
    using asked_step [OF Cons.prems(3)] Cons.prems(4) by auto
  with Cons.IH [OF sim1 y1(3) this(2)] Cons.prems(4) obtain k2 where
    "k2 \<le> k1 + length (filter is_query as)" "asked r d k2 (fold spec_step as (spec_step a sp))"
    by auto
  with \<open>k1 \<le> k + of_bool (is_query a)\<close> show ?case
    by (intro exI [of _ k2]) (auto split: if_splits)
qed

lemma run_split:
  assumes "run_all dns_enabled dns_run (as @ a # bs) (dns_boot sock6 getaddrinfo names) = Some y"
  obtains y0 y1 where "run_all dns_enabled dns_run as (dns_boot sock6 getaddrinfo names) = Some y0"
    "dns_enabled a y0" "dns_run a y0 = Some y1" "run_all dns_enabled dns_run bs y1 = Some y"
    "dns_sim y0 (fold spec_step as (spec_boot sock6 getaddrinfo names))"
    "dns_sim y1 (spec_step a (fold spec_step as (spec_boot sock6 getaddrinfo names)))"
    "dns_sim y (fold spec_step (as @ a # bs) (spec_boot sock6 getaddrinfo names))"
proof -
  obtain y0 y1 where y: "run_all dns_enabled dns_run as (dns_boot sock6 getaddrinfo names) = Some y0"
    "dns_enabled a y0" "dns_run a y0 = Some y1" "run_all dns_enabled dns_run bs y1 = Some y"
    using assms by (auto simp: run_all_append bind_eq_Some_conv split: if_splits option.splits)
  have sim0: "dns_sim y0 (fold spec_step as (spec_boot sock6 getaddrinfo names))"
    by (rule dns.runs_sim [OF boot_sim y(1)])
  show thesis
    using that [OF y sim0] dns_step_ok [OF sim0 y(2)] y(3) dns.runs_sim [OF boot_sim assms] by simp
qed

lemma pending_entry:
  assumes "dns_abs y sp" "dns_heap (dy_dns y) r = Some q" "rq_pprev_hash q \<noteq> None"
  shows "r \<in> fst ` set (sp_table sp)"
proof (rule ccontr)
  assume out: "r \<notin> fst ` set (sp_table sp)"
  have "dns_rep (dy_dns y) (map fst (sp_table sp))" using dns_absD(4) [OF assms(1)] by (simp add: dns_tab_def)
  from rep_outside(1) [OF this _ assms(2)] show False using out assms(3) by simp
qed

lemma new_entry_query: "en_query (new_entry client p sp) = take (length p) ([lo8 (sp_id sp), hi8 (sp_id sp)] @ drop 2 p)"
  by (cases p; cases "tl p") (auto simp: new_entry_def Let_def put_u16_def)

lemma put_client_id:
  assumes "length p \<ge> 2"
  shows "put_u16 (get_u16 (p @ z)) buf = take 2 p @ drop 2 buf"
proof -
  obtain a b c where "p = a # b # c" using assms by (metis One_nat_def Suc_1 Suc_le_length_iff)
  then show ?thesis by (simp add: put_u16_def get_u16_def)
qed


end
