(* ===== verification/PxdnsLife.thy ===== *)
theory PxdnsLife
  imports PxdnsServe
begin

text \<open>
  The end of a query in the DNS proxy: how long one that is not answered stays, and the race of an
  answer with a query that is registered and not yet sent.
\<close>

section \<open>The wheel's budget\<close>

text \<open>
  The ticks an entry has left: those until its slot comes up, and one turn of the wheel for each
  resolver that has not had its time.
\<close>

definition budget :: "dns_spec \<Rightarrow> dns_entry \<Rightarrow> nat" where
  "budget sp e =
     Suc ((en_slot e + TIMEOUT - Suc (sp_slot sp)) mod TIMEOUT) +
     (if en_generation e = sp_generation sp then TIMEOUT * (length (sp_resolvers sp) - Suc (en_residx e)) else 0)"

definition within :: "nat \<Rightarrow> nat \<Rightarrow> dns_spec \<Rightarrow> bool" where
  "within r n sp \<longleftrightarrow> (\<forall>e. (r, e) \<in> set (sp_table sp) \<longrightarrow> budget sp e \<le> n)"

lemma slots_cases:
  "k < TIMEOUT \<Longrightarrow> k = 0 \<or> k = 1 \<or> k = 2 \<or> k = 3 \<or> k = 4"
  by (auto simp: TIMEOUT_def)

lemma wheel_turn:
  assumes "k < TIMEOUT" "j < TIMEOUT"
  shows "k = Suc j mod TIMEOUT \<Longrightarrow> Suc ((k + TIMEOUT - Suc j) mod TIMEOUT) = 1"
    and "k = Suc j mod TIMEOUT \<Longrightarrow> Suc ((k + TIMEOUT - Suc (Suc j mod TIMEOUT)) mod TIMEOUT) = TIMEOUT"
    and "k \<noteq> Suc j mod TIMEOUT \<Longrightarrow>
      Suc (Suc ((k + TIMEOUT - Suc (Suc j mod TIMEOUT)) mod TIMEOUT)) = Suc ((k + TIMEOUT - Suc j) mod TIMEOUT)"
  using slots_cases [OF assms(1)] slots_cases [OF assms(2)] unfolding TIMEOUT_def by (elim disjE; simp)+

lemma entry_slot:
  assumes "dns_abs y sp" "(r, e) \<in> set (sp_table sp)"
  shows "en_slot e < TIMEOUT" "sp_slot sp < TIMEOUT"
proof -
  note tab = dns_absD(4) [OF assms(1)]
  obtain q where q: "dns_heap (dy_dns y) r = Some q" "entry_of q = e"
    by (rule tab_entry [OF tab assms(2)])
  have rep: "dns_rep (dy_dns y) (map fst (sp_table sp))" using tab by (simp add: dns_tab_def)
  have "r \<in> set (map fst (sp_table sp))" using assms(2) by force
  from rep_member [OF rep this] show "en_slot e < TIMEOUT" using q entry_fields(6) [OF q(2)] by auto
  show "sp_slot sp < TIMEOUT" using rep dns_absD(2) [OF assms(1)] by (simp add: dns_rep_def)
qed

lemma taker_bound:
  assumes "taker sp nsent j e = Some i"
  shows "en_generation e = sp_generation sp" "j \<le> i" "i < length (sp_resolvers sp)"
  using assms first_taker_bound by (auto simp: taker_def split: if_splits)

lemma tick_within:
  assumes abs: "dns_abs y sp" and inv: "within r (Suc n) sp"
  shows "within r n (tick nsent sp)"
  unfolding within_def
proof (intro allI impI)
  fix e' assume "(r, e') \<in> set (sp_table (tick nsent sp))"
  then obtain x where x: "x \<in> set (sp_table sp)"
    "(if en_slot (snd x) = Suc (sp_slot sp) mod TIMEOUT then retry sp nsent x else Some x) = Some (r, e')"
    by (auto simp: tick_def Let_def map_filter_mem)
  obtain e where e: "x = (r, e)"
  proof -
    obtain r' e where "x = (r', e)" by (cases x)
    then show thesis using that x(2) by (auto simp: retry_def split: if_splits)
  qed
  have old: "budget sp e \<le> Suc n" using inv x(1) e by (auto simp: within_def)
  note slots = entry_slot [OF abs x(1) [unfolded e]]
  have fields: "sp_slot (tick nsent sp) = Suc (sp_slot sp) mod TIMEOUT"
    "sp_generation (tick nsent sp) = sp_generation sp" "sp_resolvers (tick nsent sp) = sp_resolvers sp"
    by (simp_all add: tick_def Let_def)
  show "budget (tick nsent sp) e' \<le> n"
  proof (cases "en_slot e = Suc (sp_slot sp) mod TIMEOUT")
    case True
    then obtain j where j: "taker sp (nsent r) (Suc (en_residx e)) e = Some j" "e' = e\<lparr>en_residx := j\<rparr>"
      using x(2) e by (auto simp: retry_def)
    note b = taker_bound [OF j(1)]
    have "length (sp_resolvers sp) - Suc (en_residx e) = Suc (length (sp_resolvers sp) - Suc (Suc (en_residx e)))"
      using b(2,3) by simp
    moreover have "length (sp_resolvers sp) - Suc j \<le> length (sp_resolvers sp) - Suc (Suc (en_residx e))"
      using b(2) by simp
    then have "TIMEOUT * (length (sp_resolvers sp) - Suc j) \<le> TIMEOUT * (length (sp_resolvers sp) - Suc (Suc (en_residx e)))"
      by (rule mult_le_mono2)
    moreover have "TIMEOUT + TIMEOUT * (length (sp_resolvers sp) - Suc (Suc (en_residx e))) \<le> n"
      using calculation(1) old b(1) wheel_turn(1) [OF slots True] by (simp add: budget_def)
    ultimately have "TIMEOUT + TIMEOUT * (length (sp_resolvers sp) - Suc j) \<le> n" by linarith
    then show ?thesis
      using b(1) wheel_turn(2) [OF slots True] unfolding budget_def fields j(2) by simp
  next
    case False
    then have "e' = e" using x(2) e by simp
    then show ?thesis
      using old wheel_turn(3) [OF slots False] by (auto simp: budget_def fields)
  qed
qed

lemma step_entry:
  assumes abs: "dns_abs y sp" and no: "\<not> reuses r a" "\<not> is_tick a" and e': "(r, e') \<in> set (sp_table (spec_step a sp))"
  obtains e j where "(r, e) \<in> set (sp_table sp)" "e' = e\<lparr>en_residx := j\<rparr>" "en_residx e \<le> j"
proof (cases a)
  case (Query client p mem)
  then have "(r, e') \<in> set (sp_table sp)" using e' no(1) by (auto simp: reuses_def split: option.splits if_splits)
  then show thesis using that [of e' "en_residx e'"] by simp
next
  case (Send nsent)
  show thesis
  proof (cases "sp_cur sp = Some r \<and> map_of (sp_table sp) r \<noteq> None")
    case True
    then obtain d where d: "map_of (sp_table sp) r = Some d" by blast
    then have "(r, d) \<in> set (sp_table sp)" by (rule map_of_SomeD)
    moreover obtain e where "(r, e) \<in> set (sp_table sp)" "en_residx e = 0" using dns_absD(11) [OF abs] True by blast
    ultimately have "en_residx d = 0"
      using dns_absD(7) [OF abs] by (metis distinct_append eq_key_imp_eq_value)
    have uniq: "e = d" if "(r, e) \<in> set (sp_table sp)" for e
      using that \<open>(r, d) \<in> set (sp_table sp)\<close> dns_absD(7) [OF abs] by (metis distinct_append eq_key_imp_eq_value)
    obtain j where "e' = d\<lparr>en_residx := j\<rparr>"
      using e' True d uniq by (auto simp: Send Let_def map_filter_mem split: if_splits)
    then show thesis using that [of d j] \<open>(r, d) \<in> set (sp_table sp)\<close> \<open>en_residx d = 0\<close> by simp
  next
    case False
    then have "(r, e') \<in> set (sp_table sp)"
      using e' by (auto simp: Send Let_def map_filter_mem split: option.splits if_splits)
    then show thesis using that [of e' "en_residx e'"] by simp
  qed
next
  case (Tick nsent)
  then show thesis using no(2) by (simp add: is_tick_def)
next
  case (Answer buf mem)
  then have "(r, e') \<in> set (sp_table sp)" using e' by (auto split: option.splits if_splits)
  then show thesis using that [of e' "en_residx e'"] by simp
next
  case Deliver
  then have "(r, e') \<in> set (sp_table sp)" using e' by (auto split: list.splits)
  then show thesis using that [of e' "en_residx e'"] by simp
next
  case (Nameservers getaddrinfo names)
  then have "(r, e') \<in> set (sp_table sp)" using e' by simp
  then show thesis using that [of e' "en_residx e'"] by simp
qed

lemma step_within:
  assumes sim: "dns_sim y sp" and inv: "within r n sp" and no: "\<not> reuses r a" "\<not> is_tick a"
  shows "within r n (spec_step a sp)"
  unfolding within_def
proof (intro allI impI)
  fix e' assume e': "(r, e') \<in> set (sp_table (spec_step a sp))"
  have abs: "dns_abs y sp" and old: "older sp" using sim by (simp_all add: dns_sim_def)
  obtain e j where e: "(r, e) \<in> set (sp_table sp)" "e' = e\<lparr>en_residx := j\<rparr>" "en_residx e \<le> j"
    by (rule step_entry [OF abs no e'])
  have slot: "sp_slot (spec_step a sp) = sp_slot sp"
    using no(2) by (cases a) (simp_all add: is_tick_def Let_def split: option.split list.split prod.split)
  have gen: "sp_generation (spec_step a sp) = sp_generation sp \<and> sp_resolvers (spec_step a sp) = sp_resolvers sp \<or>
      sp_generation (spec_step a sp) = Suc (sp_generation sp)"
    using no(2) by (cases a) (simp_all add: is_tick_def Let_def split: option.split list.split prod.split)
  have "en_generation e \<le> sp_generation sp" using old e(1) by (force simp: older_def)
  moreover have "TIMEOUT * (length (sp_resolvers sp) - Suc j) \<le> TIMEOUT * (length (sp_resolvers sp) - Suc (en_residx e))"
    by (rule mult_le_mono2) (use e(3) in simp)
  ultimately have "budget (spec_step a sp) e' \<le> budget sp e"
    using gen unfolding budget_def e(2) slot by auto
  also have "\<dots> \<le> n" using inv e(1) by (simp add: within_def)
  finally show "budget (spec_step a sp) e' \<le> n" .
qed

lemma run_within:
  assumes "dns_sim y sp" "run_all dns_enabled dns_run as y = Some y'" "within r n sp" "\<forall>a\<in>set as. \<not> reuses r a"
    "length (filter is_tick as) \<le> n"
  shows "within r (n - length (filter is_tick as)) (fold spec_step as sp)"
  using assms
proof (induction "as" arbitrary: y sp n)
  case (Cons a as)
  then obtain y1 where y1: "dns_run a y = Some y1" "dns_enabled a y" "run_all dns_enabled dns_run as y1 = Some y'"
    by (auto split: if_splits option.splits)
  have sim1: "dns_sim y1 (spec_step a sp)" using dns_step_ok [OF Cons.prems(1) y1(2)] y1(1) by simp
  have abs: "dns_abs y sp" using Cons.prems(1) by (simp add: dns_sim_def)
  show ?case
  proof (cases "is_tick a")
    case True
    then obtain m nsent where n: "n = Suc m" "a = Tick nsent"
      using Cons.prems(5) by (cases n; cases a) (auto simp: is_tick_def)
    have "within r m (spec_step a sp)" using tick_within [OF abs] Cons.prems(3) n by simp
    from Cons.IH [OF sim1 y1(3) this] show ?thesis using Cons.prems(4,5) True n by simp
  next
    case False
    have "within r n (spec_step a sp)"
      by (rule step_within [OF Cons.prems(1,3)]) (use Cons.prems(4) False in auto)
    from Cons.IH [OF sim1 y1(3) this] show ?thesis using Cons.prems(4,5) False by simp
  qed
qed simp

lemma filter_prefix:
  "k \<le> length (filter P xs) \<Longrightarrow> \<exists>ys zs. xs = ys @ zs \<and> length (filter P ys) = k"
proof (induction xs arbitrary: k)
  case (Cons x xs)
  show ?case
  proof (cases "P x")
    case True
    show ?thesis
    proof (cases k)
      case 0
      then show ?thesis by (intro exI [of _ "[]"] exI [of _ "x # xs"]) simp
    next
      case (Suc j)
      then have "j \<le> length (filter P xs)" using Cons.prems True by simp
      then obtain ys zs where "xs = ys @ zs" "length (filter P ys) = j" using Cons.IH by blast
      then show ?thesis using True Suc by (intro exI [of _ "x # ys"] exI [of _ zs]) simp
    qed
  next
    case False
    then have "k \<le> length (filter P xs)" using Cons.prems by simp
    then obtain ys zs where "xs = ys @ zs" "length (filter P ys) = k" using Cons.IH by blast
    then show ?thesis using False by (intro exI [of _ "x # ys"] exI [of _ zs]) simp
  qed
qed auto

text \<open>
  C18: a query does not stay for ever. After five ticks for each resolver there was when it came, it is
  no longer pending: its memory is free, or its reply is on the way. Whatever happens meanwhile,
  retransmissions, other queries and a change of the nameservers included. And while any query is
  pending the timer is set, so that ticks do come.
\<close>

theorem dns_gives_up:
  assumes run: "run_all dns_enabled dns_run (as @ Query client p (Some r) # bs) (dns_boot sock6 getaddrinfo names) = Some y"
    and before: "run_all dns_enabled dns_run as (dns_boot sock6 getaddrinfo names) = Some y0"
    and once: "\<forall>a\<in>set bs. \<not> reuses r a"
    and ticks: "TIMEOUT * length (dns_resolvers (dy_dns y0)) \<le> length (filter is_tick bs)"
  shows "(dns_heap (dy_dns y) r = None \<or> r \<in> set (dy_posted y)) \<and> (dns_active (dy_dns y) > 0 \<longrightarrow> dns_timer (dy_dns y))"
proof -
  let ?boot = "spec_boot sock6 getaddrinfo names"
  define sp where "sp = fold spec_step as ?boot"
  define asking where "asking = spec_step (Query client p (Some r)) sp"
  obtain y1 where y: "dns_enabled (Query client p (Some r)) y0" "run_all dns_enabled dns_run bs y1 = Some y"
    "dns_sim y0 sp" "dns_sim y1 asking" "dns_sim y (fold spec_step bs asking)"
    unfolding sp_def asking_def by (rule run_split [OF run]) (use before in auto)
  have abs0: "dns_abs y0 sp" using y(3) by (simp add: dns_sim_def)
  let ?n = "TIMEOUT * length (sp_resolvers sp)"
  have n: "?n \<le> length (filter is_tick bs)" using ticks dns_absD(1) [OF abs0] by (simp add: dns_agree_def)
  have fresh: "r \<notin> fst ` set (sp_table sp)"
  proof -
    have "r \<notin> dom (dns_heap (dy_dns y0))" using y(1) by (simp add: domIff)
    then show ?thesis using dns_absD(8) [OF abs0] by auto
  qed
  have start: "within r ?n asking"
  proof (cases "sp_resolvers sp = []")
    case True
    then show ?thesis using fresh by (force simp: within_def asking_def)
  next
    case False
    have slot: "sp_slot sp < TIMEOUT"
      using dns_absD(2,4) [OF abs0] by (simp add: dns_tab_def dns_rep_def)
    have turn: "(sp_slot sp + TIMEOUT - Suc (sp_slot sp)) mod TIMEOUT = TIMEOUT - 1" by (simp add: TIMEOUT_def)
    obtain m where m: "length (sp_resolvers sp) = Suc m" using False by (cases "sp_resolvers sp") auto
    have "budget asking (new_entry client p sp) \<le> ?n"
      using False m turn by (simp add: asking_def budget_def new_entry_def Let_def TIMEOUT_def)
    then show ?thesis using False fresh by (auto simp: within_def asking_def image_iff)
  qed
  obtain cs ds where split: "bs = cs @ ds" "length (filter is_tick cs) = ?n" using filter_prefix [OF n] by blast
  obtain y2 where y2: "run_all dns_enabled dns_run cs y1 = Some y2" "run_all dns_enabled dns_run ds y2 = Some y"
    using y(2) by (auto simp: split(1) run_all_append bind_eq_Some_conv)
  have sim2: "dns_sim y2 (fold spec_step cs asking)" by (rule dns.runs_sim [OF y(4) y2(1)])
  have "within r 0 (fold spec_step cs asking)"
    using run_within [OF y(4) y2(1) start] once split by simp
  then have gone: "r \<notin> fst ` set (sp_table (fold spec_step cs asking))"
    by (force simp: within_def budget_def)
  have "within r 0 (fold spec_step ds (fold spec_step cs asking))"
  proof -
    have "within r (length (filter is_tick ds)) (fold spec_step cs asking)"
      using gone by (force simp: within_def)
    from run_within [OF sim2 y2(2) this] show ?thesis using once split by simp
  qed
  then have "r \<notin> fst ` set (sp_table (fold spec_step bs asking))"
    by (force simp: within_def budget_def split(1))
  moreover have abs: "dns_abs y (fold spec_step bs asking)" using y(5) by (simp add: dns_sim_def)
  ultimately have "r \<notin> dom (dns_heap (dy_dns y)) \<or> r \<in> set (dy_posted y)"
    using dns_absD(5,8) [OF abs] by auto
  moreover have "dns_active (dy_dns y) = length (sp_table (fold spec_step bs asking))"
    using dns_absD(4) [OF abs] by (simp add: dns_tab_def dns_rep_def)
  then have "dns_active (dy_dns y) > 0 \<longrightarrow> dns_timer (dy_dns y)" using dns_absD(9) [OF abs] by auto
  ultimately show ?thesis by (auto simp: domIff)
qed

section \<open>An answer that comes too early\<close>

text \<open>
  C21: \<open>pxdns_query\<close> registers a query before it sends it, and holds no lock in between. If an answer
  with its id arrives then, late for an earlier query of that id or forged, the poll manager's
  thread takes the query out of the table. If no resolver takes the query after that,
  \<open>pxdns_query\<close> unlinks it a second time, which fails the assertion of \<open>pxdns_hash_del\<close>; and if there
  is no memory for the reply, the query is freed while \<open>pxdns_query\<close> goes on to use it.
\<close>

theorem dns_answer_before_send:
  assumes run: "run_all dns_enabled dns_run (as @ [Query client p (Some r)]) (dns_boot sock6 getaddrinfo names) = Some y"
    and q: "dy_cur y = Some r" "dns_heap (dy_dns y) r = Some q"
    and buf: "length buf \<ge> 12" "get_u16 buf = rq_id q"
    and refused: "\<forall>j<length (dns_resolvers (dy_dns y)).
      \<not> delivered (dns_sock6 (dy_dns y)) (dns_resolvers (dy_dns y) ! j) (rq_size q) (nsent j)"
  shows "(\<exists>y'. dns_run (Answer buf True) y = Some y' \<and> dns_enabled (Send nsent) y' \<and> dns_run (Send nsent) y' = None) \<and>
    (\<exists>y'. dns_run (Answer buf False) y = Some y' \<and> dns_enabled (Send nsent') y' \<and> dns_run (Send nsent') y' = None)"
proof -
  let ?boot = "spec_boot sock6 getaddrinfo names" and ?s = "dy_dns y"
  define before where "before = fold spec_step as ?boot"
  define sp where "sp = spec_step (Query client p (Some r)) before"
  obtain y0 y1 where y: "dns_enabled (Query client p (Some r)) y0" "run_all dns_enabled dns_run [] y1 = Some y"
    "dns_sim y0 before" "dns_sim y1 sp"
    unfolding before_def sp_def by (rule run_split [OF run])
  have abs: "dns_abs y sp" and abs0: "dns_abs y0 before" using y(2-4) by (simp_all add: dns_sim_def)
  have "sp_cur before = None" using y(1) dns_absD(10) [OF abs0] by simp
  moreover have "sp_cur sp = Some r" using dns_absD(10) [OF abs] q(1) by simp
  ultimately have res: "sp_resolvers before \<noteq> []" by (auto simp: sp_def split: if_splits)
  let ?e = "new_entry client p before"
  have tab: "sp_table sp = (r, ?e) # sp_table before" using res by (simp add: sp_def)
  note stab = dns_absD(4) [OF abs]
  obtain q0 where "dns_heap ?s r = Some q0" "entry_of q0 = ?e"
    by (rule tab_entry [OF stab, of r ?e]) (auto simp: tab)
  then have ent: "entry_of q = ?e" using q(2) by simp
  have gen: "rq_generation q = dns_generation ?s" "rq_residx q = 0"
    using entry_fields(2,3) [OF ent] dns_absD(1) [OF abs] res
    by (simp_all add: new_entry_def Let_def dns_agree_def sp_def)
  have nres: "dns_resolvers ?s \<noteq> []" using dns_absD(1) [OF abs] res by (simp add: dns_agree_def sp_def)
  have found: "List.find (\<lambda>x. en_id (snd x) = get_u16 buf) (sp_table sp) = Some (r, ?e)"
    using buf(2) entry_fields(1) [OF ent] by (simp add: tab)
  obtain s1 where s1: "pxdns_request_find (get_u16 buf) ?s = Some (Some r, s1)"
    "dns_tab s1 (filter (\<lambda>x. fst x \<noteq> r) (sp_table sp))" "dns_core s1 = dns_core ?s" "dns_same ?s s1"
    using request_find_ok [OF stab, of "get_u16 buf"] found by auto
  have "dns_core s1 r = Some (bare q)" using s1(3) q(2) by (simp add: dns_core_def)
  then obtain q1 where q1: "dns_heap s1 r = Some q1" "bare q1 = bare q" by (auto simp: dns_core_def)
  have rep1: "dns_rep s1 (map fst (filter (\<lambda>x. fst x \<noteq> r) (sp_table sp)))" using s1(2) by (simp add: dns_tab_def)
  have new: "r \<notin> set (map fst (filter (\<lambda>x. fst x \<noteq> r) (sp_table sp)))" by auto
  note out = rep_outside [OF rep1 new q1(1)]
  note same = s1(4) [unfolded dns_same_def]
  have f1: "rq_generation q1 = dns_generation s1" "rq_residx q1 = 0" "rq_size q1 = rq_size q"
    "rq_client_id q1 = rq_client_id q"
    using q1(2) gen same bare_fields by metis+
  let ?q = "q1\<lparr>rq_reply := Some (put_u16 (rq_client_id q1) buf)\<rparr>"
  let ?s2 = "s1\<lparr>dns_heap := (dns_heap s1)(r \<mapsto> ?q)\<rparr>"
  let ?y = "y\<lparr>dy_dns := ?s2, dy_posted := dy_posted y @ [r]\<rparr>"
  have "dns_run (Answer buf True) y = Some ?y"
    using buf(1) s1(1) q1(1) by (simp add: pxdns_pmgr_pump_def with_req_def)
  moreover have "dns_run (Send nsent) ?y = None"
  proof -
    have none: "first_taker (dns_sock6 ?s2) (dns_resolvers ?s2) (rq_size ?q) nsent 0 = None"
      using refused same f1(3) by (simp add: first_taker_def find_None_iff)
    have "pxdns_query_try nsent r ?s2 = Some (sent_to r ?q None ?s2)"
      using try_sends [of ?s2 r ?q nsent] f1(1,2) nres same none by simp
    then show ?thesis
      using q(1) out(1) by (simp add: sent_to_def pxdns_query_end_def pxdns_request_deregister_def pxdns_hash_del_def)
  qed
  moreover have "\<exists>y'. dns_run (Answer buf False) y = Some y' \<and> dns_enabled (Send nsent') y' \<and> dns_run (Send nsent') y' = None"
    using buf(1) s1(1) rep_free(1) [OF rep1 new q1(1)] q(1)
    by (simp add: pxdns_pmgr_pump_def pxdns_query_try_def pxdns_forward_outbound_def)
  ultimately show ?thesis using q(1) by auto
qed

section \<open>Witnesses\<close>

text \<open>Two clients ask, the first resolver does not take the queries; one answer comes, the other query is given up.\<close>

definition dns_hosts :: "string \<Rightarrow> resolver option" where
  "dns_hosts name = (if name = ''a'' then Some (Inet 1) else if name = ''b'' then Some (Inet6 2) else None)"

definition dns_busy :: "nat \<Rightarrow> int" where
  "dns_busy i = (if i = 0 then -1 else 4)"

definition dns_world :: dns_sys where "dns_world = dns_boot True dns_hosts [''a'', ''x'', ''b'']"

definition dns_asking :: "dns_action list" where
  "dns_asking = [Query (0, 7, 53) [1, 2, 3, 4] (Some 10), Send dns_busy, Query (1, 8, 99) [1, 2, 5, 6] (Some 11)]"

lemma dns_can_run:
  assumes "can_all spec_can spec_step as (spec_boot sock6 getaddrinfo names)"
  obtains y where "run_all dns_enabled dns_run as (dns_boot sock6 getaddrinfo names) = Some y"
    "dns_abs y (fold spec_step as (spec_boot sock6 getaddrinfo names))"
  using dns.runs_exist [OF boot_sim assms] by (auto simp: dns_sim_def)

lemma entry_pending:
  assumes "dns_abs y sp" "(r, e) \<in> set (sp_table sp)"
  obtains q where "dns_heap (dy_dns y) r = Some q" "entry_of q = e" "rq_pprev_hash q \<noteq> None"
proof -
  note tab = dns_absD(4) [OF assms(1)]
  obtain q where q: "dns_heap (dy_dns y) r = Some q" "entry_of q = e" by (rule tab_entry [OF tab assms(2)])
  have "keyed (hash_key (dy_dns y)) (map fst (sp_table sp)) (hash_chains (dy_dns y))"
    using tab by (simp add: dns_tab_def dns_rep_def)
  moreover have "r \<in> set (map fst (sp_table sp))" using assms(2) by force
  ultimately obtain l where "ch_pprev (hash_chains (dy_dns y)) r = Some l" by (rule keyed_member)
  then show thesis using that [OF q] q(1) by (simp add: hash_chains_def)
qed

lemmas dns_eval = spec_boot_def dns_hosts_def dns_busy_def delivered_def new_entry_def put_u16_def get_u16_def
  taker_def first_taker_def sends_def tick_def retry_def retry_log_def TIMEOUT_def map_filter_simps upt_conv_Cons Let_def
  dns_world_def dns_asking_def lo8_def hi8_def mk16_def


definition dns_answer :: "u8 list" where
  "dns_answer = [0, 0, 128, 0, 0, 1, 0, 1, 0, 0, 0, 0, 9]"


definition dns_wait :: "dns_action list" where
  "dns_wait = (let t = Tick (\<lambda>_ _. 4) in [Send (\<lambda>_. 4), t, t, t, t, t, t, t, t, t, t])"

theorem dns_gives_up_witness:
  "\<exists>y. run_all dns_enabled dns_run (Query (0, 7, 53) [1, 2, 3, 4] (Some 10) # dns_wait) dns_world = Some y \<and>
     dns_heap (dy_dns y) 10 = None"
proof -
  let ?boot = "spec_boot True dns_hosts [''a'', ''x'', ''b'']"
  let ?as = "Query (0, 7, 53) [1, 2, 3, 4] (Some 10) # dns_wait"
  have "can_all spec_can spec_step ?as ?boot" by (simp add: dns_wait_def dns_eval)
  then obtain y where y: "run_all dns_enabled dns_run ([] @ ?as) (dns_boot True dns_hosts [''a'', ''x'', ''b'']) = Some y"
    and abs: "dns_abs y (fold spec_step ?as ?boot)" unfolding append_Nil by (rule dns_can_run)
  have none: "run_all dns_enabled dns_run [] (dns_boot True dns_hosts [''a'', ''x'', ''b''])
      = Some (dns_boot True dns_hosts [''a'', ''x'', ''b''])" by simp
  have "dns_resolvers (dy_dns (dns_boot True dns_hosts [''a'', ''x'', ''b''])) = [Inet 1, Inet6 2]"
    using dns_absD(1) [OF boot_abs, of True dns_hosts "[''a'', ''x'', ''b'']"]
    by (simp add: dns_agree_def) (simp add: dns_eval)
  then have ticks: "TIMEOUT * length (dns_resolvers (dy_dns (dns_boot True dns_hosts [''a'', ''x'', ''b''])))
      \<le> length (filter is_tick dns_wait)" by (simp add: dns_wait_def is_tick_def TIMEOUT_def Let_def)
  have once: "\<forall>a\<in>set dns_wait. \<not> reuses 10 a" by (simp add: dns_wait_def reuses_def Let_def)
  have "dy_posted y = []" using dns_absD(5) [OF abs] by (simp add: dns_wait_def dns_eval)
  then have "dns_heap (dy_dns y) 10 = None" using dns_gives_up [OF y none once ticks] by simp
  then show ?thesis using y by (auto simp: dns_world_def)
qed

theorem dns_answer_before_send_witness:
  "\<exists>y y'. run_all dns_enabled dns_run [Query (0, 7, 53) [1, 2, 3, 4] (Some 10)] dns_world = Some y \<and>
     dns_run (Answer dns_answer True) y = Some y' \<and> dns_run (Send (\<lambda>_. -1)) y' = None"
proof -
  let ?boot = "spec_boot True dns_hosts [''a'', ''x'', ''b'']"
  let ?as = "[Query (0, 7, 53) [1, 2, 3, 4] (Some 10)]"
  have "can_all spec_can spec_step ?as ?boot" by (simp add: dns_eval)
  then obtain y where y: "run_all dns_enabled dns_run ?as (dns_boot True dns_hosts [''a'', ''x'', ''b'']) = Some y"
    and abs: "dns_abs y (fold spec_step ?as ?boot)" by (rule dns_can_run)
  have "\<exists>e. (10, e) \<in> set (sp_table (fold spec_step ?as ?boot)) \<and> en_id e = 0" by (simp add: dns_eval)
  then obtain e where e: "(10, e) \<in> set (sp_table (fold spec_step ?as ?boot))" "en_id e = 0" by blast
  obtain q where q: "dns_heap (dy_dns y) 10 = Some q" "entry_of q = e" by (rule entry_pending [OF abs e(1)])
  have cur: "dy_cur y = Some 10" using dns_absD(10) [OF abs] by (simp add: dns_eval)
  have answer: "12 \<le> length dns_answer" "get_u16 dns_answer = rq_id q"
    using e(2) entry_fields(1) [OF q(2)] by (simp_all add: dns_answer_def get_u16_def mk16_def)
  have refused: "\<forall>j<length (dns_resolvers (dy_dns y)).
      \<not> delivered (dns_sock6 (dy_dns y)) (dns_resolvers (dy_dns y) ! j) (rq_size q) (-1)"
    by (auto simp: delivered_def split: resolver.splits)
  have y': "run_all dns_enabled dns_run ([] @ ?as) (dns_boot True dns_hosts [''a'', ''x'', ''b'']) = Some y" using y by simp
  obtain z where "dns_run (Answer dns_answer True) y = Some z" "dns_run (Send (\<lambda>_. -1)) z = None"
    using dns_answer_before_send [OF y' cur q(1) answer refused] by blast
  then show ?thesis using y unfolding dns_world_def by blast
qed

end
