(* ===== verification/Spec2Isabelle.thy ===== *)
theory Spec2Isabelle
  imports KeyboardServices RtcServices MemoryMap BlockMove AtaTaskFile DiskGeometry NotifyEvents SpinMutex QuadDivCorrect PollMgrServes Refptr PxtcpLife PxdnsLife
begin

text \<open>
  VirtualBox: models of its C code and the theorems that make it correct.

  VirtualBox is mostly C++; this development models C code that carries logic of its own: the PC
  BIOS a guest boots from, parts of the ring-0 runtime (IPRT) the host drivers run on, and the core of
  the NAT network service. Paths
  below are relative to \<open>src/src/VBox/\<close>.

  \<^bold>\<open>The PC BIOS\<close> (\<open>Devices/PC/BIOS/\<close>). The BIOS is 16-bit real-mode code. Its world is the record
  \<open>machine\<close> of theory \<open>Machine\<close>: the byte-addressed memory \<open>ram\<close> (segment and offset are turned
  into a linear address the way the processor does), and the devices behind the I/O ports, of which
  the BIOS only sees what \<open>inb\<close>, \<open>inw\<close>, \<open>ind\<close> return and what \<open>outb\<close>, \<open>outw\<close>, \<open>outd\<close> are given.
  The hardware is not part of the repository's C code, so it is a parameter: \<open>hw\<close> gives the answer of a port read and the new
  device state, \<open>dev\<close> is that state, of any type. An I/O port read can have a side effect and two reads can
  differ. What a theorem needs of a device (a drive that honours the ATA protocol, a keyboard
  controller that answers) is a named hypothesis, and each such hypothesis is shown to hold of a
  concrete device in the witness.

    \<^item> \<open>Machine\<close>: ports, memory, CMOS, the console the debug messages go to, and bounded and unbounded
      polling loops (\<open>inlines.h\<close>, \<open>biosint.h\<close>, \<open>bios.c\<close>).
    \<^item> \<open>System\<close>, \<open>SystemServices\<close>, \<open>MemoryMap\<close>, \<open>BlockMove\<close>: \<open>system.c\<close>, that is INT 15h: the A20 gate, the waits, the
      memory map an operating system boots with, and the move of extended memory, for which
      \<open>BlockMove\<close> models the segment descriptors and \<open>rep movsw\<close> of the inline assembly.
    \<^item> \<open>Rtc\<close>, \<open>RtcServices\<close>: \<open>timepci.c\<close>, the clock interrupt INT 70h and the clock services INT 1Ah. A clock is described by
      \<open>rtc_device\<close>: which registers it answers with and keeps.
    \<^item> \<open>Keyboard\<close>, \<open>KeyboardServices\<close>: all of \<open>keyboard.c\<close>. The typeahead ring lives in the BIOS data
      area (words 1Ah, 1Ch, 80h, 82h of segment 40h); \<open>kbd_queue\<close> reads it as a list and the ring is shown to
      refine the bounded queue whose contract is the locale of \<open>Fifo\<close>. INT 09h is one definition
      per case of its switch on the scan code, composed in \<open>int09_function\<close>.
    \<^item> \<open>BiosPrint\<close>: all of \<open>print.c\<close>. The formatter is a loop over the format string with the state of
      its locals; its specification is a small datatype of directives and their rendering.
    \<^item> \<open>DiskData\<close>: the disk part of the extended BIOS data area (\<open>ebda.h\<close>).
    \<^item> \<open>Ata\<close>: \<open>ata.c\<close>. \<open>AtaTransfer\<close>, \<open>AtaWrite\<close> and \<open>AtaTaskFile\<close> prove what its transfers do: which
      words end up where, that every request ends, and that the register writes address the sector
      meant.
    \<^item> \<open>Disk\<close>: \<open>disk.c\<close>, INT 13h for hard disks. It calls the transfer routines through the table
      \<open>dskacc\<close>, here a parameter that \<open>ata_dskacc\<close> instantiates. \<open>DiskServices\<close> and \<open>DiskGeometry\<close> have the properties: the
      reporting convention, the refusals, the data delivered, addresses and geometry.

  \<^bold>\<open>IPRT\<close> (\<open>Runtime/\<close>).

    \<^item> \<open>Iprt\<close>: status codes and singly linked lists in an explicit heap.
    \<^item> \<open>Registry\<close>: the contract of a callback registry, a locale; \<open>Notification\<close>: registration, deregistration and
      event delivery of \<open>r0drv/mpnotification-r0drv.c\<close> and \<open>r0drv/powernotification-r0drv.c\<close>. The two
      files are the same program but for the type of the event; the model has the operations once and
      their entry points twice. Callbacks run without the lock and may register and
      deregister: \<open>NotifyEvents\<close> gives what they may do as an environment and proves what the walk
      over the changing list still guarantees.
    \<^item> \<open>SpinMutex\<close>: \<open>r0drv/generic/semspinmutex-r0drv-generic.c\<close> as a step relation, one step per shared
      access, any number of threads, any interleaving.
    \<^item> \<open>Quad\<close>, \<open>QuadDiv\<close>, \<open>QuadDivCorrect\<close>: the 64-bit arithmetic of \<open>common/math/gcc/\<close>, down to Algorithm D on
      16-bit digits, against the operations of 64-bit words.

  \<^bold>\<open>The NAT network service\<close> (\<open>NetworkServices/NAT/\<close>). A poll manager thread watches the host's sockets, the
  lwIP thread runs the TCP/IP stack the guest talks to, and each proxied connection is shared by both.

    \<^item> \<open>Steps\<close>: threads that share state as guarded steps, and the contract of an invariant that every
      step keeps without failing, a locale; \<open>Refptr\<close> and \<open>PxtcpSteps\<close> interpret it.
    \<^item> \<open>PollMgr\<close>: \<open>proxy_pollmgr.c\<close>, the arrays of sockets and handlers, their growth, one iteration of
      \<open>pollmgr_loop\<close> with the list of slots to free that it threads through the array itself, and the
      compaction. Handlers' callbacks are a parameter that may register, update and delete slots.
      \<open>PollMgrRounds\<close> states what they must keep to and proves that a round then ends well;
      \<open>PollMgrServes\<close> says exactly what a round delivers, and what goes wrong beyond that contract.
    \<^item> \<open>Refptr\<close>: \<open>pollmgr_refptr_*\<close>, the reference by which the two threads share a connection.
    \<^item> \<open>Pxtcp\<close>: \<open>pxtcp.c\<close>, an established TCP connection on a Linux host. \<open>PxtcpStream\<close> relates the three
      regions of its ring buffer to the stream of bytes; \<open>PxtcpSteps\<close> runs its two threads in any
      interleaving, with a read of the socket in two halves; \<open>PxtcpLife\<close> has progress, the end of the
      inbound direction and the outbound direction. The ring has 64 KiB in the code; the theorems
      hold for any size from 2 bytes to that.

  \<^bold>\<open>Conventions.\<close> Machine integers are words of their C width, so arithmetic wraps where the code's
  does. A routine that writes memory or ports takes and returns the machine; \<open>None\<close> is a routine
  that does not return (a poll that never ends, the final halt after a panic). A bounded poll has the code's own
  bound. \<open>shift_count\<close> has fuel 16, enough because a nonzero 16-bit digit reaches its top bit
  within 15 shifts; no other definition has fuel that the code has not. Registers of an interrupt frame are the record
  \<open>regs\<close>, and the 8-bit halves are read and written with \<open>lo8\<close>, \<open>hi8\<close>, \<open>set_al\<close>, \<open>set_ah\<close> and so on.

  \<^bold>\<open>Not modelled.\<close> Assembly entry points; the parts of the BIOS named in the
  manifest as not modelled; the handshakes that make a proxied connection and the other proxies of
  the NAT service, which are mostly calls to lwIP and to the host; C++ code; third-party code (EFI firmware, iPXE, lwIP, the BSD part of
  slirp); code whose content is the calls to a host kernel it makes (memory objects, VFS glue).
\<close>

end
